(* ===== verification/Prelude.thy ===== *)
theory Prelude
  imports Main "HOL-Library.Word"
begin

unbundle bit_operations_syntax

text \<open>
  Shared vocabulary of the development: the machine integers of the sources, the byte
  swapping macros of \<^verbatim>\<open>usr/src/uts/common/sys/byteorder.h\<close>, the error numbers the modelled
  functions return, and the generic lemmas on words and lists that the component theories
  rely on.  Lemmas that turn a bit operation into arithmetic on \<^typ>\<open>nat\<close> are collected in
  \<open>unat_bits\<close>.
\<close>

named_theorems unat_bits \<open>bit operations read as arithmetic on nat\<close>

type_synonym u8 = "8 word"
type_synonym u16 = "16 word"
type_synonym u32 = "32 word"
type_synonym u64 = "64 word"

text \<open>Error numbers of \<^verbatim>\<open>sys/errno.h\<close> that the modelled code returns.\<close>

datatype errno = E2BIG | EBADF | EINVAL | EILSEQ | EIO | ENXIO | ESTALE | ECKSUM | ERANGE | ENOSPC

section \<open>Byte order\<close>

definition BSWAP_16 :: "u16 \<Rightarrow> u16" where
  "BSWAP_16 x = push_bit 8 (x AND 0xff) OR (drop_bit 8 x AND 0xff)"

definition BSWAP_32 :: "u32 \<Rightarrow> u32" where
  "BSWAP_32 x =
     push_bit 16 (ucast (BSWAP_16 (ucast x))) OR ucast (BSWAP_16 (ucast (drop_bit 16 x)))"

definition BSWAP_64 :: "u64 \<Rightarrow> u64" where
  "BSWAP_64 x =
     push_bit 32 (ucast (BSWAP_32 (ucast x))) OR ucast (BSWAP_32 (ucast (drop_bit 32 x)))"

section \<open>Bit operations as arithmetic\<close>

lemma mask_byte: "(0xff :: 'a::len word) = mask 8"
  by (simp add: mask_eq_exp_minus_1)

lemma and_shifted_mask:
  "drop_bit n (x AND push_bit n (mask m)) = take_bit m (drop_bit n (x :: 'a::len word))"
  by (rule bit_word_eqI) (auto simp: bit_simps dest: bit_imp_le_length)

lemma unat_take_bit_mod [unat_bits]: "unat (take_bit n w) = unat w mod 2 ^ n"
  by (simp only: unsigned_take_bit_eq take_bit_eq_mod [of n "unat w"])

lemma unat_drop_bit_div [unat_bits]: "unat (drop_bit n w) = unat w div 2 ^ n"
  by (simp only: unat_drop_bit_eq drop_bit_eq_div [of n "unat w"])

lemma unat_and_mask: "unat (w AND mask n) = unat w mod 2 ^ n"
  by (simp add: unat_take_bit_mod flip: take_bit_eq_mask)

lemma nat_or_eq_add:
  fixes x y :: nat
  assumes "x < 2 ^ k" and "2 ^ k dvd y"
  shows "y OR x = y + x"
proof -
  have "y AND x = 0"
  proof (rule bit_eqI)
    fix n
    from assms(2) obtain z where y: "y = push_bit k z"
      by (auto simp: push_bit_eq_mult mult.commute)
    have "x = take_bit k x"
      using assms(1) by (simp add: take_bit_nat_eq_self)
    then have "bit x n \<Longrightarrow> n < k"
      by (metis bit_take_bit_iff)
    then show "bit (y AND x) n = bit 0 n"
      by (auto simp: bit_and_iff y bit_push_bit_iff)
  qed
  then show ?thesis
    by (simp add: disjunctive_add_eq_or)
qed

lemma unat_or_eq_add:
  fixes x y :: "'a::len word"
  assumes "unat x < 2 ^ k" and "2 ^ k dvd unat y"
  shows "unat (y OR x) = unat y + unat x"
  by (simp only: unsigned_or_eq nat_or_eq_add [OF assms])

lemma unat_push_bit_mult:
  fixes w :: "'a::len word"
  assumes "unat w * 2 ^ n < 2 ^ LENGTH('a)"
  shows "unat (push_bit n w) = unat w * 2 ^ n"
  using assms
  by (simp only: unsigned_push_bit_eq push_bit_eq_mult [of n "unat w"] take_bit_nat_eq_self)

lemma unat_ucast_mod: "unat (ucast (w :: 'a::len word) :: 'b::len word) = unat w mod 2 ^ LENGTH('b)"
  by (simp only: unsigned_ucast_eq take_bit_eq_mod)

lemma unat_ucast_up [unat_bits]:
  "LENGTH('a) \<le> LENGTH('b) \<Longrightarrow> unat (ucast (w :: 'a::len word) :: 'b::len word) = unat w"
  by (simp add: unsigned_ucast_eq take_bit_nat_eq_self order_less_le_trans [OF unsigned_less])

lemma ucast_eq_of_nat: "unat x = n \<Longrightarrow> ucast (x :: 'a::len word) = (of_nat n :: 'b::len word)"
  by auto

lemma ucast_back [simp]: "ucast (ucast (b :: u8) :: u32) = b" "ucast (ucast (w :: u16) :: u32) = w"
  by (rule bit_word_eqI, auto simp: bit_simps)+

lemma u8_bound: "unat (b :: u8) < 0x100"
  by (rule order_less_le_trans [OF unsigned_less]) simp

lemma word_eq_unat: "unat (w :: 'a::len word) = n \<Longrightarrow> w = of_nat n"
  by auto

section \<open>Byte swapping is an involution\<close>

lemma BSWAP_16_involution [simp]: "BSWAP_16 (BSWAP_16 x) = x"
  unfolding BSWAP_16_def mask_byte
  by (rule bit_word_eqI) (auto simp: bit_simps dest: bit_imp_le_length)

lemma BSWAP_32_involution [simp]: "BSWAP_32 (BSWAP_32 x) = x"
proof -
  have lo: "ucast (BSWAP_32 x) = BSWAP_16 (ucast (drop_bit 16 x))"
    unfolding BSWAP_32_def by (rule bit_word_eqI) (auto simp: bit_simps)
  have hi: "ucast (drop_bit 16 (BSWAP_32 x)) = BSWAP_16 (ucast x)"
    unfolding BSWAP_32_def by (rule bit_word_eqI) (auto simp: bit_simps dest: bit_imp_le_length)
  show ?thesis
    unfolding BSWAP_32_def [of "BSWAP_32 x"] lo hi BSWAP_16_involution
    by (rule bit_word_eqI) (auto simp: bit_simps dest: bit_imp_le_length)
qed

lemma BSWAP_64_involution [simp]: "BSWAP_64 (BSWAP_64 x) = x"
proof -
  have lo: "ucast (BSWAP_64 x) = BSWAP_32 (ucast (drop_bit 32 x))"
    unfolding BSWAP_64_def by (rule bit_word_eqI) (auto simp: bit_simps)
  have hi: "ucast (drop_bit 32 (BSWAP_64 x)) = BSWAP_32 (ucast x)"
    unfolding BSWAP_64_def by (rule bit_word_eqI) (auto simp: bit_simps dest: bit_imp_le_length)
  show ?thesis
    unfolding BSWAP_64_def [of "BSWAP_64 x"] lo hi BSWAP_32_involution
    by (rule bit_word_eqI) (auto simp: bit_simps dest: bit_imp_le_length)
qed

lemma BSWAP_16_0 [simp]: "BSWAP_16 0 = 0"
  by (simp add: BSWAP_16_def)

lemma BSWAP_32_0 [simp]: "BSWAP_32 0 = 0"
  by (simp add: BSWAP_32_def)

lemma BSWAP_16_eq_0 [simp]: "BSWAP_16 w = 0 \<longleftrightarrow> w = 0"
  by (metis BSWAP_16_involution BSWAP_16_0)

lemma BSWAP_32_eq_0 [simp]: "BSWAP_32 w = 0 \<longleftrightarrow> w = 0"
  by (metis BSWAP_32_involution BSWAP_32_0)

lemma mod_range:
  fixes n :: nat
  assumes "k * d \<le> n" "n < k * d + d"
  shows "n mod d = n - k * d"
proof -
  obtain r where "n = k * d + r" using assms(1) le_Suc_ex by blast
  with assms(2) show ?thesis by simp
qed

end
