(* ===== verification/Uconv.thy ===== *)
theory Uconv
  imports Prelude
begin

text \<open>
  Model of \<^verbatim>\<open>usr/src/uts/common/os/uconv.c\<close>: the kernel's conversions among UTF-8, UTF-16 and
  UTF-32, for the big endian PowerPC build (\<^verbatim>\<open>_BIG_ENDIAN\<close> defined).

  An input buffer and its length pointer are one value of type \<^typ>\<open>'a list option\<close>: the
  \<^verbatim>\<open>*len\<close> elements the function may read, or \<^const>\<open>None\<close> when either pointer is \<^verbatim>\<open>NULL\<close>.
  An output buffer and its length pointer are its capacity, a \<^typ>\<open>nat option\<close>.  The code
  stores at \<^verbatim>\<open>out[outl++]\<close> only, so what a run has stored is a list, whose length is the
  code's output index.  A run ends with \<open>UErr e stored\<close> (errno returned, the length
  parameters untouched) or \<open>UOk n stored\<close> (0 returned, \<open>n\<close> and \<open>length stored\<close>
  written to the length parameters).
\<close>

section \<open>Constants and tables\<close>

definition UCONV_IN_BIG_ENDIAN :: u32 where "UCONV_IN_BIG_ENDIAN = 0x0001"
definition UCONV_OUT_BIG_ENDIAN :: u32 where "UCONV_OUT_BIG_ENDIAN = 0x0002"
definition UCONV_IN_LITTLE_ENDIAN :: u32 where "UCONV_IN_LITTLE_ENDIAN = 0x0010"
definition UCONV_OUT_LITTLE_ENDIAN :: u32 where "UCONV_OUT_LITTLE_ENDIAN = 0x0020"
definition UCONV_IGNORE_NULL :: u32 where "UCONV_IGNORE_NULL = 0x0040"
definition UCONV_IN_ACCEPT_BOM :: u32 where "UCONV_IN_ACCEPT_BOM = 0x0080"
definition UCONV_OUT_EMIT_BOM :: u32 where "UCONV_OUT_EMIT_BOM = 0x0100"

definition UCONV_IN_ENDIAN_MASKS :: u32 where
  "UCONV_IN_ENDIAN_MASKS = UCONV_IN_BIG_ENDIAN OR UCONV_IN_LITTLE_ENDIAN"
definition UCONV_OUT_ENDIAN_MASKS :: u32 where
  "UCONV_OUT_ENDIAN_MASKS = UCONV_OUT_BIG_ENDIAN OR UCONV_OUT_LITTLE_ENDIAN"

definition UCONV_IN_NAT_ENDIAN :: u32 where "UCONV_IN_NAT_ENDIAN = UCONV_IN_BIG_ENDIAN"
definition UCONV_IN_REV_ENDIAN :: u32 where "UCONV_IN_REV_ENDIAN = UCONV_IN_LITTLE_ENDIAN"
definition UCONV_OUT_NAT_ENDIAN :: u32 where "UCONV_OUT_NAT_ENDIAN = UCONV_OUT_BIG_ENDIAN"

definition UCONV_U16_HI_MIN :: u32 where "UCONV_U16_HI_MIN = 0xd800"
definition UCONV_U16_HI_MAX :: u32 where "UCONV_U16_HI_MAX = 0xdbff"
definition UCONV_U16_LO_MIN :: u32 where "UCONV_U16_LO_MIN = 0xdc00"
definition UCONV_U16_LO_MAX :: u32 where "UCONV_U16_LO_MAX = 0xdfff"
definition UCONV_U16_BIT_SHIFT :: u32 where "UCONV_U16_BIT_SHIFT = 0x0400"
definition UCONV_U16_BIT_MASK :: u32 where "UCONV_U16_BIT_MASK = 0x0fffff"
definition UCONV_U16_START :: u32 where "UCONV_U16_START = 0x010000"
definition UCONV_UNICODE_MAX :: u32 where "UCONV_UNICODE_MAX = 0x10ffff"
definition UCONV_ASCII_MAX :: u32 where "UCONV_ASCII_MAX = 0x7f"
definition UCONV_BOM_NORMAL :: u32 where "UCONV_BOM_NORMAL = 0xfeff"
definition UCONV_BOM_SWAPPED :: u32 where "UCONV_BOM_SWAPPED = 0xfffe"
definition UCONV_BOM_SWAPPED_32 :: u32 where "UCONV_BOM_SWAPPED_32 = 0xfffe0000"
definition UCONV_U8_ONE_BYTE :: u32 where "UCONV_U8_ONE_BYTE = 0x7f"
definition UCONV_U8_TWO_BYTES :: u32 where "UCONV_U8_TWO_BYTES = 0x7ff"
definition UCONV_U8_THREE_BYTES :: u32 where "UCONV_U8_THREE_BYTES = 0xffff"
definition UCONV_U8_FOUR_BYTES :: u32 where "UCONV_U8_FOUR_BYTES = 0x10ffff"
definition UCONV_U8_BYTE_MIN :: u32 where "UCONV_U8_BYTE_MIN = 0x80"
definition UCONV_U8_BYTE_MAX :: u32 where "UCONV_U8_BYTE_MAX = 0xbf"
definition UCONV_U8_BIT_SHIFT :: nat where "UCONV_U8_BIT_SHIFT = 6"
definition UCONV_U8_BIT_MASK :: u32 where "UCONV_U8_BIT_MASK = 0x3f"

lemmas uconv_consts =
  UCONV_U16_HI_MIN_def UCONV_U16_HI_MAX_def UCONV_U16_LO_MIN_def UCONV_U16_LO_MAX_def
  UCONV_U16_BIT_SHIFT_def UCONV_U16_BIT_MASK_def UCONV_U16_START_def UCONV_UNICODE_MAX_def
  UCONV_ASCII_MAX_def UCONV_U8_ONE_BYTE_def UCONV_U8_TWO_BYTES_def UCONV_U8_THREE_BYTES_def
  UCONV_U8_FOUR_BYTES_def UCONV_U8_BYTE_MIN_def UCONV_U8_BYTE_MAX_def UCONV_U8_BIT_SHIFT_def
  UCONV_U8_BIT_MASK_def

lemmas uconv_flags =
  UCONV_IN_BIG_ENDIAN_def UCONV_OUT_BIG_ENDIAN_def UCONV_IN_LITTLE_ENDIAN_def
  UCONV_OUT_LITTLE_ENDIAN_def UCONV_IGNORE_NULL_def UCONV_IN_ACCEPT_BOM_def
  UCONV_OUT_EMIT_BOM_def UCONV_IN_ENDIAN_MASKS_def UCONV_OUT_ENDIAN_MASKS_def
  UCONV_IN_NAT_ENDIAN_def UCONV_IN_REV_ENDIAN_def UCONV_OUT_NAT_ENDIAN_def

text \<open>
  The three 256-entry tables indexed by the first byte of a UTF-8 character, written as
  runs of equal entries in index order, and the table of first-byte masks.
\<close>

definition remaining_bytes_tbl :: "nat list" where
  "remaining_bytes_tbl =
     replicate 0xC2 0 @ replicate 30 1 @ replicate 16 2 @ replicate 5 3 @ replicate 11 0"

definition masks_tbl :: "u32 list" where
  "masks_tbl = [0x00, 0x1f, 0x0f, 0x07, 0x03, 0x01]"

definition valid_min_2nd_byte :: "u32 list" where
  "valid_min_2nd_byte =
     replicate 0xC2 0 @ replicate 30 0x80 @ [0xa0] @ replicate 15 0x80 @
     [0x90] @ replicate 4 0x80 @ replicate 11 0"

definition valid_max_2nd_byte :: "u32 list" where
  "valid_max_2nd_byte =
     replicate 0xC2 0 @ replicate 30 0xbf @ replicate 13 0xbf @ [0x9f] @ replicate 2 0xbf @
     replicate 4 0xbf @ [0x8f] @ replicate 11 0"

section \<open>Parameter checks\<close>

datatype 'b uconv_result = UErr errno "'b list" | UOk nat "'b list"

fun uconv_stored :: "'b uconv_result \<Rightarrow> 'b list" where
  "uconv_stored (UErr e out) = out"
| "uconv_stored (UOk n out) = out"

definition check_endian :: "u32 \<Rightarrow> errno + u32 \<times> u32" where
  "check_endian flag =
     (let inE = flag AND UCONV_IN_ENDIAN_MASKS in
      if inE = UCONV_IN_ENDIAN_MASKS then Inl EBADF
      else
        let inE = (if inE = 0 then UCONV_IN_NAT_ENDIAN else inE);
            outE = flag AND UCONV_OUT_ENDIAN_MASKS
        in if outE = UCONV_OUT_ENDIAN_MASKS then Inl EBADF
           else Inr (inE, if outE = 0 then UCONV_OUT_NAT_ENDIAN else outE))"

text \<open>The BOM checks return the new input endianness where the code returns \<^verbatim>\<open>B_TRUE\<close>.\<close>

definition check_bom16 :: "u16 list \<Rightarrow> u32 option" where
  "check_bom16 u16s =
     (case u16s of
        [] \<Rightarrow> None
      | w # _ \<Rightarrow>
          if ucast w = UCONV_BOM_NORMAL then Some UCONV_IN_NAT_ENDIAN
          else if ucast w = UCONV_BOM_SWAPPED then Some UCONV_IN_REV_ENDIAN
          else None)"

definition check_bom32 :: "u32 list \<Rightarrow> u32 option" where
  "check_bom32 u32s =
     (case u32s of
        [] \<Rightarrow> None
      | w # _ \<Rightarrow>
          if w = UCONV_BOM_NORMAL then Some UCONV_IN_NAT_ENDIAN
          else if w = UCONV_BOM_SWAPPED_32 then Some UCONV_IN_REV_ENDIAN
          else None)"

definition do_not_ignore_null :: "u32 \<Rightarrow> bool" where
  "do_not_ignore_null flag \<longleftrightarrow> flag AND UCONV_IGNORE_NULL = 0"

section \<open>Storing one character\<close>

text \<open>
  What the three output forms do with a character: the capacity check and the stores of
  the UTF-32, UTF-16 and UTF-8 targets.  The sources repeat these blocks in each of the
  functions with that target.
\<close>

definition put_u32 :: "bool \<Rightarrow> nat \<Rightarrow> u32 \<Rightarrow> u32 list \<Rightarrow> errno + u32 list" where
  "put_u32 outendian utf32len lo out =
     (if length out \<ge> utf32len then Inl E2BIG
      else Inr (out @ [if outendian then lo else BSWAP_32 lo]))"

definition put_u16 :: "bool \<Rightarrow> nat \<Rightarrow> u32 \<Rightarrow> u16 list \<Rightarrow> errno + u16 list" where
  "put_u16 outendian utf16len hi out =
     (if hi \<ge> UCONV_U16_START then
        let lo = ((hi - UCONV_U16_START) mod UCONV_U16_BIT_SHIFT) + UCONV_U16_LO_MIN;
            hi = ((hi - UCONV_U16_START) div UCONV_U16_BIT_SHIFT) + UCONV_U16_HI_MIN
        in if length out + 1 \<ge> utf16len then Inl E2BIG
           else if outendian then Inr (out @ [ucast hi, ucast lo])
           else Inr (out @ [BSWAP_16 (ucast hi), BSWAP_16 (ucast lo)])
      else if length out \<ge> utf16len then Inl E2BIG
      else Inr (out @ [if outendian then ucast hi else BSWAP_16 (ucast hi)]))"

definition put_u16_checked :: "bool \<Rightarrow> nat \<Rightarrow> u32 \<Rightarrow> u16 list \<Rightarrow> errno + u16 list" where
  "put_u16_checked outendian utf16len hi out =
     (if hi > UCONV_UNICODE_MAX then Inl EILSEQ else put_u16 outendian utf16len hi out)"

definition put_u8 :: "nat \<Rightarrow> u32 \<Rightarrow> u8 list \<Rightarrow> errno + u8 list" where
  "put_u8 utf8len lo out =
     (if lo \<le> UCONV_U8_ONE_BYTE then
        (if length out \<ge> utf8len then Inl E2BIG else Inr (out @ [ucast lo]))
      else if lo \<le> UCONV_U8_TWO_BYTES then
        (if length out + 1 \<ge> utf8len then Inl E2BIG
         else Inr (out @ [ucast (0xc0 OR drop_bit 6 (lo AND 0x07c0)),
                          ucast (0x80 OR (lo AND 0x003f))]))
      else if lo \<le> UCONV_U8_THREE_BYTES then
        (if length out + 2 \<ge> utf8len then Inl E2BIG
         else Inr (out @ [ucast (0xe0 OR drop_bit 12 (lo AND 0x0f000)),
                          ucast (0x80 OR drop_bit 6 (lo AND 0x00fc0)),
                          ucast (0x80 OR (lo AND 0x0003f))]))
      else if lo \<le> UCONV_U8_FOUR_BYTES then
        (if length out + 3 \<ge> utf8len then Inl E2BIG
         else Inr (out @ [ucast (0xf0 OR drop_bit 18 (lo AND 0x01c0000)),
                          ucast (0x80 OR drop_bit 12 (lo AND 0x003f000)),
                          ucast (0x80 OR drop_bit 6 (lo AND 0x0000fc0)),
                          ucast (0x80 OR (lo AND 0x000003f))]))
      else Inl EILSEQ)"

section \<open>Reading the input forms\<close>

text \<open>
  One UTF-16 unit against the pending high surrogate \<open>hi\<close> (0 when there is none): the new
  \<open>hi\<close> and the completed character, or \<^const>\<open>None\<close> where the code says \<^verbatim>\<open>continue\<close>.
\<close>

definition u16_unit :: "u32 \<Rightarrow> u32 \<Rightarrow> errno + u32 \<times> u32 option" where
  "u16_unit hi lo =
     (if lo \<ge> UCONV_U16_HI_MIN \<and> lo \<le> UCONV_U16_HI_MAX then
        (if hi \<noteq> 0 then Inl EILSEQ else Inr (lo, None))
      else if lo \<ge> UCONV_U16_LO_MIN \<and> lo \<le> UCONV_U16_LO_MAX then
        (if hi = 0 then Inl EILSEQ
         else Inr (0, Some ((((hi - UCONV_U16_HI_MIN) * UCONV_U16_BIT_SHIFT
                               + lo - UCONV_U16_LO_MIN) AND UCONV_U16_BIT_MASK)
                            + UCONV_U16_START)))
      else if hi \<noteq> 0 then Inl EILSEQ
      else Inr (hi, Some lo))"

text \<open>
  The conversion loops, for any way \<open>put\<close> of storing a character.  Each takes the input
  index and the units not read yet.
\<close>

fun from_u16 :: "(u32 \<Rightarrow> 'b list \<Rightarrow> errno + 'b list) \<Rightarrow> bool \<Rightarrow> bool \<Rightarrow>
    nat \<Rightarrow> u16 list \<Rightarrow> u32 \<Rightarrow> 'b list \<Rightarrow> 'b uconv_result" where
  "from_u16 put inendian nonull u16l [] hi out =
     (if hi \<noteq> 0 then UErr EINVAL out else UOk u16l out)"
| "from_u16 put inendian nonull u16l (w # ws) hi out =
     (if w = 0 \<and> nonull then (if hi \<noteq> 0 then UErr EINVAL out else UOk u16l out)
      else
        case u16_unit hi (ucast (if inendian then w else BSWAP_16 w)) of
          Inl e \<Rightarrow> UErr e out
        | Inr (hi', None) \<Rightarrow> from_u16 put inendian nonull (Suc u16l) ws hi' out
        | Inr (hi', Some lo) \<Rightarrow>
            (case put lo out of
               Inl e \<Rightarrow> UErr e out
             | Inr out' \<Rightarrow> from_u16 put inendian nonull (Suc u16l) ws hi' out'))"

fun from_u32 :: "(u32 \<Rightarrow> 'b list \<Rightarrow> errno + 'b list) \<Rightarrow> bool \<Rightarrow> bool \<Rightarrow>
    nat \<Rightarrow> u32 list \<Rightarrow> 'b list \<Rightarrow> 'b uconv_result" where
  "from_u32 put inendian nonull u32l [] out = UOk u32l out"
| "from_u32 put inendian nonull u32l (w # ws) out =
     (if w = 0 \<and> nonull then UOk u32l out
      else
        case put (if inendian then w else BSWAP_32 w) out of
          Inl e \<Rightarrow> UErr e out
        | Inr out' \<Rightarrow> from_u32 put inendian nonull (Suc u32l) ws out')"

text \<open>
  The inner loop of the UTF-8 readers: \<open>u8_cont remaining_bytes first_b hi bs\<close> folds the
  continuation bytes into \<open>hi\<close> and returns the bytes left.
\<close>

fun u8_cont :: "nat \<Rightarrow> nat \<Rightarrow> u32 \<Rightarrow> u8 list \<Rightarrow> errno + u32 \<times> u8 list" where
  "u8_cont 0 first_b hi bs = Inr (hi, bs)"
| "u8_cont (Suc r) first_b hi [] = Inl EINVAL"
| "u8_cont (Suc r) first_b hi (b # bs) =
     (let lo = ucast b :: u32;
          hi' = push_bit UCONV_U8_BIT_SHIFT hi OR (lo AND UCONV_U8_BIT_MASK)
      in if first_b \<noteq> 0 then
           (if lo < valid_min_2nd_byte ! first_b \<or> lo > valid_max_2nd_byte ! first_b
            then Inl EILSEQ else u8_cont r 0 hi' bs)
         else if lo < UCONV_U8_BYTE_MIN \<or> lo > UCONV_U8_BYTE_MAX then Inl EILSEQ
         else u8_cont r 0 hi' bs)"

definition u8_get :: "u8 \<Rightarrow> u8 list \<Rightarrow> errno + u32 \<times> u8 list" where
  "u8_get b bs =
     (let hi = ucast b :: u32 in
      if hi > UCONV_ASCII_MAX then
        let remaining_bytes = remaining_bytes_tbl ! unat hi in
        if remaining_bytes = 0 then Inl EILSEQ
        else u8_cont remaining_bytes (unat hi) (hi AND masks_tbl ! remaining_bytes) bs
      else Inr (hi, bs))"

lemma u8_cont_length: "u8_cont r f hi bs = Inr (c, bs') \<Longrightarrow> length bs' \<le> length bs"
  by (induction r f hi bs rule: u8_cont.induct)
     (auto simp: Let_def intro: le_SucI split: if_splits)

lemma u8_get_length: "u8_get b bs = Inr (c, bs') \<Longrightarrow> length bs' \<le> length bs"
  by (auto simp: u8_get_def Let_def split: if_splits dest: u8_cont_length)

function from_u8 :: "(u32 \<Rightarrow> 'b list \<Rightarrow> errno + 'b list) \<Rightarrow> bool \<Rightarrow>
    nat \<Rightarrow> u8 list \<Rightarrow> 'b list \<Rightarrow> 'b uconv_result" where
  "from_u8 put nonull u8l [] out = UOk u8l out"
| "from_u8 put nonull u8l (b # bs) out =
     (if b = 0 \<and> nonull then UOk u8l out
      else
        case u8_get b bs of
          Inl e \<Rightarrow> UErr e out
        | Inr (hi, bs') \<Rightarrow>
            (case put hi out of
               Inl e \<Rightarrow> UErr e out
             | Inr out' \<Rightarrow> from_u8 put nonull (u8l + (Suc (length bs) - length bs')) bs' out'))"
  by pat_completeness auto
termination
  by (relation "measure (\<lambda>(put, nonull, u8l, bs, out). length bs)")
     (auto dest: u8_get_length)

section \<open>The six conversions\<close>

definition bom_in :: "u32 \<Rightarrow> u32 option \<Rightarrow> u32 \<Rightarrow> nat \<times> bool" where
  "bom_in flag bom inE =
     (case (if flag AND UCONV_IN_ACCEPT_BOM \<noteq> 0 then bom else None) of
        Some inE' \<Rightarrow> (1, inE' AND UCONV_IN_NAT_ENDIAN \<noteq> 0)
      | None \<Rightarrow> (0, inE AND UCONV_IN_NAT_ENDIAN \<noteq> 0))"

definition bom_out :: "u32 \<Rightarrow> bool \<Rightarrow> nat \<Rightarrow> nat \<Rightarrow> 'b \<Rightarrow> 'b \<Rightarrow> 'b list" where
  "bom_out flag outendian inlen outlen normal swapped =
     (if inlen > 0 \<and> outlen > 0 \<and> flag AND UCONV_OUT_EMIT_BOM \<noteq> 0
      then [if outendian then normal else swapped] else [])"

definition uconv_u16tou32 ::
  "u16 list option \<Rightarrow> nat option \<Rightarrow> u32 \<Rightarrow> u32 uconv_result" where
  "uconv_u16tou32 u16s utf32len flag =
     (case u16s of None \<Rightarrow> UErr EILSEQ [] | Some u16s \<Rightarrow>
      (case utf32len of None \<Rightarrow> UErr E2BIG [] | Some utf32len \<Rightarrow>
      (case check_endian flag of Inl _ \<Rightarrow> UErr EBADF [] | Inr (inE, outE) \<Rightarrow>
        let (u16l, inendian) = bom_in flag (check_bom16 u16s) inE;
            outendian = (outE AND UCONV_OUT_NAT_ENDIAN \<noteq> 0);
            out = bom_out flag outendian (length u16s) utf32len
                    UCONV_BOM_NORMAL UCONV_BOM_SWAPPED_32
        in from_u16 (put_u32 outendian utf32len) inendian (do_not_ignore_null flag)
             u16l (drop u16l u16s) 0 out)))"

definition uconv_u16tou8 ::
  "u16 list option \<Rightarrow> nat option \<Rightarrow> u32 \<Rightarrow> u8 uconv_result" where
  "uconv_u16tou8 u16s utf8len flag =
     (case u16s of None \<Rightarrow> UErr EILSEQ [] | Some u16s \<Rightarrow>
      (case utf8len of None \<Rightarrow> UErr E2BIG [] | Some utf8len \<Rightarrow>
      (case check_endian flag of Inl _ \<Rightarrow> UErr EBADF [] | Inr (inE, outE) \<Rightarrow>
        let (u16l, inendian) = bom_in flag (check_bom16 u16s) inE
        in from_u16 (put_u8 utf8len) inendian (do_not_ignore_null flag)
             u16l (drop u16l u16s) 0 [])))"

definition uconv_u32tou16 ::
  "u32 list option \<Rightarrow> nat option \<Rightarrow> u32 \<Rightarrow> u16 uconv_result" where
  "uconv_u32tou16 u32s utf16len flag =
     (case u32s of None \<Rightarrow> UErr EILSEQ [] | Some u32s \<Rightarrow>
      (case utf16len of None \<Rightarrow> UErr E2BIG [] | Some utf16len \<Rightarrow>
      (case check_endian flag of Inl _ \<Rightarrow> UErr EBADF [] | Inr (inE, outE) \<Rightarrow>
        let (u32l, inendian) = bom_in flag (check_bom32 u32s) inE;
            outendian = (outE AND UCONV_OUT_NAT_ENDIAN \<noteq> 0);
            out = bom_out flag outendian (length u32s) utf16len
                    (ucast UCONV_BOM_NORMAL) (ucast UCONV_BOM_SWAPPED)
        in from_u32 (put_u16_checked outendian utf16len) inendian (do_not_ignore_null flag)
             u32l (drop u32l u32s) out)))"

definition uconv_u32tou8 ::
  "u32 list option \<Rightarrow> nat option \<Rightarrow> u32 \<Rightarrow> u8 uconv_result" where
  "uconv_u32tou8 u32s utf8len flag =
     (case u32s of None \<Rightarrow> UErr EILSEQ [] | Some u32s \<Rightarrow>
      (case utf8len of None \<Rightarrow> UErr E2BIG [] | Some utf8len \<Rightarrow>
      (case check_endian flag of Inl _ \<Rightarrow> UErr EBADF [] | Inr (inE, outE) \<Rightarrow>
        let (u32l, inendian) = bom_in flag (check_bom32 u32s) inE
        in from_u32 (put_u8 utf8len) inendian (do_not_ignore_null flag)
             u32l (drop u32l u32s) [])))"

definition uconv_u8tou16 ::
  "u8 list option \<Rightarrow> nat option \<Rightarrow> u32 \<Rightarrow> u16 uconv_result" where
  "uconv_u8tou16 u8s utf16len flag =
     (case u8s of None \<Rightarrow> UErr EILSEQ [] | Some u8s \<Rightarrow>
      (case utf16len of None \<Rightarrow> UErr E2BIG [] | Some utf16len \<Rightarrow>
      (case check_endian flag of Inl _ \<Rightarrow> UErr EBADF [] | Inr (inE, outE) \<Rightarrow>
        let outendian = (outE AND UCONV_OUT_NAT_ENDIAN \<noteq> 0);
            out = bom_out flag outendian (length u8s) utf16len
                    (ucast UCONV_BOM_NORMAL) (ucast UCONV_BOM_SWAPPED)
        in from_u8 (put_u16 outendian utf16len) (do_not_ignore_null flag) 0 u8s out)))"

definition uconv_u8tou32 ::
  "u8 list option \<Rightarrow> nat option \<Rightarrow> u32 \<Rightarrow> u32 uconv_result" where
  "uconv_u8tou32 u8s utf32len flag =
     (case u8s of None \<Rightarrow> UErr EILSEQ [] | Some u8s \<Rightarrow>
      (case utf32len of None \<Rightarrow> UErr E2BIG [] | Some utf32len \<Rightarrow>
      (case check_endian flag of Inl _ \<Rightarrow> UErr EBADF [] | Inr (inE, outE) \<Rightarrow>
        let outendian = (outE AND UCONV_OUT_NAT_ENDIAN \<noteq> 0);
            out = bom_out flag outendian (length u8s) utf32len
                    UCONV_BOM_NORMAL UCONV_BOM_SWAPPED_32
        in from_u8 (put_u32 outendian utf32len) (do_not_ignore_null flag) 0 u8s out)))"

section \<open>The encodings the conversions implement\<close>

definition scalar_value :: "u32 \<Rightarrow> bool" where
  "scalar_value c \<longleftrightarrow> unat c < 0xd800 \<or> 0xdfff < unat c \<and> unat c \<le> 0x10ffff"

definition utf8_bytes :: "nat \<Rightarrow> u8 list" where
  "utf8_bytes n =
     map of_nat
       (if n < 0x80 then [n]
        else if n < 0x800 then [0xc0 + n div 64, 0x80 + n mod 64]
        else if n < 0x10000 then [0xe0 + n div 4096, 0x80 + n div 64 mod 64, 0x80 + n mod 64]
        else [0xf0 + n div 262144, 0x80 + n div 4096 mod 64, 0x80 + n div 64 mod 64,
              0x80 + n mod 64])"

definition utf8_enc :: "u32 \<Rightarrow> u8 list" where
  "utf8_enc c = utf8_bytes (unat c)"

definition utf16_units :: "nat \<Rightarrow> u16 list" where
  "utf16_units n =
     map of_nat
       (if n < 0x10000 then [n]
        else [0xd800 + (n - 0x10000) div 0x400, 0xdc00 + (n - 0x10000) mod 0x400])"

definition utf16_enc :: "u32 \<Rightarrow> u16 list" where
  "utf16_enc c = utf16_units (unat c)"

lemma unat_mask [unat_bits]:
  "unat (x AND 0x3f :: u32) = unat x mod 64"
  "unat (drop_bit 6 (x AND 0x7c0) :: u32) = unat x div 64 mod 32"
  "unat (drop_bit 6 (x AND 0xfc0) :: u32) = unat x div 64 mod 64"
  "unat (drop_bit 12 (x AND 0xf000) :: u32) = unat x div 4096 mod 16"
  "unat (drop_bit 12 (x AND 0x3f000) :: u32) = unat x div 4096 mod 64"
  "unat (drop_bit 18 (x AND 0x1c0000) :: u32) = unat x div 262144 mod 8"
proof -
  have m: "(0x3f :: u32) = push_bit 0 (mask 6)" "(0x7c0 :: u32) = push_bit 6 (mask 5)"
    "(0xfc0 :: u32) = push_bit 6 (mask 6)" "(0xf000 :: u32) = push_bit 12 (mask 4)"
    "(0x3f000 :: u32) = push_bit 12 (mask 6)" "(0x1c0000 :: u32) = push_bit 18 (mask 3)"
    by (simp_all add: mask_eq_exp_minus_1 push_bit_eq_mult)
  show "unat (x AND 0x3f :: u32) = unat x mod 64"
    using and_shifted_mask [of 0 x 6] unfolding m by (simp add: unat_bits)
  show "unat (drop_bit 6 (x AND 0x7c0) :: u32) = unat x div 64 mod 32"
    unfolding m and_shifted_mask by (simp add: unat_bits)
  show "unat (drop_bit 6 (x AND 0xfc0) :: u32) = unat x div 64 mod 64"
    unfolding m and_shifted_mask by (simp add: unat_bits)
  show "unat (drop_bit 12 (x AND 0xf000) :: u32) = unat x div 4096 mod 16"
    unfolding m and_shifted_mask by (simp add: unat_bits)
  show "unat (drop_bit 12 (x AND 0x3f000) :: u32) = unat x div 4096 mod 64"
    unfolding m and_shifted_mask by (simp add: unat_bits)
  show "unat (drop_bit 18 (x AND 0x1c0000) :: u32) = unat x div 262144 mod 8"
    unfolding m and_shifted_mask by (simp add: unat_bits)
qed

lemma lead_byte:
  "unat (x::u32) < 0x40 \<Longrightarrow> ucast (0x80 OR x) = (of_nat (0x80 + unat x) :: u8)"
  "unat (x::u32) < 0x20 \<Longrightarrow> ucast (0xc0 OR x) = (of_nat (0xc0 + unat x) :: u8)"
  "unat (x::u32) < 0x10 \<Longrightarrow> ucast (0xe0 OR x) = (of_nat (0xe0 + unat x) :: u8)"
  "unat (x::u32) < 0x10 \<Longrightarrow> ucast (0xf0 OR x) = (of_nat (0xf0 + unat x) :: u8)"
  by (rule ucast_eq_of_nat,
      simp add: unat_or_eq_add [of _ 6] unat_or_eq_add [of _ 5] unat_or_eq_add [of _ 4])+


text \<open>The bytes \<^const>\<open>put_u8\<close> stores, read as numbers.\<close>

lemma u8_stored:
  "ucast (0x80 OR (c AND 0x3f) :: u32) = (of_nat (0x80 + unat c mod 64) :: u8)"
  "ucast (0x80 OR drop_bit 6 (c AND 0xfc0) :: u32) = (of_nat (0x80 + unat c div 64 mod 64) :: u8)"
  "ucast (0x80 OR drop_bit 12 (c AND 0x3f000) :: u32) = (of_nat (0x80 + unat c div 4096 mod 64) :: u8)"
  "unat c < 0x800 \<Longrightarrow>
     ucast (0xc0 OR drop_bit 6 (c AND 0x7c0) :: u32) = (of_nat (0xc0 + unat c div 64) :: u8)"
  "unat c < 0x10000 \<Longrightarrow>
     ucast (0xe0 OR drop_bit 12 (c AND 0xf000) :: u32) = (of_nat (0xe0 + unat c div 4096) :: u8)"
  "unat c < 0x200000 \<Longrightarrow>
     ucast (0xf0 OR drop_bit 18 (c AND 0x1c0000) :: u32) = (of_nat (0xf0 + unat c div 262144) :: u8)"
proof -
  have small: "unat (drop_bit 6 (c AND 0x7c0) :: u32) < 0x20"
    "unat (drop_bit 12 (c AND 0xf000) :: u32) < 0x10"
    "unat (drop_bit 18 (c AND 0x1c0000) :: u32) < 0x10"
    "unat (c AND 0x3f :: u32) < 0x40" "unat (drop_bit 6 (c AND 0xfc0) :: u32) < 0x40"
    "unat (drop_bit 12 (c AND 0x3f000) :: u32) < 0x40"
    unfolding unat_mask by simp_all
  show "ucast (0x80 OR (c AND 0x3f) :: u32) = (of_nat (0x80 + unat c mod 64) :: u8)"
    by (simp only: lead_byte small unat_mask)
  show "ucast (0x80 OR drop_bit 6 (c AND 0xfc0) :: u32) = (of_nat (0x80 + unat c div 64 mod 64) :: u8)"
    by (simp only: lead_byte small unat_mask)
  show "ucast (0x80 OR drop_bit 12 (c AND 0x3f000) :: u32) = (of_nat (0x80 + unat c div 4096 mod 64) :: u8)"
    by (simp only: lead_byte small unat_mask)
  show "ucast (0xc0 OR drop_bit 6 (c AND 0x7c0) :: u32) = (of_nat (0xc0 + unat c div 64) :: u8)"
    if "unat c < 0x800"
  proof -
    from that have "unat c div 64 mod 32 = unat c div 64" by auto
    then show ?thesis by (simp only: lead_byte small unat_mask)
  qed
  show "ucast (0xe0 OR drop_bit 12 (c AND 0xf000) :: u32) = (of_nat (0xe0 + unat c div 4096) :: u8)"
    if "unat c < 0x10000"
  proof -
    from that have "unat c div 4096 mod 16 = unat c div 4096" by auto
    then show ?thesis by (simp only: lead_byte small unat_mask)
  qed
  show "ucast (0xf0 OR drop_bit 18 (c AND 0x1c0000) :: u32) = (of_nat (0xf0 + unat c div 262144) :: u8)"
    if "unat c < 0x200000"
  proof -
    from that have "unat c div 262144 mod 8 = unat c div 262144" by auto
    then show ?thesis by (simp only: lead_byte small unat_mask)
  qed
qed

lemma put_u8_eq:
  "put_u8 cap c out =
     (if unat c > 0x10ffff then Inl EILSEQ
      else if length out + length (utf8_enc c) > cap then Inl E2BIG
      else Inr (out @ utf8_enc c))"
proof -
  consider "unat c < 0x80" | "0x80 \<le> unat c" "unat c < 0x800"
    | "0x800 \<le> unat c" "unat c < 0x10000" | "0x10000 \<le> unat c" "unat c < 0x110000"
    | "0x110000 \<le> unat c"
    by linarith
  then show ?thesis
    by cases
      (simp_all add: put_u8_def utf8_enc_def utf8_bytes_def uconv_consts word_le_nat_alt u8_stored
         del: drop_bit_and of_nat_add)
qed

lemma put_u16_eq:
  assumes "unat c \<le> 0x10ffff"
  shows "put_u16 outendian cap c out =
     (if length out + length (utf16_enc c) > cap then Inl E2BIG
      else Inr (out @ map (if outendian then id else BSWAP_16) (utf16_enc c)))"
proof (cases "unat c < 0x10000")
  case True
  then show ?thesis
    by (simp add: put_u16_def utf16_enc_def utf16_units_def Let_def uconv_consts word_le_nat_alt)
next
  case False
  have sub: "unat (c - 0x10000) = unat c - 0x10000"
    using False by (simp add: unat_sub_if' )
  have hi: "unat ((c - 0x10000) div 0x400 + 0xd800) = 0xd800 + (unat c - 0x10000) div 0x400"
    using assms by (simp add: unat_word_ariths unat_div sub)
  have lo: "unat ((c - 0x10000) mod 0x400 + 0xdc00) = 0xdc00 + (unat c - 0x10000) mod 0x400"
    by (simp add: unat_word_ariths unat_mod sub)
  have "ucast ((c - 0x10000) div 0x400 + 0xd800 :: u32) = (of_nat (0xd800 + (unat c - 0x10000) div 0x400) :: u16)"
    using hi by (rule ucast_eq_of_nat)
  moreover have "ucast ((c - 0x10000) mod 0x400 + 0xdc00 :: u32) = (of_nat (0xdc00 + (unat c - 0x10000) mod 0x400) :: u16)"
    using lo by (rule ucast_eq_of_nat)
  ultimately show ?thesis
    using False 
    by (simp add: put_u16_def utf16_enc_def utf16_units_def Let_def uconv_consts word_le_nat_alt del: of_nat_add)
qed

lemma tables:
  assumes "n < 0x100"
  shows "remaining_bytes_tbl ! n =
           (if n < 0xc2 then 0 else if n < 0xe0 then 1 else if n < 0xf0 then 2
            else if n < 0xf5 then 3 else 0)"
    and "0xc2 \<le> n \<Longrightarrow> n < 0xf5 \<Longrightarrow>
         valid_min_2nd_byte ! n = (if n = 0xe0 then 0xa0 else if n = 0xf0 then 0x90 else 0x80)"
    and "0xc2 \<le> n \<Longrightarrow> n < 0xf5 \<Longrightarrow>
         valid_max_2nd_byte ! n = (if n = 0xed then 0x9f else if n = 0xf4 then 0x8f else 0xbf)"
  using assms
  by (auto simp: remaining_bytes_tbl_def valid_min_2nd_byte_def valid_max_2nd_byte_def nth_append nth_Cons')

lemma u8_fold:
  assumes "unat hi < 0x4000000"
  shows "unat (push_bit 6 hi OR (ucast (b :: u8) AND 0x3f) :: u32) = unat hi * 64 + unat b mod 64"
proof -
  have p: "unat (push_bit 6 hi) = unat hi * 64"
    using assms by (subst unat_push_bit_mult) simp_all
  have b: "unat (ucast b AND 0x3f :: u32) = unat b mod 64"
    by (simp add: unat_bits)
  show ?thesis
    by (subst unat_or_eq_add [of _ 6]) (simp_all only: b p, simp_all)
qed

lemma unat_first:
  "unat (ucast (b :: u8) AND 0x1f :: u32) = unat b mod 32"
  "unat (ucast (b :: u8) AND 0x0f :: u32) = unat b mod 16"
  "unat (ucast (b :: u8) AND 0x07 :: u32) = unat b mod 8"
proof -
  have m: "(0x1f :: u32) = mask 5" "(0x0f :: u32) = mask 4" "(0x07 :: u32) = mask 3"
    by (simp_all add: mask_eq_exp_minus_1)
  show "unat (ucast (b :: u8) AND 0x1f :: u32) = unat b mod 32"
    unfolding m by (simp add: unat_bits flip: take_bit_eq_mask)
  show "unat (ucast (b :: u8) AND 0x0f :: u32) = unat b mod 16"
    unfolding m by (simp add: unat_bits flip: take_bit_eq_mask)
  show "unat (ucast (b :: u8) AND 0x07 :: u32) = unat b mod 8"
    unfolding m by (simp add: unat_bits flip: take_bit_eq_mask)
qed

text \<open>The UTF-8 reader, case by case on the first byte.\<close>

lemma ucast_u32_simps:
  "(ucast (b :: u8) < (0x80 :: u32)) = (unat b < 0x80)"
  "((0xbf :: u32) < ucast b) = (0xbf < unat b)"
  "((0x7f :: u32) < ucast b) = (0x7f < unat b)"
  "(ucast b < (0xa0 :: u32)) = (unat b < 0xa0)"
  "(ucast b < (0x90 :: u32)) = (unat b < 0x90)"
  "((0x9f :: u32) < ucast b) = (0x9f < unat b)"
  "((0x8f :: u32) < ucast b) = (0x8f < unat b)"
  by (simp_all add: word_less_nat_alt unat_bits)

lemma u8_fold_eq:
  "unat hi = h \<Longrightarrow> unat (b :: u8) mod 64 = m \<Longrightarrow> h < 0x4000000 \<Longrightarrow>
   unat (push_bit 6 hi OR (ucast b AND 0x3f) :: u32) = h * 64 + m"
  by (simp only: u8_fold)

lemma u8_cont_tail:
  "u8_cont (Suc r) 0 hi bs =
     (case bs of [] \<Rightarrow> Inl EINVAL
      | b # bs' \<Rightarrow> if unat b < 0x80 \<or> 0xbf < unat b then Inl EILSEQ
                   else u8_cont r 0 (push_bit 6 hi OR (ucast b AND 0x3f)) bs')"
  by (cases bs) (simp_all add: Let_def uconv_consts ucast_u32_simps)

lemma u8_get_one: "unat b < 0x80 \<Longrightarrow> u8_get b bs = Inr (of_nat (unat b), bs)"
  by (simp add: u8_get_def Let_def uconv_consts ucast_u32_simps)

lemma u8_get_bad:
  "0x80 \<le> unat b \<Longrightarrow> unat b < 0xc2 \<or> 0xf5 \<le> unat b \<Longrightarrow> u8_get b bs = Inl EILSEQ"
  using u8_bound [of b]
  by (auto simp: u8_get_def Let_def uconv_consts ucast_u32_simps unat_bits tables)

lemma u8_get_two:
  assumes "0xc2 \<le> unat b" "unat b < 0xe0"
  shows "u8_get b bs =
     (case bs of [] \<Rightarrow> Inl EINVAL
      | b1 # bs' \<Rightarrow> if unat b1 < 0x80 \<or> 0xbf < unat b1 then Inl EILSEQ
                   else Inr (of_nat ((unat b - 0xc0) * 64 + (unat b1 - 0x80)), bs'))"
proof -
  have first: "unat (ucast b AND 0x1f :: u32) = unat b - 0xc0"
    using assms mod_range [of 6 32 "unat b"] by (simp add: unat_first)
  have "push_bit 6 (ucast b AND 0x1f) OR (ucast b1 AND 0x3f) =
      (of_nat ((unat b - 0xc0) * 64 + (unat b1 - 0x80)) :: u32)"
    if "0x80 \<le> unat b1" "unat b1 \<le> 0xbf" for b1 :: u8
  proof (rule word_eq_unat)
    have "unat b1 mod 64 = unat b1 - 0x80" using that mod_range [of 2 64 "unat b1"] by simp
    then show "unat (push_bit 6 (ucast b AND 0x1f) OR (ucast b1 AND 0x3f) :: u32) =
        (unat b - 0xc0) * 64 + (unat b1 - 0x80)"
      using assms u8_fold_eq [OF first] by simp
  qed
  then show ?thesis
    using assms u8_bound [of b]
    by (auto simp: u8_get_def Let_def uconv_consts ucast_u32_simps unat_bits tables masks_tbl_def
             split: list.splits)
qed

lemma u8_get_three:
  assumes "0xe0 \<le> unat b" "unat b < 0xf0"
  shows "u8_get b bs =
     (case bs of [] \<Rightarrow> Inl EINVAL
      | b1 # bs' \<Rightarrow>
         if unat b1 < (if unat b = 0xe0 then 0xa0 else 0x80)
           \<or> (if unat b = 0xed then 0x9f else 0xbf) < unat b1 then Inl EILSEQ
         else case bs' of [] \<Rightarrow> Inl EINVAL
          | b2 # bs'' \<Rightarrow> if unat b2 < 0x80 \<or> 0xbf < unat b2 then Inl EILSEQ
                   else Inr (of_nat ((unat b - 0xe0) * 4096 + (unat b1 - 0x80) * 64 + (unat b2 - 0x80)), bs''))"
proof -
  have first: "unat (ucast b AND 0x0f :: u32) = unat b - 0xe0"
    using assms mod_range [of 14 16 "unat b"] by (simp add: unat_first)
  have "push_bit 6 (push_bit 6 (ucast b AND 0x0f) OR (ucast b1 AND 0x3f)) OR (ucast b2 AND 0x3f) =
      (of_nat ((unat b - 0xe0) * 4096 + (unat b1 - 0x80) * 64 + (unat b2 - 0x80)) :: u32)"
    if "0x80 \<le> unat b1" "unat b1 \<le> 0xbf" "0x80 \<le> unat b2" "unat b2 \<le> 0xbf" for b1 b2 :: u8
  proof (rule word_eq_unat)
    have m: "unat b1 mod 64 = unat b1 - 0x80" "unat b2 mod 64 = unat b2 - 0x80"
      using that mod_range [of 2 64 "unat b1"] mod_range [of 2 64 "unat b2"] by simp_all
    have 1: "unat (push_bit 6 (ucast b AND 0x0f) OR (ucast b1 AND 0x3f) :: u32) =
        (unat b - 0xe0) * 64 + (unat b1 - 0x80)"
      using assms u8_fold_eq [OF first m(1)] by simp
    show "unat (push_bit 6 (push_bit 6 (ucast b AND 0x0f) OR (ucast b1 AND 0x3f)) OR
          (ucast b2 AND 0x3f) :: u32) =
        (unat b - 0xe0) * 4096 + (unat b1 - 0x80) * 64 + (unat b2 - 0x80)"
      using assms that u8_fold_eq [OF 1 m(2)] by simp
  qed
  moreover have "unat b = 0xe0 \<Longrightarrow> ucast b = (0xe0 :: u32)"
    by (drule word_eq_unat) simp
  ultimately show ?thesis
    using assms u8_bound [of b]
    by (auto simp: u8_get_def Let_def uconv_consts ucast_u32_simps unat_bits tables masks_tbl_def
          numeral_2_eq_2 u8_cont_tail split: list.splits)
qed

lemma u8_get_four:
  assumes "0xf0 \<le> unat b" "unat b < 0xf5"
  shows "u8_get b bs =
     (case bs of [] \<Rightarrow> Inl EINVAL
      | b1 # bs' \<Rightarrow>
         if unat b1 < (if unat b = 0xf0 then 0x90 else 0x80)
           \<or> (if unat b = 0xf4 then 0x8f else 0xbf) < unat b1 then Inl EILSEQ
         else case bs' of [] \<Rightarrow> Inl EINVAL
          | b2 # bs'' \<Rightarrow> if unat b2 < 0x80 \<or> 0xbf < unat b2 then Inl EILSEQ
             else case bs'' of [] \<Rightarrow> Inl EINVAL
              | b3 # bs''' \<Rightarrow> if unat b3 < 0x80 \<or> 0xbf < unat b3 then Inl EILSEQ
                   else Inr (of_nat ((unat b - 0xf0) * 262144 + (unat b1 - 0x80) * 4096
                                     + (unat b2 - 0x80) * 64 + (unat b3 - 0x80)), bs'''))"
proof -
  let ?w1 = "\<lambda>b1 :: u8. push_bit 6 (ucast b AND 0x07) OR (ucast b1 AND 0x3f) :: u32"
  let ?w2 = "\<lambda>b1 b2 :: u8. push_bit 6 (?w1 b1) OR (ucast b2 AND 0x3f) :: u32"
  have first: "unat (ucast b AND 0x07 :: u32) = unat b - 0xf0"
    using assms mod_range [of 30 8 "unat b"] by (simp add: unat_first)
  have "push_bit 6 (?w2 b1 b2) OR (ucast b3 AND 0x3f) =
      of_nat ((unat b - 0xf0) * 262144 + (unat b1 - 0x80) * 4096
              + (unat b2 - 0x80) * 64 + (unat b3 - 0x80))"
    if "0x80 \<le> unat b1" "unat b1 \<le> 0xbf" "0x80 \<le> unat b2" "unat b2 \<le> 0xbf"
      "0x80 \<le> unat b3" "unat b3 \<le> 0xbf" for b1 b2 b3 :: u8
  proof (rule word_eq_unat)
    have m: "unat b1 mod 64 = unat b1 - 0x80" "unat b2 mod 64 = unat b2 - 0x80"
        "unat b3 mod 64 = unat b3 - 0x80"
      using that mod_range [of 2 64 "unat b1"] mod_range [of 2 64 "unat b2"]
        mod_range [of 2 64 "unat b3"] by simp_all
    have 1: "unat (?w1 b1) = (unat b - 0xf0) * 64 + (unat b1 - 0x80)"
      using assms u8_fold_eq [OF first m(1)] by simp
    have 2: "unat (?w2 b1 b2) = (unat b - 0xf0) * 4096 + (unat b1 - 0x80) * 64 + (unat b2 - 0x80)"
      using assms that u8_fold_eq [OF 1 m(2)] by simp
    show "unat (push_bit 6 (?w2 b1 b2) OR (ucast b3 AND 0x3f)) =
        (unat b - 0xf0) * 262144 + (unat b1 - 0x80) * 4096 + (unat b2 - 0x80) * 64 + (unat b3 - 0x80)"
      using assms that u8_fold_eq [OF 2 m(3)] by simp
  qed
  moreover have "unat b = 0xf0 \<Longrightarrow> ucast b = (0xf0 :: u32)"
    by (drule word_eq_unat) simp
  ultimately show ?thesis
    using assms u8_bound [of b]
    by (auto simp: u8_get_def Let_def uconv_consts ucast_u32_simps unat_bits tables masks_tbl_def
          numeral_2_eq_2 numeral_3_eq_3 u8_cont_tail split: list.splits)
qed

lemma unat_u8: "n < 0x100 \<Longrightarrow> unat (of_nat n :: u8) = n"
  by (simp add: unat_of_nat)

lemma unat_u32: "n < 0x100000000 \<Longrightarrow> unat (of_nat n :: u32) = n"
  by (simp add: unat_of_nat)

lemma utf8_enc_nonempty [simp]: "utf8_enc c \<noteq> []"
  by (simp add: utf8_enc_def utf8_bytes_def)

lemma sextets:
  fixes n :: nat
  shows "n = n div 64 * 64 + n mod 64"
    and "n div 64 = n div 4096 * 64 + n div 64 mod 64"
    and "n div 4096 = n div 262144 * 64 + n div 4096 mod 64"
    and "n mod 64 < 64" and "n div 64 mod 64 < 64" and "n div 4096 mod 64 < 64"
proof -
  have "n div 4096 = n div 64 div 64" "n div 262144 = n div 4096 div 64"
    by (simp_all flip: div_mult2_eq)
  then show "n div 64 = n div 4096 * 64 + n div 64 mod 64"
    and "n div 4096 = n div 262144 * 64 + n div 4096 mod 64"
    by simp_all
qed simp_all

lemma u8_get_sextets:
  assumes "s0 < 64"
  shows "2 \<le> q \<Longrightarrow> q < 0x20 \<Longrightarrow>
      u8_get (of_nat (0xc0 + q)) (of_nat (0x80 + s0) # rest) = Inr (of_nat (q * 64 + s0), rest)"
    and "q < 0x10 \<Longrightarrow> s1 < 64 \<Longrightarrow> (q = 0 \<Longrightarrow> 0x20 \<le> s1) \<Longrightarrow> (q = 0xd \<Longrightarrow> s1 < 0x20) \<Longrightarrow>
      u8_get (of_nat (0xe0 + q)) (of_nat (0x80 + s1) # of_nat (0x80 + s0) # rest) =
        Inr (of_nat (q * 4096 + s1 * 64 + s0), rest)"
    and "q < 5 \<Longrightarrow> s1 < 64 \<Longrightarrow> s2 < 64 \<Longrightarrow> (q = 0 \<Longrightarrow> 0x10 \<le> s2) \<Longrightarrow> (q = 4 \<Longrightarrow> s2 < 0x10) \<Longrightarrow>
      u8_get (of_nat (0xf0 + q))
          (of_nat (0x80 + s2) # of_nat (0x80 + s1) # of_nat (0x80 + s0) # rest) =
        Inr (of_nat (q * 262144 + s2 * 4096 + s1 * 64 + s0), rest)"
  using assms
  by (auto simp: u8_get_two u8_get_three u8_get_four unat_u8 simp del: of_nat_add)

text \<open>Reading back what the encoder wrote gives the character and stops where it ends.\<close>

lemma u8_get_bytes:
  assumes n: "n < 0xd800 \<or> 0xdfff < n \<and> n \<le> 0x10ffff"
  shows "u8_get (hd (utf8_bytes n)) (tl (utf8_bytes n) @ rest) = Inr (of_nat n, rest)"
proof -
  have dm: "n div 64 * 64 + n mod 64 = n" "n div 4096 * 4096 + n div 64 mod 64 * 64 + n mod 64 = n"
    "n div 262144 * 262144 + n div 4096 mod 64 * 4096 + n div 64 mod 64 * 64 + n mod 64 = n"
    using sextets [of n] by linarith+
  consider "n < 0x80" | "0x80 \<le> n" "n < 0x800" | "0x800 \<le> n" "n < 0x10000"
    | "0x10000 \<le> n" by linarith
  then show ?thesis
  proof cases
    case 1
    then show ?thesis
      by (simp add: utf8_bytes_def u8_get_one unat_u8)
  next
    case 2
    then have "2 \<le> n div 64" "n div 64 < 0x20"
      using sextets [of n] by linarith+
    from u8_get_sextets(1) [OF sextets(4) [of n] this, of rest] 2 show ?thesis
      by (simp add: utf8_bytes_def dm del: of_nat_add)
  next
    case 3
    then have "n div 4096 < 0x10" "n div 4096 = 0 \<Longrightarrow> 0x20 \<le> n div 64 mod 64"
        "n div 4096 = 0xd \<Longrightarrow> n div 64 mod 64 < 0x20"
      using n sextets [of n] by linarith+
    from u8_get_sextets(2) [OF sextets(4) [of n] this(1) sextets(5) [of n] this(2,3), of rest] 3 show ?thesis
      by (simp add: utf8_bytes_def dm del: of_nat_add)
  next
    case 4
    then have "n div 262144 < 5" "n div 262144 = 0 \<Longrightarrow> 0x10 \<le> n div 4096 mod 64"
        "n div 262144 = 4 \<Longrightarrow> n div 4096 mod 64 < 0x10"
      using n sextets [of n] by linarith+
    from u8_get_sextets(3) [OF sextets(4) [of n] this(1) sextets(5) [of n] sextets(6) [of n] this(2,3), of rest] 4 show ?thesis
      by (simp add: utf8_bytes_def dm del: of_nat_add)
  qed
qed

lemma utf8_bytes_sextets:
  assumes "s0 < 64"
  shows "2 \<le> q \<Longrightarrow> q < 0x20 \<Longrightarrow>
      utf8_bytes (q * 64 + s0) = [of_nat (0xc0 + q), of_nat (0x80 + s0)]"
    and "q < 0x10 \<Longrightarrow> s1 < 64 \<Longrightarrow> (q = 0 \<Longrightarrow> 0x20 \<le> s1) \<Longrightarrow>
      utf8_bytes (q * 4096 + s1 * 64 + s0) =
        [of_nat (0xe0 + q), of_nat (0x80 + s1), of_nat (0x80 + s0)]"
    and "s1 < 64 \<Longrightarrow> s2 < 64 \<Longrightarrow> (q = 0 \<Longrightarrow> 0x10 \<le> s2) \<Longrightarrow>
      utf8_bytes (q * 262144 + s2 * 4096 + s1 * 64 + s0) =
        [of_nat (0xf0 + q), of_nat (0x80 + s2), of_nat (0x80 + s1), of_nat (0x80 + s0)]"
proof -
  show "utf8_bytes (q * 64 + s0) = [of_nat (0xc0 + q), of_nat (0x80 + s0)]" if "2 \<le> q" "q < 0x20"
    using assms that by (simp add: utf8_bytes_def)
  show "utf8_bytes (q * 4096 + s1 * 64 + s0) =
        [of_nat (0xe0 + q), of_nat (0x80 + s1), of_nat (0x80 + s0)]"
    if "q < 0x10" "s1 < 64" "q = 0 \<Longrightarrow> 0x20 \<le> s1"
  proof -
    let ?n = "q * 4096 + s1 * 64 + s0"
    have "?n div 4096 = q" "?n div 64 = q * 64 + s1"
      using assms that by (auto intro!: div_nat_eqI)
    moreover from this have "?n div 64 mod 64 = s1" "?n mod 64 = s0"
      using sextets [of ?n] by linarith+
    moreover have "0x800 \<le> ?n" "?n < 0x10000"
      using assms that by (cases "q = 0"; simp)+
    ultimately show ?thesis by (simp add: utf8_bytes_def)
  qed
  show "utf8_bytes (q * 262144 + s2 * 4096 + s1 * 64 + s0) =
        [of_nat (0xf0 + q), of_nat (0x80 + s2), of_nat (0x80 + s1), of_nat (0x80 + s0)]"
    if "s1 < 64" "s2 < 64" "q = 0 \<Longrightarrow> 0x10 \<le> s2"
  proof -
    let ?n = "q * 262144 + s2 * 4096 + s1 * 64 + s0"
    have "?n div 262144 = q" "?n div 4096 = q * 64 + s2" "?n div 64 = q * 4096 + s2 * 64 + s1"
      using assms that by (auto intro!: div_nat_eqI)
    moreover from this have "?n div 4096 mod 64 = s2" "?n div 64 mod 64 = s1" "?n mod 64 = s0"
      using sextets [of ?n] by linarith+
    moreover have "0x10000 \<le> ?n"
      using assms that by (cases "q = 0"; simp)
    ultimately show ?thesis by (simp add: utf8_bytes_def)
  qed
qed

lemma scalar_sextets:
  fixes q :: nat
  assumes "s0 < 64" "s1 < 64"
  shows "q < 0x10 \<Longrightarrow> (q = 0xd \<Longrightarrow> s1 < 0x20) \<Longrightarrow>
      q * 4096 + s1 * 64 + s0 < 0xd800 \<or>
      0xdfff < q * 4096 + s1 * 64 + s0 \<and> q * 4096 + s1 * 64 + s0 \<le> 0x10ffff"
    and "q < 5 \<Longrightarrow> s2 < 64 \<Longrightarrow> (q = 0 \<Longrightarrow> 0x10 \<le> s2) \<Longrightarrow> (q = 4 \<Longrightarrow> s2 < 0x10) \<Longrightarrow>
      q * 262144 + s2 * 4096 + s1 * 64 + s0 < 0xd800 \<or>
      0xdfff < q * 262144 + s2 * 4096 + s1 * 64 + s0 \<and>
      q * 262144 + s2 * 4096 + s1 * 64 + s0 \<le> 0x10ffff"
  by (insert assms, (cases "q < 0xd"; cases "q = 0xd"; simp), (cases "q = 0"; cases "q = 4"; simp))

lemma u8_offset: "k \<le> unat (b :: u8) \<Longrightarrow> of_nat (k + (unat b - k)) = b"
  by simp

text \<open>Conversely a character that is read is a scalar value, and its bytes are its encoding.\<close>

lemma u8_get_sound:
  assumes "u8_get b bs = Inr (c, rest)"
  shows "scalar_value c \<and> b # bs = utf8_enc c @ rest"
proof -
  consider "unat b < 0x80" | "0x80 \<le> unat b" "unat b < 0xc2 \<or> 0xf5 \<le> unat b"
    | "0xc2 \<le> unat b" "unat b < 0xe0" | "0xe0 \<le> unat b" "unat b < 0xf0"
    | "0xf0 \<le> unat b" "unat b < 0xf5" by linarith
  then show ?thesis
  proof cases
    case 1
    then show ?thesis
      using assms
      by (auto simp: u8_get_one scalar_value_def utf8_enc_def utf8_bytes_def unat_bits)
  next
    case 2
    then show ?thesis using assms by (simp add: u8_get_bad)
  next
    case 3
    then obtain b1 where b: "bs = b1 # rest" "0x80 \<le> unat b1" "unat b1 \<le> 0xbf"
      and c: "c = of_nat ((unat b - 0xc0) * 64 + (unat b1 - 0x80))"
      using assms by (auto simp: u8_get_two simp del: of_nat_add of_nat_mult of_nat_diff
               split: list.splits if_splits)
    have "unat c = (unat b - 0xc0) * 64 + (unat b1 - 0x80)"
      unfolding c using b 3 by (intro unat_u32) linarith
    moreover from this have "scalar_value c"
      using b 3 unfolding scalar_value_def by linarith
    ultimately show ?thesis
      using b 3 utf8_bytes_sextets(1) [of "unat b1 - 0x80" "unat b - 0xc0"]
        u8_offset [of "0xc0" b] u8_offset [of "0x80" b1]
      by (simp add: utf8_enc_def del: of_nat_add of_nat_diff)
  next
    case 4
    then obtain b1 b2 where b: "bs = b1 # b2 # rest"
        "0x80 \<le> unat b1" "unat b1 \<le> 0xbf" "unat b = 0xe0 \<Longrightarrow> 0xa0 \<le> unat b1"
        "unat b = 0xed \<Longrightarrow> unat b1 \<le> 0x9f" "0x80 \<le> unat b2" "unat b2 \<le> 0xbf"
      and c: "c = of_nat ((unat b - 0xe0) * 4096 + (unat b1 - 0x80) * 64 + (unat b2 - 0x80))"
      using assms by (auto simp: u8_get_three simp del: of_nat_add of_nat_mult of_nat_diff
               split: list.splits if_splits)
    define q s1 s0 where "q = unat b - 0xe0" and "s1 = unat b1 - 0x80" and "s0 = unat b2 - 0x80"
    note defs = this
    have q: "s0 < 64" "s1 < 64" "q < 0x10" "q = 0 \<Longrightarrow> 0x20 \<le> s1" "q = 0xd \<Longrightarrow> s1 < 0x20"
      using b 4 unfolding defs by linarith+
    have bytes: "of_nat (0xe0 + q) = b" "of_nat (0x80 + s1) = b1" "of_nat (0x80 + s0) = b2"
      using b 4 u8_offset unfolding defs by blast+
    have "unat c = q * 4096 + s1 * 64 + s0"
      unfolding c defs [symmetric] using q by (intro unat_u32) simp
    moreover have "utf8_bytes (q * 4096 + s1 * 64 + s0) = [b, b1, b2]"
      unfolding bytes [symmetric] by (rule utf8_bytes_sextets(2)) (use q in auto)
    ultimately show ?thesis
      using scalar_sextets(1) [OF q(1,2,3)] q(5) b(1) by (simp add: scalar_value_def utf8_enc_def)
  next
    case 5
    then obtain b1 b2 b3 where b: "bs = b1 # b2 # b3 # rest"
        "0x80 \<le> unat b1" "unat b1 \<le> 0xbf" "unat b = 0xf0 \<Longrightarrow> 0x90 \<le> unat b1"
        "unat b = 0xf4 \<Longrightarrow> unat b1 \<le> 0x8f" "0x80 \<le> unat b2" "unat b2 \<le> 0xbf"
        "0x80 \<le> unat b3" "unat b3 \<le> 0xbf"
      and c: "c = of_nat ((unat b - 0xf0) * 262144 + (unat b1 - 0x80) * 4096
                 + (unat b2 - 0x80) * 64 + (unat b3 - 0x80))"
      using assms by (auto simp: u8_get_four simp del: of_nat_add of_nat_mult of_nat_diff
               split: list.splits if_splits)
    define q s2 s1 s0 where "q = unat b - 0xf0" and "s2 = unat b1 - 0x80"
      and "s1 = unat b2 - 0x80" and "s0 = unat b3 - 0x80"
    note defs = this
    have q: "s0 < 64" "s1 < 64" "s2 < 64" "q < 5" "q = 0 \<Longrightarrow> 0x10 \<le> s2" "q = 4 \<Longrightarrow> s2 < 0x10"
      using b 5 unfolding defs by linarith+
    have bytes: "of_nat (0xf0 + q) = b" "of_nat (0x80 + s2) = b1" "of_nat (0x80 + s1) = b2"
        "of_nat (0x80 + s0) = b3"
      using b 5 u8_offset unfolding defs by blast+
    have "unat c = q * 262144 + s2 * 4096 + s1 * 64 + s0"
      unfolding c defs [symmetric] using q by (intro unat_u32) simp
    moreover have "utf8_bytes (q * 262144 + s2 * 4096 + s1 * 64 + s0) = [b, b1, b2, b3]"
      unfolding bytes [symmetric] by (rule utf8_bytes_sextets(3)) (use q in auto)
    ultimately show ?thesis
      using scalar_sextets(2) [OF q(1,2,4,3)] q(5,6) b(1) by (simp add: scalar_value_def utf8_enc_def)
  qed
qed

lemma from_u8_UOkE:
  assumes "from_u8 put nn l (b # bs) out = UOk n out'" "\<not> (b = 0 \<and> nn)"
  obtains c bs2 out2 where "u8_get b bs = Inr (c, bs2)" "put c out = Inr out2"
    "from_u8 put nn (l + (Suc (length bs) - length bs2)) bs2 out2 = UOk n out'"
    "length bs2 \<le> length bs"
proof -
  obtain c bs2 where g: "u8_get b bs = Inr (c, bs2)"
    using assms by (cases "u8_get b bs") auto
  obtain out2 where p: "put c out = Inr out2"
    using assms g by (cases "put c out") auto
  have "from_u8 put nn (l + (Suc (length bs) - length bs2)) bs2 out2 = UOk n out'"
    using assms g p by simp
  with g p show thesis by (rule that) (rule u8_get_length [OF g])
qed

section \<open>The interface between the readers and the target forms\<close>

text \<open>
  What a reading loop relies on: \<open>put\<close> appends the encoding \<open>enc\<close> of a character of
  \<open>dom\<close> when it fits the capacity, answers \<^const>\<open>E2BIG\<close> when it does not, and never
  stores past the capacity.
\<close>

locale uconv_sink =
  fixes put :: "u32 \<Rightarrow> 'b list \<Rightarrow> errno + 'b list"
    and cap :: nat
    and enc :: "u32 \<Rightarrow> 'b list"
    and dom :: "u32 \<Rightarrow> bool"
  assumes put_fits: "dom c \<Longrightarrow> length out + length (enc c) \<le> cap \<Longrightarrow> put c out = Inr (out @ enc c)"
    and put_full: "dom c \<Longrightarrow> cap < length out + length (enc c) \<Longrightarrow> put c out = Inl E2BIG"
    and put_bound: "put c out = Inr out' \<Longrightarrow> length out' \<le> cap"
begin

lemma put_cases:
  assumes "dom c"
  obtains "put c out = Inr (out @ enc c)" "length out + length (enc c) \<le> cap"
    | "put c out = Inl E2BIG" "cap < length out + length (enc c)"
  using put_fits [OF assms] put_full [OF assms] by (meson not_le)

lemma from_u32_fits:
  assumes "\<forall>w\<in>set ws. dom (if i then w else BSWAP_32 w) \<and> \<not> (w = 0 \<and> nn)"
    and "length out + length (concat (map (\<lambda>w. enc (if i then w else BSWAP_32 w)) ws)) \<le> cap"
  shows "from_u32 put i nn l ws out =
    UOk (l + length ws) (out @ concat (map (\<lambda>w. enc (if i then w else BSWAP_32 w)) ws))"
  using assms
  by (induction ws arbitrary: l out) (auto simp: put_fits split: sum.splits)

lemma from_u32_sound:
  assumes "\<forall>w\<in>set ws. dom (if i then w else BSWAP_32 w) \<and> \<not> (w = 0 \<and> nn)"
    and "from_u32 put i nn l ws out = UOk n out'" and "length out \<le> cap"
  shows "out' = out @ concat (map (\<lambda>w. enc (if i then w else BSWAP_32 w)) ws)"
  using assms
proof (induction ws arbitrary: l out)
  case (Cons w ws)
  let ?c = "if i then w else BSWAP_32 w"
  have "dom ?c" using Cons.prems(1) by simp
  then have "put ?c out = Inr (out @ enc ?c)" "length (out @ enc ?c) \<le> cap"
    using Cons.prems by (auto elim!: put_cases [of ?c out])
  then show ?case
    using Cons.prems Cons.IH [of "Suc l" "out @ enc ?c"] by (auto split: if_splits)
qed simp

lemma put_stored:
  "length out \<le> cap \<Longrightarrow> (\<And>out2. length out2 \<le> cap \<Longrightarrow> length (uconv_stored (f out2)) \<le> cap) \<Longrightarrow>
   length (uconv_stored (case put c out of Inl e \<Rightarrow> UErr e out | Inr out2 \<Rightarrow> f out2)) \<le> cap"
  using put_bound [of c out] by (cases "put c out") auto

lemma from_u32_bound:
  "length out \<le> cap \<Longrightarrow> length (uconv_stored (from_u32 put i nn l ws out)) \<le> cap"
  by (induction ws arbitrary: l out) (simp_all add: put_stored)

lemma from_u16_bound:
  "length out \<le> cap \<Longrightarrow> length (uconv_stored (from_u16 put i nn l ws hi out)) \<le> cap"
proof (induction ws arbitrary: l hi out)
  case (Cons w ws)
  have "length (uconv_stored (case r of Inl e \<Rightarrow> UErr e out
        | Inr (hi', None) \<Rightarrow> from_u16 put i nn (Suc l) ws hi' out
        | Inr (hi', Some lo) \<Rightarrow> (case put lo out of Inl e \<Rightarrow> UErr e out
            | Inr out' \<Rightarrow> from_u16 put i nn (Suc l) ws hi' out'))) \<le> cap" for r
    using Cons by (cases r rule: sum.exhaust) (auto simp: put_stored split: option.split)
  then show ?case
    using Cons.prems by simp
qed simp

lemma from_u8_bound:
  "length out \<le> cap \<Longrightarrow> length (uconv_stored (from_u8 put nn l bs out)) \<le> cap"
proof (induction bs arbitrary: l out rule: length_induct)
  case (1 bs)
  show ?case
  proof (cases bs)
    case (Cons b bs')
    show ?thesis
    proof (cases "u8_get b bs'")
      case (Inr r)
      obtain c bs2 where r: "r = (c, bs2)" by (cases r)
      have "length bs2 < length bs"
        using u8_get_length [of b bs' c bs2] Inr by (simp add: r Cons)
      then have "length (uconv_stored (from_u8 put nn l2 bs2 out2)) \<le> cap"
        if "length out2 \<le> cap" for l2 out2
        using 1(1) that by blast
      then show ?thesis
        using 1(2) Inr by (simp add: Cons r put_stored)
    qed (use 1(2) in \<open>simp add: Cons\<close>)
  qed (use 1 in simp)
qed

end

lemma u8_get_enc:
  "scalar_value c \<Longrightarrow> u8_get (hd (utf8_enc c)) (tl (utf8_enc c) @ rest) = Inr (c, rest)"
  using u8_get_bytes [of "unat c" rest] by (simp add: scalar_value_def utf8_enc_def)

lemma utf8_enc_hd_0: "hd (utf8_enc c) = 0 \<Longrightarrow> scalar_value c \<Longrightarrow> c = 0"
  using u8_get_enc [of c "[]"] by (auto simp: u8_get_one)

context uconv_sink
begin

lemma from_u8_prefix:
  assumes "\<forall>c\<in>set cs. scalar_value c \<and> dom c \<and> \<not> (c = 0 \<and> nn)"
    and "length out + length (concat (map enc cs)) \<le> cap"
  shows "from_u8 put nn l (concat (map utf8_enc cs) @ rest) out =
    from_u8 put nn (l + length (concat (map utf8_enc cs))) rest (out @ concat (map enc cs))"
  using assms
proof (induction cs arbitrary: l out)
  case (Cons c cs)
  obtain b bs where e: "utf8_enc c = b # bs" by (cases "utf8_enc c") auto
  from Cons.prems have sc: "scalar_value c" "dom c" "\<not> (c = 0 \<and> nn)" by auto
  have "u8_get b (bs @ concat (map utf8_enc cs) @ rest) = Inr (c, concat (map utf8_enc cs) @ rest)"
    using u8_get_enc [OF sc(1)] by (simp add: e)
  moreover have "\<not> (b = 0 \<and> nn)"
    using utf8_enc_hd_0 [of c] sc by (auto simp: e)
  moreover have "put c out = Inr (out @ enc c)"
    using Cons.prems sc by (simp add: put_fits)
  ultimately show ?case
    using Cons.prems Cons.IH [of "out @ enc c" "Suc (l + length bs)"] by (auto simp: e add.assoc)
qed simp

lemma from_u8_fits:
  assumes "\<forall>c\<in>set cs. scalar_value c \<and> dom c \<and> \<not> (c = 0 \<and> nn)"
    and "length out + length (concat (map enc cs)) \<le> cap" and "rest = [] \<or> nn \<and> hd rest = 0"
  shows "from_u8 put nn l (concat (map utf8_enc cs) @ rest) out =
    UOk (l + length (concat (map utf8_enc cs))) (out @ concat (map enc cs))"
  unfolding from_u8_prefix [OF assms(1,2)] using assms(3) by (cases rest) auto

lemma from_u8_sound:
  assumes "\<And>c. scalar_value c \<Longrightarrow> dom c" and "from_u8 put nn l bs out = UOk n out'"
  shows "\<exists>cs rest. (\<forall>c\<in>set cs. scalar_value c) \<and> bs = concat (map utf8_enc cs) @ rest \<and>
    n = l + length (concat (map utf8_enc cs)) \<and> out' = out @ concat (map enc cs) \<and>
    (rest = [] \<or> nn \<and> hd rest = 0)"
  using assms(2)
proof (induction bs arbitrary: l out rule: length_induct)
  case (1 bs)
  show ?case
  proof (cases "bs = [] \<or> hd bs = 0 \<and> nn")
    case True
    with 1 show ?thesis by (cases bs) (auto intro: exI [of _ "[]"])
  next
    case False
    then obtain b bs1 where bs: "bs = b # bs1" "\<not> (b = 0 \<and> nn)" by (cases bs) auto
    from 1(2) obtain c bs2 out2 where g: "u8_get b bs1 = Inr (c, bs2)" and p: "put c out = Inr out2"
      and r: "from_u8 put nn (l + (Suc (length bs1) - length bs2)) bs2 out2 = UOk n out'"
      unfolding bs(1) by (rule from_u8_UOkE [OF _ bs(2)])
    from u8_get_sound [OF g] have sc: "scalar_value c" and e: "bs = utf8_enc c @ bs2"
      by (simp_all add: bs)
    have out2: "out2 = out @ enc c"
      using p by (rule_tac put_cases [OF assms(1) [OF sc], of out]) auto
    have "length bs2 < length bs"
      using u8_get_length [OF g] by (simp add: bs)
    from 1(1) [rule_format, OF this r]
    obtain cs rest where "\<forall>c\<in>set cs. scalar_value c" "bs2 = concat (map utf8_enc cs) @ rest"
      "n = l + (Suc (length bs1) - length bs2) + length (concat (map utf8_enc cs))"
      "out' = out2 @ concat (map enc cs)" "rest = [] \<or> nn \<and> hd rest = 0"
      by blast
    moreover have "Suc (length bs1) - length bs2 = length (utf8_enc c)"
      using arg_cong [OF e, of length] by (simp add: bs)
    ultimately show ?thesis
      using sc e out2 by (intro exI [of _ "c # cs"] exI [of _ rest]) auto
  qed
qed

end

text \<open>The surrogate arithmetic of the UTF-16 reader.\<close>

lemma u16_pair_value:
  fixes hi lo :: u32
  assumes "0xd800 \<le> unat hi" "unat hi < 0xdc00" "0xdc00 \<le> unat lo" "unat lo < 0xe000"
  shows "unat (((hi - 0xd800) * 0x400 + lo - 0xdc00 AND 0xfffff) + 0x10000) =
    0x10000 + (unat hi - 0xd800) * 0x400 + (unat lo - 0xdc00)"
proof -
  let ?h = "unat hi - 0xd800" and ?l = "unat lo - 0xdc00"
  define d where "d = hi - 0xd800"
  have 1: "unat d = ?h"
    using assms by (simp add: unat_sub_if' d_def)
  have 3: "unat (d * 0x400 + lo) = ?h * 0x400 + unat lo"
    using assms by (simp add: unat_word_ariths 1)
  have 4: "unat (d * 0x400 + lo - 0xdc00) = ?h * 0x400 + ?l"
    using assms by (simp add: unat_sub_if' 3)
  have "(0xfffff :: u32) = mask 20"
    by (simp add: mask_eq_exp_minus_1)
  then have 5: "unat (d * 0x400 + lo - 0xdc00 AND 0xfffff) = ?h * 0x400 + ?l"
    using assms by (simp only: take_bit_eq_mask [symmetric] unat_take_bit_mod 4) simp
  show ?thesis
    using assms unfolding d_def [symmetric] by (simp only: unat_word_ariths 5) simp
qed

lemma u16_unit_simps:
  fixes w :: u16
  shows "0xd800 \<le> unat w \<Longrightarrow> unat w < 0xdc00 \<Longrightarrow>
      u16_unit hi (ucast w) = (if hi \<noteq> 0 then Inl EILSEQ else Inr (ucast w, None))"
    and "unat w < 0xd800 \<or> 0xe000 \<le> unat w \<Longrightarrow>
      u16_unit hi (ucast w) = (if hi \<noteq> 0 then Inl EILSEQ else Inr (0, Some (ucast w)))"
    and "0xdc00 \<le> unat w \<Longrightarrow> unat w < 0xe000 \<Longrightarrow> u16_unit 0 (ucast w) = Inl EILSEQ"
  by (auto simp: u16_unit_def uconv_consts word_le_nat_alt unat_bits)

lemma u16_unit_pair:
  fixes v w :: u16
  assumes "0xd800 \<le> unat v" "unat v < 0xdc00" "0xdc00 \<le> unat w" "unat w < 0xe000"
  shows "u16_unit (ucast v) (ucast w) =
    Inr (0, Some (of_nat (0x10000 + (unat v - 0xd800) * 0x400 + (unat w - 0xdc00))))"
proof -
  have u: "unat (ucast v :: u32) = unat v" "unat (ucast w :: u32) = unat w"
    by (simp_all add: unat_bits)
  have "((ucast v - 0xd800) * 0x400 + ucast w - 0xdc00 AND 0xfffff) + 0x10000 =
      (of_nat (0x10000 + (unat v - 0xd800) * 0x400 + (unat w - 0xdc00)) :: u32)"
    using u16_pair_value [of "ucast v" "ucast w"] assms
    by (intro word_eq_unat) (simp only: u)
  moreover have "(ucast v :: u32) \<noteq> 0"
    using assms u(1) by auto
  ultimately show ?thesis
    using assms u
    by (simp add: u16_unit_def uconv_consts word_le_nat_alt del: of_nat_add of_nat_diff of_nat_mult)
qed

abbreviation ord16 :: "bool \<Rightarrow> u16 \<Rightarrow> u16" where
  "ord16 e w \<equiv> (if e then w else BSWAP_16 w)"

text \<open>The units of one character, read in one or two rounds of the loop.\<close>

lemma utf16_enc_cases:
  assumes "scalar_value c"
  obtains w where "utf16_enc c = [w]" "ucast w = c" "unat w < 0xd800 \<or> 0xe000 \<le> unat w"
  | v w where "utf16_enc c = [v, w]" "0xd800 \<le> unat v" "unat v < 0xdc00" "0xdc00 \<le> unat w"
      "unat w < 0xe000" "c = of_nat (0x10000 + (unat v - 0xd800) * 0x400 + (unat w - 0xdc00))"
proof (cases "unat c < 0x10000")
  case True
  let ?w = "of_nat (unat c) :: u16"
  have u: "unat ?w = unat c"
    using True by (simp only: unat_of_nat) simp
  show thesis
  proof (rule that(1))
    show "utf16_enc c = [?w]" using True by (simp add: utf16_enc_def utf16_units_def)
    show "ucast ?w = c" by (rule ucast_eq_of_nat [OF u, THEN trans]) simp
    show "unat ?w < 0xd800 \<or> 0xe000 \<le> unat ?w"
      using assms True unfolding u by (auto simp: scalar_value_def)
  qed
next
  case False
  let ?n = "unat c - 0x10000"
  have n: "?n < 0x100000" using assms False by (auto simp: scalar_value_def)
  let ?v = "of_nat (0xd800 + ?n div 0x400) :: u16" and ?w = "of_nat (0xdc00 + ?n mod 0x400) :: u16"
  have d: "?n div 0x400 < 0x400" using n by (simp add: less_mult_imp_div_less)
  have v: "unat ?v = 0xd800 + ?n div 0x400"
    using d by (simp only: unat_of_nat) simp
  have w: "unat ?w = 0xdc00 + ?n mod 0x400"
    by (simp only: unat_of_nat) simp
  show thesis
  proof (rule that(2))
    show "utf16_enc c = [?v, ?w]" using False by (simp add: utf16_enc_def utf16_units_def)
    show "0xd800 \<le> unat ?v" "unat ?v < 0xdc00" "0xdc00 \<le> unat ?w" "unat ?w < 0xe000"
      unfolding v w using d by simp_all
    have "0x10000 + ?n div 0x400 * 0x400 + ?n mod 0x400 = unat c"
      using False div_mult_mod_eq [of ?n "0x400"] by linarith
    then show "c = of_nat (0x10000 + (unat ?v - 0xd800) * 0x400 + (unat ?w - 0xdc00))"
      unfolding v w by (simp del: of_nat_add of_nat_mult of_nat_diff)
  qed
qed

context uconv_sink
begin

lemma from_u16_prefix:
  assumes "\<forall>c\<in>set cs. scalar_value c \<and> dom c \<and> \<not> (c = 0 \<and> nn)"
    and "length out + length (concat (map enc cs)) \<le> cap"
  shows "from_u16 put i nn l (concat (map (\<lambda>c. map (ord16 i) (utf16_enc c)) cs) @ rest) 0 out =
    from_u16 put i nn (l + length (concat (map utf16_enc cs))) rest 0 (out @ concat (map enc cs))"
  using assms
proof (induction cs arbitrary: l out)
  case (Cons c cs)
  from Cons.prems have sc: "scalar_value c" "\<not> (c = 0 \<and> nn)" and p: "put c out = Inr (out @ enc c)"
    by (auto simp: put_fits)
  note IH = Cons.IH [of "out @ enc c"]
  from sc(1) show ?case
  proof (cases rule: utf16_enc_cases)
    case (1 w)
    then show ?thesis
      using sc p Cons.prems IH by (auto simp: u16_unit_simps)
  next
    case (2 v w)
    then have "v \<noteq> 0" "w \<noteq> 0" by auto
    then show ?thesis
      using 2 sc p Cons.prems IH u16_unit_pair [OF 2(2-5)]
      by (auto simp: u16_unit_simps simp del: of_nat_add of_nat_mult of_nat_diff)
  qed
qed simp

lemma from_u16_fits:
  assumes "\<forall>c\<in>set cs. scalar_value c \<and> dom c \<and> \<not> (c = 0 \<and> nn)"
    and "length out + length (concat (map enc cs)) \<le> cap" and "rest = [] \<or> nn \<and> hd rest = 0"
  shows "from_u16 put i nn l (concat (map (\<lambda>c. map (ord16 i) (utf16_enc c)) cs) @ rest) 0 out =
    UOk (l + length (concat (map utf16_enc cs))) (out @ concat (map enc cs))"
  unfolding from_u16_prefix [OF assms(1,2)] using assms(3) by (cases rest) auto

end

lemma utf_lengths:
  "length (utf8_enc c) \<le> 4" "0 < length (utf8_enc c)"
  "length (utf16_enc c) \<le> 2" "0 < length (utf16_enc c)"
  by (simp_all add: utf8_enc_def utf8_bytes_def utf16_enc_def utf16_units_def)

lemma utf16_enc_single:
  fixes v :: u16
  assumes "unat v < 0xd800 \<or> 0xe000 \<le> unat v"
  shows "utf16_enc (ucast v) = [v]" and "scalar_value (ucast v)"
proof -
  have u: "unat (ucast v :: u32) = unat v" by (simp add: unat_bits)
  have "unat v < 0x10000" by (rule order_less_le_trans [OF unsigned_less]) simp
  then show "utf16_enc (ucast v) = [v]" "scalar_value (ucast v)"
    using assms by (auto simp: utf16_enc_def utf16_units_def scalar_value_def u)
qed

lemma utf16_enc_pair:
  fixes v w :: u16
  assumes "0xd800 \<le> unat v" "unat v < 0xdc00" "0xdc00 \<le> unat w" "unat w < 0xe000"
  defines "c \<equiv> of_nat (0x10000 + (unat v - 0xd800) * 0x400 + (unat w - 0xdc00)) :: u32"
  shows "utf16_enc c = [v, w]" and "scalar_value c"
proof -
  define h l where "h = unat v - 0xd800" and "l = unat w - 0xdc00"
  have hl: "h < 0x400" "l < 0x400" "v = of_nat (0xd800 + h)" "w = of_nat (0xdc00 + l)"
    using assms by (simp_all add: h_def l_def)
  have c: "unat c = 0x10000 + h * 0x400 + l"
    unfolding c_def h_def [symmetric] l_def [symmetric] using hl by (intro unat_u32) simp
  then show "scalar_value c"
    using hl by (simp add: scalar_value_def)
  have "(unat c - 0x10000) div 0x400 = h" "(unat c - 0x10000) mod 0x400 = l"
    unfolding c using hl by simp_all
  then show "utf16_enc c = [v, w]"
    using c hl by (simp add: utf16_enc_def utf16_units_def)
qed

lemma u16_unit_after_high:
  assumes "hi \<noteq> 0" "u16_unit hi (ucast (w :: u16)) = Inr r"
  shows "0xdc00 \<le> unat w \<and> unat w < 0xe000"
  using assms u16_unit_simps(1,2) [of w hi] by (metis Inl_Inr_False not_le)

text \<open>A successful run takes the units of one character off the front at a time.\<close>

lemma from_u16_UOkE:
  assumes "from_u16 put i nn l (w # ws) 0 out = UOk n out'" "\<not> (w = 0 \<and> nn)"
  obtains c ws2 out2 where "scalar_value c" "w # ws = map (ord16 i) (utf16_enc c) @ ws2"
    "put c out = Inr out2"
    "from_u16 put i nn (l + length (utf16_enc c)) ws2 0 out2 = UOk n out'"
proof -
  define v where "v = ord16 i w"
  then have w: "w = ord16 i v" by simp
  consider "unat v < 0xd800 \<or> 0xe000 \<le> unat v" | "0xdc00 \<le> unat v" "unat v < 0xe000"
    | "0xd800 \<le> unat v" "unat v < 0xdc00" by linarith
  then show thesis
  proof cases
    case 1
    from 1 obtain out2 where "put (ucast v) out = Inr out2"
        "from_u16 put i nn (Suc l) ws 0 out2 = UOk n out'"
      using assms by (auto simp: v_def [symmetric] u16_unit_simps split: sum.splits)
    then show thesis
      using utf16_enc_single [OF 1] w by (intro that [of "ucast v" ws out2]) simp_all
  next
    case 2
    then show thesis using assms by (simp add: v_def [symmetric] u16_unit_simps)
  next
    case 3
    then have hi: "(ucast v :: u32) \<noteq> 0"
      by (metis ucast_back(2) ucast_0 unat_0 not_numeral_le_zero)
    from 3 assms have r: "from_u16 put i nn (Suc l) ws (ucast v) out = UOk n out'"
      by (simp add: v_def [symmetric] u16_unit_simps)
    then obtain w2 ws2 where ws: "ws = w2 # ws2" "\<not> (w2 = 0 \<and> nn)"
      using hi by (cases ws) (auto split: if_splits)
    define v2 where "v2 = ord16 i w2"
    then have w2: "w2 = ord16 i v2" by simp
    from r ws hi obtain p where "u16_unit (ucast v) (ucast v2) = Inr p"
      by (cases "u16_unit (ucast v) (ucast v2)") (auto simp: v2_def [symmetric])
    then have lo: "0xdc00 \<le> unat v2" "unat v2 < 0xe000"
      using u16_unit_after_high [OF hi] by auto
    let ?c = "of_nat (0x10000 + (unat v - 0xd800) * 0x400 + (unat v2 - 0xdc00)) :: u32"
    from r ws obtain out2 where "put ?c out = Inr out2"
        "from_u16 put i nn (Suc (Suc l)) ws2 0 out2 = UOk n out'"
      using u16_unit_pair [OF 3 lo]
      by (auto simp: v2_def [symmetric] split: sum.splits simp del: of_nat_add of_nat_mult of_nat_diff)
    then show thesis
      using utf16_enc_pair [OF 3 lo] w w2 ws
      by (intro that [of ?c ws2 out2]) (simp_all del: of_nat_add of_nat_mult of_nat_diff)
  qed
qed

context uconv_sink
begin

lemma from_u16_sound:
  assumes "\<And>c. scalar_value c \<Longrightarrow> dom c" and "from_u16 put i nn l ws 0 out = UOk n out'"
  shows "\<exists>cs rest. (\<forall>c\<in>set cs. scalar_value c \<and> \<not> (c = 0 \<and> nn)) \<and>
    ws = concat (map (\<lambda>c. map (ord16 i) (utf16_enc c)) cs) @ rest \<and>
    n = l + length (concat (map utf16_enc cs)) \<and> out' = out @ concat (map enc cs) \<and>
    (rest = [] \<or> nn \<and> hd rest = 0)"
  using assms(2)
proof (induction ws arbitrary: l out rule: length_induct)
  case (1 ws)
  show ?case
  proof (cases "ws = [] \<or> hd ws = 0 \<and> nn")
    case True
    with 1 show ?thesis by (cases ws) (auto intro: exI [of _ "[]"])
  next
    case False
    then obtain w ws1 where ws: "ws = w # ws1" "\<not> (w = 0 \<and> nn)" by (cases ws) auto
    from 1(2) obtain c ws2 out2 where g: "scalar_value c" "ws = map (ord16 i) (utf16_enc c) @ ws2"
      "put c out = Inr out2"
      "from_u16 put i nn (l + length (utf16_enc c)) ws2 0 out2 = UOk n out'"
      unfolding ws(1) by (rule from_u16_UOkE [OF _ ws(2)])
    have out2: "out2 = out @ enc c"
      using g(3) by (rule_tac put_cases [OF assms(1) [OF g(1)], of out]) auto
    have "length ws2 < length ws"
      using g(2) utf_lengths(4) [of c] by simp
    from 1(1) [rule_format, OF this g(4)]
    obtain cs rest where "\<forall>c\<in>set cs. scalar_value c \<and> \<not> (c = 0 \<and> nn)"
      "ws2 = concat (map (\<lambda>c. map (ord16 i) (utf16_enc c)) cs) @ rest"
      "n = l + length (utf16_enc c) + length (concat (map utf16_enc cs))"
      "out' = out2 @ concat (map enc cs)" "rest = [] \<or> nn \<and> hd rest = 0"
      by blast
    moreover have "\<not> (c = 0 \<and> nn)"
      using g(2) ws by (auto simp: utf16_enc_def utf16_units_def split: if_splits)
    ultimately show ?thesis
      using g out2 by (intro exI [of _ "c # cs"] exI [of _ rest]) auto
  qed
qed

end

section \<open>The three target forms meet the interface\<close>

abbreviation ord32 :: "bool \<Rightarrow> u32 \<Rightarrow> u32" where
  "ord32 e w \<equiv> (if e then w else BSWAP_32 w)"

interpretation to_u8: uconv_sink "put_u8 cap" cap utf8_enc "\<lambda>c. unat c \<le> 0x10ffff"
  for cap
  by unfold_locales (auto simp: put_u8_eq split: if_splits)

interpretation to_u16: uconv_sink "put_u16 e cap" cap "\<lambda>c. map (ord16 e) (utf16_enc c)"
    "\<lambda>c. unat c \<le> 0x10ffff"
  for e cap
proof
  fix c out out'
  show "put_u16 e cap c out = Inr out' \<Longrightarrow> length out' \<le> cap"
    by (auto simp: put_u16_def Let_def split: if_splits)
qed (auto simp: put_u16_eq id_def)

interpretation to_u16_checked: uconv_sink "put_u16_checked e cap" cap "\<lambda>c. map (ord16 e) (utf16_enc c)"
    "\<lambda>c. unat c \<le> 0x10ffff"
  for e cap
  by unfold_locales
     (auto simp: put_u16_checked_def uconv_consts word_less_nat_alt
           dest: to_u16.put_fits to_u16.put_full to_u16.put_bound split: if_splits)

interpretation to_u32: uconv_sink "put_u32 e cap" cap "\<lambda>c. [ord32 e c]" "\<lambda>c. True"
  for e cap
  by unfold_locales (auto simp: put_u32_def split: if_splits)

section \<open>Correctness of the conversions\<close>

text \<open>Without a BOM flag the BOM steps do nothing.\<close>

lemma bom_in_none: "flag AND UCONV_IN_ACCEPT_BOM = 0 \<Longrightarrow>
    bom_in flag bom inE = (0, inE AND UCONV_IN_NAT_ENDIAN \<noteq> 0)"
  by (simp add: bom_in_def)

lemma bom_out_none: "flag AND UCONV_OUT_EMIT_BOM = 0 \<Longrightarrow> bom_out flag e n m x y = []"
  by (simp add: bom_out_def)

lemma bom_out_bound: "length (bom_out flag e n m x y) \<le> m"
  by (simp add: bom_out_def)

lemma concat_bound: "(\<And>x. length (f x) \<le> k) \<Longrightarrow> length (concat (map f xs)) \<le> k * length xs"
  by (induction xs) (auto simp: add_mono)

lemma concat_single: "concat (map (\<lambda>x. [f x]) xs) = map f xs"
  by (induction xs) auto

lemma length_concat_map_map [simp]:
  "length (concat (map (\<lambda>x. map f (g x)) xs)) = length (concat (map g xs))"
  by (induction xs) auto

lemma concat_map_map: "concat (map (\<lambda>x. map f (g x)) xs) = map f (concat (map g xs))"
  by (induction xs) auto

lemma ord_ord [simp]: "ord32 e (ord32 e x) = x" "ord16 e (ord16 e y) = y"
  by (cases e; simp)+

lemma map_ord_ord [simp]:
  "map (\<lambda>x. ord32 i (ord32 i x)) xs = xs" "map (ord16 i) (map (ord16 i) ys) = ys"
  "map (ord32 i) (map (ord32 i) xs) = xs"
  by (cases i; simp add: comp_def)+

lemma uconv_plain:
  assumes "check_endian flag = Inr (inE, outE)"
  defines "i \<equiv> inE AND UCONV_IN_NAT_ENDIAN \<noteq> 0" and "e \<equiv> outE AND UCONV_OUT_NAT_ENDIAN \<noteq> 0"
    and "nn \<equiv> do_not_ignore_null flag"
  shows "flag AND UCONV_IN_ACCEPT_BOM = 0 \<Longrightarrow>
      uconv_u32tou8 (Some w32) (Some n) flag = from_u32 (put_u8 n) i nn 0 w32 []"
    and "flag AND UCONV_IN_ACCEPT_BOM = 0 \<Longrightarrow>
      uconv_u16tou8 (Some w16) (Some n) flag = from_u16 (put_u8 n) i nn 0 w16 0 []"
    and "flag AND UCONV_OUT_EMIT_BOM = 0 \<Longrightarrow>
      uconv_u8tou16 (Some w8) (Some n) flag = from_u8 (put_u16 e n) nn 0 w8 []"
    and "flag AND UCONV_OUT_EMIT_BOM = 0 \<Longrightarrow>
      uconv_u8tou32 (Some w8) (Some n) flag = from_u8 (put_u32 e n) nn 0 w8 []"
    and "flag AND UCONV_IN_ACCEPT_BOM = 0 \<Longrightarrow> flag AND UCONV_OUT_EMIT_BOM = 0 \<Longrightarrow>
      uconv_u32tou16 (Some w32) (Some n) flag = from_u32 (put_u16_checked e n) i nn 0 w32 []"
    and "flag AND UCONV_IN_ACCEPT_BOM = 0 \<Longrightarrow> flag AND UCONV_OUT_EMIT_BOM = 0 \<Longrightarrow>
      uconv_u16tou32 (Some w16) (Some n) flag = from_u16 (put_u32 e n) i nn 0 w16 0 []"
  using assms(1)
  by (simp_all add: uconv_u16tou32_def uconv_u16tou8_def uconv_u32tou16_def uconv_u32tou8_def
        uconv_u8tou16_def uconv_u8tou32_def bom_in_none bom_out_none i_def e_def nn_def)

text \<open>
  C36. Converting UTF-32 to UTF-8 and back is the identity: for any scalar values in the
  byte order that \<open>flag1\<close> declares for the input (U+0000 among them when both calls ignore
  nulls), with room for four bytes a character, \<^const>\<open>uconv_u32tou8\<close>, not looking for a
  byte-order mark, succeeds and consumes everything, and \<^const>\<open>uconv_u8tou32\<close> on what it
  stored, asked for the same byte order and not for a byte-order mark, succeeds, consumes
  every byte and returns the original buffer.
\<close>

theorem uconv_utf8_roundtrip:
  assumes "check_endian flag1 = Inr (inE, outE1)" "check_endian flag2 = Inr (inE2, outE)"
    and order: "(inE AND UCONV_IN_NAT_ENDIAN \<noteq> 0) = (outE AND UCONV_OUT_NAT_ENDIAN \<noteq> 0)"
    and "flag1 AND UCONV_IN_ACCEPT_BOM = 0" "flag2 AND UCONV_OUT_EMIT_BOM = 0"
    and scalars: "\<forall>w\<in>set u32s. scalar_value (if inE AND UCONV_IN_NAT_ENDIAN \<noteq> 0 then w else BSWAP_32 w)"
    and nulls: "0 \<in> set u32s \<Longrightarrow> \<not> do_not_ignore_null flag1 \<and> \<not> do_not_ignore_null flag2"
    and room: "4 * length u32s \<le> utf8len" "length u32s \<le> utf32len"
  shows "\<exists>u8s. uconv_u32tou8 (Some u32s) (Some utf8len) flag1 = UOk (length u32s) u8s \<and>
    uconv_u8tou32 (Some u8s) (Some utf32len) flag2 = UOk (length u8s) u32s"
proof -
  define i where "i \<longleftrightarrow> inE AND UCONV_IN_NAT_ENDIAN \<noteq> 0"
  let ?cs = "map (ord32 i) u32s"
  let ?u8s = "concat (map utf8_enc ?cs)"
  have sc: "\<forall>w\<in>set u32s. scalar_value (ord32 i w)"
    using scalars by (simp add: i_def)
  have len: "length ?u8s \<le> utf8len"
    using concat_bound [of utf8_enc 4 ?cs] utf_lengths(1) room by simp
  have "\<forall>w\<in>set u32s. unat (ord32 i w) \<le> 0x10ffff \<and> \<not> (w = 0 \<and> do_not_ignore_null flag1)"
    using sc nulls by (auto simp: scalar_value_def)
  from to_u8.from_u32_fits [OF this, of "[]" utf8len 0] len
  have "from_u32 (put_u8 utf8len) i (do_not_ignore_null flag1) 0 u32s [] = UOk (length u32s) ?u8s"
    by (simp add: comp_def)
  then have "uconv_u32tou8 (Some u32s) (Some utf8len) flag1 = UOk (length u32s) ?u8s"
    using uconv_plain(1) [OF assms(1,4), of u32s utf8len] by (simp add: i_def)
  moreover have "from_u8 (put_u32 i utf32len) (do_not_ignore_null flag2) 0 ?u8s [] = UOk (length ?u8s) u32s"
  proof -
    have "\<forall>c\<in>set ?cs. scalar_value c \<and> True \<and> \<not> (c = 0 \<and> do_not_ignore_null flag2)"
      using sc nulls by auto
    from to_u32.from_u8_fits [OF this, of "[]" i utf32len "[]" 0] room show ?thesis
      by (simp add: concat_single comp_def)
  qed
  then have "uconv_u8tou32 (Some ?u8s) (Some utf32len) flag2 = UOk (length ?u8s) u32s"
    using uconv_plain(4) [OF assms(2,5), of ?u8s utf32len] order by (simp add: i_def)
  ultimately show ?thesis by blast
qed


theorem uconv_utf8_roundtrip_witness:
  "\<exists>u8s. uconv_u32tou8 (Some [0x41, 0x20ac, 0x1f600]) (Some 12) 0 = UOk 3 u8s \<and>
    uconv_u8tou32 (Some u8s) (Some 3) 0 = UOk (length u8s) [0x41, 0x20ac, 0x1f600]"
proof -
  have e: "check_endian 0 = Inr (UCONV_IN_BIG_ENDIAN, UCONV_OUT_BIG_ENDIAN)"
    by (simp add: check_endian_def uconv_flags)
  show ?thesis
    using uconv_utf8_roundtrip [OF e e, of "[0x41, 0x20ac, 0x1f600]" 12 3]
    by (simp add: uconv_flags scalar_value_def numeral_3_eq_3)
qed

text \<open>
  C37. What \<^const>\<open>uconv_u8tou32\<close> accepts is well-formed UTF-8 and nothing else: when it
  returns 0, the bytes it consumed are exactly the shortest-form encodings of the scalar
  values it stored (no overlong form, no surrogate, nothing beyond U+10FFFF), after the
  byte-order mark when one was asked for and there was any input and any room; and it stopped
  at the end of the input or at a null byte it was told to stop at.
\<close>

theorem uconv_u8tou32_wellformed:
  assumes "check_endian flag = Inr (inE, outE)"
    and "uconv_u8tou32 (Some u8s) (Some utf32len) flag = UOk n u32s"
  shows "\<exists>cs. (\<forall>c\<in>set cs. scalar_value c) \<and> take n u8s = concat (map utf8_enc cs) \<and>
    u32s = map (\<lambda>c. if outE AND UCONV_OUT_NAT_ENDIAN \<noteq> 0 then c else BSWAP_32 c)
      ((if flag AND UCONV_OUT_EMIT_BOM \<noteq> 0 \<and> 0 < length u8s \<and> 0 < utf32len then [UCONV_BOM_NORMAL] else []) @ cs) \<and>
    (n = length u8s \<or> n < length u8s \<and> do_not_ignore_null flag \<and> u8s ! n = 0)"
proof -
  let ?e = "outE AND UCONV_OUT_NAT_ENDIAN \<noteq> 0"
  let ?bom = "if flag AND UCONV_OUT_EMIT_BOM \<noteq> 0 \<and> 0 < length u8s \<and> 0 < utf32len then [UCONV_BOM_NORMAL] else []"
  have "UCONV_BOM_SWAPPED_32 = BSWAP_32 UCONV_BOM_NORMAL" by code_simp
  then have "bom_out flag ?e (length u8s) utf32len UCONV_BOM_NORMAL UCONV_BOM_SWAPPED_32 = map (ord32 ?e) ?bom"
    by (simp add: bom_out_def)
  then have "from_u8 (put_u32 ?e utf32len) (do_not_ignore_null flag) 0 u8s (map (ord32 ?e) ?bom) = UOk n u32s"
    using assms unfolding uconv_u8tou32_def Let_def by (simp only: option.case sum.case prod.case)
  from to_u32.from_u8_sound [OF TrueI this] obtain cs rest where
    "\<forall>c\<in>set cs. scalar_value c" "u8s = concat (map utf8_enc cs) @ rest"
    "n = length (concat (map utf8_enc cs))" "u32s = map (ord32 ?e) (?bom @ cs)"
    "rest = [] \<or> do_not_ignore_null flag \<and> hd rest = 0"
    by (auto simp only: concat_single map_append add_0)
  then show ?thesis
    by (intro exI [of _ cs]) (cases rest; auto simp: nth_append)
qed

theorem uconv_u8tou32_wellformed_witness:
  "\<exists>cs. (\<forall>c\<in>set cs. scalar_value c) \<and> take 3 [0xe2, 0x82, 0xac :: u8] = concat (map utf8_enc cs) \<and>
    [0x20ac] =
      map (\<lambda>c. if UCONV_OUT_BIG_ENDIAN AND UCONV_OUT_NAT_ENDIAN \<noteq> 0 then c else BSWAP_32 c) cs"
proof -
  have e: "check_endian 0 = Inr (UCONV_IN_BIG_ENDIAN, UCONV_OUT_BIG_ENDIAN)"
    by (simp add: check_endian_def uconv_flags)
  have "uconv_u8tou32 (Some [0xe2, 0x82, 0xac]) (Some 1) 0 = UOk 3 [0x20ac]"
    by code_simp
  from uconv_u8tou32_wellformed [OF e this] show ?thesis
    by auto
qed

text \<open>
  C38. Any input \<^const>\<open>uconv_u16tou32\<close> accepts converts back to itself: when it returns 0
  after \<open>n\<close> units, \<^const>\<open>uconv_u32tou16\<close> on what it stored, with the byte orders exchanged,
  nulls ignored and room for the \<open>n\<close> units, returns exactly those units.  Neither call looks
  for a byte-order mark in its input or writes one.
\<close>

theorem uconv_utf16_roundtrip:
  assumes "check_endian flag1 = Inr (inE1, outE1)" "check_endian flag2 = Inr (inE2, outE2)"
    and "(inE1 AND UCONV_IN_NAT_ENDIAN \<noteq> 0) = (outE2 AND UCONV_OUT_NAT_ENDIAN \<noteq> 0)"
    and "(outE1 AND UCONV_OUT_NAT_ENDIAN \<noteq> 0) = (inE2 AND UCONV_IN_NAT_ENDIAN \<noteq> 0)"
    and "flag1 AND UCONV_IN_ACCEPT_BOM = 0" "flag1 AND UCONV_OUT_EMIT_BOM = 0"
    and "flag2 AND UCONV_IN_ACCEPT_BOM = 0" "flag2 AND UCONV_OUT_EMIT_BOM = 0"
    and "\<not> do_not_ignore_null flag2"
    and run: "uconv_u16tou32 (Some u16s) (Some utf32len) flag1 = UOk n u32s" and "n \<le> utf16len"
  shows "uconv_u32tou16 (Some u32s) (Some utf16len) flag2 = UOk (length u32s) (take n u16s)"
proof -
  define i where "i \<longleftrightarrow> inE1 AND UCONV_IN_NAT_ENDIAN \<noteq> 0"
  define e where "e \<longleftrightarrow> outE1 AND UCONV_OUT_NAT_ENDIAN \<noteq> 0"
  have "from_u16 (put_u32 e utf32len) i (do_not_ignore_null flag1) 0 u16s 0 [] = UOk n u32s"
    using run uconv_plain(6) [OF assms(1,5,6)] by (simp add: i_def e_def)
  from to_u32.from_u16_sound [OF TrueI this] obtain cs rest where
    cs: "\<forall>c\<in>set cs. scalar_value c" "u16s = map (ord16 i) (concat (map utf16_enc cs)) @ rest"
    "n = length (concat (map utf16_enc cs))" "u32s = map (ord32 e) cs"
    by (auto simp: concat_single concat_map_map)
  have "\<forall>w\<in>set u32s. unat (ord32 e w) \<le> 0x10ffff \<and> \<not> (w = 0 \<and> False)"
    using cs(1) unfolding cs(4) scalar_value_def by (auto split: if_splits)
  from to_u16_checked.from_u32_fits [OF this, of "[]" i utf16len 0]
  have "from_u32 (put_u16_checked i utf16len) e False 0 u32s [] =
      UOk (length u32s) (map (ord16 i) (concat (map utf16_enc cs)))"
    using assms(11) unfolding cs(3,4) map_ord_ord
    by (simp add: concat_map_map comp_def flip: concat_map_map)
  then show ?thesis
    using uconv_plain(5) [OF assms(2,7,8)] assms(3,4,9) cs by (simp add: i_def e_def)
qed


theorem uconv_utf16_roundtrip_witness:
  "uconv_u32tou16 (Some [0x1f600, 0x41]) (Some 3) UCONV_IGNORE_NULL = UOk 2 [0xd83d, 0xde00, 0x41]"
proof -
  have e: "check_endian 0 = Inr (UCONV_IN_BIG_ENDIAN, UCONV_OUT_BIG_ENDIAN)"
      "check_endian UCONV_IGNORE_NULL = Inr (UCONV_IN_BIG_ENDIAN, UCONV_OUT_BIG_ENDIAN)"
    by (simp_all add: check_endian_def uconv_flags)
  have r: "uconv_u16tou32 (Some [0xd83d, 0xde00, 0x41]) (Some 2) 0 = UOk 3 [0x1f600, 0x41]"
    by code_simp
  show ?thesis
    using uconv_utf16_roundtrip [OF e _ _ _ _ _ _ _ r, of 3]
    by (simp add: uconv_flags do_not_ignore_null_def)
qed

text \<open>
  \<^const>\<open>uconv_u16tou8\<close> is \<^const>\<open>uconv_u16tou32\<close> followed by \<^const>\<open>uconv_u32tou8\<close>: when the
  two steps succeed (through a native-order UTF-32 buffer, the second one ignoring nulls), the
  one-step conversion succeeds with the same bytes and consumes the same number of units.  The
  flags ask neither to look for a byte-order mark nor to write one: the UTF-32 buffer would get
  the mark and hand it to the second step, and the one-step conversion writes none.
\<close>

theorem uconv_u16tou8_composes:
  assumes "check_endian flag = Inr (inE, UCONV_OUT_NAT_ENDIAN)"
    and "flag AND UCONV_IN_ACCEPT_BOM = 0" "flag AND UCONV_OUT_EMIT_BOM = 0"
    and run1: "uconv_u16tou32 (Some u16s) (Some utf32len) flag = UOk n u32s"
    and run2: "uconv_u32tou8 (Some u32s) (Some utf8len) UCONV_IGNORE_NULL = UOk m u8s"
  shows "uconv_u16tou8 (Some u16s) (Some utf8len) flag = UOk n u8s"
proof -
  define i where "i \<longleftrightarrow> inE AND UCONV_IN_NAT_ENDIAN \<noteq> 0"
  define nn where "nn = do_not_ignore_null flag"
  have e: "UCONV_OUT_NAT_ENDIAN AND UCONV_OUT_NAT_ENDIAN \<noteq> 0"
    by (simp add: uconv_flags)
  have "from_u16 (put_u32 True utf32len) i nn 0 u16s 0 [] = UOk n u32s"
    using run1 uconv_plain(6) [OF assms(1,2,3)] e by (simp add: i_def nn_def)
  from to_u32.from_u16_sound [OF TrueI this] obtain cs rest where
    cs: "\<forall>c\<in>set cs. scalar_value c \<and> \<not> (c = 0 \<and> nn)"
      "u16s = concat (map (\<lambda>c. map (ord16 i) (utf16_enc c)) cs) @ rest"
    "n = length (concat (map utf16_enc cs))" "u32s = cs" "rest = [] \<or> nn \<and> hd rest = 0"
    by (auto simp: concat_single)
  have sc: "\<forall>c\<in>set cs. scalar_value c \<and> unat c \<le> 0x10ffff \<and> \<not> (c = 0 \<and> nn)"
    using cs(1) by (auto simp: scalar_value_def)
  have ce: "check_endian UCONV_IGNORE_NULL = Inr (UCONV_IN_NAT_ENDIAN, UCONV_OUT_NAT_ENDIAN)"
    by (simp add: check_endian_def uconv_flags)
  have r: "from_u32 (put_u8 utf8len) True False 0 cs [] = UOk m u8s"
    using run2 uconv_plain(1) [OF ce, of cs utf8len] cs(4)
    by (simp add: uconv_flags do_not_ignore_null_def)
  have "u8s = concat (map utf8_enc cs)"
    using to_u8.from_u32_sound [OF _ r] sc by auto
  moreover have "length u8s \<le> utf8len"
    using to_u8.from_u32_bound [of "[]" utf8len True False 0 cs] r by simp
  ultimately show ?thesis
    using to_u8.from_u16_fits [OF sc, of "[]" utf8len rest i 0] cs uconv_plain(2) [OF assms(1,2)]
    by (simp add: i_def nn_def)
qed


theorem uconv_u16tou8_composes_witness:
  "uconv_u16tou8 (Some [0xd83d, 0xde00, 0x41]) (Some 5) 0 = UOk 3 [0xf0, 0x9f, 0x98, 0x80, 0x41]"
proof -
  have e: "check_endian 0 = Inr (UCONV_IN_BIG_ENDIAN, UCONV_OUT_NAT_ENDIAN)"
    by (simp add: check_endian_def uconv_flags)
  have r: "uconv_u16tou32 (Some [0xd83d, 0xde00, 0x41]) (Some 2) 0 = UOk 3 [0x1f600, 0x41]"
    "uconv_u32tou8 (Some [0x1f600, 0x41]) (Some 5) UCONV_IGNORE_NULL =
      UOk 2 [0xf0, 0x9f, 0x98, 0x80, 0x41]"
    by code_simp+
  show ?thesis
    by (rule uconv_u16tou8_composes [OF e _ _ r]) simp_all
qed

text \<open>
  C39. No conversion stores past the end of its output buffer: with any input and any flags,
  whether the call succeeds or fails, the number of elements it has stored is at most the
  capacity it was given.
\<close>

theorem uconv_output_bounds:
  "length (uconv_stored (uconv_u16tou32 u16s (Some cap) flag)) \<le> cap \<and>
   length (uconv_stored (uconv_u16tou8 u16s (Some cap) flag)) \<le> cap \<and>
   length (uconv_stored (uconv_u32tou16 u32s (Some cap) flag)) \<le> cap \<and>
   length (uconv_stored (uconv_u32tou8 u32s (Some cap) flag)) \<le> cap \<and>
   length (uconv_stored (uconv_u8tou16 u8s (Some cap) flag)) \<le> cap \<and>
   length (uconv_stored (uconv_u8tou32 u8s (Some cap) flag)) \<le> cap"
  by (simp add: uconv_u16tou32_def uconv_u16tou8_def uconv_u32tou16_def uconv_u32tou8_def
        uconv_u8tou16_def uconv_u8tou32_def Let_def bom_out_bound
        to_u32.from_u16_bound to_u8.from_u16_bound to_u16_checked.from_u32_bound
        to_u8.from_u32_bound to_u16.from_u8_bound to_u32.from_u8_bound
      split: option.split sum.split prod.split)

lemma u16_unit_lone:
  "hi \<noteq> 0 \<Longrightarrow> \<not> (0xdc00 \<le> unat w \<and> unat w \<le> 0xdfff) \<Longrightarrow> u16_unit hi (ucast (w :: u16)) = Inl EILSEQ"
  by (auto simp: u16_unit_def uconv_consts word_le_nat_alt unat_ucast_up)

lemma u16_high_nonzero:
  "0xd800 \<le> unat hi \<Longrightarrow> hi \<noteq> 0 \<and> (ucast (hi :: u16) :: u32) \<noteq> 0"
  using unat_ucast_up [where 'b = 32, of hi] by auto

text \<open>
  An unpaired surrogate in UTF-16 input is refused by both UTF-16 readers, after the
  characters before it were stored: a low surrogate with no high one before it, or a high one
  followed by anything but a low one, gives EILSEQ, and a high one at the end of the input
  gives EINVAL.
\<close>

theorem uconv_u16_surrogates:
  assumes "check_endian flag = Inr (inE, outE)" "flag AND UCONV_IN_ACCEPT_BOM = 0"
    and "inE AND UCONV_IN_NAT_ENDIAN \<noteq> 0"
    and cs: "\<forall>c\<in>set cs. scalar_value c \<and> c \<noteq> 0"
    and "length (concat (map utf8_enc cs)) \<le> utf8len"
    and bad: "ws = lo # ws' \<and> 0xdc00 \<le> lo \<and> lo \<le> 0xdfff \<and> e = EILSEQ \<or>
      ws = hi # w # ws' \<and> 0xd800 \<le> hi \<and> hi \<le> 0xdbff \<and> w \<noteq> 0 \<and>
        \<not> (0xdc00 \<le> w \<and> w \<le> 0xdfff) \<and> e = EILSEQ \<or>
      ws = [hi] \<and> 0xd800 \<le> hi \<and> hi \<le> 0xdbff \<and> e = EINVAL"
  shows "uconv_u16tou8 (Some (concat (map utf16_enc cs) @ ws)) (Some utf8len) flag =
    UErr e (concat (map utf8_enc cs))"
proof -
  define nn where "nn = do_not_ignore_null flag"
  have "from_u16 (put_u8 utf8len) True nn l ws 0 out = UErr e out" for l out
    using bad
  proof (elim disjE conjE)
    assume "ws = hi # w # ws'" "0xd800 \<le> hi" "hi \<le> 0xdbff" "w \<noteq> 0" "e = EILSEQ"
      "\<not> (0xdc00 \<le> w \<and> w \<le> 0xdfff)"
    then show ?thesis
      using u16_unit_lone [of "ucast hi" w] u16_high_nonzero [of hi]
      by (simp add: word_le_nat_alt u16_unit_simps not_le)
  qed (use u16_high_nonzero [of hi] in \<open>auto simp: word_le_nat_alt u16_unit_simps\<close>)
  moreover have "\<forall>c\<in>set cs. scalar_value c \<and> unat c \<le> 0x10ffff \<and> \<not> (c = 0 \<and> nn)"
    using cs by (auto simp: scalar_value_def)
  ultimately show ?thesis
    using to_u8.from_u16_prefix [of cs nn "[]" utf8len True 0 ws] assms
      uconv_plain(2) [OF assms(1,2)] by (simp add: nn_def)
qed

theorem uconv_u16_surrogates_witness:
  "uconv_u16tou8 (Some [0x41, 0xdc00, 0x42]) (Some 8) 0 = UErr EILSEQ [0x41] \<and>
   uconv_u16tou8 (Some [0x41, 0xd800]) (Some 8) 0 = UErr EINVAL [0x41]"
proof -
  have e: "check_endian 0 = Inr (UCONV_IN_BIG_ENDIAN, UCONV_OUT_BIG_ENDIAN)"
    by (simp add: check_endian_def uconv_flags)
  have enc: "utf16_enc 0x41 = [0x41]" "utf8_enc 0x41 = [0x41]"
    by (simp_all add: utf16_enc_def utf16_units_def utf8_enc_def utf8_bytes_def)
  show ?thesis
    using uconv_u16_surrogates [OF e, of "[0x41]" 8 "[0xdc00, 0x42]" "0xdc00" "[0x42]" EILSEQ 0 0]
      uconv_u16_surrogates [OF e, of "[0x41]" 8 "[0xd800]" 0 "[]" EINVAL "0xd800" 0]
    by (simp add: uconv_flags scalar_value_def enc)
qed

text \<open>The three bytes of a surrogate code point are refused at the second of them.\<close>

lemma u8_get_surrogate:
  assumes "0xd800 \<le> unat w" "unat w \<le> 0xdfff"
  shows "u8_get (hd (utf8_enc w)) (tl (utf8_enc w) @ rest) = Inl EILSEQ" "hd (utf8_enc w) \<noteq> 0"
proof -
  define n where "n = unat w"
  have a: "0xd800 \<le> n" "n \<le> 0xdfff" using assms by (simp_all add: n_def)
  have d: "n div 4096 = 0xd" using a sextets [of n] by linarith
  have "0x360 \<le> n div 64" using div_le_mono [OF a(1), of 64] by simp
  then have n: "n div 4096 = 0xd" "0x20 \<le> n div 64 mod 64" "n div 64 mod 64 < 64" "\<not> n < 0x800" "n < 0x10000"
    using a d sextets [of n] by linarith+
  then have e: "utf8_enc w = [0xed, of_nat (0x80 + n div 64 mod 64), of_nat (0x80 + n mod 64)]"
    by (simp add: utf8_enc_def utf8_bytes_def n_def [symmetric])
  have "unat (of_nat (0x80 + n div 64 mod 64) :: u8) = 0x80 + n div 64 mod 64" using n(3) by (intro unat_u8) simp
  then show "u8_get (hd (utf8_enc w)) (tl (utf8_enc w) @ rest) = Inl EILSEQ"
    using n(2) unfolding e by (simp add: u8_get_three del: of_nat_add)
  show "hd (utf8_enc w) \<noteq> 0" by (simp add: e)
qed

text \<open>
  C40. The UTF-32 reader does not check for surrogates: \<^const>\<open>uconv_u32tou8\<close> converts every
  buffer of nonzero values up to U+10FFFF, also one that holds a surrogate code point, and
  \<^const>\<open>uconv_u8tou32\<close> refuses what it stored with EILSEQ at the first surrogate, after the
  characters before it.  The byte orders of the two calls agree, there is room, the first call
  does not look for a byte-order mark and the second is not asked for one.
\<close>

theorem uconv_u32tou8_surrogate:
  assumes "check_endian flag1 = Inr (inE, outE1)" "check_endian flag2 = Inr (inE2, outE)"
    and order: "(inE AND UCONV_IN_NAT_ENDIAN \<noteq> 0) = (outE AND UCONV_OUT_NAT_ENDIAN \<noteq> 0)"
    and "flag1 AND UCONV_IN_ACCEPT_BOM = 0" "flag2 AND UCONV_OUT_EMIT_BOM = 0"
    and u32s: "u32s = map (\<lambda>c. if inE AND UCONV_IN_NAT_ENDIAN \<noteq> 0 then c else BSWAP_32 c) (cs @ w # ws)"
    and cs: "\<forall>c\<in>set cs. c \<noteq> 0 \<and> scalar_value c" and w: "0xd800 \<le> unat w" "unat w \<le> 0xdfff"
    and ws: "\<forall>c\<in>set ws. c \<noteq> 0 \<and> unat c \<le> 0x10ffff"
    and room: "4 * length u32s \<le> utf8len" "length u32s \<le> utf32len"
  shows "\<exists>u8s. uconv_u32tou8 (Some u32s) (Some utf8len) flag1 = UOk (length u32s) u8s \<and>
    uconv_u8tou32 (Some u8s) (Some utf32len) flag2 = UErr EILSEQ (take (length cs) u32s)"
proof -
  define i where "i \<longleftrightarrow> inE AND UCONV_IN_NAT_ENDIAN \<noteq> 0"
  let ?cs = "cs @ w # ws"
  let ?u8s = "concat (map utf8_enc ?cs)"
  have u: "u32s = map (ord32 i) ?cs" by (simp add: u32s i_def)
  have len: "length ?u8s \<le> utf8len"
    using concat_bound [of utf8_enc 4 ?cs] utf_lengths(1) room by (simp add: u)
  have c: "c \<noteq> 0 \<and> unat c \<le> 0x10ffff" if "c \<in> set ?cs" for c
    using that cs w ws by (auto simp: scalar_value_def)
  then have "\<forall>x\<in>set u32s. unat (ord32 i x) \<le> 0x10ffff \<and> \<not> (x = 0 \<and> do_not_ignore_null flag1)"
    unfolding u by (auto split: if_splits)
  from to_u8.from_u32_fits [OF this, of "[]" utf8len 0] len
  have "from_u32 (put_u8 utf8len) i (do_not_ignore_null flag1) 0 u32s [] = UOk (length u32s) ?u8s"
    unfolding u map_map by (simp add: comp_def)
  then have "uconv_u32tou8 (Some u32s) (Some utf8len) flag1 = UOk (length u32s) ?u8s"
    using uconv_plain(1) [OF assms(1,4), of u32s utf8len] by (simp add: i_def)
  moreover have "from_u8 (put_u32 i utf32len) (do_not_ignore_null flag2) 0 ?u8s [] = UErr EILSEQ (map (ord32 i) cs)"
  proof -
    obtain b bs where e: "utf8_enc w = b # bs" by (cases "utf8_enc w") auto
    have "\<forall>c\<in>set cs. scalar_value c \<and> True \<and> \<not> (c = 0 \<and> do_not_ignore_null flag2)" using cs by auto
    from to_u32.from_u8_prefix [OF this, of "[]" i utf32len 0 "utf8_enc w @ concat (map utf8_enc ws)"] room
      u8_get_surrogate [OF w, unfolded e]
    show ?thesis by (simp add: concat_single e u)
  qed
  then have "uconv_u8tou32 (Some ?u8s) (Some utf32len) flag2 = UErr EILSEQ (take (length cs) u32s)"
    using uconv_plain(4) [OF assms(2,5), of ?u8s utf32len] order by (simp add: i_def u)
  ultimately show ?thesis by blast
qed

theorem uconv_u32tou8_surrogate_witness:
  "\<exists>u8s. uconv_u32tou8 (Some [0x41, 0xd83d, 0xde00]) (Some 12) 0 = UOk 3 u8s \<and>
    uconv_u8tou32 (Some u8s) (Some 3) 0 = UErr EILSEQ [0x41]"
proof -
  have e: "check_endian 0 = Inr (UCONV_IN_BIG_ENDIAN, UCONV_OUT_BIG_ENDIAN)"
    by (simp add: check_endian_def uconv_flags)
  show ?thesis
    using uconv_u32tou8_surrogate [OF e e, of "[0x41, 0xd83d, 0xde00]" "[0x41]" "0xd83d" "[0xde00]" 12 3]
    by (simp add: uconv_flags scalar_value_def numeral_3_eq_3)
qed

end
