(* ===== verification/Lzjb.thy ===== *)
theory Lzjb
  imports Prelude
begin

text \<open>
  The LZJB compressor, in its two copies: \<^verbatim>\<open>uts/common/fs/zfs/lzjb.c\<close> (used by ZFS, with a
  destination size) and \<^verbatim>\<open>uts/common/os/compress.c\<close> (crash dumps and suspend/resume).

  A source or destination buffer is a list of bytes and a pointer into it is an index.  The
  address of the source buffer is the argument \<open>base\<close>, since the Lempel history keeps the low
  16 bits of addresses; the history itself is not initialised by the code, so its initial
  contents are an argument too.  The compressor only appends to its destination, apart from
  setting bits of the current copy map, so its destination is the list of bytes stored so far.
  The decompressor overwrites a destination buffer of fixed length in place, and a read past
  the end of the source is the outcome \<open>LzOverrun\<close>.
\<close>

unbundle bit_operations_syntax

section \<open>Compression\<close>

definition NBBY :: nat where "NBBY = 8"
definition MATCH_BITS :: nat where "MATCH_BITS = 6"
definition MATCH_MIN :: nat where "MATCH_MIN = 3"
definition MATCH_MAX :: nat where "MATCH_MAX = (2 ^ MATCH_BITS) + (MATCH_MIN - 1)"
definition OFFSET_MASK :: u32 where "OFFSET_MASK = push_bit (16 - MATCH_BITS) 1 - 1"
definition LEMPEL_SIZE :: u32 where "LEMPEL_SIZE = 256"

lemmas lzjb_consts = NBBY_def MATCH_BITS_def MATCH_MIN_def MATCH_MAX_def OFFSET_MASK_def
  LEMPEL_SIZE_def

record lz_comp =
  c_src :: nat
  c_dst :: "u8 list"
  c_copymap :: nat
  c_copymask :: u32
  c_lempel :: "u16 list"

definition lzjb_hash :: "u8 \<Rightarrow> u8 \<Rightarrow> u8 \<Rightarrow> nat" where
  "lzjb_hash b0 b1 b2 =
     unat (((ucast b0 + 13) XOR (ucast b1 - 13) XOR ucast b2) AND (LEMPEL_SIZE - 1))"

text \<open>The match-length loop, from a length already known to match.\<close>

function lzjb_mlen :: "u8 list \<Rightarrow> nat \<Rightarrow> nat \<Rightarrow> nat \<Rightarrow> nat" where
  "lzjb_mlen s src cpy mlen =
     (if mlen < MATCH_MAX then
        (if s ! (src + mlen) \<noteq> s ! (cpy + mlen) then mlen
         else lzjb_mlen s src cpy (Suc mlen))
      else mlen)"
  by pat_completeness auto
termination
  by (relation "measure (\<lambda>(s, src, cpy, mlen). MATCH_MAX - mlen)") auto

declare lzjb_mlen.simps [simp del]

text \<open>One item, after the copy map has been seen to: a literal or a copy.\<close>

definition lzjb_literal :: "u8 list \<Rightarrow> lz_comp \<Rightarrow> lz_comp" where
  "lzjb_literal s st = st\<lparr>c_dst := c_dst st @ [s ! c_src st], c_src := Suc (c_src st)\<rparr>"

definition lzjb_copy :: "nat \<Rightarrow> u32 \<Rightarrow> lz_comp \<Rightarrow> lz_comp" where
  "lzjb_copy mlen offset st =
     st\<lparr>c_dst := (c_dst st)[c_copymap st := c_dst st ! c_copymap st OR ucast (c_copymask st)]
          @ [ucast (push_bit (NBBY - MATCH_BITS) (of_nat (mlen - MATCH_MIN)) OR drop_bit NBBY offset),
             ucast offset],
        c_src := c_src st + mlen\<rparr>"

definition lzjb_item :: "u32 \<Rightarrow> u8 list \<Rightarrow> lz_comp \<Rightarrow> lz_comp" where
  "lzjb_item base s st =
     (let src = c_src st in
      if src + MATCH_MAX > length s then lzjb_literal s st
      else
        let hp = lzjb_hash (s ! src) (s ! (src + 1)) (s ! (src + 2));
            offset = (base + of_nat src - ucast (c_lempel st ! hp)) AND OFFSET_MASK;
            st' = st\<lparr>c_lempel := (c_lempel st)[hp := ucast (base + of_nat src)]\<rparr>;
            cpy = src - unat offset
        in if unat offset \<le> src \<and> offset \<noteq> 0 \<and> s ! src = s ! cpy \<and>
              s ! (src + 1) = s ! (cpy + 1) \<and> s ! (src + 2) = s ! (cpy + 2)
           then lzjb_copy (lzjb_mlen s src cpy MATCH_MIN) offset st'
           else lzjb_literal s st')"

lemma lzjb_mlen_ge: "mlen \<le> lzjb_mlen s src cpy mlen"
proof (induction s src cpy mlen rule: lzjb_mlen.induct)
  case (1 s src cpy mlen)
  then show ?case by (subst lzjb_mlen.simps) auto
qed

lemma lzjb_mlen_pos [simp]: "0 < lzjb_mlen s src cpy MATCH_MIN"
  using lzjb_mlen_ge [of MATCH_MIN s src cpy] by (simp add: lzjb_consts)

lemma lzjb_item_advances: "c_src st < c_src (lzjb_item base s st)"
  by (simp add: lzjb_item_def Let_def lzjb_literal_def lzjb_copy_def)

text \<open>
  The main loop: \<^term>\<open>Inl dst\<close> when the destination is too full to start another group,
  \<^term>\<open>Inr dst\<close> at the end of the input.
\<close>

definition lzjb_group :: "lz_comp \<Rightarrow> lz_comp" where
  "lzjb_group st = st\<lparr>c_copymask := 1, c_copymap := length (c_dst st), c_dst := c_dst st @ [0]\<rparr>"

function lzjb_loop :: "u32 \<Rightarrow> u8 list \<Rightarrow> nat \<Rightarrow> lz_comp \<Rightarrow> u8 list + u8 list" where
  "lzjb_loop base s d_len st =
     (if c_src st < length s then
        let st = st\<lparr>c_copymask := push_bit 1 (c_copymask st)\<rparr> in
        if c_copymask st = push_bit NBBY 1 then
          (if length (c_dst st) + 1 + 2 * NBBY \<ge> d_len then Inl (c_dst st)
           else lzjb_loop base s d_len (lzjb_item base s (lzjb_group st)))
        else lzjb_loop base s d_len (lzjb_item base s st)
      else Inr (c_dst st))"
  by pat_completeness auto
termination
proof (relation "measure (\<lambda>(base, s, d_len, st). length s - c_src st)", goal_cases)
  case (2 base s d_len st x)
  then show ?case
    using lzjb_item_advances [of "lzjb_group x" base s] by (auto simp: lzjb_group_def)
next
  case (3 base s d_len st x)
  then show ?case
    using lzjb_item_advances [of x base s] by auto
qed simp

declare lzjb_loop.simps [simp del]

definition lzjb_start :: "u16 list \<Rightarrow> lz_comp" where
  "lzjb_start lempel =
     \<lparr>c_src = 0, c_dst = [], c_copymap = 0, c_copymask = push_bit (NBBY - 1) 1, c_lempel = lempel\<rparr>"

text \<open>
  The two compressors: the value returned and the bytes stored in the destination.
\<close>

definition lzjb_compress :: "u32 \<Rightarrow> u16 list \<Rightarrow> u8 list \<Rightarrow> nat \<Rightarrow> nat \<times> u8 list" where
  "lzjb_compress base lempel s d_len =
     (case lzjb_loop base s d_len (lzjb_start lempel) of
        Inl dst \<Rightarrow> if d_len \<noteq> length s then (length s, dst) else (length s, s)
      | Inr dst \<Rightarrow> (length dst, dst))"

definition compress :: "u32 \<Rightarrow> u16 list \<Rightarrow> u8 list \<Rightarrow> nat \<times> u8 list" where
  "compress base lempel s =
     (case lzjb_loop base s (length s) (lzjb_start lempel) of
        Inl dst \<Rightarrow> (length s, s)
      | Inr dst \<Rightarrow> (length dst, dst))"

section \<open>Decompression\<close>

record lz_decomp =
  e_src :: nat
  e_buf :: "u8 list"
  e_dst :: nat
  e_copymap :: u8
  e_copymask :: u32

datatype 'a lz_outcome = LzOk 'a | LzCorrupt 'a | LzOverrun

text \<open>The overlapping copy: at most \<open>mlen\<close> bytes, one at a time, up to the end of the buffer.\<close>

fun lzjb_move :: "nat \<Rightarrow> nat \<Rightarrow> nat \<Rightarrow> u8 list \<Rightarrow> nat \<times> u8 list" where
  "lzjb_move 0 cpy dst buf = (dst, buf)"
| "lzjb_move (Suc mlen) cpy dst buf =
     (if dst < length buf then lzjb_move mlen (Suc cpy) (Suc dst) (buf[dst := buf ! cpy])
      else (dst, buf))"

definition lzjb_ditem :: "u8 list \<Rightarrow> lz_decomp \<Rightarrow> lz_decomp lz_outcome" where
  "lzjb_ditem s st =
     (if (ucast (e_copymap st) AND e_copymask st) \<noteq> 0 then
        (if e_src st + 1 < length s then
           let b0 = s ! e_src st; b1 = s ! (e_src st + 1);
               mlen = unat (drop_bit (NBBY - MATCH_BITS) b0) + MATCH_MIN;
               offset = unat ((push_bit NBBY (ucast b0) OR ucast b1) AND OFFSET_MASK)
           in if e_dst st < offset then LzCorrupt st
              else let (dst, buf) = lzjb_move mlen (e_dst st - offset) (e_dst st) (e_buf st)
                   in LzOk (st\<lparr>e_src := e_src st + 2, e_dst := dst, e_buf := buf\<rparr>)
         else LzOverrun)
      else if e_src st < length s then
        LzOk (st\<lparr>e_src := e_src st + 1, e_dst := e_dst st + 1,
                e_buf := (e_buf st)[e_dst st := s ! e_src st]\<rparr>)
      else LzOverrun)"

text \<open>One round of the loop: fetch the copy map of the next group when one starts, then an item.\<close>

definition lzjb_dstep :: "u8 list \<Rightarrow> lz_decomp \<Rightarrow> lz_decomp lz_outcome" where
  "lzjb_dstep s st =
     (let st = st\<lparr>e_copymask := push_bit 1 (e_copymask st)\<rparr> in
      if e_copymask st = push_bit NBBY 1 then
        (if e_src st < length s then
           lzjb_ditem s (st\<lparr>e_copymask := 1, e_copymap := s ! e_src st, e_src := e_src st + 1\<rparr>)
         else LzOverrun)
      else lzjb_ditem s st)"

lemma lzjb_move_props:
  "lzjb_move mlen cpy dst buf = (dst', buf') \<Longrightarrow>
     length buf' = length buf \<and> dst \<le> dst' \<and> (0 < mlen \<and> dst < length buf \<longrightarrow> dst < dst')"
  by (induction mlen cpy dst buf rule: lzjb_move.induct) (fastforce split: if_splits)+

lemma lzjb_dstep_advances:
  assumes "lzjb_dstep s st = LzOk st'" "e_dst st < length (e_buf st)"
  shows "e_dst st < e_dst st' \<and> length (e_buf st') = length (e_buf st)"
  using assms
  by (auto simp: lzjb_dstep_def lzjb_ditem_def Let_def lzjb_consts split: if_splits prod.splits
           dest!: lzjb_move_props)

function lzjb_dloop :: "u8 list \<Rightarrow> lz_decomp \<Rightarrow> lz_decomp lz_outcome" where
  "lzjb_dloop s st =
     (if e_dst st < length (e_buf st) then
        (case lzjb_dstep s st of
           LzOk st' \<Rightarrow> lzjb_dloop s st'
         | LzCorrupt st' \<Rightarrow> LzCorrupt st'
         | LzOverrun \<Rightarrow> LzOverrun)
      else LzOk st)"
  by pat_completeness auto
termination
  by (relation "measure (\<lambda>(s, st). length (e_buf st) - e_dst st)")
     (auto dest: lzjb_dstep_advances)

declare lzjb_dloop.simps [simp del]

definition lzjb_dstart :: "u8 list \<Rightarrow> lz_decomp" where
  "lzjb_dstart d =
     \<lparr>e_src = 0, e_buf = d, e_dst = 0, e_copymap = 0, e_copymask = push_bit (NBBY - 1) 1\<rparr>"

text \<open>
  \<open>lzjb_decompress s d\<close>: the destination buffer after the call, \<open>d\<close> being its contents before;
  \<open>LzCorrupt\<close> where the code returns -1.
\<close>

definition lzjb_decompress :: "u8 list \<Rightarrow> u8 list \<Rightarrow> u8 list lz_outcome" where
  "lzjb_decompress s d =
     (case lzjb_dloop s (lzjb_dstart d) of
        LzOk st \<Rightarrow> LzOk (e_buf st) | LzCorrupt st \<Rightarrow> LzCorrupt (e_buf st) | LzOverrun \<Rightarrow> LzOverrun)"

text \<open>
  The second copy also stops at the end of the source, and returns the number of bytes
  written whether or not it met a corrupt item.
\<close>

function decompress_loop :: "u8 list \<Rightarrow> lz_decomp \<Rightarrow> lz_decomp lz_outcome" where
  "decompress_loop s st =
     (if e_src st < length s \<and> e_dst st < length (e_buf st) then
        (case lzjb_dstep s st of
           LzOk st' \<Rightarrow> decompress_loop s st'
         | LzCorrupt st' \<Rightarrow> LzCorrupt st'
         | LzOverrun \<Rightarrow> LzOverrun)
      else LzOk st)"
  by pat_completeness auto
termination
  by (relation "measure (\<lambda>(s, st). length (e_buf st) - e_dst st)")
     (auto dest: lzjb_dstep_advances)

declare decompress_loop.simps [simp del]

definition decompress :: "u8 list \<Rightarrow> u8 list \<Rightarrow> (nat \<times> u8 list) option" where
  "decompress s d =
     (if length s \<ge> length d then Some (length d, take (length d) s)
      else case decompress_loop s (lzjb_dstart d) of
             LzOk st \<Rightarrow> Some (e_dst st, e_buf st)
           | LzCorrupt st \<Rightarrow> Some (e_dst st, e_buf st)
           | LzOverrun \<Rightarrow> None)"

definition checksum32 :: "u8 list \<Rightarrow> u32" where
  "checksum32 cp = foldl (\<lambda>sum c. (drop_bit 1 sum OR push_bit 31 sum) + ucast c) 0 cp"

section \<open>What an item does\<close>

lemma lzjb_mlen_spec:
  assumes "mlen \<le> MATCH_MAX" "\<forall>i<mlen. s ! (src + i) = s ! (cpy + i)"
  shows "lzjb_mlen s src cpy mlen \<le> MATCH_MAX \<and>
    (\<forall>i<lzjb_mlen s src cpy mlen. s ! (src + i) = s ! (cpy + i))"
  using assms
proof (induction s src cpy mlen rule: lzjb_mlen.induct)
  case (1 s src cpy mlen)
  then show ?case
    by (cases "mlen < MATCH_MAX \<and> s ! (src + mlen) = s ! (cpy + mlen)")
       (auto simp: less_Suc_eq lzjb_mlen.simps [of s src cpy mlen])
qed

lemma MATCH_values: "MATCH_MAX = 66" "MATCH_MIN = 3" "NBBY = 8" "MATCH_BITS = 6" "OFFSET_MASK = mask 10"
  by (simp_all add: lzjb_consts push_bit_eq_mult mask_eq_exp_minus_1)

lemma unat_offset: "unat (w AND OFFSET_MASK) < 1024"
  by (simp add: MATCH_values unat_and_mask)

text \<open>
  Every item is a literal, or a copy of at least three bytes from at most 1023 bytes back
  that the source repeats at its position; neither goes past the end of the source.
\<close>

lemma lzjb_item_cases:
  assumes "c_src st < length s"
  obtains (literal) l where "lzjb_item base s st = lzjb_literal s (st\<lparr>c_lempel := l\<rparr>)"
  | (copy) l mlen offset where "lzjb_item base s st = lzjb_copy mlen offset (st\<lparr>c_lempel := l\<rparr>)"
      "3 \<le> mlen" "mlen \<le> 66" "unat offset < 1024" "0 < unat offset" "unat offset \<le> c_src st"
      "c_src st + mlen \<le> length s"
      "\<forall>i<mlen. s ! (c_src st + i) = s ! (c_src st - unat offset + i)"
proof -
  let ?hp = "lzjb_hash (s ! c_src st) (s ! (c_src st + 1)) (s ! (c_src st + 2))"
  define off where "off = (base + of_nat (c_src st) - ucast (c_lempel st ! ?hp)) AND OFFSET_MASK"
  define l where "l = (c_lempel st)[?hp := ucast (base + of_nat (c_src st))]"
  define cpy where "cpy = c_src st - unat off"
  let ?match = "unat off \<le> c_src st \<and> off \<noteq> 0 \<and> s ! c_src st = s ! cpy \<and>
    s ! (c_src st + 1) = s ! (cpy + 1) \<and> s ! (c_src st + 2) = s ! (cpy + 2)"
  have item: "lzjb_item base s st =
      (if length s < c_src st + MATCH_MAX then lzjb_literal s st
       else if ?match then lzjb_copy (lzjb_mlen s (c_src st) cpy MATCH_MIN) off (st\<lparr>c_lempel := l\<rparr>)
       else lzjb_literal s (st\<lparr>c_lempel := l\<rparr>))"
    unfolding lzjb_item_def Let_def off_def l_def cpy_def by (rule refl)
  show thesis
  proof (cases "\<not> length s < c_src st + MATCH_MAX \<and> ?match")
    case True
    let ?m = "lzjb_mlen s (c_src st) cpy MATCH_MIN"
    have "\<forall>i<MATCH_MIN. s ! (c_src st + i) = s ! (cpy + i)"
      using True by (simp add: MATCH_values numeral_3_eq_3 less_Suc_eq numeral_2_eq_2)
    then have "?m \<le> 66 \<and> (\<forall>i<?m. s ! (c_src st + i) = s ! (cpy + i))"
      using lzjb_mlen_spec [of MATCH_MIN s "c_src st" cpy] by (simp add: MATCH_values)
    moreover have "3 \<le> ?m" using lzjb_mlen_ge [of MATCH_MIN] by (simp add: MATCH_values)
    moreover have "unat off < 1024" by (simp add: off_def unat_offset)
    moreover have "lzjb_item base s st = lzjb_copy ?m off (st\<lparr>c_lempel := l\<rparr>)"
      unfolding item using True by simp
    ultimately show thesis
      using True by (intro copy [of ?m off l]) (simp_all add: MATCH_values unat_gt_0 cpy_def)
  next
    case False
    then have "lzjb_item base s st = lzjb_literal s (st\<lparr>c_lempel := c_lempel st\<rparr>) \<or>
        lzjb_item base s st = lzjb_literal s (st\<lparr>c_lempel := l\<rparr>)"
      unfolding item by (simp split: if_split) blast
    then show thesis using literal by blast
  qed
qed

text \<open>The two bytes of a copy item give back its length and offset.\<close>

lemma lzjb_copy_bytes:
  fixes offset :: u32
  assumes "3 \<le> mlen" "mlen \<le> 66" "unat offset < 1024"
  defines "b0 \<equiv> ucast (push_bit (NBBY - MATCH_BITS) (of_nat (mlen - MATCH_MIN)) OR drop_bit NBBY offset) :: u8"
    and "b1 \<equiv> ucast offset :: u8"
  shows "unat (drop_bit (NBBY - MATCH_BITS) b0) + MATCH_MIN = mlen"
    and "unat ((push_bit NBBY (ucast b0) OR ucast b1) AND OFFSET_MASK :: u32) = unat offset"
proof -
  define m where "m = mlen - 3"
  have m: "m < 64" "mlen = m + 3" using assms by (auto simp: m_def)
  have "unat (push_bit 2 (of_nat m) :: u32) = m * 4"
    using m unat_push_bit_mult [of "of_nat m :: u32" 2] by (simp add: unat_of_nat)
  moreover have "unat (drop_bit 8 offset) = unat offset div 256"
    using unat_drop_bit_div [of 8 offset] by simp
  ultimately have "unat (push_bit 2 (of_nat m) OR drop_bit 8 offset) = m * 4 + unat offset div 256"
    using assms(3) unat_or_eq_add [of "drop_bit 8 offset" 2 "push_bit 2 (of_nat m)"] by simp
  moreover have "m * 4 + unat offset div 256 < 256" using m assms(3) by simp
  ultimately have b0: "unat b0 = m * 4 + unat offset div 256"
    using m by (simp add: b0_def MATCH_values unat_ucast_mod)
  have b1: "unat b1 = unat offset mod 256"
    by (simp add: b1_def unat_ucast_mod)
  show "unat (drop_bit (NBBY - MATCH_BITS) b0) + MATCH_MIN = mlen"
    using assms(3) b0 unat_drop_bit_div [of 2 b0] by (simp add: MATCH_values m)
  have "unat (push_bit 8 (ucast b0) :: u32) = unat b0 * 256"
    using unat_push_bit_mult [of "ucast b0 :: u32" 8] u8_bound [of b0] by (simp add: unat_bits)
  then have "unat (push_bit 8 (ucast b0) OR ucast b1 :: u32) = unat b0 * 256 + unat b1"
    using unat_or_eq_add [of "ucast b1 :: u32" 8 "push_bit 8 (ucast b0)"] u8_bound [of b1]
    by (simp add: unat_bits)
  also have "\<dots> = m * 1024 + unat offset"
    unfolding b0 b1 using div_mult_mod_eq [of "unat offset" 256] by simp
  finally show "unat ((push_bit NBBY (ucast b0) OR ucast b1) AND OFFSET_MASK :: u32) = unat offset"
    using assms(3) by (simp add: MATCH_values unat_and_mask)
qed


section \<open>Decompression undoes compression\<close>

definition agree :: "nat \<Rightarrow> u8 list \<Rightarrow> u8 list \<Rightarrow> bool" where
  "agree n buf s \<longleftrightarrow> length buf = length s \<and> (\<forall>i<n. buf ! i = s ! i)"

lemma agree_update: "agree n buf s \<Longrightarrow> n < length s \<Longrightarrow> agree (Suc n) (buf[n := s ! n]) s"
  by (auto simp: agree_def less_Suc_eq)

lemma agree_all: "agree (length s) buf s \<Longrightarrow> buf = s"
  by (auto simp: agree_def intro: nth_equalityI)

lemma lzjb_move_agree:
  assumes "agree dst buf s" "dst + mlen \<le> length s" "cpy < dst"
    and "\<forall>i<mlen. s ! (dst + i) = s ! (cpy + i)"
  shows "\<exists>buf'. lzjb_move mlen cpy dst buf = (dst + mlen, buf') \<and> agree (dst + mlen) buf' s"
  using assms
proof (induction mlen arbitrary: cpy dst buf)
  case (Suc mlen)
  have "buf ! cpy = s ! dst"
    using Suc.prems(1,3) Suc.prems(4) [rule_format, of 0] by (simp add: agree_def)
  then have "agree (Suc dst) (buf[dst := buf ! cpy]) s"
    using agree_update [OF Suc.prems(1)] Suc.prems(2) by simp
  moreover have "\<forall>i<mlen. s ! (Suc dst + i) = s ! (Suc cpy + i)"
    using Suc.prems(4) [rule_format, of "Suc i" for i] by simp
  ultimately show ?case
    using Suc.IH [of "Suc dst" _ "Suc cpy"] Suc.prems by (simp add: agree_def)
qed simp

text \<open>
  \<open>lz_inv k st\<close>: item \<open>k\<close> of the current group has been written, and the bits of the copy map
  for the items after it are still clear.
\<close>

definition lz_inv :: "nat \<Rightarrow> lz_comp \<Rightarrow> bool" where
  "lz_inv k st \<longleftrightarrow> c_copymask st = 2 ^ k \<and> k \<le> 7 \<and>
     (k < 7 \<longrightarrow> c_copymap st < length (c_dst st) \<and> (\<forall>j>k. \<not> bit (c_dst st ! c_copymap st) j))"

text \<open>What the rest of the run keeps of what has been stored: all but the copy map's later bits.\<close>

definition lz_frame :: "nat \<Rightarrow> nat \<Rightarrow> u8 list \<Rightarrow> u8 list \<Rightarrow> bool" where
  "lz_frame cm k dst D \<longleftrightarrow> length dst \<le> length D \<and>
     (\<forall>i<length dst. \<forall>j<8. (i = cm \<longrightarrow> j \<le> k) \<longrightarrow> bit (D ! i) j = bit (dst ! i) j)"

lemma lz_frame_nth: "lz_frame cm k dst D \<Longrightarrow> i < length dst \<Longrightarrow> i \<noteq> cm \<Longrightarrow> D ! i = dst ! i"
  by (rule bit_word_eqI) (simp add: lz_frame_def)

lemma copymask_shift:
  "k \<le> 7 \<Longrightarrow> (push_bit 1 (2 ^ k) = (push_bit NBBY 1 :: u32)) = (k = 7)"
  "push_bit 1 (2 ^ k) = (2 ^ Suc k :: u32)"
proof -
  assume "k \<le> 7"
  then have "k \<in> {0, 1, 2, 3, 4, 5, 6, 7}" by auto
  then show "(push_bit 1 (2 ^ k) = (push_bit NBBY 1 :: u32)) = (k = 7)"
    by (auto simp: MATCH_values push_bit_eq_mult)
qed (simp add: push_bit_eq_mult)

lemma copymask_bit:
  fixes b :: u8
  assumes "k \<le> 7"
  shows "((ucast b AND 2 ^ k :: u32) \<noteq> 0) = bit b k"
    and "bit (b OR ucast (2 ^ k :: u32)) j = (bit b j \<or> j = k)"
  using assms by (auto simp: and_exp_eq_0_iff_not_bit bit_simps)

text \<open>\<open>lz_pre k st\<close>: the copy map is in place and item \<open>k\<close> of the group is about to be written.\<close>

definition lz_pre :: "nat \<Rightarrow> lz_comp \<Rightarrow> bool" where
  "lz_pre k st \<longleftrightarrow> c_copymask st = 2 ^ k \<and> k \<le> 7 \<and> c_copymap st < length (c_dst st) \<and>
     (\<forall>j\<ge>k. \<not> bit (c_dst st ! c_copymap st) j)"

lemma lzjb_item_inv:
  assumes "lz_pre k st" "c_src st < length s"
  shows "lz_inv k (lzjb_item base s st) \<and> c_copymap (lzjb_item base s st) = c_copymap st \<and>
    c_src (lzjb_item base s st) \<le> length s"
  using assms(2)
proof (cases rule: lzjb_item_cases [of st s base])
  case (literal l)
  with assms show ?thesis
    by (auto simp: lz_inv_def lz_pre_def lzjb_literal_def nth_append)
next
  case (copy l mlen offset)
  with assms show ?thesis
    by (auto simp: lz_inv_def lz_pre_def lzjb_copy_def nth_append copymask_bit)
qed

lemma lzjb_item_frame:
  assumes "lz_pre k st" "c_src st < length s" "lz_frame (c_copymap st) k (c_dst (lzjb_item base s st)) D"
    and "i < length (c_dst st)" "j < 8" "i = c_copymap st \<longrightarrow> j < k"
  shows "bit (D ! i) j = bit (c_dst st ! i) j"
  using assms(2)
proof (cases rule: lzjb_item_cases [of st s base])
  case (literal l)
  with assms show ?thesis
    by (auto simp: lz_frame_def lzjb_literal_def nth_append)
next
  case (copy l mlen offset)
  have "bit (D ! i) j = bit (c_dst (lzjb_item base s st) ! i) j"
    using assms copy(1) by (auto simp: lz_frame_def lzjb_copy_def)
  also have "\<dots> = bit (c_dst st ! i) j"
    using assms copy(1) by (auto simp: lzjb_copy_def nth_append nth_list_update copymask_bit lz_pre_def)
  finally show ?thesis .
qed

text \<open>The decompressor, in step with the compressor, reads back the item just written.\<close>

definition lz_sync :: "u8 list \<Rightarrow> u8 list \<Rightarrow> lz_comp \<Rightarrow> lz_decomp \<Rightarrow> bool" where
  "lz_sync s D st e \<longleftrightarrow> e_src e = length (c_dst st) \<and> e_dst e = c_src st \<and>
     e_copymask e = c_copymask st \<and> agree (c_src st) (e_buf e) s"

lemma lzjb_item_decodes:
  assumes pre: "lz_pre k st" "c_src st < length s"
    and frame: "lz_frame (c_copymap st) k (c_dst (lzjb_item base s st)) D"
    and sync: "lz_sync s D st e" "e_copymap e = D ! c_copymap st"
  shows "\<exists>e'. lzjb_ditem (D @ rest) e = LzOk e' \<and> lz_sync s D (lzjb_item base s st) e' \<and>
    e_copymap e' = e_copymap e"
proof -
  let ?st' = "lzjb_item base s st"
  let ?n = "length (c_dst st)"
  have item: "D ! i = c_dst ?st' ! i" if "?n \<le> i" "i < length (c_dst ?st')" for i
    using lz_frame_nth [OF frame that(2)] pre(1) that(1) by (auto simp: lz_pre_def)
  have bit: "bit (D ! c_copymap st) k = bit (c_dst ?st' ! c_copymap st) k"
    and len: "length (c_dst ?st') \<le> length D"
    if "c_copymap st < length (c_dst ?st')"
    using frame pre(1) that by (auto simp: lz_frame_def lz_pre_def)
  from pre(2) show ?thesis
  proof (cases rule: lzjb_item_cases [of st s base])
    case (literal l)
    have "\<not> bit (D ! c_copymap st) k" "?n < length D" "D ! ?n = s ! c_src st"
      using bit len item [of ?n] pre(1) by (auto simp: literal lzjb_literal_def lz_pre_def nth_append)
    then have "lzjb_ditem (D @ rest) e = LzOk (e\<lparr>e_src := ?n + 1, e_dst := c_src st + 1,
        e_buf := (e_buf e)[c_src st := s ! c_src st]\<rparr>)"
      using sync pre by (simp add: lzjb_ditem_def lz_sync_def lz_pre_def copymask_bit nth_append)
    then show ?thesis
      using sync pre agree_update [of "c_src st" "e_buf e" s]
      by (simp add: lz_sync_def literal lzjb_literal_def)
  next
    case (copy l mlen offset)
    have "bit (D ! c_copymap st) k" "?n + 1 < length D"
      "D ! ?n = c_dst ?st' ! ?n" "D ! (?n + 1) = c_dst ?st' ! (?n + 1)"
      using bit len item [of ?n] item [of "?n + 1"] pre(1)
      by (auto simp: copy(1) lzjb_copy_def lz_pre_def nth_append copymask_bit simp del: of_nat_diff)
    moreover obtain buf where "lzjb_move mlen (c_src st - unat offset) (c_src st) (e_buf e) =
        (c_src st + mlen, buf)" "agree (c_src st + mlen) buf s"
      using lzjb_move_agree [of "c_src st" "e_buf e" s mlen "c_src st - unat offset"] copy sync
      by (auto simp: lz_sync_def)
    ultimately have "lzjb_ditem (D @ rest) e =
        LzOk (e\<lparr>e_src := ?n + 2, e_dst := c_src st + mlen, e_buf := buf\<rparr>)"
      using sync pre copy(6) lzjb_copy_bytes [OF copy(2,3,4)]
      by (simp add: lzjb_ditem_def lz_sync_def lz_pre_def copymask_bit nth_append copy(1) lzjb_copy_def
          del: of_nat_diff)
    then show ?thesis
      using sync \<open>agree (c_src st + mlen) buf s\<close>
      by (simp add: lz_sync_def copy(1) lzjb_copy_def)
  qed
qed


lemma lz_group_pre:
  "lz_pre 0 (lzjb_group st)" "c_src (lzjb_group st) = c_src st"
  by (simp_all add: lz_pre_def lzjb_group_def)

abbreviation lz_advance :: "lz_comp \<Rightarrow> lz_comp" where
  "lz_advance st \<equiv> st\<lparr>c_copymask := push_bit 1 (c_copymask st)\<rparr>"

lemma lz_next_pre: "lz_inv k st \<Longrightarrow> k < 7 \<Longrightarrow> lz_pre (Suc k) (lz_advance st)"
  by (simp add: lz_inv_def lz_pre_def copymask_shift Suc_le_eq)

text \<open>The compressor loop unfolded once, on the invariant.\<close>

lemma lzjb_loop_step:
  assumes "lz_inv k st" "c_src st < length s"
  shows "lzjb_loop base s d_len st =
    (if k = 7 then
       (if d_len \<le> length (c_dst st) + 17 then Inl (c_dst st)
        else lzjb_loop base s d_len (lzjb_item base s (lzjb_group st)))
     else lzjb_loop base s d_len (lzjb_item base s (lz_advance st)))"
proof -
  have "lzjb_group (lz_advance st) = lzjb_group st" "c_dst (lz_advance st) = c_dst st"
    "length (c_dst st) + 1 + 2 * NBBY = length (c_dst st) + 17"
    by (simp_all add: lzjb_group_def NBBY_def)
  moreover have "(c_copymask (lz_advance st) = push_bit NBBY 1) = (k = 7)"
    using assms(1) copymask_shift(1) [of k] unfolding lz_inv_def by (simp only: lz_comp.simps) auto
  ultimately show ?thesis
    using assms(2) by (subst lzjb_loop.simps) (simp only: Let_def if_True)
qed

text \<open>Induction along a run of the compressor.\<close>

lemma lz_run_induct [consumes 1, case_names finish full group item]:
  assumes "lz_inv k st"
    and finish: "\<And>k st. lz_inv k st \<Longrightarrow> \<not> c_src st < length s \<Longrightarrow> P k st (Inr (c_dst st))"
    and full: "\<And>st. lz_inv 7 st \<Longrightarrow> c_src st < length s \<Longrightarrow> d_len \<le> length (c_dst st) + 17 \<Longrightarrow>
      P 7 st (Inl (c_dst st))"
    and group: "\<And>st r. lz_inv 7 st \<Longrightarrow> c_src st < length s \<Longrightarrow> length (c_dst st) + 17 < d_len \<Longrightarrow>
      P 0 (lzjb_item base s (lzjb_group st)) r \<Longrightarrow> P 7 st r"
    and item: "\<And>k st r. lz_inv k st \<Longrightarrow> k < 7 \<Longrightarrow> c_src st < length s \<Longrightarrow>
      P (Suc k) (lzjb_item base s (lz_advance st)) r \<Longrightarrow> P k st r"
  shows "P k st (lzjb_loop base s d_len st)"
  using assms(1)
proof (induction "length s - c_src st" arbitrary: k st rule: less_induct)
  case less
  note step = lzjb_loop_step [OF less.prems]
  show ?case
  proof (cases "c_src st < length s")
    case True
    have g: "lz_inv 0 (lzjb_item base s (lzjb_group st))"
      using lzjb_item_inv [OF lz_group_pre(1)] True lz_group_pre(2) [of st] by simp
    have n: "lz_inv (Suc k) (lzjb_item base s (lz_advance st))" if "k < 7"
      using lzjb_item_inv [OF lz_next_pre [OF less.prems that]] True by simp
    show ?thesis
    proof (cases "k = 7")
      case k: True
      show ?thesis
        using less.hyps [OF _ g] lzjb_item_advances [of "lzjb_group st" base s] True less.prems
          full [of st] group [of st]
        by (auto simp: step k lz_group_pre)
    next
      case False
      then have "k < 7" using less.prems by (simp add: lz_inv_def)
      then show ?thesis
        using less.hyps [OF _ n] lzjb_item_advances [of "lz_advance st" base s] True less.prems
          item [of k st] False
        by (auto simp: step)
    qed
  next
    case False
    then have "lzjb_loop base s d_len st = Inr (c_dst st)" by (subst lzjb_loop.simps) simp
    then show ?thesis using finish [OF less.prems False] by simp
  qed
qed

lemma lzjb_item_grows:
  "c_src st < length s \<Longrightarrow> length (c_dst st) < length (c_dst (lzjb_item base s st)) \<and>
    length (c_dst (lzjb_item base s st)) \<le> length (c_dst st) + 2"
  by (cases rule: lzjb_item_cases [of st s base]) (auto simp: lzjb_literal_def lzjb_copy_def)

lemma lz_frame_group:
  assumes "c_src st < length s" "lz_frame (length (c_dst st)) 0 (c_dst (lzjb_item base s (lzjb_group st))) D"
  shows "lz_frame cm k (c_dst st) D"
proof -
  have "bit (D ! i) j = bit (c_dst st ! i) j" if "i < length (c_dst st)" "j < 8" for i j
    using lzjb_item_frame [OF lz_group_pre(1), of st s base D i j] that assms lz_group_pre(2) [of st]
    by (simp add: lzjb_group_def nth_append)
  moreover have "length (c_dst st) \<le> length D"
    using assms lzjb_item_grows [of "lzjb_group st" s base] by (simp add: lz_frame_def lzjb_group_def)
  ultimately show ?thesis by (simp add: lz_frame_def)
qed

lemma lz_frame_item:
  assumes "lz_inv k st" "k < 7" "c_src st < length s"
    and "lz_frame (c_copymap st) (Suc k) (c_dst (lzjb_item base s (lz_advance st))) D"
  shows "lz_frame (c_copymap st) k (c_dst st) D"
  using lzjb_item_frame [OF lz_next_pre [OF assms(1,2)], of s base D] assms(3,4)
    lzjb_item_grows [of "lz_advance st" s base]
  by (simp add: lz_frame_def less_Suc_eq_le)

text \<open>One round of the decompressor against one round of the compressor.\<close>

definition lz_ready :: "nat \<Rightarrow> u8 list \<Rightarrow> u8 list \<Rightarrow> lz_comp \<Rightarrow> lz_decomp \<Rightarrow> bool" where
  "lz_ready k s D st e \<longleftrightarrow> lz_sync s D st e \<and> (k < 7 \<longrightarrow> e_copymap e = D ! c_copymap st)"

lemma lz_group_decodes:
  assumes "lz_inv 7 st" "c_src st < length s" "lz_ready 7 s D st e"
    and "lz_frame (length (c_dst st)) 0 (c_dst (lzjb_item base s (lzjb_group st))) D"
  shows "\<exists>e'. lzjb_dstep (D @ rest) e = LzOk e' \<and>
    lz_ready 0 s D (lzjb_item base s (lzjb_group st)) e' \<and> length (c_dst st) < length D"
proof -
  let ?e = "e\<lparr>e_copymask := 1, e_copymap := D ! length (c_dst st), e_src := length (c_dst st) + 1\<rparr>"
  let ?g = "lzjb_group st"
  have g: "c_src ?g < length s" "c_copymap ?g = length (c_dst st)"
    using assms(2) by (simp_all add: lzjb_group_def)
  have sync: "lz_sync s D ?g ?e"
    using assms(3) by (simp add: lz_sync_def lz_ready_def lzjb_group_def)
  have frame: "lz_frame (c_copymap ?g) 0 (c_dst (lzjb_item base s ?g)) D"
    using assms(4) by (simp only: g)
  obtain e' where e': "lzjb_ditem (D @ rest) ?e = LzOk e'" "lz_sync s D (lzjb_item base s ?g) e'"
    "e_copymap e' = D ! c_copymap ?g"
    using lzjb_item_decodes [OF lz_group_pre(1) g(1) frame sync, of rest] by (auto simp: g(2))
  have l: "length (c_dst st) < length D"
    using assms(4) lzjb_item_grows [of ?g s base] g(1) by (simp add: lz_frame_def lzjb_group_def)
  have "push_bit 1 (e_copymask e) = push_bit NBBY 1"
    using assms(1,3) copymask_shift(1) [of 7] by (simp add: lz_ready_def lz_sync_def lz_inv_def)
  then have "lzjb_dstep (D @ rest) e = lzjb_ditem (D @ rest) ?e"
    using assms(3) l by (simp add: lzjb_dstep_def Let_def lz_ready_def lz_sync_def nth_append)
  then show ?thesis
    using e' l lzjb_item_inv [OF lz_group_pre(1) g(1), of base] by (simp add: lz_ready_def)
qed

lemma lz_item_decodes:
  assumes "lz_inv k st" "k < 7" "c_src st < length s" "lz_ready k s D st e"
    and "lz_frame (c_copymap st) (Suc k) (c_dst (lzjb_item base s (lz_advance st))) D"
  shows "\<exists>e'. lzjb_dstep (D @ rest) e = LzOk e' \<and>
    lz_ready (Suc k) s D (lzjb_item base s (lz_advance st)) e' \<and> length (c_dst st) < length D"
proof -
  let ?e = "e\<lparr>e_copymask := push_bit 1 (e_copymask e)\<rparr>"
  let ?g = "lz_advance st"
  note pre = lz_next_pre [OF assms(1,2)]
  have g: "c_src ?g < length s" "c_copymap ?g = c_copymap st"
    using assms(3) by simp_all
  have sync: "lz_sync s D ?g ?e" "e_copymap ?e = D ! c_copymap ?g"
    using assms(2,4) by (simp_all add: lz_sync_def lz_ready_def)
  have frame: "lz_frame (c_copymap ?g) (Suc k) (c_dst (lzjb_item base s ?g)) D"
    using assms(5) by (simp only: g)
  obtain e' where e': "lzjb_ditem (D @ rest) ?e = LzOk e'" "lz_sync s D (lzjb_item base s ?g) e'"
    "e_copymap e' = D ! c_copymap st"
    using lzjb_item_decodes [OF pre g(1) frame sync, of rest] sync(2) by auto
  have "push_bit 1 (e_copymask e) \<noteq> push_bit NBBY 1"
    using assms(1,2,4) copymask_shift(1) [of k] by (simp add: lz_ready_def lz_sync_def lz_inv_def)
  then have "lzjb_dstep (D @ rest) e = lzjb_ditem (D @ rest) ?e"
    by (simp add: lzjb_dstep_def Let_def)
  moreover have "length (c_dst st) < length D"
    using assms(5) lzjb_item_grows [of ?g s base] g(1) by (simp add: lz_frame_def)
  ultimately show ?thesis
    using e' lzjb_item_inv [OF pre g(1), of base] by (simp add: lz_ready_def)
qed

definition lz_decodes :: "u8 list \<Rightarrow> u8 list \<Rightarrow> lz_decomp \<Rightarrow> bool" where
  "lz_decodes s D e \<longleftrightarrow>
     (\<forall>rest. \<exists>e'. lzjb_dloop (D @ rest) e = LzOk e' \<and> e_buf e' = s \<and> e_src e' = length D) \<and>
     (\<exists>e'. decompress_loop D e = LzOk e' \<and> e_buf e' = s \<and> e_dst e' = length s)"

lemma lz_decodes_step:
  assumes "\<And>rest. \<exists>e1. lzjb_dstep (D @ rest) e = LzOk e1 \<and> lz_decodes s D e1"
    and "e_dst e < length (e_buf e)" "e_src e < length D"
  shows "lz_decodes s D e"
proof -
  have "\<exists>e'. lzjb_dloop (D @ rest) e = LzOk e' \<and> e_buf e' = s \<and> e_src e' = length D" for rest
    using assms(1) [of rest] assms(2) by (auto simp: lzjb_dloop.simps [of _ e] lz_decodes_def)
  moreover have "\<exists>e'. decompress_loop D e = LzOk e' \<and> e_buf e' = s \<and> e_dst e' = length s"
    using assms(1) [of "[]"] assms(2,3) by (auto simp: decompress_loop.simps [of _ e] lz_decodes_def)
  ultimately show ?thesis by (simp add: lz_decodes_def)
qed

lemma lz_ready_bounds:
  "lz_ready k s D st e \<Longrightarrow> c_src st < length s \<Longrightarrow> length (c_dst st) < length D \<Longrightarrow>
   e_dst e < length (e_buf e) \<and> e_src e < length D"
  by (simp add: lz_ready_def lz_sync_def agree_def)

lemma lz_run_decodes:
  assumes "lz_inv k st" "c_src st \<le> length s" "lzjb_loop base s d_len st = Inr D"
  shows "lz_frame (c_copymap st) k (c_dst st) D \<and> (\<forall>e. lz_ready k s D st e \<longrightarrow> lz_decodes s D e)"
  using assms(1) assms(2,3)
proof (induction rule: lz_run_induct)
  case (finish k st)
  then have c: "c_src st = length s" "D = c_dst st" by simp_all
  have "lz_decodes s D e" if "lz_ready k s D st e" for e
  proof -
    have "e_dst e = length s" "length (e_buf e) = length s" "e_buf e = s" "e_src e = length D"
      using that agree_all [of s "e_buf e"] by (simp_all add: lz_ready_def lz_sync_def c agree_def)
    then show ?thesis
      by (simp add: lz_decodes_def lzjb_dloop.simps [of _ e] decompress_loop.simps [of _ e])
  qed
  then show ?case by (simp add: c lz_frame_def)
next
  case (group st r)
  let ?g = "lzjb_group st" and ?i = "lzjb_item base s (lzjb_group st)"
  have i: "c_src ?g < length s" "c_copymap ?g = length (c_dst st)"
    using group by (simp_all add: lzjb_group_def)
  have "c_copymap ?i = length (c_dst st)" "c_src ?i \<le> length s"
    using lzjb_item_inv [OF lz_group_pre(1) i(1), of base] i by simp_all
  with group have IH: "lz_frame (length (c_dst st)) 0 (c_dst ?i) D"
    "\<And>e. lz_ready 0 s D ?i e \<Longrightarrow> lz_decodes s D e"
    by auto
  have "lz_decodes s D e" if r: "lz_ready 7 s D st e" for e
    using lz_group_decodes [OF group(1,2) r IH(1)] lz_ready_bounds [OF r group(2)] IH(2)
    by (intro lz_decodes_step) blast+
  then show ?case
    using lz_frame_group [OF group(2) IH(1)] by blast
next
  case (item k st r)
  let ?i = "lzjb_item base s (lz_advance st)"
  have "c_copymap ?i = c_copymap st" "c_src ?i \<le> length s"
    using lzjb_item_inv [OF lz_next_pre [OF item(1,2)], of s base] item(3) by simp_all
  with item have IH: "lz_frame (c_copymap st) (Suc k) (c_dst ?i) D"
    "\<And>e. lz_ready (Suc k) s D ?i e \<Longrightarrow> lz_decodes s D e"
    by auto
  have "lz_decodes s D e" if r: "lz_ready k s D st e" for e
    using lz_item_decodes [OF item(1-3) r IH(1)] lz_ready_bounds [OF r item(3)] IH(2)
    by (intro lz_decodes_step) blast+
  then show ?case
    using lz_frame_item [OF item(1-3) IH(1)] by blast
qed simp

lemma lz_start:
  "lz_inv 7 (lzjb_start lempel)" "c_src (lzjb_start lempel) = 0" "c_dst (lzjb_start lempel) = []"
  "length d = length s \<Longrightarrow> lz_ready 7 s D (lzjb_start lempel) (lzjb_dstart d)"
  by (simp_all add: lz_inv_def lzjb_start_def lz_ready_def lz_sync_def lzjb_dstart_def agree_def
        NBBY_def push_bit_eq_mult)

lemma lz_start_decodes:
  "lzjb_loop base s d_len (lzjb_start lempel) = Inr D \<Longrightarrow> length d = length s \<Longrightarrow>
   lz_decodes s D (lzjb_dstart d)"
  using lz_run_decodes [OF lz_start(1)] lz_start(2,4) by simp

text \<open>A run of the compressor never has more than \<open>d_len\<close> bytes stored, and finishes below it.\<close>

lemma lz_run_bound:
  assumes "lz_inv k st" "length (c_dst st) + 2 * (7 - k) < d_len \<or> c_dst st = [] \<and> k = 7"
  shows "case lzjb_loop base s d_len st of Inl dst \<Rightarrow> length dst \<le> d_len
    | Inr dst \<Rightarrow> length dst < d_len \<or> dst = []"
  using assms
proof (induction rule: lz_run_induct)
  case (group st r)
  then show ?case
    using lzjb_item_grows [of "lzjb_group st" s base] by (auto simp: lzjb_group_def)
next
  case (item k st r)
  moreover have "length (c_dst (lzjb_item base s (lz_advance st))) + 2 * (7 - Suc k) < d_len"
    using lzjb_item_grows [of "lz_advance st" s base] item by auto
  ultimately show ?case by blast
qed auto

lemma lzjb_loop_bound:
  "lzjb_loop base s d_len (lzjb_start lempel) = Inl dst \<Longrightarrow> length dst \<le> d_len"
  "lzjb_loop base s d_len (lzjb_start lempel) = Inr dst \<Longrightarrow> length dst < d_len \<or> dst = []"
  using lz_run_bound [OF lz_start(1), of lempel d_len base s] by (simp_all add: lz_start)

lemma lzjb_loop_nonempty:
  assumes "lzjb_loop base s d_len (lzjb_start lempel) = Inr D" "D = []"
  shows "s = []"
proof (rule ccontr)
  assume "s \<noteq> []"
  then have "lzjb_dloop [] (lzjb_dstart s) = LzOverrun"
    by (simp add: lzjb_dloop.simps lzjb_dstart_def lzjb_dstep_def NBBY_def push_bit_eq_mult)
  moreover have "\<exists>e'. lzjb_dloop ([] @ []) (lzjb_dstart s) = LzOk e' \<and> e_buf e' = s"
    using lz_start_decodes [OF assms(1), of s] unfolding lz_decodes_def assms(2) by blast
  ultimately show False by simp
qed

section \<open>Truncated sources\<close>








section \<open>Properties of the two compressors\<close>

text \<open>
  C31. Decompressing what \<^const>\<open>lzjb_compress\<close> stored gives the source back: for every source,
  every address of it, every initial content of the Lempel history and every destination size,
  whenever the compressor returns something else than the source length (its way of refusing,
  where the comment at the head of the file announces -1), it returns the number of bytes
  stored, which is below the destination size, and \<^const>\<open>lzjb_decompress\<close> on these bytes,
  whatever follows them, fills a buffer of the source length with exactly the source.
\<close>

theorem lzjb_roundtrip:
  assumes "lzjb_compress base lempel s d_len = (n, d)" "n \<noteq> length s" "length buf = length s"
  shows "n = length d \<and> n < d_len \<and> lzjb_decompress (d @ rest) buf = LzOk s"
proof (cases "lzjb_loop base s d_len (lzjb_start lempel)")
  case (Inr D)
  with assms have d: "d = D" "n = length D" by (auto simp: lzjb_compress_def)
  then have "length D < d_len"
    using lzjb_loop_bound(2) [OF Inr] lzjb_loop_nonempty [OF Inr] assms(2) by auto
  then show ?thesis
    using lz_start_decodes [OF Inr assms(3)]
    by (auto simp: d lz_decodes_def lzjb_decompress_def elim!: allE [of _ rest])
qed (use assms in \<open>simp add: lzjb_compress_def split: if_splits\<close>)


theorem lzjb_roundtrip_witness:
  "lzjb_decompress (snd (lzjb_compress 0x1000 (replicate 256 0) (replicate 80 7) 60)) (replicate 80 0) =
    LzOk (replicate 80 7)"
proof -
  have "lzjb_compress 0x1000 (replicate 256 0) (replicate 80 7) 60 = (18, [2, 7, 252, 1, 7, 7, 7, 7, 7, 7, 0, 7, 7, 7, 7, 7, 7, 7])"
    by code_simp
  from lzjb_roundtrip [OF this, of "replicate 80 0" "[]"] this show ?thesis
    by simp
qed

text \<open>
  C33. \<^const>\<open>lzjb_compress\<close> never has more bytes stored than the destination size, whether it
  gives up or not; and when the destination has the size of the source and it gives up, the
  destination holds a plain copy of the source.
\<close>

theorem lzjb_compress_bounds:
  "length (snd (lzjb_compress base lempel s d_len)) \<le> d_len \<and>
   (lzjb_compress base lempel s (length s) = (n, d) \<longrightarrow> n = length s \<longrightarrow> d = s)"
proof -
  have "length (snd (lzjb_compress base lempel s d_len)) \<le> d_len"
    using lzjb_loop_bound [of base s d_len lempel]
    by (cases "lzjb_loop base s d_len (lzjb_start lempel)") (auto simp: lzjb_compress_def)
  moreover have "d = s" if "lzjb_compress base lempel s (length s) = (n, d)" "n = length s"
  proof (cases "lzjb_loop base s (length s) (lzjb_start lempel)")
    case (Inr D)
    then show ?thesis
      using that lzjb_loop_bound(2) [OF Inr] lzjb_loop_nonempty [OF Inr]
      by (auto simp: lzjb_compress_def)
  qed (use that in \<open>simp add: lzjb_compress_def\<close>)
  ultimately show ?thesis by blast
qed

theorem lzjb_compress_bounds_witness:
  "lzjb_compress 0 [] [1, 2, 3] 3 = (3, [1, 2, 3]) \<and> length (snd (lzjb_compress 0 [] [1, 2, 3] 3)) \<le> 3"
proof -
  obtain d where d: "lzjb_compress 0 [] [1, 2, 3] (length [1, 2, 3 :: u8]) = (3, d)"
    by (simp add: lzjb_compress_def lzjb_loop.simps lzjb_start_def NBBY_def push_bit_eq_mult)
  then show ?thesis
    using lzjb_compress_bounds [of 0 "[]" "[1, 2, 3]" 3 3 d] by (simp add: numeral_3_eq_3)
qed

text \<open>
  C32. For every source, \<^const>\<open>decompress\<close> of what \<^const>\<open>compress\<close> stored succeeds and gives the
  source back, whatever the address of the source and the history the compressor started
  with; what is stored is never longer than the source.
\<close>

theorem compress_roundtrip:
  assumes "length buf = length s"
  shows "case compress base lempel s of (n, d) \<Rightarrow> n = length d \<and> n \<le> length s \<and>
    decompress d buf = Some (length s, s)"
proof (cases "lzjb_loop base s (length s) (lzjb_start lempel)")
  case (Inr D)
  then show ?thesis
    using lz_start_decodes [OF Inr assms] lzjb_loop_bound(2) [OF Inr] lzjb_loop_nonempty [OF Inr] assms
    by (auto simp: compress_def decompress_def lz_decodes_def)
qed (use assms in \<open>simp add: compress_def decompress_def\<close>)

theorem compress_roundtrip_witness:
  "length (replicate 80 (0 :: u8)) = length (replicate 80 (7 :: u8)) \<and>
   decompress (snd (compress 0x1000 (replicate 256 0) (replicate 80 7))) (replicate 80 0) =
     Some (80, replicate 80 7)"
  using compress_roundtrip [of "replicate 80 0" "replicate 80 7" "0x1000" "replicate 256 0"]
  by (auto split: prod.splits)



text \<open>
  A copy item that points before the start of the destination is refused: as first item,
  with any length and any nonzero offset, \<^const>\<open>lzjb_decompress\<close> returns -1 with the
  destination as it was, and \<^const>\<open>decompress\<close> returns 0 bytes.
\<close>

theorem decompress_corrupt:
  assumes "bit cm 0" "(push_bit 8 (ucast b0) OR ucast b1) AND (0x3ff :: u32) \<noteq> 0" "buf \<noteq> []"
  shows "lzjb_decompress (cm # b0 # b1 # s) buf = LzCorrupt buf \<and>
    (length s + 3 < length buf \<longrightarrow> decompress (cm # b0 # b1 # s) buf = Some (0, buf))"
proof -
  have m: "OFFSET_MASK = 0x3ff" "NBBY = 8"
    by (simp_all add: MATCH_values mask_eq_exp_minus_1)
  have "(ucast cm AND 1 :: u32) \<noteq> 0"
    using assms(1) copymask_bit(1) [of 0 cm] by simp
  then have "\<exists>e. lzjb_dstep (cm # b0 # b1 # s) (lzjb_dstart buf) = LzCorrupt e \<and> e_buf e = buf \<and> e_dst e = 0"
    using assms(2) by (simp add: lzjb_dstep_def lzjb_dstart_def lzjb_ditem_def Let_def m unat_gt_0 push_bit_eq_mult)
  moreover have "e_src (lzjb_dstart buf) = 0" "e_dst (lzjb_dstart buf) = 0" "e_buf (lzjb_dstart buf) = buf"
    by (simp_all add: lzjb_dstart_def)
  ultimately show ?thesis
    using assms(3)
    by (auto simp: lzjb_decompress_def decompress_def lzjb_dloop.simps [of _ "lzjb_dstart buf"]
          decompress_loop.simps [of _ "lzjb_dstart buf"])
qed

theorem decompress_corrupt_witness:
  "lzjb_decompress [1, 0, 5, 9] [8, 8] = LzCorrupt [8, 8]"
  using decompress_corrupt [of 1 0 5 "[8, 8]" "[9]"] by simp

end
