(* ===== verification/Raidz_Field.thy ===== *)
theory Raidz_Field
  imports Prelude
begin

text \<open>
  The Galois-field arithmetic of RAID-Z (\<^verbatim>\<open>uts/common/fs/zfs/vdev_raidz.c\<close>): the tables of
  powers and logarithms of 2, multiplication by a power of 2 by table look-up, and doubling,
  byte by byte and eight bytes at once.

  The byte loops take a word apart into its eight bytes; all of them are treated alike, so
  their order does not matter.
\<close>

unbundle bit_operations_syntax

section \<open>The field\<close>

definition VDEV_RAIDZ_P :: nat where "VDEV_RAIDZ_P = 0"
definition VDEV_RAIDZ_Q :: nat where "VDEV_RAIDZ_Q = 1"
definition VDEV_RAIDZ_MAXPARITY :: nat where "VDEV_RAIDZ_MAXPARITY = 2"

definition VDEV_RAIDZ_MUL_2 :: "u8 \<Rightarrow> u8" where
  "VDEV_RAIDZ_MUL_2 a = push_bit 1 a XOR (if a AND 0x80 \<noteq> 0 then 0x1d else 0)"

definition vdev_raidz_pow2 :: "u8 list" where
  "vdev_raidz_pow2 =
    [0x01, 0x02, 0x04, 0x08, 0x10, 0x20, 0x40, 0x80, 0x1d, 0x3a, 0x74, 0xe8,
     0xcd, 0x87, 0x13, 0x26, 0x4c, 0x98, 0x2d, 0x5a, 0xb4, 0x75, 0xea, 0xc9,
     0x8f, 0x03, 0x06, 0x0c, 0x18, 0x30, 0x60, 0xc0, 0x9d, 0x27, 0x4e, 0x9c,
     0x25, 0x4a, 0x94, 0x35, 0x6a, 0xd4, 0xb5, 0x77, 0xee, 0xc1, 0x9f, 0x23,
     0x46, 0x8c, 0x05, 0x0a, 0x14, 0x28, 0x50, 0xa0, 0x5d, 0xba, 0x69, 0xd2,
     0xb9, 0x6f, 0xde, 0xa1, 0x5f, 0xbe, 0x61, 0xc2, 0x99, 0x2f, 0x5e, 0xbc,
     0x65, 0xca, 0x89, 0x0f, 0x1e, 0x3c, 0x78, 0xf0, 0xfd, 0xe7, 0xd3, 0xbb,
     0x6b, 0xd6, 0xb1, 0x7f, 0xfe, 0xe1, 0xdf, 0xa3, 0x5b, 0xb6, 0x71, 0xe2,
     0xd9, 0xaf, 0x43, 0x86, 0x11, 0x22, 0x44, 0x88, 0x0d, 0x1a, 0x34, 0x68,
     0xd0, 0xbd, 0x67, 0xce, 0x81, 0x1f, 0x3e, 0x7c, 0xf8, 0xed, 0xc7, 0x93,
     0x3b, 0x76, 0xec, 0xc5, 0x97, 0x33, 0x66, 0xcc, 0x85, 0x17, 0x2e, 0x5c,
     0xb8, 0x6d, 0xda, 0xa9, 0x4f, 0x9e, 0x21, 0x42, 0x84, 0x15, 0x2a, 0x54,
     0xa8, 0x4d, 0x9a, 0x29, 0x52, 0xa4, 0x55, 0xaa, 0x49, 0x92, 0x39, 0x72,
     0xe4, 0xd5, 0xb7, 0x73, 0xe6, 0xd1, 0xbf, 0x63, 0xc6, 0x91, 0x3f, 0x7e,
     0xfc, 0xe5, 0xd7, 0xb3, 0x7b, 0xf6, 0xf1, 0xff, 0xe3, 0xdb, 0xab, 0x4b,
     0x96, 0x31, 0x62, 0xc4, 0x95, 0x37, 0x6e, 0xdc, 0xa5, 0x57, 0xae, 0x41,
     0x82, 0x19, 0x32, 0x64, 0xc8, 0x8d, 0x07, 0x0e, 0x1c, 0x38, 0x70, 0xe0,
     0xdd, 0xa7, 0x53, 0xa6, 0x51, 0xa2, 0x59, 0xb2, 0x79, 0xf2, 0xf9, 0xef,
     0xc3, 0x9b, 0x2b, 0x56, 0xac, 0x45, 0x8a, 0x09, 0x12, 0x24, 0x48, 0x90,
     0x3d, 0x7a, 0xf4, 0xf5, 0xf7, 0xf3, 0xfb, 0xeb, 0xcb, 0x8b, 0x0b, 0x16,
     0x2c, 0x58, 0xb0, 0x7d, 0xfa, 0xe9, 0xcf, 0x83, 0x1b, 0x36, 0x6c, 0xd8,
     0xad, 0x47, 0x8e, 0x01]"

definition vdev_raidz_log2 :: "nat list" where
  "vdev_raidz_log2 =
    [0x00, 0x00, 0x01, 0x19, 0x02, 0x32, 0x1a, 0xc6, 0x03, 0xdf, 0x33, 0xee,
     0x1b, 0x68, 0xc7, 0x4b, 0x04, 0x64, 0xe0, 0x0e, 0x34, 0x8d, 0xef, 0x81,
     0x1c, 0xc1, 0x69, 0xf8, 0xc8, 0x08, 0x4c, 0x71, 0x05, 0x8a, 0x65, 0x2f,
     0xe1, 0x24, 0x0f, 0x21, 0x35, 0x93, 0x8e, 0xda, 0xf0, 0x12, 0x82, 0x45,
     0x1d, 0xb5, 0xc2, 0x7d, 0x6a, 0x27, 0xf9, 0xb9, 0xc9, 0x9a, 0x09, 0x78,
     0x4d, 0xe4, 0x72, 0xa6, 0x06, 0xbf, 0x8b, 0x62, 0x66, 0xdd, 0x30, 0xfd,
     0xe2, 0x98, 0x25, 0xb3, 0x10, 0x91, 0x22, 0x88, 0x36, 0xd0, 0x94, 0xce,
     0x8f, 0x96, 0xdb, 0xbd, 0xf1, 0xd2, 0x13, 0x5c, 0x83, 0x38, 0x46, 0x40,
     0x1e, 0x42, 0xb6, 0xa3, 0xc3, 0x48, 0x7e, 0x6e, 0x6b, 0x3a, 0x28, 0x54,
     0xfa, 0x85, 0xba, 0x3d, 0xca, 0x5e, 0x9b, 0x9f, 0x0a, 0x15, 0x79, 0x2b,
     0x4e, 0xd4, 0xe5, 0xac, 0x73, 0xf3, 0xa7, 0x57, 0x07, 0x70, 0xc0, 0xf7,
     0x8c, 0x80, 0x63, 0x0d, 0x67, 0x4a, 0xde, 0xed, 0x31, 0xc5, 0xfe, 0x18,
     0xe3, 0xa5, 0x99, 0x77, 0x26, 0xb8, 0xb4, 0x7c, 0x11, 0x44, 0x92, 0xd9,
     0x23, 0x20, 0x89, 0x2e, 0x37, 0x3f, 0xd1, 0x5b, 0x95, 0xbc, 0xcf, 0xcd,
     0x90, 0x87, 0x97, 0xb2, 0xdc, 0xfc, 0xbe, 0x61, 0xf2, 0x56, 0xd3, 0xab,
     0x14, 0x2a, 0x5d, 0x9e, 0x84, 0x3c, 0x39, 0x53, 0x47, 0x6d, 0x41, 0xa2,
     0x1f, 0x2d, 0x43, 0xd8, 0xb7, 0x7b, 0xa4, 0x76, 0xc4, 0x17, 0x49, 0xec,
     0x7f, 0x0c, 0x6f, 0xf6, 0x6c, 0xa1, 0x3b, 0x52, 0x29, 0x9d, 0x55, 0xaa,
     0xfb, 0x60, 0x86, 0xb1, 0xbb, 0xcc, 0x3e, 0x5a, 0xcb, 0x59, 0x5f, 0xb0,
     0x9c, 0xa9, 0xa0, 0x51, 0x0b, 0xf5, 0x16, 0xeb, 0x7a, 0x75, 0x2c, 0xd7,
     0x4f, 0xae, 0xd5, 0xe9, 0xe6, 0xe7, 0xad, 0xe8, 0x74, 0xd6, 0xf4, 0xea,
     0xa8, 0x50, 0x58, 0xaf]"

definition vdev_raidz_exp2 :: "u8 \<Rightarrow> nat \<Rightarrow> u8" where
  "vdev_raidz_exp2 a exp =
     (if a = 0 then 0
      else let exp = exp + vdev_raidz_log2 ! unat a;
               exp = (if exp > 255 then exp - 255 else exp)
           in vdev_raidz_pow2 ! exp)"

section \<open>Bytes of a word\<close>

primrec word_of :: "u8 list \<Rightarrow> u64" where
  "word_of [] = 0"
| "word_of (b # bs) = ucast b OR push_bit 8 (word_of bs)"

definition byte :: "u64 \<Rightarrow> nat \<Rightarrow> u8" where
  "byte w j = ucast (drop_bit (8 * j) w)"

definition bytewise :: "(nat \<Rightarrow> u8) \<Rightarrow> u64" where
  "bytewise f = word_of (map f [0..<8])"

text \<open>The multiplication of eight bytes at once.\<close>

definition raidz_mul2 :: "u64 \<Rightarrow> u64" where
  "raidz_mul2 q =
     (let mask = q AND 0x8080808080808080;
          mask = push_bit 1 mask - drop_bit 7 mask
      in (push_bit 1 q AND 0xfefefefefefefefe) XOR (mask AND 0x1d1d1d1d1d1d1d1d))"

text \<open>
  The byte loop of \<^verbatim>\<open>vdev_raidz_reconstruct_pq\<close>, on the words of the true and the recomputed
  parity: the words of columns x and y.
\<close>

definition recon_xd :: "nat \<Rightarrow> nat \<Rightarrow> u64 \<Rightarrow> u64 \<Rightarrow> u64 \<Rightarrow> u64 \<Rightarrow> u64" where
  "recon_xd aexp bexp p q pxy qxy =
     bytewise (\<lambda>j. vdev_raidz_exp2 (byte p j XOR byte pxy j) aexp XOR
                   vdev_raidz_exp2 (byte q j XOR byte qxy j) bexp)"

definition recon_yd :: "u64 \<Rightarrow> u64 \<Rightarrow> u64 \<Rightarrow> u64" where
  "recon_yd p pxy xd = bytewise (\<lambda>j. byte p j XOR byte pxy j XOR byte xd j)"

section \<open>The byte-wise reading of the word operations\<close>

lemma bit_word_of:
  "bit (word_of bs) n \<longleftrightarrow> n < 64 \<and> n div 8 < length bs \<and> bit (bs ! (n div 8)) (n mod 8)"
proof (induction bs arbitrary: n)
  case (Cons b bs)
  show ?case
  proof (cases "n < 8")
    case True
    then show ?thesis by (auto simp: bit_simps Cons dest: bit_imp_le_length)
  next
    case False
    then obtain m where n: "n = m + 8" by (metis add.commute le_Suc_ex not_less)
    have "\<not> bit b n" using False bit_imp_le_length [of b n] by auto
    moreover have "(m + 8) div 8 = Suc (m div 8)" by simp
    ultimately show ?thesis
      by (auto simp: bit_simps Cons n)
  qed
qed simp

lemma bit_byte: "bit (byte w j) n \<longleftrightarrow> n < 8 \<and> bit w (8 * j + n)"
  by (auto simp: byte_def bit_simps dest: bit_imp_le_length)

lemma bit_bytewise: "bit (bytewise f) n \<longleftrightarrow> n < 64 \<and> bit (f (n div 8)) (n mod 8)"
proof -
  have "n div 8 < 8" if "n < 64" using that by simp
  then show ?thesis by (auto simp: bytewise_def bit_word_of simp del: upt_conv_Cons_Cons)
qed

lemma bytewise_byte: "j < 8 \<Longrightarrow> byte (bytewise f) j = f j"
  by (rule bit_word_eqI) (simp add: bit_byte bit_bytewise)

lemma byte_eqI: "(\<And>j. j < 8 \<Longrightarrow> byte v j = byte w j) \<Longrightarrow> v = w"
proof (rule bit_word_eqI)
  fix n assume *: "\<And>j. j < 8 \<Longrightarrow> byte v j = byte w j" and "n < LENGTH(64)"
  then have "bit (byte v (n div 8)) (n mod 8) = bit (byte w (n div 8)) (n mod 8)"
    by (simp add: *)
  then show "bit v n = bit w n"
    by (simp add: bit_byte)
qed

lemma byte_xor: "byte (v XOR w) j = byte v j XOR byte w j"
  by (rule bit_word_eqI) (simp add: bit_byte bit_xor_iff)

lemma bytewise_of_bytes: "bytewise (byte w) = w"
  by (rule byte_eqI) (simp add: bytewise_byte)

text \<open>The word constants of the doubling, bit by bit.\<close>

lemma raidz_constants:
  "0x8080808080808080 = bytewise (\<lambda>_. 0x80)" "0xfefefefefefefefe = bytewise (\<lambda>_. 0xfe)"
  "0x1d1d1d1d1d1d1d1d = bytewise (\<lambda>_. 0x1d)"
proof -
  have "[0..<8] = [0, 1, 2, 3, 4, 5, 6, 7]" by code_simp
  then show "0x8080808080808080 = bytewise (\<lambda>_. 0x80)" "0xfefefefefefefefe = bytewise (\<lambda>_. 0xfe)"
    "0x1d1d1d1d1d1d1d1d = bytewise (\<lambda>_. 0x1d)"
    by (simp_all add: bytewise_def push_bit_eq_mult del: upt_conv_Cons_Cons upt_rec_numeral)
qed

text \<open>
  The doubling of eight bytes at once.  The subtraction spreads the high bit of each byte over
  the byte: with \<open>h\<close> the word of the high bits, each moved to the bottom of its byte, it
  computes \<open>255 * h\<close>.
\<close>

lemma word_of_add: "word_of (b # bs) = ucast b + 256 * word_of bs"
proof -
  have "ucast b AND push_bit 8 (word_of bs) = (0 :: u64)"
    by (rule bit_word_eqI) (auto simp: bit_simps dest: bit_imp_le_length)
  then show ?thesis
    using disjunctive_add_eq_or [of "ucast b :: u64" "push_bit 8 (word_of bs)"]
    by (simp add: push_bit_eq_mult mult.commute)
qed

lemma spread_bits:
  "255 * word_of (map (\<lambda>b. if b then 1 else 0) bs) = word_of (map (\<lambda>b. if b then 0xff else 0) bs)"
proof (induction bs)
  case (Cons b bs)
  have "255 * (u + 256 * w) = 255 * u + 256 * (255 * w)" for u w :: u64
    by (simp only: distrib_left mult.left_commute)
  then show ?case
    using Cons unfolding list.map word_of_add by (cases b) (simp_all only: if_True if_False, simp_all)
qed simp

lemma bit_u8_consts:
  "bit (0x80 :: u8) k \<longleftrightarrow> k = 7" "bit (0xfe :: u8) k \<longleftrightarrow> 0 < k \<and> k < 8"
  "bit (0x1d :: u8) k \<longleftrightarrow> k \<in> {0, 2, 3, 4}" "bit (0xff :: u8) k \<longleftrightarrow> k < 8" "bit (1 :: u8) k \<longleftrightarrow> k = 0"
proof -
  have "k \<in> {0, 1, 2, 3, 4, 5, 6, 7} \<or> 8 \<le> k" by auto
  then show "bit (0x80 :: u8) k \<longleftrightarrow> k = 7" "bit (0xfe :: u8) k \<longleftrightarrow> 0 < k \<and> k < 8"
    "bit (0x1d :: u8) k \<longleftrightarrow> k \<in> {0, 2, 3, 4}" "bit (0xff :: u8) k \<longleftrightarrow> k < 8"
    by (auto dest: bit_imp_le_length)
qed (simp add: bit_1_iff)

lemma raidz_mask:
  fixes q :: u64
  defines "m \<equiv> q AND 0x8080808080808080"
  shows "push_bit 1 m - drop_bit 7 m = bytewise (\<lambda>j. if bit (byte q j) 7 then 0xff else 0)"
proof -
  let ?h = "bytewise (\<lambda>j. if bit (byte q j) 7 then 1 else 0)"
  have m: "bit m n \<longleftrightarrow> bit q n \<and> n mod 8 = 7" for n
    unfolding m_def raidz_constants
    by (auto simp: bit_and_iff bit_bytewise bit_u8_consts simp del: bit_numeral_word_iff dest: bit_imp_le_length)
  have mod: "(n + 7) mod 8 = 7 \<longleftrightarrow> n mod 8 = 0" for n :: nat
  proof -
    have "n mod 8 < 8" by simp
    then have "n mod 8 \<in> {0, 1, 2, 3, 4, 5, 6, 7}" by auto
    moreover have "(n + 7) mod 8 = (n mod 8 + 7) mod 8" by (simp add: mod_add_left_eq)
    ultimately show ?thesis by auto
  qed
  have h: "drop_bit 7 m = ?h"
  proof (rule bit_word_eqI)
    fix n assume n: "n < LENGTH(64)"
    show "bit (drop_bit 7 m) n = bit ?h n"
    proof (cases "n mod 8 = 0")
      case True
      then have "n = 8 * (n div 8)" by auto
      then show ?thesis
        using n True by (simp add: bit_drop_bit_eq m mod bit_bytewise bit_byte bit_u8_consts add.commute)
    next
      case False
      then show ?thesis
        by (simp add: bit_drop_bit_eq m mod bit_bytewise bit_u8_consts add.commute)
    qed
  qed
  have "push_bit 1 m = push_bit 8 (drop_bit 7 m)"
  proof (rule bit_word_eqI)
    fix n assume n: "n < LENGTH(64)"
    have "(n - 1) mod 8 \<noteq> 7" if "n < 8" using that by simp
    then show "bit (push_bit 1 m) n = bit (push_bit 8 (drop_bit 7 m)) n"
      using n unfolding bit_push_bit_iff bit_drop_bit_eq comp_def m
      by (cases "8 \<le> n") (auto simp: not_le)
  qed
  then have "push_bit 1 m - drop_bit 7 m = 255 * ?h"
    by (simp add: h push_bit_eq_mult)
  also have "\<dots> = bytewise (\<lambda>j. if bit (byte q j) 7 then 0xff else 0)"
    using spread_bits [of "map (\<lambda>j. bit (byte q j) 7) [0..<8]"]
    by (simp only: bytewise_def map_map comp_def)
  finally show ?thesis .
qed


lemma raidz_mul2_bytes: "byte (raidz_mul2 q) j = VDEV_RAIDZ_MUL_2 (byte q j)" if "j < 8"
proof (rule bit_word_eqI)
  fix n assume n: "n < LENGTH(8)"
  have "bit (raidz_mul2 q) (8 * j + n) =
      (((0 < n \<and> bit q (8 * j + n - 1)) \<noteq> (bit (byte q j) 7 \<and> n \<in> {0, 2, 3, 4})))"
    using n that unfolding raidz_mul2_def Let_def raidz_mask unfolding raidz_constants
    by (auto simp: bit_xor_iff bit_and_iff bit_push_bit_iff bit_bytewise bit_u8_consts
             simp del: bit_numeral_word_iff push_bit_Suc push_bit_numeral)
  moreover have "bit (VDEV_RAIDZ_MUL_2 b) n =
      ((0 < n \<and> bit b (n - 1)) \<noteq> (bit b 7 \<and> n \<in> {0, 2, 3, 4}))" for b
  proof -
    have "(b AND 0x80 \<noteq> 0) = bit b 7"
      using and_exp_eq_0_iff_not_bit [of b 7] by simp
    then show ?thesis
      using n unfolding VDEV_RAIDZ_MUL_2_def bit_xor_iff bit_push_bit_iff
      by (auto simp: bit_u8_consts simp del: bit_numeral_word_iff)
  qed
  ultimately show "bit (byte (raidz_mul2 q) j) n = bit (VDEV_RAIDZ_MUL_2 (byte q j)) n"
    using n by (auto simp: bit_byte add.commute)
qed


section \<open>The tables\<close>

lemma pow2_table: "length vdev_raidz_pow2 = 256" "map VDEV_RAIDZ_MUL_2 (butlast vdev_raidz_pow2) = tl vdev_raidz_pow2"
  "vdev_raidz_pow2 ! 0 = 1" "vdev_raidz_pow2 ! 255 = 1"
  by code_simp+

lemma log2_table:
  "map (\<lambda>i. vdev_raidz_pow2 ! (vdev_raidz_log2 ! i)) [1..<256] = map of_nat [1..<256]"
  "list_all (\<lambda>e. e < 255) vdev_raidz_log2" "length vdev_raidz_log2 = 256"
  by code_simp+

lemma word_xor_eq_0: "a XOR b = 0 \<longleftrightarrow> a = (b :: 'a::len word)"
proof
  assume "a XOR b = 0"
  then have "(a XOR b) XOR b = 0 XOR b" by simp
  then show "a = b" by (simp add: xor.assoc)
qed simp

abbreviation T8 :: "u8 \<Rightarrow> u8" where "T8 \<equiv> VDEV_RAIDZ_MUL_2"

lemma T8_xor: "T8 (a XOR b) = T8 a XOR T8 b"
proof (rule bit_word_eqI)
  fix n assume n: "n < LENGTH(8)"
  have h: "(c AND 0x80 \<noteq> 0) = bit c 7" for c :: u8
    using and_exp_eq_0_iff_not_bit [of c 7] by simp
  show "bit (T8 (a XOR b)) n = bit (T8 a XOR T8 b) n"
    using n unfolding VDEV_RAIDZ_MUL_2_def h bit_xor_iff bit_push_bit_iff by auto
qed

lemma T8_0 [simp]: "T8 0 = 0"
  by (simp add: VDEV_RAIDZ_MUL_2_def)

lemma T8_pow_0 [simp]: "(T8 ^^ n) 0 = 0"
  by (induction n) auto

lemma T8_T8: "(T8 ^^ m) ((T8 ^^ n) a) = (T8 ^^ (m + n)) a"
  by (simp add: funpow_add)

lemma T8_pow_xor: "(T8 ^^ n) (a XOR b) = (T8 ^^ n) a XOR (T8 ^^ n) b"
  by (induction n) (auto simp: T8_xor)

lemma pow2_nth: "i < 256 \<Longrightarrow> vdev_raidz_pow2 ! i = (T8 ^^ i) 1"
proof (induction i)
  case 0
  show ?case by (simp only: pow2_table funpow_0)
next
  case (Suc i)
  have "map T8 (butlast vdev_raidz_pow2) ! i = tl vdev_raidz_pow2 ! i"
    by (simp only: pow2_table(2))
  then have "vdev_raidz_pow2 ! Suc i = T8 (vdev_raidz_pow2 ! i)"
    using Suc.prems by (simp add: nth_butlast nth_tl pow2_table(1))
  then show ?case using Suc by simp
qed

lemma log2_nth:
  assumes "a \<noteq> 0"
  shows "(T8 ^^ (vdev_raidz_log2 ! unat a)) 1 = a" "vdev_raidz_log2 ! unat a < 255"
proof -
  have a: "0 < unat a" "unat a < 256" using assms u8_bound [of a] by (auto simp: unat_gt_0)
  show l: "vdev_raidz_log2 ! unat a < 255"
    using log2_table(2,3) a by (simp add: list_all_length)
  have "vdev_raidz_pow2 ! (vdev_raidz_log2 ! unat a) = of_nat (unat a)"
    using arg_cong [OF log2_table(1), of "\<lambda>l. l ! (unat a - 1)"] a
      nth_upt [of 1 "unat a - 1" 256] by simp
  then show "(T8 ^^ (vdev_raidz_log2 ! unat a)) 1 = a"
    using l by (simp add: pow2_nth)
qed

lemma T8_pow_255: "(T8 ^^ 255) a = a"
proof (cases "a = 0")
  case False
  define k where "k = vdev_raidz_log2 ! unat a"
  have a: "a = (T8 ^^ k) 1" using log2_nth(1) [OF False] by (simp add: k_def)
  have "(T8 ^^ 255) a = (T8 ^^ k) ((T8 ^^ 255) 1)"
    unfolding a T8_T8 by (simp only: add.commute)
  then show ?thesis
    using pow2_nth [of 255] pow2_table(4) a by simp
qed simp

lemma exp2_pow: "exp \<le> 255 \<Longrightarrow> vdev_raidz_exp2 a exp = (T8 ^^ exp) a"
proof (cases "a = 0")
  case False
  assume e: "exp \<le> 255"
  define k where "k = vdev_raidz_log2 ! unat a"
  have a: "a = (T8 ^^ k) 1" and k: "k < 255"
    using log2_nth [OF False] by (simp_all add: k_def)
  have "(T8 ^^ exp) a = (T8 ^^ (exp + k)) 1"
    unfolding a by (simp add: funpow_add)
  also have "\<dots> = (T8 ^^ (if exp + k > 255 then exp + k - 255 else exp + k)) 1"
  proof (cases "exp + k > 255")
    case True
    then have "exp + k = 255 + (exp + k - 255)" by simp
    then have "(T8 ^^ (exp + k)) 1 = (T8 ^^ 255) ((T8 ^^ (exp + k - 255)) 1)"
      unfolding T8_T8 by (simp only:)
    then show ?thesis using True by (simp add: T8_pow_255)
  qed simp
  also have "\<dots> = vdev_raidz_exp2 a exp"
    using False e k by (auto simp: vdev_raidz_exp2_def Let_def pow2_nth simp flip: k_def)
  finally show ?thesis by simp
qed (simp add: vdev_raidz_exp2_def)

text \<open>
  Multiplication by a sum of field elements is the sum of the multiplications.
\<close>

lemma T8_pow_comm: "(T8 ^^ m) ((T8 ^^ n) a) = (T8 ^^ n) ((T8 ^^ m) a)"
  unfolding T8_T8 by (simp only: add.commute)

lemma T8_scalar:
  assumes "(T8 ^^ i) 1 = (T8 ^^ j) 1 XOR (T8 ^^ k) 1"
  shows "(T8 ^^ i) a = (T8 ^^ j) a XOR (T8 ^^ k) a"
proof (cases "a = 0")
  case False
  define l where "l = vdev_raidz_log2 ! unat a"
  have a: "a = (T8 ^^ l) 1" using log2_nth(1) [OF False] by (simp add: l_def)
  show ?thesis
    unfolding a T8_pow_comm [of i l] T8_pow_comm [of j l] T8_pow_comm [of k l] assms T8_pow_xor by simp
qed simp


lemma T8_same: "(T8 ^^ i) 1 = (T8 ^^ j) 1 \<Longrightarrow> (T8 ^^ i) a = (T8 ^^ j) a"
proof (cases "a = 0")
  case False
  assume e: "(T8 ^^ i) 1 = (T8 ^^ j) 1"
  define l where "l = vdev_raidz_log2 ! unat a"
  have a: "a = (T8 ^^ l) 1" using log2_nth(1) [OF False] by (simp add: l_def)
  show ?thesis unfolding a T8_pow_comm [of i l] T8_pow_comm [of j l] e ..
qed simp

lemma T8_pow_nonzero: "a \<noteq> 0 \<Longrightarrow> (T8 ^^ n) a \<noteq> 0"
proof (induction n)
  case (Suc n)
  show ?case
  proof
    assume "(T8 ^^ Suc n) a = 0"
    then have "(T8 ^^ 254) (T8 ((T8 ^^ n) a)) = 0" by simp
    moreover have "(T8 ^^ 254) (T8 b) = (T8 ^^ 255) b" for b
      using funpow_Suc_right [of 254 T8] by (simp add: fun_eq_iff)
    ultimately show False using Suc T8_pow_255 by simp
  qed
qed simp

text \<open>2 generates the field: no power below 255 is 1.\<close>

lemma T8_order: assumes "0 < i" "i < 255" shows "(T8 ^^ i) 1 \<noteq> 1"
proof
  assume 1: "(T8 ^^ i) 1 = 1"
  have per: "(T8 ^^ k) 1 = (T8 ^^ (k mod i)) 1" for k
  proof (induction k rule: less_induct)
    case (less k)
    show ?case
    proof (cases "k < i")
      case False
      then have "(T8 ^^ k) 1 = (T8 ^^ (k - i)) ((T8 ^^ i) 1)"
        unfolding T8_T8 by (simp only: le_add_diff_inverse2 not_less)
      also have "\<dots> = (T8 ^^ ((k - i) mod i)) 1"
        using less [of "k - i"] False assms(1) by (simp add: 1)
      finally show ?thesis using False by (simp add: le_mod_geq)
    qed simp
  qed
  have "UNIV - {0} \<subseteq> (\<lambda>k. (T8 ^^ k) 1) ` {..<i}"
  proof
    fix a :: u8 assume "a \<in> UNIV - {0}"
    then have "a = (T8 ^^ (vdev_raidz_log2 ! unat a mod i)) 1"
      using log2_nth(1) [of a] per by simp
    then show "a \<in> (\<lambda>k. (T8 ^^ k) 1) ` {..<i}" using assms(1) by auto
  qed
  then have "card (UNIV - {0 :: u8}) \<le> i"
    using surj_card_le [of "{..<i}" "UNIV - {0 :: u8}" "\<lambda>k. (T8 ^^ k) 1"] by simp
  then show False using assms(2) by (simp add: card_Diff_singleton card_word)
qed

text \<open>
  The coefficients of \<^verbatim>\<open>vdev_raidz_reconstruct_pq\<close> solve for column x.
\<close>

lemma T8_solve:
  assumes "0 < d" "d \<le> m" "m < 255"
  defines "a \<equiv> vdev_raidz_pow2 ! (255 - d)" and "b \<equiv> vdev_raidz_pow2 ! (255 - m)"
  defines "tmp \<equiv> 255 - vdev_raidz_log2 ! unat (a XOR 1)"
  defines "aexp \<equiv> vdev_raidz_log2 ! unat (vdev_raidz_exp2 a tmp)"
    and "bexp \<equiv> vdev_raidz_log2 ! unat (vdev_raidz_exp2 b tmp)"
  shows "(T8 ^^ aexp) (dx XOR dy) XOR (T8 ^^ bexp) ((T8 ^^ m) dx XOR (T8 ^^ (m - d)) dy) = dx"
    and "aexp < 255" and "bexp < 255"
proof -
  have a: "a = (T8 ^^ (255 - d)) 1" and b: "b = (T8 ^^ (255 - m)) 1"
    by (simp_all add: a_def b_def pow2_nth)
  define L where "L = vdev_raidz_log2 ! unat (a XOR 1)"
  have "a \<noteq> 1" using T8_order [of "255 - d"] assms(1-3) by (simp add: a)
  then have "a XOR 1 \<noteq> 0" by (auto simp: word_xor_eq_0)
  note L = log2_nth [OF this, folded L_def]
  have tmp: "tmp \<le> 255" "tmp + L = 255" using L(2) by (simp_all add: tmp_def L_def)
  have sum: "(T8 ^^ L) v = (T8 ^^ (255 - d)) v XOR v" for v
    using T8_scalar [of L "255 - d" 0 v] L(1) a by simp
  have e: "vdev_raidz_exp2 ((T8 ^^ k) 1) tmp = (T8 ^^ (tmp + k)) 1" for k
    using tmp(1) by (simp add: exp2_pow funpow_add)
  have nz: "(T8 ^^ k) 1 \<noteq> 0" for k by (simp add: T8_pow_nonzero)
  have "(T8 ^^ aexp) v = (T8 ^^ (tmp + (255 - d))) v" for v
    by (rule T8_same) (simp only: aexp_def a e log2_nth(1) [OF nz])
  then have A: "(T8 ^^ aexp) v = (T8 ^^ tmp) ((T8 ^^ (255 - d)) v)" for v
    by (simp only: T8_T8)
  have "(T8 ^^ bexp) v = (T8 ^^ (tmp + (255 - m))) v" for v
    by (rule T8_same) (simp only: bexp_def b e log2_nth(1) [OF nz])
  then have B: "(T8 ^^ bexp) v = (T8 ^^ tmp) ((T8 ^^ (255 - m)) v)" for v
    by (simp only: T8_T8)
  show "aexp < 255" "bexp < 255"
    using log2_nth(2) [OF nz] by (simp_all only: aexp_def bexp_def a b e)
  have "255 - m + m = 255" "255 - m + (m - d) = 255 - d" using assms(2,3) by auto
  then have m: "(T8 ^^ (255 - m)) ((T8 ^^ m) dx) = dx"
    "(T8 ^^ (255 - m)) ((T8 ^^ (m - d)) dy) = (T8 ^^ (255 - d)) dy"
    unfolding T8_T8 by (simp_all only: T8_pow_255)
  have x: "(p XOR q) XOR (r XOR q) = p XOR r" for p q r :: u8
    by (simp add: xor.assoc xor.left_commute [of q r])
  have "(T8 ^^ aexp) (dx XOR dy) XOR (T8 ^^ bexp) ((T8 ^^ m) dx XOR (T8 ^^ (m - d)) dy) =
      (T8 ^^ tmp) ((T8 ^^ L) dx)"
    unfolding A B sum T8_pow_xor [of "255 - m"] m
    by (simp only: T8_pow_xor [symmetric] x) (simp only: T8_pow_xor x)
  also have "\<dots> = (T8 ^^ 255) dx"
    unfolding T8_T8 tmp(2) ..
  finally show "(T8 ^^ aexp) (dx XOR dy) XOR (T8 ^^ bexp) ((T8 ^^ m) dx XOR (T8 ^^ (m - d)) dy) = dx"
    by (simp only: T8_pow_255)
qed

section \<open>The same on words\<close>

abbreviation T64 :: "u64 \<Rightarrow> u64" where "T64 \<equiv> raidz_mul2"

lemma T64_bytes: "j < 8 \<Longrightarrow> byte ((T64 ^^ n) w) j = (T8 ^^ n) (byte w j)"
  by (induction n) (auto simp: raidz_mul2_bytes)

lemma T64_pow_xor: "(T64 ^^ n) (v XOR w) = (T64 ^^ n) v XOR (T64 ^^ n) w"
  by (rule byte_eqI) (simp add: T64_bytes byte_xor T8_pow_xor)

lemma T64_T64: "(T64 ^^ m) ((T64 ^^ n) w) = (T64 ^^ (m + n)) w"
  by (simp add: funpow_add)

lemma T64_xor: "T64 (v XOR w) = T64 v XOR T64 w"
  using T64_pow_xor [of 1] by simp

lemma byte_0 [simp]: "byte 0 j = 0"
  by (simp add: byte_def)

lemma T64_pow_0 [simp]: "(T64 ^^ n) 0 = 0"
  by (rule byte_eqI) (simp add: T64_bytes)

lemma T64_0 [simp]: "T64 0 = 0"
  using T64_pow_0 [of 1] by simp

lemma T64_pow_255: "(T64 ^^ 255) w = w"
  by (rule byte_eqI) (simp add: T64_bytes T8_pow_255)

lemma T64_exp2:
  "exp \<le> 255 \<Longrightarrow> bytewise (\<lambda>j. vdev_raidz_exp2 (byte w j) exp) = (T64 ^^ exp) w"
  by (rule byte_eqI) (simp add: bytewise_byte T64_bytes exp2_pow)

lemma recon_xd_eq:
  "aexp \<le> 255 \<Longrightarrow> bexp \<le> 255 \<Longrightarrow>
   recon_xd aexp bexp p q pxy qxy = (T64 ^^ aexp) (p XOR pxy) XOR (T64 ^^ bexp) (q XOR qxy)"
  by (rule byte_eqI) (simp add: recon_xd_def bytewise_byte T64_bytes exp2_pow byte_xor)

lemma recon_yd_eq: "recon_yd p pxy xd = p XOR pxy XOR xd"
  by (rule byte_eqI) (simp add: recon_yd_def bytewise_byte byte_xor)

lemma T64_solve:
  assumes "0 < d" "d \<le> m" "m < 255"
  defines "a \<equiv> vdev_raidz_pow2 ! (255 - d)" and "b \<equiv> vdev_raidz_pow2 ! (255 - m)"
  defines "tmp \<equiv> 255 - vdev_raidz_log2 ! unat (a XOR 1)"
  defines "aexp \<equiv> vdev_raidz_log2 ! unat (vdev_raidz_exp2 a tmp)"
    and "bexp \<equiv> vdev_raidz_log2 ! unat (vdev_raidz_exp2 b tmp)"
  shows "recon_xd aexp bexp p q (p XOR dx XOR dy) (q XOR (T64 ^^ m) dx XOR (T64 ^^ (m - d)) dy) = dx"
proof (rule byte_eqI)
  note solve = T8_solve [OF assms(1-3), folded a_def b_def, folded tmp_def, folded aexp_def bexp_def]
  have x: "u XOR (u XOR v XOR w) = v XOR w" for u v w :: u8
    by (simp add: xor.assoc flip: xor.assoc [of u u])
  fix j :: nat assume "j < 8"
  then show "byte (recon_xd aexp bexp p q (p XOR dx XOR dy) (q XOR (T64 ^^ m) dx XOR (T64 ^^ (m - d)) dy)) j =
      byte dx j"
    using solve(2,3)
    by (simp add: recon_xd_def bytewise_byte byte_xor exp2_pow T64_bytes x solve(1))
qed

end
