(* ===== verification/Raidz_Parity.thy ===== *)
theory Raidz_Parity
  imports Raidz_Field
begin

text \<open>
  Generation of the P and Q columns of RAID-Z and the three reconstructions
  (\<^verbatim>\<open>uts/common/fs/zfs/vdev_raidz.c\<close>).

  The data of a column is a list of 64-bit words, which is how the parity loops read it.  A
  loop over the first \<open>n\<close> words of a column is written with \<open>take n\<close> and \<open>drop n\<close>.  The two
  buffers that \<^verbatim>\<open>vdev_raidz_reconstruct_pq\<close> allocates are zero-filled here; the parity
  generation stores into every word of them before it reads one.
\<close>

unbundle bit_operations_syntax

section \<open>Columns\<close>

record raidz_col =
  rc_devidx :: u64
  rc_offset :: u64
  rc_size :: u64
  rc_data :: "u64 list"
  rc_error :: "errno option"
  rc_tried :: bool
  rc_skipped :: bool

record raidz_map =
  rm_cols :: nat
  rm_bigcols :: nat
  rm_asize :: u64
  rm_missingdata :: nat
  rm_missingparity :: nat
  rm_firstdatacol :: nat
  rm_col :: "raidz_col list"

text \<open>The number of words of a column, and the update of one column.\<close>

definition rc_count :: "raidz_col \<Rightarrow> nat" where
  "rc_count rc = unat (rc_size rc div 8)"

definition upd_col :: "nat \<Rightarrow> (raidz_col \<Rightarrow> raidz_col) \<Rightarrow> raidz_map \<Rightarrow> raidz_map" where
  "upd_col c f rm = rm\<lparr>rm_col := (rm_col rm)[c := f (rm_col rm ! c)]\<rparr>"

definition set_data :: "u64 list \<Rightarrow> raidz_col \<Rightarrow> raidz_col" where
  "set_data d rc = rc\<lparr>rc_data := d\<rparr>"

section \<open>Parity generation\<close>

definition copy_words :: "nat \<Rightarrow> u64 list \<Rightarrow> u64 list \<Rightarrow> u64 list" where
  "copy_words n src dst = take n src @ drop n dst"

definition xor_words :: "nat \<Rightarrow> u64 list \<Rightarrow> u64 list \<Rightarrow> u64 list" where
  "xor_words n src dst = map2 (XOR) (take n dst) (take n src) @ drop n dst"

text \<open>\<open>zero_words n m dst\<close> clears the words \<open>n\<close> up to \<open>m\<close>.\<close>

definition zero_words :: "nat \<Rightarrow> nat \<Rightarrow> u64 list \<Rightarrow> u64 list" where
  "zero_words n m dst = take n dst @ replicate (m - n) 0 @ drop m dst"

text \<open>
  \<open>horner_words n m src dst\<close>: the words below \<open>n\<close> are doubled and the source is added, those
  from \<open>n\<close> up to \<open>m\<close> are only doubled.
\<close>

definition horner_words :: "nat \<Rightarrow> nat \<Rightarrow> u64 list \<Rightarrow> u64 list \<Rightarrow> u64 list" where
  "horner_words n m src dst =
     map2 (\<lambda>q s. raidz_mul2 q XOR s) (take n dst) (take n src) @
     map raidz_mul2 (take (m - n) (drop n dst)) @ drop (max n m) dst"

definition gen_p_col :: "raidz_map \<Rightarrow> nat \<Rightarrow> raidz_map" where
  "gen_p_col rm c =
     (let src = rc_data (rm_col rm ! c);
          p = rc_data (rm_col rm ! VDEV_RAIDZ_P);
          ccount = rc_count (rm_col rm ! c)
      in upd_col VDEV_RAIDZ_P (set_data
           (if c = rm_firstdatacol rm then copy_words ccount src p else xor_words ccount src p)) rm)"

definition vdev_raidz_generate_parity_p :: "raidz_map \<Rightarrow> raidz_map" where
  "vdev_raidz_generate_parity_p rm =
     foldl gen_p_col rm [rm_firstdatacol rm..<rm_cols rm]"

definition gen_pq_col :: "nat \<Rightarrow> raidz_map \<Rightarrow> nat \<Rightarrow> raidz_map" where
  "gen_pq_col pcount rm c =
     (let src = rc_data (rm_col rm ! c);
          p = rc_data (rm_col rm ! VDEV_RAIDZ_P);
          q = rc_data (rm_col rm ! VDEV_RAIDZ_Q);
          ccount = rc_count (rm_col rm ! c)
      in if c = rm_firstdatacol rm then
           upd_col VDEV_RAIDZ_P (set_data (zero_words ccount pcount (copy_words ccount src p)))
             (upd_col VDEV_RAIDZ_Q (set_data (zero_words ccount pcount (copy_words ccount src q))) rm)
         else
           upd_col VDEV_RAIDZ_P (set_data (xor_words ccount src p))
             (upd_col VDEV_RAIDZ_Q (set_data (horner_words ccount pcount src q)) rm))"

definition vdev_raidz_generate_parity_pq :: "raidz_map \<Rightarrow> raidz_map" where
  "vdev_raidz_generate_parity_pq rm =
     foldl (gen_pq_col (rc_count (rm_col rm ! VDEV_RAIDZ_P))) rm [rm_firstdatacol rm..<rm_cols rm]"

section \<open>Reconstruction\<close>

definition recon_p_col :: "nat \<Rightarrow> nat \<Rightarrow> raidz_map \<Rightarrow> nat \<Rightarrow> raidz_map" where
  "recon_p_col x xcount rm c =
     (if c = x then rm
      else upd_col x (set_data (xor_words (min (rc_count (rm_col rm ! c)) xcount)
                                  (rc_data (rm_col rm ! c)) (rc_data (rm_col rm ! x)))) rm)"

definition vdev_raidz_reconstruct_p :: "raidz_map \<Rightarrow> nat \<Rightarrow> raidz_map" where
  "vdev_raidz_reconstruct_p rm x =
     (let xcount = rc_count (rm_col rm ! x);
          rm = upd_col x (set_data (copy_words xcount (rc_data (rm_col rm ! VDEV_RAIDZ_P))
                                      (rc_data (rm_col rm ! x)))) rm
      in foldl (recon_p_col x xcount) rm [rm_firstdatacol rm..<rm_cols rm])"

definition recon_q_col :: "nat \<Rightarrow> nat \<Rightarrow> raidz_map \<Rightarrow> nat \<Rightarrow> raidz_map" where
  "recon_q_col x xcount rm c =
     (let src = rc_data (rm_col rm ! c);
          dst = rc_data (rm_col rm ! x);
          ccount = (if c = x then 0 else rc_count (rm_col rm ! c));
          count = min ccount xcount
      in upd_col x (set_data
           (if c = rm_firstdatacol rm then zero_words count xcount (copy_words count src dst)
            else horner_words count xcount src dst)) rm)"

text \<open>The last loop: add Q and multiply each byte by a power of 2.\<close>

definition recon_q_scale :: "nat \<Rightarrow> nat \<Rightarrow> u64 list \<Rightarrow> u64 list \<Rightarrow> u64 list" where
  "recon_q_scale exp n src dst =
     map2 (\<lambda>d s. let w = d XOR s in bytewise (\<lambda>j. vdev_raidz_exp2 (byte w j) exp))
       (take n dst) (take n src) @ drop n dst"

definition vdev_raidz_reconstruct_q :: "raidz_map \<Rightarrow> nat \<Rightarrow> raidz_map" where
  "vdev_raidz_reconstruct_q rm x =
     (let xcount = rc_count (rm_col rm ! x);
          rm = foldl (recon_q_col x xcount) rm [rm_firstdatacol rm..<rm_cols rm];
          exp = 255 - (rm_cols rm - 1 - x)
      in upd_col x (set_data (recon_q_scale exp xcount (rc_data (rm_col rm ! VDEV_RAIDZ_Q))
                                (rc_data (rm_col rm ! x)))) rm)"

definition vdev_raidz_reconstruct_pq :: "raidz_map \<Rightarrow> nat \<Rightarrow> nat \<Rightarrow> raidz_map" where
  "vdev_raidz_reconstruct_pq rm x y =
     (let pdata = rc_data (rm_col rm ! VDEV_RAIDZ_P);
          qdata = rc_data (rm_col rm ! VDEV_RAIDZ_Q);
          xsize = rc_size (rm_col rm ! x);
          ysize = rc_size (rm_col rm ! y);
          xcount = rc_count (rm_col rm ! x);
          ycount = rc_count (rm_col rm ! y);
          rm = upd_col VDEV_RAIDZ_P (set_data (replicate (rc_count (rm_col rm ! VDEV_RAIDZ_P)) 0)) rm;
          rm = upd_col VDEV_RAIDZ_Q (set_data (replicate (rc_count (rm_col rm ! VDEV_RAIDZ_Q)) 0)) rm;
          rm = upd_col x (rc_size_update (\<lambda>_. 0)) rm;
          rm = upd_col y (rc_size_update (\<lambda>_. 0)) rm;
          rm = vdev_raidz_generate_parity_pq rm;
          rm = upd_col x (rc_size_update (\<lambda>_. xsize)) rm;
          rm = upd_col y (rc_size_update (\<lambda>_. ysize)) rm;
          pxy = rc_data (rm_col rm ! VDEV_RAIDZ_P);
          qxy = rc_data (rm_col rm ! VDEV_RAIDZ_Q);
          a = vdev_raidz_pow2 ! (255 + x - y);
          b = vdev_raidz_pow2 ! (255 - (rm_cols rm - 1 - x));
          tmp = 255 - vdev_raidz_log2 ! unat (a XOR 1);
          aexp = vdev_raidz_log2 ! unat (vdev_raidz_exp2 a tmp);
          bexp = vdev_raidz_log2 ! unat (vdev_raidz_exp2 b tmp);
          xd = map (\<lambda>i. recon_xd aexp bexp (pdata ! i) (qdata ! i) (pxy ! i) (qxy ! i)) [0..<xcount];
          yd = map (\<lambda>i. recon_yd (pdata ! i) (pxy ! i) (xd ! i)) [0..<min xcount ycount];
          rm = upd_col x (\<lambda>rc. rc\<lparr>rc_data := xd @ drop xcount (rc_data rc)\<rparr>) rm;
          rm = upd_col y (\<lambda>rc. rc\<lparr>rc_data := yd @ drop (min xcount ycount) (rc_data rc)\<rparr>) rm;
          rm = upd_col VDEV_RAIDZ_P (set_data pdata) rm
      in upd_col VDEV_RAIDZ_Q (set_data qdata) rm)"

section \<open>What the parity columns hold\<close>

text \<open>
  Word \<open>i\<close> of column \<open>c\<close>, a short column reading as zeros, and the P and Q words of the data
  columns.
\<close>

definition colw :: "raidz_map \<Rightarrow> nat \<Rightarrow> nat \<Rightarrow> u64" where
  "colw rm i c = (if i < rc_count (rm_col rm ! c) then rc_data (rm_col rm ! c) ! i else 0)"

definition p_word :: "raidz_map \<Rightarrow> nat list \<Rightarrow> nat \<Rightarrow> u64" where
  "p_word rm cs i = foldl (\<lambda>w c. w XOR colw rm i c) 0 cs"

definition q_word :: "raidz_map \<Rightarrow> nat list \<Rightarrow> nat \<Rightarrow> u64" where
  "q_word rm cs i = foldl (\<lambda>w c. T64 w XOR colw rm i c) 0 cs"

definition data_cols :: "raidz_map \<Rightarrow> nat list" where
  "data_cols rm = [rm_firstdatacol rm..<rm_cols rm]"

text \<open>A well-formed map: one or two parity columns, as long as any other column.\<close>

definition raidz_wf :: "raidz_map \<Rightarrow> bool" where
  "raidz_wf rm \<longleftrightarrow> length (rm_col rm) = rm_cols rm \<and> rm_firstdatacol rm \<in> {1, 2} \<and>
     rm_firstdatacol rm < rm_cols rm \<and>
     (\<forall>c<rm_cols rm. length (rc_data (rm_col rm ! c)) = rc_count (rm_col rm ! c) \<and>
        rc_count (rm_col rm ! c) \<le> rc_count (rm_col rm ! 0)) \<and>
     rc_count (rm_col rm ! (rm_firstdatacol rm - 1)) = rc_count (rm_col rm ! 0) \<and>
     rc_count (rm_col rm ! rm_firstdatacol rm) = rc_count (rm_col rm ! 0) \<and>
     (\<forall>d<rm_cols rm. \<forall>c<d. rm_firstdatacol rm \<le> c \<longrightarrow>
        rc_count (rm_col rm ! d) \<le> rc_count (rm_col rm ! c))"


section \<open>The loops, word by word\<close>

lemma copy_words_eq:
  "n \<le> length src \<Longrightarrow> n \<le> length dst \<Longrightarrow>
   copy_words n src dst = map (\<lambda>i. if i < n then src ! i else dst ! i) [0..<length dst]"
  by (rule nth_equalityI) (simp_all add: copy_words_def nth_append)

lemma xor_words_eq:
  "n \<le> length src \<Longrightarrow> n \<le> length dst \<Longrightarrow>
   xor_words n src dst = map (\<lambda>i. dst ! i XOR (if i < n then src ! i else 0)) [0..<length dst]"
  by (rule nth_equalityI) (simp_all add: xor_words_def nth_append)

lemma horner_words_eq:
  "n \<le> length src \<Longrightarrow> n \<le> length dst \<Longrightarrow> m = length dst \<Longrightarrow>
   horner_words n m src dst = map (\<lambda>i. T64 (dst ! i) XOR (if i < n then src ! i else 0)) [0..<m]"
  by (rule nth_equalityI) (simp_all add: horner_words_def nth_append max_def)

lemma zero_words_eq:
  "n \<le> length src \<Longrightarrow> n \<le> length dst \<Longrightarrow> m = length dst \<Longrightarrow>
   zero_words n m (copy_words n src dst) = map (\<lambda>i. if i < n then src ! i else 0) [0..<m]"
  by (rule nth_equalityI) (simp_all add: zero_words_def copy_words_def nth_append)

lemma recon_q_scale_eq:
  "n \<le> length src \<Longrightarrow> n = length dst \<Longrightarrow>
   recon_q_scale e n src dst =
     map (\<lambda>i. bytewise (\<lambda>j. vdev_raidz_exp2 (byte (dst ! i XOR src ! i) j) e)) [0..<n]"
  by (rule nth_equalityI) (simp_all add: recon_q_scale_def nth_append Let_def)

lemma upd_col_simps [simp]:
  "rm_cols (upd_col c f rm) = rm_cols rm" "rm_firstdatacol (upd_col c f rm) = rm_firstdatacol rm"
  "length (rm_col (upd_col c f rm)) = length (rm_col rm)"
  "d \<noteq> c \<Longrightarrow> rm_col (upd_col c f rm) ! d = rm_col rm ! d"
  "c < length (rm_col rm) \<Longrightarrow> rm_col (upd_col c f rm) ! c = f (rm_col rm ! c)"
  by (simp_all add: upd_col_def)

lemma upd_col_upd [simp]: "upd_col c f (upd_col c g rm) = upd_col c (\<lambda>rc. f (g rc)) rm"
  by (cases "c < length (rm_col rm)") (simp_all add: upd_col_def list_update_beyond)

lemma upd_col_comm: "c \<noteq> d \<Longrightarrow> upd_col c f (upd_col d g rm) = upd_col d g (upd_col c f rm)"
  by (simp add: upd_col_def list_update_swap)

lemma upd_col_id [simp]: "upd_col c (\<lambda>rc. rc) rm = rm"
  by (simp add: upd_col_def)

lemma set_data_simps [simp]:
  "set_data d (set_data e rc) = set_data d rc" "set_data (rc_data rc) rc = rc"
  "rc_data (set_data d rc) = d" "rc_size (set_data d rc) = rc_size rc"
  "rc_count (set_data d rc) = rc_count rc"
  by (simp_all add: set_data_def rc_count_def)

text \<open>A loop over columns whose body updates the words of column \<open>x\<close> independently.\<close>

lemma fold_col:
  assumes "\<And>d c. c \<in> set cs \<Longrightarrow> length d = n \<Longrightarrow>
      F (upd_col x (set_data d) rm) c = upd_col x (set_data (map (\<lambda>i. g c (d ! i) i) [0..<n])) rm"
    and "length d = n"
  shows "foldl F (upd_col x (set_data d) rm) cs =
    upd_col x (set_data (map (\<lambda>i. foldl (\<lambda>w c. g c w i) (d ! i) cs) [0..<n])) rm"
  using assms
proof (induction cs arbitrary: d)
  case Nil
  then show ?case using map_nth [of d] by auto
next
  case (Cons c cs)
  have e: "map (\<lambda>i. foldl (\<lambda>w c. g c w i) (map (\<lambda>i. g c (d ! i) i) [0..<n] ! i) cs) [0..<n] =
      map (\<lambda>i. foldl (\<lambda>w c. g c w i) (g c (d ! i) i) cs) [0..<n]"
    by simp
  show ?case
    using Cons.IH [of "map (\<lambda>i. g c (d ! i) i) [0..<n]"] Cons.prems unfolding e by simp
qed

lemma fold_col2:
  assumes "\<And>d e c. c \<in> set cs \<Longrightarrow> length d = n \<Longrightarrow> length e = n \<Longrightarrow>
      F (upd_col x (set_data d) (upd_col y (set_data e) rm)) c =
      upd_col x (set_data (map (\<lambda>i. g c (d ! i) i) [0..<n]))
        (upd_col y (set_data (map (\<lambda>i. h c (e ! i) i) [0..<n])) rm)"
    and "length d = n" "length e = n"
  shows "foldl F (upd_col x (set_data d) (upd_col y (set_data e) rm)) cs =
    upd_col x (set_data (map (\<lambda>i. foldl (\<lambda>w c. g c w i) (d ! i) cs) [0..<n]))
      (upd_col y (set_data (map (\<lambda>i. foldl (\<lambda>w c. h c w i) (e ! i) cs) [0..<n])) rm)"
  using assms
proof (induction cs arbitrary: d e)
  case Nil
  then have "map ((!) d) [0..<n] = d" "map ((!) e) [0..<n] = e"
    using map_nth [of d] map_nth [of e] by auto
  then show ?case by simp
next
  case (Cons c cs)
  let ?d = "map (\<lambda>i. g c (d ! i) i) [0..<n]" and ?e = "map (\<lambda>i. h c (e ! i) i) [0..<n]"
  have e: "map (\<lambda>i. foldl (\<lambda>w c. g c w i) (?d ! i) cs) [0..<n] =
      map (\<lambda>i. foldl (\<lambda>w c. g c w i) (g c (d ! i) i) cs) [0..<n]"
    "map (\<lambda>i. foldl (\<lambda>w c. h c w i) (?e ! i) cs) [0..<n] =
      map (\<lambda>i. foldl (\<lambda>w c. h c w i) (h c (e ! i) i) cs) [0..<n]"
    by simp_all
  show ?case
    using Cons.IH [of ?d ?e] Cons.prems unfolding e by simp
qed


lemma raidz_wf_simps:
  assumes "raidz_wf rm"
  shows "length (rm_col rm) = rm_cols rm" "0 < rm_firstdatacol rm" "rm_firstdatacol rm \<le> 2"
    "rm_firstdatacol rm < rm_cols rm" "0 < rm_cols rm"
    "c < rm_cols rm \<Longrightarrow> length (rc_data (rm_col rm ! c)) = rc_count (rm_col rm ! c)"
    "c < rm_cols rm \<Longrightarrow> rc_count (rm_col rm ! c) \<le> rc_count (rm_col rm ! 0)"
    "rc_count (rm_col rm ! rm_firstdatacol rm) = rc_count (rm_col rm ! 0)"
    "rm_firstdatacol rm = 2 \<Longrightarrow> rc_count (rm_col rm ! Suc 0) = rc_count (rm_col rm ! 0)"
  using assms by (auto simp: raidz_wf_def)

lemma foldl_g_first:
  assumes "\<And>w. g f w = (v :: u64)" "\<And>c w. c \<noteq> f \<Longrightarrow> g c w = h w c" "h 0 f = v" "f < m"
  shows "foldl (\<lambda>w c. g c w) u [f..<m] = foldl h 0 [f..<m]"
proof -
  have "foldl (\<lambda>w c. g c w) u cs = foldl h u cs" if "f \<notin> set cs" for u cs
    using that assms(2) by (induction cs arbitrary: u) auto
  then show ?thesis
    using assms by (simp add: upt_conv_Cons)
qed

text \<open>The P column holds the sum of the data columns.\<close>

lemma generate_parity_p:
  assumes wf: "raidz_wf rm"
  shows "vdev_raidz_generate_parity_p rm =
    upd_col 0 (set_data (map (p_word rm (data_cols rm)) [0..<rc_count (rm_col rm ! 0)])) rm"
proof -
  let ?n = "rc_count (rm_col rm ! 0)" and ?d = "rc_data (rm_col rm ! 0)"
  define g where "g c w i = (if c = rm_firstdatacol rm then colw rm i c else w XOR colw rm i c)" for c w i
  note w = raidz_wf_simps [OF wf]
  have step: "gen_p_col (upd_col 0 (set_data d) rm) c =
      upd_col 0 (set_data (map (\<lambda>i. g c (d ! i) i) [0..<?n])) rm"
    if "c \<in> set (data_cols rm)" "length d = ?n" for d c
  proof -
    have c: "0 < c" "c < rm_cols rm" using that w by (auto simp: data_cols_def)
    let ?c = "rm_col rm ! c"
    have "gen_p_col (upd_col 0 (set_data d) rm) c =
        upd_col 0 (set_data (if c = rm_firstdatacol rm then copy_words (rc_count ?c) (rc_data ?c) d
          else xor_words (rc_count ?c) (rc_data ?c) d)) rm"
      using c w(1,5) by (simp add: gen_p_col_def Let_def VDEV_RAIDZ_P_def)
    also have "(if c = rm_firstdatacol rm then copy_words (rc_count ?c) (rc_data ?c) d
        else xor_words (rc_count ?c) (rc_data ?c) d) = map (\<lambda>i. g c (d ! i) i) [0..<?n]"
      using that(2) w(6,7) [OF c(2)] w(8)
      by (intro nth_equalityI) (auto simp: copy_words_eq xor_words_eq g_def colw_def)
    finally show ?thesis .
  qed
  have "upd_col 0 (set_data ?d) rm = rm"
    by (simp add: upd_col_def)
  then have "vdev_raidz_generate_parity_p rm = foldl gen_p_col (upd_col 0 (set_data ?d) rm) (data_cols rm)"
    by (simp add: vdev_raidz_generate_parity_p_def data_cols_def)
  also have "\<dots> = upd_col 0 (set_data (map (\<lambda>i. foldl (\<lambda>w c. g c w i) (?d ! i) (data_cols rm)) [0..<?n])) rm"
    using w(5,6) by (intro fold_col step) auto
  also have "(\<lambda>i. foldl (\<lambda>w c. g c w i) (?d ! i) (data_cols rm)) = p_word rm (data_cols rm)"
    unfolding p_word_def data_cols_def using w(4) by (intro ext foldl_g_first) (auto simp: g_def)
  finally show ?thesis .
qed

text \<open>
  P and Q, for maps whose first data column may be marked empty (as the reconstruction from
  both does).
\<close>

lemma generate_parity_pq:
  assumes "length (rm_col rm) = rm_cols rm" "rm_firstdatacol rm = 2" "2 < rm_cols rm"
    and n: "n = rc_count (rm_col rm ! 0)" "length (rc_data (rm_col rm ! 0)) = n"
      "length (rc_data (rm_col rm ! 1)) = n"
    and cols: "\<And>c. c \<in> set (data_cols rm) \<Longrightarrow> rc_count (rm_col rm ! c) \<le> length (rc_data (rm_col rm ! c)) \<and>
      rc_count (rm_col rm ! c) \<le> n"
  shows "vdev_raidz_generate_parity_pq rm =
    upd_col 0 (set_data (map (p_word rm (data_cols rm)) [0..<n]))
      (upd_col 1 (set_data (map (q_word rm (data_cols rm)) [0..<n])) rm)"
proof -
  let ?d = "rc_data (rm_col rm ! 0)" and ?e = "rc_data (rm_col rm ! 1)"
  define g where "g c w i = (if c = 2 then colw rm i c else w XOR colw rm i c)" for c w i
  define h where "h c w i = (if c = 2 then colw rm i c else T64 w XOR colw rm i c)" for c w i
  have step: "gen_pq_col n (upd_col 0 (set_data d) (upd_col 1 (set_data e) rm)) c =
      upd_col 0 (set_data (map (\<lambda>i. g c (d ! i) i) [0..<n]))
        (upd_col 1 (set_data (map (\<lambda>i. h c (e ! i) i) [0..<n])) rm)"
    if "c \<in> set (data_cols rm)" "length d = n" "length e = n" for d e c
  proof -
    have c: "1 < c" using that assms by (auto simp: data_cols_def)
    let ?c = "rm_col rm ! c"
    have p: "map (\<lambda>i. g c (d ! i) i) [0..<n] =
        (if c = 2 then zero_words (rc_count ?c) n (copy_words (rc_count ?c) (rc_data ?c) d)
         else xor_words (rc_count ?c) (rc_data ?c) d)"
      using cols [OF that(1)] that(2)
      by (intro nth_equalityI) (auto simp: zero_words_eq xor_words_eq g_def colw_def)
    have q: "map (\<lambda>i. h c (e ! i) i) [0..<n] =
        (if c = 2 then zero_words (rc_count ?c) n (copy_words (rc_count ?c) (rc_data ?c) e)
         else horner_words (rc_count ?c) n (rc_data ?c) e)"
      using cols [OF that(1)] that(3)
      by (intro nth_equalityI) (auto simp: zero_words_eq horner_words_eq h_def colw_def)
    have l: "0 < length (rm_col rm)" "1 < length (rm_col rm)" using assms by auto
    have swap: "upd_col 1 f (upd_col 0 k (upd_col 1 f' rm)) = upd_col 0 k (upd_col 1 (\<lambda>rc. f (f' rc)) rm)"
      for f k f' by (subst upd_col_comm) simp_all
    show ?thesis
      unfolding p q using c l assms(2)
      by (simp add: gen_pq_col_def Let_def VDEV_RAIDZ_P_def VDEV_RAIDZ_Q_def swap [simplified])
  qed
  have "upd_col 0 (set_data ?d) (upd_col 1 (set_data ?e) rm) = rm"
    by (simp add: upd_col_def)
  then have "vdev_raidz_generate_parity_pq rm =
      foldl (gen_pq_col n) (upd_col 0 (set_data ?d) (upd_col 1 (set_data ?e) rm)) (data_cols rm)"
    by (simp add: vdev_raidz_generate_parity_pq_def data_cols_def VDEV_RAIDZ_P_def n(1))
  also have "\<dots> = upd_col 0 (set_data (map (\<lambda>i. foldl (\<lambda>w c. g c w i) (?d ! i) (data_cols rm)) [0..<n]))
      (upd_col 1 (set_data (map (\<lambda>i. foldl (\<lambda>w c. h c w i) (?e ! i) (data_cols rm)) [0..<n])) rm)"
    using n by (intro fold_col2 step) auto
  also have "(\<lambda>i. foldl (\<lambda>w c. g c w i) (?d ! i) (data_cols rm)) = p_word rm (data_cols rm)"
    unfolding p_word_def data_cols_def using assms(2,3) by (intro ext foldl_g_first) (auto simp: g_def)
  also have "(\<lambda>i. foldl (\<lambda>w c. h c w i) (?e ! i) (data_cols rm)) = q_word rm (data_cols rm)"
    unfolding q_word_def data_cols_def using assms(2,3) by (intro ext foldl_g_first) (auto simp: h_def)
  finally show ?thesis .
qed


section \<open>Linearity\<close>

definition psum :: "(nat \<Rightarrow> u64) \<Rightarrow> nat list \<Rightarrow> u64" where
  "psum f cs = foldl (\<lambda>w c. w XOR f c) 0 cs"

definition hsum :: "(nat \<Rightarrow> u64) \<Rightarrow> nat list \<Rightarrow> u64" where
  "hsum f cs = foldl (\<lambda>w c. T64 w XOR f c) 0 cs"

definition only :: "nat \<Rightarrow> u64 \<Rightarrow> nat \<Rightarrow> u64" where
  "only x v c = (if c = x then v else 0)"

lemma only_simps [simp]: "only x v x = v" "c \<noteq> x \<Longrightarrow> only x v c = 0"
  by (simp_all add: only_def)

lemma p_word_psum: "p_word rm cs i = psum (colw rm i) cs"
  by (simp add: p_word_def psum_def)

lemma q_word_hsum: "q_word rm cs i = hsum (colw rm i) cs"
  by (simp add: q_word_def hsum_def)

lemma sum_snoc [simp]:
  "psum f [] = 0" "hsum f [] = 0" "psum f (cs @ [c]) = psum f cs XOR f c"
  "hsum f (cs @ [c]) = T64 (hsum f cs) XOR f c"
  by (simp_all add: psum_def hsum_def)

lemma sum_cong:
  "(\<And>c. c \<in> set cs \<Longrightarrow> f c = g c) \<Longrightarrow> psum f cs = psum g cs"
  "(\<And>c. c \<in> set cs \<Longrightarrow> f c = g c) \<Longrightarrow> hsum f cs = hsum g cs"
  by (induction cs rule: rev_induct) auto

lemma sum_xor:
  "psum (\<lambda>c. f c XOR g c) cs = psum f cs XOR psum g cs"
  "hsum (\<lambda>c. f c XOR g c) cs = hsum f cs XOR hsum g cs"
  by (induction cs rule: rev_induct) (simp_all add: T64_xor ac_simps)

lemma sum_only_notin:
  "x \<notin> set cs \<Longrightarrow> psum (only x v) cs = 0" "x \<notin> set cs \<Longrightarrow> hsum (only x v) cs = 0"
  by (induction cs rule: rev_induct) (auto simp: only_def)

lemma sum_only:
  assumes "a \<le> x" "x < m"
  shows "psum (only x v) [a..<m] = v" "hsum (only x v) [a..<m] = (T64 ^^ (m - 1 - x)) v"
  using assms(2)
proof (induction m)
  case (Suc m)
  have m: "m - x = Suc (m - 1 - x)" if "x < m" using that by simp
  { case 1
    show ?case using Suc 1 assms(1) sum_only_notin(1) [of m "[a..<m]" v]
      by (cases "x = m") auto }
  { case 2
    show ?case using Suc 2 assms(1) sum_only_notin(2) [of m "[a..<m]" v] m
      by (cases "x = m") auto }
qed simp_all

text \<open>Taking column \<open>x\<close> out of a sum.\<close>

lemma sum_split:
  assumes "a \<le> x" "x < m"
  shows "psum f [a..<m] = psum (f(x := 0)) [a..<m] XOR f x"
    and "hsum f [a..<m] = hsum (f(x := 0)) [a..<m] XOR (T64 ^^ (m - 1 - x)) (f x)"
proof -
  have "f = (\<lambda>c. (f(x := 0)) c XOR only x (f x) c)" by (auto simp: only_def)
  then show "psum f [a..<m] = psum (f(x := 0)) [a..<m] XOR f x"
    and "hsum f [a..<m] = hsum (f(x := 0)) [a..<m] XOR (T64 ^^ (m - 1 - x)) (f x)"
    by (metis sum_xor sum_only [OF assms])+
qed

lemma xor_cancel [simp]: "(a XOR b) XOR b = a" "b XOR (b XOR a) = a" "(b XOR a) XOR b = a"
  for a b :: "'a::len word"
  by (simp_all add: xor.assoc xor.commute [of a b] flip: xor.assoc [of b b])

lemma nth_words: "i < n \<Longrightarrow> map f [0..<n] ! i = f i"
  by simp


section \<open>Reconstruction\<close>

text \<open>
  \<open>raidz_parity orig\<close>: the stripe \<open>orig\<close> is well-formed and its parity columns are those of its
  data.  \<open>raidz_damaged X orig rm\<close>: \<open>rm\<close> is \<open>orig\<close> with other data in the columns \<open>X\<close>.
\<close>

definition raidz_parity :: "raidz_map \<Rightarrow> bool" where
  "raidz_parity rm \<longleftrightarrow> raidz_wf rm \<and>
     rc_data (rm_col rm ! 0) = map (p_word rm (data_cols rm)) [0..<rc_count (rm_col rm ! 0)] \<and>
     (rm_firstdatacol rm = 2 \<longrightarrow>
        rc_data (rm_col rm ! 1) = map (q_word rm (data_cols rm)) [0..<rc_count (rm_col rm ! 0)])"

definition raidz_damaged :: "nat set \<Rightarrow> raidz_map \<Rightarrow> raidz_map \<Rightarrow> bool" where
  "raidz_damaged X orig rm \<longleftrightarrow> raidz_wf rm \<and> rm_cols rm = rm_cols orig \<and>
     rm_firstdatacol rm = rm_firstdatacol orig \<and>
     (\<forall>c<rm_cols orig. rc_size (rm_col rm ! c) = rc_size (rm_col orig ! c) \<and>
        (c \<notin> X \<longrightarrow> rc_data (rm_col rm ! c) = rc_data (rm_col orig ! c)))"

lemma damaged_simps:
  assumes "raidz_damaged X orig rm"
  shows "rm_cols rm = rm_cols orig" "rm_firstdatacol rm = rm_firstdatacol orig"
    "c < rm_cols orig \<Longrightarrow> rc_count (rm_col rm ! c) = rc_count (rm_col orig ! c)"
    "c < rm_cols orig \<Longrightarrow> c \<notin> X \<Longrightarrow> rc_data (rm_col rm ! c) = rc_data (rm_col orig ! c)"
    "c < rm_cols orig \<Longrightarrow> c \<notin> X \<Longrightarrow> colw rm i c = colw orig i c"
    "raidz_wf rm" "data_cols rm = data_cols orig"
  using assms by (auto simp: raidz_damaged_def rc_count_def colw_def data_cols_def)

lemma damaged_colw:
  assumes "raidz_damaged X orig rm" "X \<inter> set (data_cols orig) \<subseteq> Y" "c \<in> set (data_cols orig)" "c \<notin> Y"
  shows "colw rm i c = colw orig i c"
proof -
  have "c \<notin> X" using assms(2-4) by blast
  then show ?thesis
    using damaged_simps(5) [OF assms(1)] assms(3) by (simp add: data_cols_def)
qed

lemma data_col_bounds:
  assumes "raidz_wf rm" "x \<in> set (data_cols rm)"
  shows "0 < x" "x < rm_cols rm" "rm_firstdatacol rm \<le> x" "x < length (rm_col rm)"
  using assms raidz_wf_simps(1-3) [OF assms(1)] by (auto simp: data_cols_def)

lemma recon_p_step:
  assumes wf: "raidz_wf rm" and "x \<in> set (data_cols rm)" "c \<in> set (data_cols rm)" "length dd = n"
  shows "recon_p_col x n (upd_col x (set_data dd) rm) c =
    upd_col x (set_data (map (\<lambda>i. if c = x then dd ! i else dd ! i XOR colw rm i c) [0..<n])) rm"
proof (cases "c = x")
  case True
  then show ?thesis
    using assms(4) map_nth [of dd] by (simp add: recon_p_col_def)
next
  case False
  let ?c = "rm_col rm ! c"
  note c = data_col_bounds [OF wf assms(3)] and x = data_col_bounds [OF wf assms(2)]
  have "recon_p_col x n (upd_col x (set_data dd) rm) c =
      upd_col x (set_data (xor_words (min (rc_count ?c) n) (rc_data ?c) dd)) rm"
    using False x by (simp add: recon_p_col_def)
  also have "xor_words (min (rc_count ?c) n) (rc_data ?c) dd =
      map (\<lambda>i. if c = x then dd ! i else dd ! i XOR colw rm i c) [0..<n]"
    using assms(4) raidz_wf_simps(6) [OF wf c(2)] False
    by (intro nth_equalityI) (auto simp: xor_words_eq colw_def)
  finally show ?thesis .
qed

lemma foldl_psum:
  assumes "\<And>c. c \<in> set cs \<Longrightarrow> c \<noteq> x \<Longrightarrow> f c = f' c"
  shows "foldl (\<lambda>w c. if c = x then w else w XOR f c) u cs = u XOR psum (f'(x := 0)) cs"
  using assms by (induction cs rule: rev_induct) (auto simp: xor.assoc)

lemma foldl_hsum:
  assumes "\<And>c. c \<in> set [a..<m] \<Longrightarrow> c \<noteq> x \<Longrightarrow> f c = f' c" "a < m"
  shows "foldl (\<lambda>w c. if c = a then (if c = x then 0 else f c)
      else T64 w XOR (if c = x then 0 else f c)) u [a..<m] = hsum (f'(x := 0)) [a..<m]"
proof -
  have "foldl (\<lambda>w c. if c = a then (if c = x then 0 else f c)
      else T64 w XOR (if c = x then 0 else f c)) u [a..<m] = hsum (\<lambda>c. if c = x then 0 else f c) [a..<m]"
    unfolding hsum_def using assms(2) by (intro foldl_g_first) auto
  also have "\<dots> = hsum (f'(x := 0)) [a..<m]"
    using assms(1) by (intro sum_cong) auto
  finally show ?thesis .
qed

lemma reconstruct_p:
  assumes par: "raidz_parity orig" and dam: "raidz_damaged X orig rm" and "0 \<notin> X"
    and x: "x \<in> set (data_cols orig)" "X \<inter> set (data_cols orig) \<subseteq> {x}"
  shows "vdev_raidz_reconstruct_p rm x = upd_col x (set_data (rc_data (rm_col orig ! x))) rm"
proof -
  let ?cs = "data_cols orig" and ?n = "rc_count (rm_col orig ! x)"
  note d = damaged_simps [OF dam]
  note w = raidz_wf_simps [OF d(6)] and x' = data_col_bounds [OF d(6), unfolded d, OF x(1)]
  define P where "P = rc_data (rm_col orig ! 0)"
  let ?word = "\<lambda>i. foldl (\<lambda>w c. if c = x then w else w XOR colw rm i c) (take ?n P ! i) ?cs"
  have P: "rc_data (rm_col rm ! 0) = P" "?n \<le> length P"
    using d(4) [of 0] assms(3) x'(2) w(6,7) [of 0] w(7) [of x] by (auto simp: P_def d)
  have "vdev_raidz_reconstruct_p rm x = foldl (recon_p_col x ?n) (upd_col x (set_data (take ?n P)) rm) ?cs"
    using w(6) [of x] x' by (simp add: vdev_raidz_reconstruct_p_def Let_def VDEV_RAIDZ_P_def P d
        data_cols_def copy_words_def upd_col_def)
  also have "\<dots> = upd_col x (set_data (map ?word [0..<?n])) rm"
    using P x by (intro fold_col recon_p_step) (auto simp: d)
  also have "map ?word [0..<?n] = rc_data (rm_col orig ! x)"
  proof (rule nth_equalityI)
    show "length (map ?word [0..<?n]) = length (rc_data (rm_col orig ! x))"
      using par x' by (simp add: raidz_parity_def raidz_wf_def)
    fix i assume "i < length (map ?word [0..<?n])"
    then have i: "i < ?n" by simp
    have "P ! i = psum (colw orig i) ?cs"
      using par i P(2) w(7) [of x] x' by (simp add: raidz_parity_def P_def p_word_psum)
    then have "?word i = psum (colw orig i) ?cs XOR psum ((colw orig i)(x := 0)) ?cs"
      using i damaged_colw [OF dam x(2)] by (subst foldl_psum [where f' = "colw orig i"]) auto
    also have "\<dots> = rc_data (rm_col orig ! x) ! i"
      using i sum_split(1) [OF x'(3,2), of "colw orig i"] by (simp add: data_cols_def colw_def)
    finally show "map ?word [0..<?n] ! i = rc_data (rm_col orig ! x) ! i"
      using i by (simp only: nth_words)
  qed
  finally show ?thesis .
qed


lemma recon_q_step:
  assumes wf: "raidz_wf rm" and "x \<in> set (data_cols rm)" "c \<in> set (data_cols rm)" "length dd = n"
    and "n = rc_count (rm_col rm ! x)"
  shows "recon_q_col x n (upd_col x (set_data dd) rm) c =
    upd_col x (set_data (map (\<lambda>i. if c = rm_firstdatacol rm then (if c = x then 0 else colw rm i c)
      else T64 (dd ! i) XOR (if c = x then 0 else colw rm i c)) [0..<n])) rm"
proof -
  let ?src = "rc_data (rm_col (upd_col x (set_data dd) rm) ! c)"
  let ?k = "min (if c = x then 0 else rc_count (rm_col rm ! c)) n"
  note c = data_col_bounds [OF wf assms(3)] and x = data_col_bounds [OF wf assms(2)]
  have src: "?k \<le> length ?src" "i < ?k \<Longrightarrow> ?src ! i = colw rm i c" for i
    using raidz_wf_simps(6) [OF wf c(2)] x assms(4) by (cases "c = x"; auto simp: colw_def)+
  have "recon_q_col x n (upd_col x (set_data dd) rm) c =
      upd_col x (set_data (if c = rm_firstdatacol rm then zero_words ?k n (copy_words ?k ?src dd)
        else horner_words ?k n ?src dd)) rm"
    using x by (simp add: recon_q_col_def Let_def)
  also have "(if c = rm_firstdatacol rm then zero_words ?k n (copy_words ?k ?src dd)
        else horner_words ?k n ?src dd) =
      map (\<lambda>i. if c = rm_firstdatacol rm then (if c = x then 0 else colw rm i c)
        else T64 (dd ! i) XOR (if c = x then 0 else colw rm i c)) [0..<n]"
    using assms(4) src
    by (intro nth_equalityI) (auto simp: zero_words_eq horner_words_eq colw_def)
  finally show ?thesis .
qed

lemma reconstruct_q:
  assumes par: "raidz_parity orig" and dam: "raidz_damaged X orig rm" and "1 \<notin> X" "rm_firstdatacol orig = 2"
    and x: "x \<in> set (data_cols orig)" "X \<inter> set (data_cols orig) \<subseteq> {x}" and "rm_cols orig \<le> 256"
  shows "vdev_raidz_reconstruct_q rm x = upd_col x (set_data (rc_data (rm_col orig ! x))) rm"
proof -
  let ?cs = "data_cols orig" and ?n = "rc_count (rm_col orig ! x)" and ?e = "255 - (rm_cols orig - 1 - x)"
  note d = damaged_simps [OF dam]
  note w = raidz_wf_simps [OF d(6)] and x' = data_col_bounds [OF d(6), unfolded d, OF x(1)]
  define Q where "Q = rc_data (rm_col orig ! 1)"
  let ?D = "rc_data (rm_col rm ! x)"
  let ?word = "\<lambda>i. foldl (\<lambda>w c. if c = rm_firstdatacol rm then (if c = x then 0 else colw rm i c)
      else T64 w XOR (if c = x then 0 else colw rm i c)) (?D ! i) ?cs"
  have Q: "rc_data (rm_col rm ! 1) = Q" "?n \<le> length Q"
    using d(4) [of 1] assms(3,4) w(4,9) w(6) [of 1] w(7) [of x] x' by (auto simp: Q_def d)
  have "upd_col x (set_data ?D) rm = rm" by (simp add: upd_col_def)
  then have "foldl (recon_q_col x ?n) rm ?cs = foldl (recon_q_col x ?n) (upd_col x (set_data ?D) rm) ?cs"
    by simp
  also have "\<dots> = upd_col x (set_data (map ?word [0..<?n])) rm"
    using w(6) [of x] x x' by (intro fold_col recon_q_step) (auto simp: d)
  finally have "vdev_raidz_reconstruct_q rm x =
      upd_col x (set_data (recon_q_scale ?e ?n Q (map ?word [0..<?n]))) rm"
    using assms(4) x' w(1) x(1) by (simp add: vdev_raidz_reconstruct_q_def Let_def VDEV_RAIDZ_Q_def d
        data_cols_def Q [simplified])
  also have "recon_q_scale ?e ?n Q (map ?word [0..<?n]) = rc_data (rm_col orig ! x)"
  proof (rule nth_equalityI)
    show "length (recon_q_scale ?e ?n Q (map ?word [0..<?n])) = length (rc_data (rm_col orig ! x))"
      using par x' Q(2) by (simp add: raidz_parity_def raidz_wf_def recon_q_scale_eq)
    fix i assume "i < length (recon_q_scale ?e ?n Q (map ?word [0..<?n]))"
    then have i: "i < ?n" using Q(2) by (simp add: recon_q_scale_eq)
    have q: "Q ! i = hsum (colw orig i) ?cs"
      using par i Q(2) w(7) [of x] x' assms(4) by (simp add: raidz_parity_def Q_def q_word_hsum d)
    have "?word i = hsum ((colw orig i)(x := 0)) ?cs"
      using damaged_colw [OF dam x(2)] x'(2,3) unfolding d data_cols_def
      by (intro foldl_hsum) (auto simp: data_cols_def)
    then have "?word i XOR Q ! i = (T64 ^^ (rm_cols orig - 1 - x)) (colw orig i x)"
      using sum_split(2) [OF x'(3,2), of "colw orig i"] by (simp add: q data_cols_def)
    moreover have e: "?e + (rm_cols orig - 1 - x) = 255" using x' assms(7) by simp
    moreover have "?e \<le> 255" by simp
    ultimately have "bytewise (\<lambda>j. vdev_raidz_exp2 (byte (?word i XOR Q ! i) j) ?e) = colw orig i x"
      by (simp only: T64_exp2 T64_T64 T64_pow_255)
    then show "recon_q_scale ?e ?n Q (map ?word [0..<?n]) ! i = rc_data (rm_col orig ! x) ! i"
      using i Q(2) by (simp only: recon_q_scale_eq length_map length_upt minus_nat.diff_0 nth_words)
        (simp add: colw_def)
  qed
  finally show ?thesis .
qed

lemma upd_col_fields [simp]:
  "rm_bigcols (upd_col c f rm) = rm_bigcols rm" "rm_asize (upd_col c f rm) = rm_asize rm"
  "rm_missingdata (upd_col c f rm) = rm_missingdata rm"
  "rm_missingparity (upd_col c f rm) = rm_missingparity rm"
  "raidz_map.more (upd_col c f rm) = raidz_map.more rm"
  by (simp_all add: upd_col_def)

lemma raidz_map_eqI:
  fixes rm rm' :: raidz_map
  assumes "rm_cols rm = rm_cols rm'" "rm_bigcols rm = rm_bigcols rm'" "rm_asize rm = rm_asize rm'"
    "rm_missingdata rm = rm_missingdata rm'" "rm_missingparity rm = rm_missingparity rm'"
    "rm_firstdatacol rm = rm_firstdatacol rm'" "length (rm_col rm) = length (rm_col rm')"
    "\<And>c. c < length (rm_col rm) \<Longrightarrow> rm_col rm ! c = rm_col rm' ! c"
  shows "rm = rm'"
  using assms by (intro raidz_map.equality nth_equalityI) auto

text \<open>The parity recomputed as though columns \<open>x\<close> and \<open>y\<close> were empty.\<close>

definition without_xy :: "raidz_map \<Rightarrow> nat \<Rightarrow> nat \<Rightarrow> raidz_map" where
  "without_xy rm x y = upd_col y (rc_size_update (\<lambda>_. 0)) (upd_col x (rc_size_update (\<lambda>_. 0))
     (upd_col 1 (set_data (replicate (rc_count (rm_col rm ! 1)) 0))
       (upd_col 0 (set_data (replicate (rc_count (rm_col rm ! 0)) 0)) rm)))"

lemma without_xy_parity:
  assumes wf: "raidz_wf rm" and first: "rm_firstdatacol rm = 2"
    and xy: "x \<in> set (data_cols rm)" "y \<in> set (data_cols rm)" "x < y"
  defines "f i \<equiv> (colw rm i)(x := 0, y := 0)"
  shows "vdev_raidz_generate_parity_pq (without_xy rm x y) =
    upd_col 0 (set_data (map (\<lambda>i. psum (f i) (data_cols rm)) [0..<rc_count (rm_col rm ! 0)]))
      (upd_col 1 (set_data (map (\<lambda>i. hsum (f i) (data_cols rm)) [0..<rc_count (rm_col rm ! 0)]))
        (without_xy rm x y))"
proof -
  let ?w = "without_xy rm x y"
  note w = raidz_wf_simps [OF wf] and x = data_col_bounds [OF wf xy(1)] and y = data_col_bounds [OF wf xy(2)]
  have b: "1 < x" "1 < y" "1 < length (rm_col rm)" "0 < length (rm_col rm)" using x y xy first by auto
  have fields: "rm_cols ?w = rm_cols rm" "rm_firstdatacol ?w = 2" "data_cols ?w = data_cols rm"
    by (simp_all add: without_xy_def first data_cols_def)
  have P: "rc_count (rm_col ?w ! 0) = rc_count (rm_col rm ! 0)"
    "rc_data (rm_col ?w ! 0) = replicate (rc_count (rm_col rm ! 0)) 0"
    "rc_data (rm_col ?w ! 1) = replicate (rc_count (rm_col rm ! 0)) 0"
    using b w(9) first by (simp_all add: without_xy_def)
  have col: "colw ?w i c = f i c" "rc_count (rm_col ?w ! c) \<le> length (rc_data (rm_col ?w ! c))"
    "rc_count (rm_col ?w ! c) \<le> rc_count (rm_col rm ! 0)" if "c \<in> set (data_cols rm)" for c i
  proof -
    note c = data_col_bounds [OF wf that]
    have "1 < c" using c first by simp
    then show "colw ?w i c = f i c" "rc_count (rm_col ?w ! c) \<le> length (rc_data (rm_col ?w ! c))"
      "rc_count (rm_col ?w ! c) \<le> rc_count (rm_col rm ! 0)"
      using c w(6,7) [OF c(2)] xy(3) y(4) x(4)
      by (cases "c = y"; cases "c = x"; simp add: without_xy_def f_def colw_def rc_count_def)+
  qed
  have l: "length (rm_col ?w) = rm_cols rm" using w(1) by (simp add: without_xy_def)
  have "vdev_raidz_generate_parity_pq ?w =
      upd_col 0 (set_data (map (p_word ?w (data_cols ?w)) [0..<rc_count (rm_col rm ! 0)]))
        (upd_col 1 (set_data (map (q_word ?w (data_cols ?w)) [0..<rc_count (rm_col rm ! 0)])) ?w)"
    using col w(4) first by (intro generate_parity_pq) (simp_all only: fields P l length_replicate)
  moreover have "p_word ?w (data_cols ?w) = (\<lambda>i. psum (f i) (data_cols rm))"
    "q_word ?w (data_cols ?w) = (\<lambda>i. hsum (f i) (data_cols rm))"
    using col(1) by (simp_all add: fields p_word_psum q_word_hsum fun_eq_iff cong: sum_cong)
  ultimately show ?thesis by simp
qed


lemma sum_split2:
  assumes "a \<le> x" "x < y" "y < m"
  shows "psum (f(x := 0, y := 0)) [a..<m] = psum f [a..<m] XOR f x XOR f y"
    and "hsum (f(x := 0, y := 0)) [a..<m] =
      hsum f [a..<m] XOR (T64 ^^ (m - 1 - x)) (f x) XOR (T64 ^^ (m - 1 - y)) (f y)"
  using sum_split [of a x m f] sum_split [of a y m "f(x := 0)"] assms
  by (simp_all add: xor.assoc xor.commute xor.left_commute)

text \<open>The two words the byte loop computes, from the true parity and the recomputed one.\<close>

lemma recon_words:
  assumes "a \<le> x" "x < y" "y < m" "m - 1 - x < 255" 
    and f: "\<forall>c\<in>set [a..<m]. c \<notin> {x, y} \<longrightarrow> g c = f c"
  defines "A \<equiv> vdev_raidz_pow2 ! (255 + x - y)" and "B \<equiv> vdev_raidz_pow2 ! (255 - (m - 1 - x))"
  defines "tmp \<equiv> 255 - vdev_raidz_log2 ! unat (A XOR 1)"
  defines "aexp \<equiv> vdev_raidz_log2 ! unat (vdev_raidz_exp2 A tmp)"
    and "bexp \<equiv> vdev_raidz_log2 ! unat (vdev_raidz_exp2 B tmp)"
  shows "recon_xd aexp bexp (psum f [a..<m]) (hsum f [a..<m])
      (psum (g(x := 0, y := 0)) [a..<m]) (hsum (g(x := 0, y := 0)) [a..<m]) = f x"
    and "recon_yd (psum f [a..<m]) (psum (g(x := 0, y := 0)) [a..<m]) (f x) = f y"
proof -
  have "psum (g(x := 0, y := 0)) [a..<m] = psum (f(x := 0, y := 0)) [a..<m]"
    "hsum (g(x := 0, y := 0)) [a..<m] = hsum (f(x := 0, y := 0)) [a..<m]"
    using f by (auto intro!: sum_cong)
  then have s: "psum (g(x := 0, y := 0)) [a..<m] = psum f [a..<m] XOR f x XOR f y"
    "hsum (g(x := 0, y := 0)) [a..<m] =
      hsum f [a..<m] XOR (T64 ^^ (m - 1 - x)) (f x) XOR (T64 ^^ (m - 1 - y)) (f y)"
    using sum_split2 [OF assms(1-3), of f] by simp_all
  have e: "255 + x - y = 255 - (y - x)" "m - 1 - y = m - 1 - x - (y - x)" "y - x \<le> m - 1 - x" "0 < y - x"
    using assms(2-4) by auto
  show "recon_xd aexp bexp (psum f [a..<m]) (hsum f [a..<m])
      (psum (g(x := 0, y := 0)) [a..<m]) (hsum (g(x := 0, y := 0)) [a..<m]) = f x"
    unfolding s unfolding bexp_def aexp_def tmp_def A_def B_def e(1,2)
    by (rule T64_solve [OF e(4,3) assms(4)])
  show "recon_yd (psum f [a..<m]) (psum (g(x := 0, y := 0)) [a..<m]) (f x) = f y"
    unfolding s recon_yd_eq by (simp add: xor.assoc xor.left_commute [of "f x"])
qed

lemma reconstruct_pq_form:
  fixes x y :: nat
  assumes wf: "raidz_wf rm" and first: "rm_firstdatacol rm = 2"
    and xy: "x \<in> set (data_cols rm)" "y \<in> set (data_cols rm)" "x < y"
  defines "A \<equiv> vdev_raidz_pow2 ! (255 + x - y)" and "B \<equiv> vdev_raidz_pow2 ! (255 - (rm_cols rm - 1 - x))"
  defines "tmp \<equiv> 255 - vdev_raidz_log2 ! unat (A XOR 1)"
  defines "aexp \<equiv> vdev_raidz_log2 ! unat (vdev_raidz_exp2 A tmp)"
    and "bexp \<equiv> vdev_raidz_log2 ! unat (vdev_raidz_exp2 B tmp)"
  defines "p \<equiv> rc_data (rm_col rm ! 0)" and "q \<equiv> rc_data (rm_col rm ! 1)"
    and "f i \<equiv> (colw rm i)(x := 0, y := 0)"
  defines "xd i \<equiv> recon_xd aexp bexp (p ! i) (q ! i) (psum (f i) (data_cols rm)) (hsum (f i) (data_cols rm))"
  defines "yd i \<equiv> recon_yd (p ! i) (psum (f i) (data_cols rm)) (xd i)"
  shows "vdev_raidz_reconstruct_pq rm x y =
    upd_col x (set_data (map xd [0..<rc_count (rm_col rm ! x)]))
      (upd_col y (set_data (map yd [0..<rc_count (rm_col rm ! y)])) rm)"
    (is "?l = ?r")
proof -
  note w = raidz_wf_simps [OF wf] and x = data_col_bounds [OF wf xy(1)] and y = data_col_bounds [OF wf xy(2)]
  let ?n = "rc_count (rm_col rm ! 0)" and ?xc = "rc_count (rm_col rm ! x)" and ?yc = "rc_count (rm_col rm ! y)"
  have b: "1 < x" "1 < y" "1 < length (rm_col rm)" "0 < length (rm_col rm)" "x \<noteq> y" using x y xy first by auto
  have cnt: "?xc \<le> ?n" "?yc \<le> ?xc" "min ?xc ?yc = ?yc"
    using w(7) [OF x(2)] wf xy(3) x(3) y(2) by (auto simp: raidz_wf_def)
  define V where "V = vdev_raidz_generate_parity_pq (without_xy rm x y)"
  note V = without_xy_parity [OF wf first xy, folded V_def f_def]
  have V0: "rc_data (rm_col V ! 0) = map (\<lambda>i. psum (f i) (data_cols rm)) [0..<?n]"
    "rc_data (rm_col V ! 1) = map (\<lambda>i. hsum (f i) (data_cols rm)) [0..<?n]" "rm_cols V = rm_cols rm"
    using b by (simp_all add: V without_xy_def)
  have xds: "map (\<lambda>i. recon_xd aexp bexp (p ! i) (q ! i) (rc_data (rm_col V ! 0) ! i) (rc_data (rm_col V ! 1) ! i)) [0..<?xc] =
      map xd [0..<?xc]"
    using cnt(1) by (simp add: V0 [simplified] xd_def)
  have yds: "map (\<lambda>i. recon_yd (p ! i) (rc_data (rm_col V ! 0) ! i) (map xd [0..<?xc] ! i)) [0..<?yc] =
      map yd [0..<?yc]"
    using cnt by (simp add: V0 [simplified] yd_def)
  have form: "?l = upd_col 1 (set_data q) (upd_col 0 (set_data p)
      (upd_col y (\<lambda>rc. rc\<lparr>rc_data := map yd [0..<?yc] @ drop ?yc (rc_data rc)\<rparr>)
      (upd_col x (\<lambda>rc. rc\<lparr>rc_data := map xd [0..<?xc] @ drop ?xc (rc_data rc)\<rparr>)
      (upd_col y (rc_size_update (\<lambda>_. rc_size (rm_col rm ! y)))
      (upd_col x (rc_size_update (\<lambda>_. rc_size (rm_col rm ! x))) V)))))"
  proof -
    have W: "upd_col y (rc_size_update (\<lambda>_. 0)) (upd_col x (rc_size_update (\<lambda>_. 0))
        (upd_col 1 (set_data (replicate (rc_count (rm_col (upd_col 0 (set_data (replicate ?n 0)) rm) ! 1)) 0))
          (upd_col 0 (set_data (replicate ?n 0)) rm))) = without_xy rm x y"
      by (simp add: without_xy_def)
    have U: "rm_col (upd_col y (rc_size_update (\<lambda>_. ys)) (upd_col x (rc_size_update (\<lambda>_. xs)) V)) ! 0 = rm_col V ! 0"
      "rm_col (upd_col y (rc_size_update (\<lambda>_. ys)) (upd_col x (rc_size_update (\<lambda>_. xs)) V)) ! 1 = rm_col V ! 1"
      "rm_cols (upd_col y (rc_size_update (\<lambda>_. ys)) (upd_col x (rc_size_update (\<lambda>_. xs)) V)) = rm_cols rm"
      for xs ys using b by (simp_all add: V0(3))
    show ?thesis
      unfolding vdev_raidz_reconstruct_pq_def Let_def VDEV_RAIDZ_P_def VDEV_RAIDZ_Q_def
        W V_def [symmetric] U A_def [symmetric] B_def [symmetric] tmp_def [symmetric]
        aexp_def [symmetric] bexp_def [symmetric] p_def [symmetric] q_def [symmetric] xds cnt(3) yds ..
  qed
  show ?thesis
    unfolding form
  proof (rule raidz_map_eqI)
    fix c
    show "rm_col (upd_col 1 (set_data q) (upd_col 0 (set_data p)
      (upd_col y (\<lambda>rc. rc\<lparr>rc_data := map yd [0..<?yc] @ drop ?yc (rc_data rc)\<rparr>)
      (upd_col x (\<lambda>rc. rc\<lparr>rc_data := map xd [0..<?xc] @ drop ?xc (rc_data rc)\<rparr>)
      (upd_col y (rc_size_update (\<lambda>_. rc_size (rm_col rm ! y)))
      (upd_col x (rc_size_update (\<lambda>_. rc_size (rm_col rm ! x))) V)))))) ! c = rm_col ?r ! c"
      using b x y w(6) [OF x(2)] w(6) [OF y(2)]
      by (cases "c = 0"; cases "c = 1"; cases "c = x"; cases "c = y";
          simp add: V without_xy_def set_data_def p_def q_def)
  qed (simp_all add: V without_xy_def)
qed


lemma reconstruct_pq:
  assumes par: "raidz_parity orig" and dam: "raidz_damaged X orig rm"
    and X: "0 \<notin> X" "1 \<notin> X" "X \<inter> set (data_cols orig) \<subseteq> {x, y}" and first: "rm_firstdatacol orig = 2"
    and xy: "x \<in> set (data_cols orig)" "y \<in> set (data_cols orig)" "x < y" and cols: "rm_cols orig \<le> 256"
  shows "vdev_raidz_reconstruct_pq rm x y =
    upd_col x (set_data (rc_data (rm_col orig ! x))) (upd_col y (set_data (rc_data (rm_col orig ! y))) rm)"
proof -
  note d = damaged_simps [OF dam]
  note w = raidz_wf_simps [OF d(6)]
  note x = data_col_bounds [OF d(6), unfolded d, OF xy(1)] and y = data_col_bounds [OF d(6), unfolded d, OF xy(2)]
  have m: "1 < x" "1 < y" "rm_cols orig - 1 - x < 255" using x y first cols by auto
  have par': "rc_data (rm_col rm ! 0) ! i = psum (colw orig i) (data_cols orig)"
    "rc_data (rm_col rm ! 1) ! i = hsum (colw orig i) (data_cols orig)" if "i < rc_count (rm_col orig ! 0)" for i
    using par that d(4) [of 0] d(4) [of 1] X(1,2) x(2) m(1) first
    by (simp_all add: raidz_parity_def p_word_psum q_word_hsum)
  have len: "length (rc_data (rm_col orig ! c)) = rc_count (rm_col orig ! c)"
    "rc_count (rm_col orig ! c) \<le> rc_count (rm_col orig ! 0)" if "c < rm_cols orig" for c
    using par that by (auto simp: raidz_parity_def raidz_wf_def)
  note words = recon_words [OF x(3) xy(3) y(2) m(3), folded data_cols_def]
  note form = reconstruct_pq_form [OF d(6) _ _ _ xy(3), unfolded d, OF first xy(1,2)]
  have mapI: "map f [0..<rc_count (rm_col orig ! c)] = rc_data (rm_col orig ! c)"
    if "\<And>i. i < rc_count (rm_col orig ! c) \<Longrightarrow> f i = colw orig i c" "c < rm_cols orig" for f c
    using that len by (intro nth_equalityI) (auto simp: colw_def)
  have g: "\<forall>c\<in>set (data_cols orig). c \<notin> {x, y} \<longrightarrow> colw rm i c = colw orig i c" for i
    using damaged_colw [OF dam X(3)] by blast
  have le: "i < rc_count (rm_col orig ! c) \<Longrightarrow> c < rm_cols orig \<Longrightarrow> i < rc_count (rm_col orig ! 0)" for i c
    using len(2) [of c] by linarith
  show ?thesis
    unfolding form d(3) [OF x(2)] d(3) [OF y(2)]
    by (rule arg_cong2 [where f = "\<lambda>a b. upd_col x (set_data a) (upd_col y (set_data b) rm)"];
        rule mapI; (rule x(2) y(2))?; drule le, rule x(2) y(2),
        simp only: par' words [OF g])
qed

section \<open>Stripes and their damage\<close>

lemma upd_col_nth:
  "c < length (rm_col rm) \<Longrightarrow> rm_col (upd_col c f rm) ! d = (if d = c then f (rm_col rm ! c) else rm_col rm ! d)"
  by simp

lemma raidz_wf_shape:
  assumes "raidz_wf rm" "rm_cols rm' = rm_cols rm" "rm_firstdatacol rm' = rm_firstdatacol rm"
    "length (rm_col rm') = length (rm_col rm)"
    "\<And>c. c < rm_cols rm \<Longrightarrow> rc_size (rm_col rm' ! c) = rc_size (rm_col rm ! c) \<and>
      length (rc_data (rm_col rm' ! c)) = length (rc_data (rm_col rm ! c))"
  shows "raidz_wf rm'"
proof -
  have "rc_count (rm_col rm' ! c) = rc_count (rm_col rm ! c)" if "c < rm_cols rm" for c
    using assms(5) [OF that] by (simp add: rc_count_def)
  then show ?thesis
    using assms by (auto simp: raidz_wf_def)
qed

lemma raidz_wf_upd:
  assumes "raidz_wf rm" "\<And>rc. rc_size (f rc) = rc_size rc"
    "\<And>rc. length (rc_data rc) = rc_count rc \<Longrightarrow> rc_count rc = rc_count (rm_col rm ! c) \<Longrightarrow> length (rc_data (f rc)) = rc_count rc"
  shows "raidz_wf (upd_col c f rm)"
proof (cases "c < length (rm_col rm)")
  case True
  then show ?thesis
    using assms raidz_wf_simps [OF assms(1)] by (intro raidz_wf_shape [OF assms(1)]) (auto simp: upd_col_nth)
next
  case False
  then have "upd_col c f rm = rm" by (simp add: upd_col_def list_update_beyond)
  then show ?thesis using assms(1) by simp
qed

lemma raidz_wf_set_data:
  "raidz_wf rm \<Longrightarrow> length d = rc_count (rm_col rm ! c) \<Longrightarrow> raidz_wf (upd_col c (set_data d) rm)"
  by (rule raidz_wf_upd) auto

lemma damaged_refl: "raidz_wf rm \<Longrightarrow> raidz_damaged {} rm rm"
  by (simp add: raidz_damaged_def)

lemma damaged_mono: "raidz_damaged X orig rm \<Longrightarrow> X \<subseteq> Y \<Longrightarrow> raidz_damaged Y orig rm"
  by (auto simp: raidz_damaged_def)

lemma damaged_upd:
  assumes "raidz_damaged X orig rm" "length d = rc_count (rm_col orig ! c)" "c < rm_cols orig"
  shows "raidz_damaged (insert c X) orig (upd_col c (set_data d) rm)"
  using assms raidz_wf_set_data [of rm d c] raidz_wf_simps(1) [of rm]
  by (auto simp: raidz_damaged_def upd_col_nth rc_count_def)

text \<open>Writing the right data into a damaged column repairs it.\<close>

lemma damaged_repair:
  assumes "raidz_damaged X orig rm" "raidz_wf orig" "c < rm_cols orig"
  shows "raidz_damaged (X - {c}) orig (upd_col c (set_data (rc_data (rm_col orig ! c))) rm)"
proof -
  have "length (rc_data (rm_col orig ! c)) = rc_count (rm_col rm ! c)"
    using raidz_wf_simps(6) [OF assms(2,3)] damaged_simps(3) [OF assms(1,3)] by simp
  then show ?thesis
    using assms raidz_wf_set_data [of rm _ c] raidz_wf_simps(1) [of rm]
    by (auto simp: raidz_damaged_def upd_col_nth)
qed

text \<open>Parity generation makes the parity columns right, whatever they held.\<close>

definition raidz_generate :: "raidz_map \<Rightarrow> raidz_map" where
  "raidz_generate rm =
     (if rm_firstdatacol rm = 1 then vdev_raidz_generate_parity_p rm
      else vdev_raidz_generate_parity_pq rm)"

lemma generate_pq_wf:
  assumes "raidz_wf rm" "rm_firstdatacol rm = 2"
  shows "vdev_raidz_generate_parity_pq rm =
    upd_col 0 (set_data (map (p_word rm (data_cols rm)) [0..<rc_count (rm_col rm ! 0)]))
      (upd_col 1 (set_data (map (q_word rm (data_cols rm)) [0..<rc_count (rm_col rm ! 0)])) rm)"
proof -
  note w = raidz_wf_simps [OF assms(1)]
  have c: "c < rm_cols rm" if "c \<in> set (data_cols rm)" for c using that by (simp add: data_cols_def)
  show ?thesis
    using w(1,4,9) w(6) [of 0] w(6) [of 1] w(6,7) [OF c] assms(2)
    by (intro generate_parity_pq) simp_all
qed

lemma colw_upd: "c < length (rm_col rm) \<Longrightarrow> d \<noteq> c \<Longrightarrow> colw (upd_col c f rm) i d = colw rm i d"
  by (simp add: colw_def)

lemma raidz_generate_parity:
  assumes wf: "raidz_wf rm"
  shows "raidz_parity (raidz_generate rm)"
    and "c \<ge> rm_firstdatacol rm \<Longrightarrow> rm_col (raidz_generate rm) ! c = rm_col rm ! c"
    and "rm_cols (raidz_generate rm) = rm_cols rm" "rm_firstdatacol (raidz_generate rm) = rm_firstdatacol rm"
    and "raidz_damaged {0..<rm_firstdatacol rm} rm (raidz_generate rm)"
proof -
  note w = raidz_wf_simps [OF wf]
  let ?p = "map (p_word rm (data_cols rm)) [0..<rc_count (rm_col rm ! 0)]"
  let ?q = "map (q_word rm (data_cols rm)) [0..<rc_count (rm_col rm ! 0)]"
  consider "rm_firstdatacol rm = 1" | "rm_firstdatacol rm = 2" using w(2,3) by linarith
  then have "raidz_parity (raidz_generate rm) \<and>
      (c \<ge> rm_firstdatacol rm \<longrightarrow> rm_col (raidz_generate rm) ! c = rm_col rm ! c) \<and>
      rm_cols (raidz_generate rm) = rm_cols rm \<and> rm_firstdatacol (raidz_generate rm) = rm_firstdatacol rm \<and>
      raidz_damaged {0..<rm_firstdatacol rm} rm (raidz_generate rm)"
  proof cases
    case 1
    have g: "raidz_generate rm = upd_col 0 (set_data ?p) rm"
      using 1 generate_parity_p [OF wf] by (simp add: raidz_generate_def)
    have "p_word (upd_col 0 (set_data ?p) rm) (data_cols rm) = p_word rm (data_cols rm)"
      using 1 w(1,5) by (intro ext) (auto simp: p_word_psum data_cols_def colw_upd intro!: sum_cong)
    then show ?thesis
      using 1 w(1,4,5) raidz_wf_set_data [OF wf, of ?p 0] damaged_upd [OF damaged_refl [OF wf], of ?p 0]
      by (simp add: g raidz_parity_def data_cols_def atLeastLessThanSuc)
  next
    case 2
    let ?g = "upd_col 0 (set_data ?p) (upd_col 1 (set_data ?q) rm)"
    have g: "raidz_generate rm = ?g"
      using 2 generate_pq_wf [OF wf] by (simp add: raidz_generate_def)
    have words: "colw ?g i c = colw rm i c" if "c \<in> set (data_cols rm)" for i c
    proof -
      have "1 < c" "0 < length (rm_col rm)" "1 < length (rm_col rm)"
        using that 2 w(1,4) by (auto simp: data_cols_def)
      then show ?thesis by (simp add: colw_def)
    qed
    have "p_word ?g (data_cols rm) = p_word rm (data_cols rm)" "q_word ?g (data_cols rm) = q_word rm (data_cols rm)"
      using words by (intro ext, auto simp: p_word_psum q_word_hsum intro!: sum_cong)+
    moreover have d1: "raidz_damaged {1} rm (upd_col 1 (set_data ?q) rm)"
      using damaged_upd [OF damaged_refl [OF wf], of ?q 1] w(4,9) 2 by simp
    have d0: "raidz_damaged {0, 1} rm ?g"
      using damaged_upd [OF d1, of ?p 0] w(5) by simp
    moreover have "raidz_wf ?g" using damaged_simps(6) [OF d0] .
    moreover have "{0..<2} = {0, 1 :: nat}" by auto
    ultimately show ?thesis
      using 2 w(1,4) by (simp add: g raidz_parity_def data_cols_def)
  qed
  then show "raidz_parity (raidz_generate rm)"
    and "c \<ge> rm_firstdatacol rm \<Longrightarrow> rm_col (raidz_generate rm) ! c = rm_col rm ! c"
    and "rm_cols (raidz_generate rm) = rm_cols rm" "rm_firstdatacol (raidz_generate rm) = rm_firstdatacol rm"
    and "raidz_damaged {0..<rm_firstdatacol rm} rm (raidz_generate rm)"
    by auto
qed


lemma parity_wf: "raidz_parity rm \<Longrightarrow> raidz_wf rm"
  by (simp add: raidz_parity_def)

section \<open>Properties of the parity code\<close>

text \<open>A concrete double-parity stripe for the examples; the code computes its parity columns.\<close>

definition example_col :: "u64 list \<Rightarrow> raidz_col" where
  "example_col ws = \<lparr>rc_devidx = 0, rc_offset = 0, rc_size = of_nat (8 * length ws), rc_data = ws,
     rc_error = None, rc_tried = False, rc_skipped = False\<rparr>"

definition example_stripe :: "raidz_map" where
  "example_stripe = raidz_generate \<lparr>rm_cols = 5, rm_bigcols = 0, rm_asize = 0, rm_missingdata = 0,
     rm_missingparity = 0, rm_firstdatacol = 2,
     rm_col = map example_col [[0, 0], [0, 0], [0x0123456789abcdef, 0xff], [0xdeadbeef, 7], [0x80]]\<rparr>"

lemma example_col_simps [simp]:
  "rc_data (example_col ws) = ws" "rc_count (example_col [a]) = 1" "rc_count (example_col [a, b]) = 2"
  by (simp_all add: example_col_def rc_count_def)

lemma all_below:
  "(\<forall>c<1. P c) \<longleftrightarrow> P 0" "(\<forall>c<2. P c) \<longleftrightarrow> P 0 \<and> P 1" "(\<forall>c<3. P c) \<longleftrightarrow> P 0 \<and> P 1 \<and> P 2"
  "(\<forall>c<4. P c) \<longleftrightarrow> P 0 \<and> P 1 \<and> P 2 \<and> P 3" "(\<forall>c<5. P c) \<longleftrightarrow> P 0 \<and> P 1 \<and> P 2 \<and> P 3 \<and> P (4 :: nat)"
  by (simp_all add: eval_nat_numeral All_less_Suc conj_ac)

lemma example_stripe:
  "raidz_parity example_stripe" "rm_cols example_stripe = 5" "rm_firstdatacol example_stripe = 2"
  "set (data_cols example_stripe) = {2, 3, 4}" "raidz_wf example_stripe"
  "rc_count (rm_col example_stripe ! 2) = 2" "rc_count (rm_col example_stripe ! 4) = 1"
  "rc_data (rm_col example_stripe ! 2) = [0x0123456789abcdef, 0xff]"
  "rc_data (rm_col example_stripe ! 4) = [0x80]"
proof -
  let ?rm = "\<lparr>rm_cols = 5, rm_bigcols = 0, rm_asize = 0, rm_missingdata = 0,
     rm_missingparity = 0, rm_firstdatacol = 2,
     rm_col = map example_col [[0, 0], [0, 0], [0x0123456789abcdef, 0xff], [0xdeadbeef, 7], [0x80]]\<rparr>"
  have "raidz_wf ?rm"
    by (simp add: raidz_wf_def all_below)
  note g = raidz_generate_parity [OF this, folded example_stripe_def]
  show "raidz_parity example_stripe" "rm_cols example_stripe = 5" "rm_firstdatacol example_stripe = 2"
    using g(1,3,4) by simp_all
  then show "set (data_cols example_stripe) = {2, 3, 4}" "raidz_wf example_stripe"
    by (auto simp: data_cols_def raidz_parity_def)
  show "rc_count (rm_col example_stripe ! 2) = 2" "rc_count (rm_col example_stripe ! 4) = 1"
    "rc_data (rm_col example_stripe ! 2) = [0x0123456789abcdef, 0xff]"
    "rc_data (rm_col example_stripe ! 4) = [0x80]"
    using g(2) [of 2] g(2) [of 4] by simp_all
qed

lemma example_damaged: "raidz_damaged {4} example_stripe (upd_col 4 (set_data [9]) example_stripe)"
  by (rule damaged_upd [OF damaged_refl [OF example_stripe(5)]]) (simp_all add: example_stripe(2,6,7))

text \<open>
  C8. Reconstruction from P and Q recovers any two lost data columns.  Take any stripe with
  right parity and at most 256 columns, and any map of the same shape that holds the same data
  except in the data columns \<open>x\<close> and \<open>y\<close>: \<^const>\<open>vdev_raidz_reconstruct_pq\<close> stores exactly the
  original data in columns \<open>x\<close> and \<open>y\<close> and changes nothing else.
\<close>

theorem raidz_recovers_pq:
  assumes "raidz_parity orig" "rm_firstdatacol orig = 2" "rm_cols orig \<le> 256"
    and "x \<in> set (data_cols orig)" "y \<in> set (data_cols orig)" "x < y"
    and "raidz_damaged {x, y} orig rm"
  shows "vdev_raidz_reconstruct_pq rm x y =
    upd_col x (set_data (rc_data (rm_col orig ! x))) (upd_col y (set_data (rc_data (rm_col orig ! y))) rm)"
proof -
  have "1 < x" "1 < y" using assms(2,4,5) by (auto simp: data_cols_def)
  then show ?thesis using assms by (intro reconstruct_pq [OF assms(1,7)]) simp_all
qed

theorem raidz_recovers_pq_witness:
  "vdev_raidz_reconstruct_pq (upd_col 2 (set_data [0, 0]) (upd_col 4 (set_data [9]) example_stripe)) 2 4 =
   upd_col 2 (set_data [0x0123456789abcdef, 0xff]) (upd_col 4 (set_data [0x80])
     (upd_col 2 (set_data [0, 0]) (upd_col 4 (set_data [9]) example_stripe)))"
proof -
  have "raidz_damaged {2, 4} example_stripe (upd_col 2 (set_data [0, 0]) (upd_col 4 (set_data [9]) example_stripe))"
    by (rule damaged_upd [OF example_damaged]) (simp_all add: example_stripe(2,6,7))
  from raidz_recovers_pq [OF example_stripe(1,3) _ _ _ _ this] show ?thesis
    by (simp only: example_stripe) simp
qed

text \<open>
  C10. Reconstruction from P recovers any one lost data column, whatever the state of Q:
  \<^const>\<open>vdev_raidz_reconstruct_p\<close> stores the original data in column \<open>x\<close> and changes nothing
  else.
\<close>

theorem raidz_recovers_p:
  assumes "raidz_parity orig" "x \<in> set (data_cols orig)"
    and "raidz_damaged (insert x {1..<rm_firstdatacol orig}) orig rm"
  shows "vdev_raidz_reconstruct_p rm x = upd_col x (set_data (rc_data (rm_col orig ! x))) rm"
proof (rule reconstruct_p [OF assms(1,3)])
  show "0 \<notin> insert x {1..<rm_firstdatacol orig}"
    using data_col_bounds(1) [OF parity_wf [OF assms(1)] assms(2)] by simp
qed (use assms(2) in \<open>auto simp: data_cols_def\<close>)

theorem raidz_recovers_p_witness:
  "vdev_raidz_reconstruct_p (upd_col 4 (set_data [9]) example_stripe) 4 =
   upd_col 4 (set_data [0x80]) (upd_col 4 (set_data [9]) example_stripe)"
proof -
  have "raidz_damaged (insert 4 {1..<rm_firstdatacol example_stripe}) example_stripe
      (upd_col 4 (set_data [9]) example_stripe)"
    by (rule damaged_mono [OF example_damaged]) simp
  from raidz_recovers_p [OF example_stripe(1) _ this] show ?thesis
    by (simp only: example_stripe) simp
qed

text \<open>
  C9. Reconstruction from Q recovers any one lost data column of a stripe of at most 256
  columns, whatever the state of P.
\<close>

theorem raidz_recovers_q:
  assumes "raidz_parity orig" "x \<in> set (data_cols orig)" "rm_firstdatacol orig = 2" "rm_cols orig \<le> 256"
    and "raidz_damaged {x, 0} orig rm"
  shows "vdev_raidz_reconstruct_q rm x = upd_col x (set_data (rc_data (rm_col orig ! x))) rm"
  using assms(2-4) by (intro reconstruct_q [OF assms(1,5)]) (auto simp: data_cols_def)

theorem raidz_recovers_q_witness:
  "vdev_raidz_reconstruct_q (upd_col 4 (set_data [9]) example_stripe) 4 =
   upd_col 4 (set_data [0x80]) (upd_col 4 (set_data [9]) example_stripe)"
proof -
  have "raidz_damaged {4, 0} example_stripe (upd_col 4 (set_data [9]) example_stripe)"
    by (rule damaged_mono [OF example_damaged]) simp
  from raidz_recovers_q [OF example_stripe(1) _ example_stripe(3) _ this] show ?thesis
    by (simp only: example_stripe) simp
qed

text \<open>
  C17. The doubling of eight bytes at once, with its mask and subtraction, is the doubling of
  each byte in the field, and multiplication by a power of 2 through the two tables is
  iterated doubling, for every byte and every exponent up to 255.
\<close>

theorem raidz_tables_correct:
  assumes "j < 8" "exp \<le> 255"
  shows "byte (raidz_mul2 q) j = VDEV_RAIDZ_MUL_2 (byte q j) \<and>
    vdev_raidz_exp2 a exp = (VDEV_RAIDZ_MUL_2 ^^ exp) a"
  using assms by (simp add: raidz_mul2_bytes exp2_pow)

theorem raidz_tables_correct_witness:
  "byte (raidz_mul2 0x80ff) 1 = 0x1d \<and> vdev_raidz_exp2 0x80 1 = 0x1d"
  using raidz_tables_correct [of 1 1 "0x80ff" "0x80"] by (simp add: byte_def VDEV_RAIDZ_MUL_2_def)

end
