(* ===== verification/Raidz.thy ===== *)
theory Raidz
  imports Raidz_Parity
begin

text \<open>
  The RAID-Z virtual device (\<^verbatim>\<open>uts/common/fs/zfs/vdev_raidz.c\<close>): the layout of a block on the
  children, the space a block takes, opening the device, and the read and write paths with
  their error handling.

  The data columns of a map are the consecutive pieces of the block's buffer, so the block is
  their concatenation, \<open>raidz_data\<close>.  The parity columns are fresh buffers, whose contents
  (word \<open>i\<close> of column \<open>c\<close>) are the argument \<open>fresh\<close>.  Child I/O is asynchronous: the start
  routine returns the requests it issues, and the completion of a request for a column is a
  separate step (\<open>vdev_raidz_child_done\<close>).  The block's checksum (\<^verbatim>\<open>zio_checksum_error\<close> returning
  0) is the argument \<open>ck\<close>.  Counters and error reports are recorded as events.
\<close>

unbundle bit_operations_syntax

section \<open>Layout\<close>

definition roundup :: "u64 \<Rightarrow> u64 \<Rightarrow> u64" where
  "roundup x y = ((x + (y - 1)) div y) * y"

text \<open>\<open>raidz_split cs ws\<close>: the words of the buffer \<open>ws\<close> dealt out to columns of \<open>cs\<close> words.\<close>

fun raidz_split :: "nat list \<Rightarrow> u64 list \<Rightarrow> u64 list list" where
  "raidz_split [] ws = []"
| "raidz_split (n # ns) ws = take n ws # raidz_split ns (drop n ws)"

definition raidz_data :: "raidz_map \<Rightarrow> u64 list" where
  "raidz_data rm = concat (map rc_data (drop (rm_firstdatacol rm) (rm_col rm)))"

definition map_col ::
  "nat \<Rightarrow> u64 \<Rightarrow> u64 \<Rightarrow> u64 \<Rightarrow> u64 \<Rightarrow> u64 \<Rightarrow> u64 \<Rightarrow> raidz_col" where
  "map_col shift f o' q bc dcols c =
     (let col = f + c;
          (col, coff) = (if col \<ge> dcols then (col - dcols, o' + push_bit shift 1) else (col, o'))
      in \<lparr>rc_devidx = col, rc_offset = coff,
          rc_size = push_bit shift (q + (if c < bc then 1 else 0)), rc_data = [],
          rc_error = None, rc_tried = False, rc_skipped = False\<rparr>)"

text \<open>The switch of the parity column every megabyte.\<close>

definition map_swap :: "raidz_map \<Rightarrow> raidz_map" where
  "map_swap rm =
     (let c0 = rm_col rm ! 0; c1 = rm_col rm ! 1
      in rm\<lparr>rm_col := (rm_col rm)
            [0 := c0\<lparr>rc_devidx := rc_devidx c1, rc_offset := rc_offset c1\<rparr>,
             1 := c1\<lparr>rc_devidx := rc_devidx c0, rc_offset := rc_offset c0\<rparr>]\<rparr>)"

definition vdev_raidz_map_alloc ::
  "(nat \<Rightarrow> nat \<Rightarrow> u64) \<Rightarrow> u64 \<Rightarrow> u64 \<Rightarrow> u64 list \<Rightarrow> nat \<Rightarrow> u64 \<Rightarrow> u64 \<Rightarrow> raidz_map" where
  "vdev_raidz_map_alloc fresh io_offset io_size io_data unit_shift dcols nparity =
     (let b = drop_bit unit_shift io_offset;
          s = drop_bit unit_shift io_size;
          f = b mod dcols;
          o' = push_bit unit_shift (b div dcols);
          q = s div (dcols - nparity);
          r = s - q * (dcols - nparity);
          bc = (if r = 0 then 0 else r + nparity);
          acols = (if q = 0 then bc else dcols);
          np = unat nparity;
          cols = map (\<lambda>c. map_col unit_shift f o' q bc dcols (of_nat c)) [0..<unat acols];
          asize = roundup (sum_list (map rc_size cols)) (push_bit unit_shift (nparity + 1));
          pdata = map (\<lambda>c. map (fresh c) [0..<rc_count (cols ! c)]) [0..<np];
          ddata = raidz_split (map rc_count (drop np cols)) io_data;
          rm = \<lparr>rm_cols = unat acols, rm_bigcols = unat bc, rm_asize = asize, rm_missingdata = 0,
                rm_missingparity = 0, rm_firstdatacol = np,
                rm_col = map2 set_data (pdata @ ddata) cols\<rparr>
      in if np = 1 \<and> io_offset AND push_bit 20 1 \<noteq> 0 then map_swap rm else rm)"

definition vdev_raidz_asize :: "nat \<Rightarrow> u64 \<Rightarrow> u64 \<Rightarrow> u64 \<Rightarrow> u64" where
  "vdev_raidz_asize ashift cols nparity psize =
     (let asize = drop_bit ashift (psize - 1) + 1;
          asize = asize + nparity * ((asize + cols - nparity - 1) div (cols - nparity))
      in push_bit ashift (roundup asize (nparity + 1)))"

section \<open>Opening and state changes\<close>

datatype vdev_aux = VDEV_AUX_NONE | VDEV_AUX_BAD_LABEL | VDEV_AUX_NO_REPLICAS

datatype vdev_state = VDEV_STATE_CANT_OPEN | VDEV_STATE_DEGRADED | VDEV_STATE_HEALTHY

text \<open>The result of opening a child: an error, or its allocatable size and its sector shift.\<close>

type_synonym child_open = "errno + u64 \<times> u64"

record raidz_open_state =
  ro_asize :: u64
  ro_ashift :: u64
  ro_lasterror :: "errno option"
  ro_numerrors :: nat

definition open_child :: "raidz_open_state \<Rightarrow> child_open \<Rightarrow> raidz_open_state" where
  "open_child st ch =
     (case ch of
        Inl error \<Rightarrow> st\<lparr>ro_lasterror := Some error, ro_numerrors := Suc (ro_numerrors st)\<rparr>
      | Inr (asize, ashift) \<Rightarrow>
          st\<lparr>ro_asize := min (ro_asize st - 1) (asize - 1) + 1, ro_ashift := max (ro_ashift st) ashift\<rparr>)"

text \<open>The error and aux state left, and the size and shift handed back.\<close>

definition vdev_raidz_open ::
  "nat \<Rightarrow> child_open list \<Rightarrow> u64 \<Rightarrow> u64 \<Rightarrow> (errno option \<times> vdev_aux option) \<times> u64 \<times> u64" where
  "vdev_raidz_open nparity children asize ashift =
     (if nparity > VDEV_RAIDZ_MAXPARITY \<or> length children < nparity + 1
      then ((Some EINVAL, Some VDEV_AUX_BAD_LABEL), asize, ashift)
      else
        let st = foldl open_child
              \<lparr>ro_asize = asize, ro_ashift = ashift, ro_lasterror = None, ro_numerrors = 0\<rparr> children;
            asize = ro_asize st * of_nat (length children)
        in if ro_numerrors st > nparity
           then ((ro_lasterror st, Some VDEV_AUX_NO_REPLICAS), asize, ro_ashift st)
           else ((None, None), asize, ro_ashift st))"

definition vdev_raidz_state_change :: "nat \<Rightarrow> nat \<Rightarrow> nat \<Rightarrow> vdev_state \<times> vdev_aux" where
  "vdev_raidz_state_change nparity faulted degraded =
     (if faulted > nparity then (VDEV_STATE_CANT_OPEN, VDEV_AUX_NO_REPLICAS)
      else if degraded + faulted \<noteq> 0 then (VDEV_STATE_DEGRADED, VDEV_AUX_NONE)
      else (VDEV_STATE_HEALTHY, VDEV_AUX_NONE))"

section \<open>The layout in natural numbers\<close>

lemma unat_add_small: "unat a + unat b < 2 ^ LENGTH('a) \<Longrightarrow> unat (a + b) = unat a + unat (b :: 'a::len word)"
  by (simp add: unat_word_ariths)

lemma unat_mult_small: "unat a * unat b < 2 ^ LENGTH('a) \<Longrightarrow> unat (a * b) = unat a * unat (b :: 'a::len word)"
  by (simp add: unat_word_ariths)

lemma unat_sub_le: "unat b \<le> unat a \<Longrightarrow> unat (a - b) = unat a - unat (b :: 'a::len word)"
  by (simp add: unat_sub word_le_nat_alt)

text \<open>
  A geometry the layout arithmetic does not overflow on: at most 256 children, sectors of at
  most 2 ^ 31 bytes and at least one word, a block of one or more whole sectors, and a device below 2 ^ 62 bytes.
\<close>

definition raidz_geometry :: "nat \<Rightarrow> u64 \<Rightarrow> u64 \<Rightarrow> u64 \<Rightarrow> u64 \<Rightarrow> bool" where
  "raidz_geometry shift dcols nparity io_offset io_size \<longleftrightarrow>
     3 \<le> shift \<and> shift < 32 \<and> nparity \<in> {1, 2} \<and> nparity < dcols \<and> unat dcols \<le> 256 \<and>
     unat io_offset < 2 ^ 62 \<and> unat io_size < 2 ^ 60 \<and> 0 < io_size \<and> 2 ^ shift dvd unat io_size"

definition nat_cols :: "nat \<Rightarrow> nat \<Rightarrow> nat \<Rightarrow> nat" where
  "nat_cols D N S =
     (let q = S div (D - N); r = S mod (D - N); bc = (if r = 0 then 0 else r + N)
      in if q = 0 then bc else D)"

definition nat_rows :: "nat \<Rightarrow> nat \<Rightarrow> nat \<Rightarrow> nat \<Rightarrow> nat" where
  "nat_rows D N S c =
     (let q = S div (D - N); r = S mod (D - N); bc = (if r = 0 then 0 else r + N)
      in q + (if c < bc then 1 else 0))"

lemma map_col_nat:
  fixes bc :: u64
  assumes "unat f < unat dcols" "unat dcols \<le> 256" "c < unat dcols" "shift < 32"
    and "unat o' + 2 ^ shift < 2 ^ 64" "(unat q + 1) * 2 ^ shift < 2 ^ 64" "unat q + 1 < 2 ^ 64"
  defines "rc \<equiv> map_col shift f o' q bc dcols (of_nat c)"
  shows "unat (rc_devidx rc) = (unat f + c) mod unat dcols"
    and "unat (rc_offset rc) = unat o' + (unat f + c) div unat dcols * 2 ^ shift"
    and "unat (rc_size rc) = (unat q + (if c < unat bc then 1 else 0)) * 2 ^ shift"
    and "rc_error rc = None" "rc_tried rc = False" "rc_skipped rc = False"
proof -
  have c: "unat (of_nat c :: u64) = c" using assms(2,3) by (simp add: unat_of_nat)
  have fc: "unat (f + of_nat c) = unat f + c"
    using assms(1-3) by (subst unat_add_small) (simp_all add: c)
  have one: "unat (push_bit shift 1 :: u64) = 2 ^ shift"
    using assms(4) unat_push_bit_mult [of "1 :: u64" shift] power_strict_increasing [of shift 64 "2 :: nat"] by simp
  have ge: "f + of_nat c \<ge> dcols \<longleftrightarrow> unat dcols \<le> unat f + c"
    by (simp add: word_le_nat_alt fc)
  have wrap: "(unat f + c) mod unat dcols = unat f + c - unat dcols" "(unat f + c) div unat dcols = 1"
    if "unat dcols \<le> unat f + c"
    using that assms(1,3) by (auto simp: mod_if div_if)
  have bc: "of_nat c < bc \<longleftrightarrow> c < unat bc"
    by (simp add: word_less_nat_alt c)
  show "unat (rc_devidx rc) = (unat f + c) mod unat dcols"
    using wrap(1) by (auto simp: rc_def map_col_def Let_def ge unat_sub_le fc)
  show "unat (rc_offset rc) = unat o' + (unat f + c) div unat dcols * 2 ^ shift"
  proof -
    have "unat (o' + push_bit shift 1) = unat o' + 2 ^ shift"
      using assms(5) by (simp add: unat_add_small one del: push_bit_of_1)
    then show ?thesis
      using wrap(2) by (auto simp: rc_def map_col_def Let_def ge)
  qed
  have q: "unat (q + (if c < unat bc then 1 else 0)) = unat q + (if c < unat bc then 1 else 0)"
    using assms(7) by (auto simp: unat_add_small)
  then have "unat (push_bit shift (q + (if c < unat bc then 1 else 0))) = (unat q + (if c < unat bc then 1 else 0)) * 2 ^ shift"
    using assms(6) by (subst unat_push_bit_mult) (auto intro: le_less_trans [rotated])
  then show "unat (rc_size rc) = (unat q + (if c < unat bc then 1 else 0)) * 2 ^ shift"
    by (auto simp: rc_def map_col_def Let_def bc split: prod.split)
qed (simp_all add: rc_def map_col_def Let_def)


text \<open>The quantities \<^const>\<open>vdev_raidz_map_alloc\<close> computes, in natural numbers.\<close>

lemma geometry_nat:
  assumes "raidz_geometry shift dcols nparity io_offset io_size"
  defines "b \<equiv> drop_bit shift io_offset" and "s \<equiv> drop_bit shift io_size"
  defines "q \<equiv> s div (dcols - nparity)"
  defines "r \<equiv> s - q * (dcols - nparity)"
  defines "bc \<equiv> if r = 0 then 0 else r + nparity"
  defines "acols \<equiv> if q = 0 then bc else dcols"
  defines "D \<equiv> unat dcols" and "N \<equiv> unat nparity" and "S \<equiv> unat io_size div 2 ^ shift"
    and "B \<equiv> unat io_offset div 2 ^ shift"
  shows "N \<in> {1, 2}" "N < D" "0 < S" "unat (b mod dcols) = B mod D"
    "unat (push_bit shift (b div dcols)) = B div D * 2 ^ shift"
    "unat q = S div (D - N)" "unat bc = (if S mod (D - N) = 0 then 0 else S mod (D - N) + N)"
    "unat acols = nat_cols D N S" "nat_cols D N S \<le> D" "N < nat_cols D N S" "S * 2 ^ shift = unat io_size"
proof -
  have g: "3 \<le> shift" "shift < 32" "N \<in> {1, 2}" "N < D" "D \<le> 256" "unat io_offset < 2 ^ 62"
    "unat io_size < 2 ^ 60" "0 < unat io_size" "2 ^ shift dvd unat io_size"
    using assms(1) by (auto simp: raidz_geometry_def D_def N_def word_less_nat_alt unat_gt_0)
  then show "N \<in> {1, 2}" "N < D" by simp_all
  show SS: "S * 2 ^ shift = unat io_size" using g by (simp add: S_def)
  then show S0: "0 < S" using g(8) by (cases S) auto
  have u: "unat b = B" "unat s = S" by (simp_all add: b_def s_def B_def S_def unat_drop_bit_div)
  have DN: "unat (dcols - nparity) = D - N" using g(4) by (simp add: unat_sub_le D_def N_def)
  show "unat (b mod dcols) = B mod D" by (simp add: unat_mod u D_def)
  have "B div D * 2 ^ shift \<le> B * 2 ^ shift" by simp
  also have "\<dots> \<le> unat io_offset" by (simp add: B_def)
  finally show "unat (push_bit shift (b div dcols)) = B div D * 2 ^ shift"
    using g(6) by (subst unat_push_bit_mult) (simp_all add: unat_div u D_def)
  show q: "unat q = S div (D - N)" by (simp add: q_def unat_div u DN)
  have "S < 2 ^ 60" using g(7) S_def by (auto intro: le_less_trans [OF div_le_dividend])
  moreover have "(2 :: nat) ^ 60 < 2 ^ 64" by simp
  ultimately have "S div (D - N) * (D - N) < 2 ^ 64"
    using div_times_less_eq_dividend [of S "D - N"] by linarith
  then have "unat (q * (dcols - nparity)) = S div (D - N) * (D - N)"
    by (subst unat_mult_small) (simp_all add: q DN)
  then have "unat r = S - S div (D - N) * (D - N)"
    by (simp add: r_def unat_sub_le u)
  then have r: "unat r = S mod (D - N)"
    by (simp add: minus_div_mult_eq_mod)
  then have r0: "r = 0 \<longleftrightarrow> S mod (D - N) = 0"
    using unat_eq_0 [of r] by simp
  have rl: "S mod (D - N) < D - N" using g(4) by simp
  show bc: "unat bc = (if S mod (D - N) = 0 then 0 else S mod (D - N) + N)"
  proof -
    have "(256 :: nat) < 2 ^ 64" by simp
    then have "S mod (D - N) + N < 2 ^ 64" using rl g(4,5) by linarith
    then have "unat (r + nparity) = S mod (D - N) + N"
      by (subst unat_add_small) (simp_all add: r N_def)
    then show ?thesis by (simp add: bc_def r0)
  qed
  have "q = 0 \<longleftrightarrow> S div (D - N) = 0" using unat_eq_0 [of q] q by simp
  then show "unat acols = nat_cols D N S"
    using bc by (simp add: acols_def nat_cols_def Let_def D_def)
  have "S mod (D - N) + N \<le> D" using rl g(4) by linarith
  then show "nat_cols D N S \<le> D" by (simp add: nat_cols_def Let_def)
  show "N < nat_cols D N S" using g(4) S0 rl by (auto simp: nat_cols_def Let_def div_eq_0_iff)
qed


lemma raidz_split_length [simp]: "length (raidz_split ns ws) = length ns"
  by (induction ns arbitrary: ws) auto

lemma raidz_split_nth:
  "sum_list ns \<le> length ws \<Longrightarrow> i < length ns \<Longrightarrow> length (raidz_split ns ws ! i) = ns ! i"
  by (induction ns arbitrary: ws i) (auto simp: nth_Cons split: nat.splits)

lemma raidz_split_concat: "sum_list ns = length ws \<Longrightarrow> concat (raidz_split ns ws) = ws"
  by (induction ns arbitrary: ws) auto

lemma map_set_data: "length ds = length cs \<Longrightarrow> map rc_data (map2 set_data ds cs) = ds"
  by (induction ds cs rule: list_induct2) auto

lemma map_swap_simps:
  assumes "1 < length (rm_col rm)"
  shows "rm_cols (map_swap rm) = rm_cols rm" "rm_firstdatacol (map_swap rm) = rm_firstdatacol rm"
    "rm_asize (map_swap rm) = rm_asize rm" "length (rm_col (map_swap rm)) = length (rm_col rm)"
    "rc_size (rm_col (map_swap rm) ! c) = rc_size (rm_col rm ! c)"
    "rc_data (rm_col (map_swap rm) ! c) = rc_data (rm_col rm ! c)"
    "rc_error (rm_col (map_swap rm) ! c) = rc_error (rm_col rm ! c)"
    "rc_tried (rm_col (map_swap rm) ! c) = rc_tried (rm_col rm ! c)"
    "rc_devidx (rm_col (map_swap rm) ! c) = rc_devidx (rm_col rm ! (if c < 2 then 1 - c else c))"
    "rc_offset (rm_col (map_swap rm) ! c) = rc_offset (rm_col rm ! (if c < 2 then 1 - c else c))"
proof -
  have l: "rm_col rm \<noteq> []" using assms by auto
  consider "c = 0" | "c = 1" | "2 \<le> c" by linarith
  then show "rc_size (rm_col (map_swap rm) ! c) = rc_size (rm_col rm ! c)"
    "rc_data (rm_col (map_swap rm) ! c) = rc_data (rm_col rm ! c)"
    "rc_error (rm_col (map_swap rm) ! c) = rc_error (rm_col rm ! c)"
    "rc_tried (rm_col (map_swap rm) ! c) = rc_tried (rm_col rm ! c)"
    "rc_devidx (rm_col (map_swap rm) ! c) = rc_devidx (rm_col rm ! (if c < 2 then 1 - c else c))"
    "rc_offset (rm_col (map_swap rm) ! c) = rc_offset (rm_col rm ! (if c < 2 then 1 - c else c))"
    using assms l by (cases; simp add: map_swap_def Let_def nth_list_update)+
qed (simp_all add: map_swap_def Let_def)

definition swapped :: "u64 \<Rightarrow> u64 \<Rightarrow> nat \<Rightarrow> nat" where
  "swapped nparity io_offset c =
     (if nparity = 1 \<and> io_offset AND push_bit 20 1 \<noteq> 0 \<and> c < 2 then 1 - c else c)"

text \<open>The columns of the map, before data is attached and parity possibly switched.\<close>

definition layout_cols :: "u64 \<Rightarrow> u64 \<Rightarrow> nat \<Rightarrow> u64 \<Rightarrow> u64 \<Rightarrow> raidz_col list" where
  "layout_cols io_offset io_size unit_shift dcols nparity =
     (let b = drop_bit unit_shift io_offset; s = drop_bit unit_shift io_size;
          q = s div (dcols - nparity); r = s - q * (dcols - nparity);
          bc = (if r = 0 then 0 else r + nparity); acols = (if q = 0 then bc else dcols)
      in map (\<lambda>c. map_col unit_shift (b mod dcols) (push_bit unit_shift (b div dcols)) q bc dcols (of_nat c))
           [0..<unat acols])"

lemma layout_cols_nat:
  assumes g: "raidz_geometry shift dcols nparity io_offset io_size"
  defines "D \<equiv> unat dcols" and "N \<equiv> unat nparity" and "S \<equiv> unat io_size div 2 ^ shift"
    and "B \<equiv> unat io_offset div 2 ^ shift" and "cs \<equiv> layout_cols io_offset io_size shift dcols nparity"
  shows "length cs = nat_cols D N S"
    and "c < nat_cols D N S \<Longrightarrow> unat (rc_devidx (cs ! c)) = (B + c) mod D"
    and "c < nat_cols D N S \<Longrightarrow> unat (rc_offset (cs ! c)) = (B + c) div D * 2 ^ shift"
    and "c < nat_cols D N S \<Longrightarrow> unat (rc_size (cs ! c)) = nat_rows D N S c * 2 ^ shift"
    and "c < nat_cols D N S \<Longrightarrow> rc_error (cs ! c) = None \<and> \<not> rc_tried (cs ! c)"
proof -
  note n = geometry_nat [OF g, folded D_def N_def S_def B_def]
  let ?b = "drop_bit shift io_offset" and ?s = "drop_bit shift io_size"
  let ?q = "?s div (dcols - nparity)"
  let ?r = "?s - ?q * (dcols - nparity)"
  let ?bc = "if ?r = 0 then 0 else ?r + nparity"
  show len: "length cs = nat_cols D N S"
    using n(8) by (simp add: cs_def layout_cols_def Let_def)
  have g': "shift < 32" "D \<le> 256" "unat io_offset < 2 ^ 62" "unat io_size < 2 ^ 60"
    using g by (auto simp: raidz_geometry_def D_def)
  have "(B div D * 2 ^ shift) \<le> B * 2 ^ shift" "B * 2 ^ shift \<le> unat io_offset" by (simp_all add: B_def)
  moreover have p: "(2 :: nat) ^ shift \<le> 2 ^ 31" using g'(1) by (intro power_increasing) auto
  moreover have p': "(2 :: nat) ^ 62 + 2 ^ 31 < 2 ^ 64" "(2 :: nat) ^ 60 + 2 ^ 31 < 2 ^ 64" by simp_all
  ultimately have o: "unat (push_bit shift (?b div dcols)) + 2 ^ shift < 2 ^ 64"
    using g'(3) unfolding n(5) by linarith
  have "unat ?q * 2 ^ shift \<le> S * 2 ^ shift" by (simp add: n(6))
  then have q: "(unat ?q + 1) * 2 ^ shift < 2 ^ 64"
    unfolding distrib_right n(11) using g'(4) p p' by linarith
  then have q1: "unat ?q + 1 < 2 ^ 64"
    using mult_le_mono2 [of 1 "2 ^ shift" "unat ?q + 1"] by (simp del: mult_le_mono2)
  have nth: "cs ! c = map_col shift (?b mod dcols) (push_bit shift (?b div dcols)) ?q ?bc dcols (of_nat c)"
    if "c < nat_cols D N S"
    using that len by (simp add: cs_def layout_cols_def Let_def)
  have f: "unat (?b mod dcols) < unat dcols" "c < nat_cols D N S \<Longrightarrow> c < unat dcols"
    using n(2,4,9) by (simp_all add: D_def [symmetric])
  have d: "unat dcols \<le> 256" using g'(2) by (simp add: D_def)
  note mc = map_col_nat [where bc = ?bc, OF f(1) d f(2) g'(1) o q q1, folded D_def]
  have dm: "(B mod D + c) mod D = (B + c) mod D" "B div D + (B mod D + c) div D = (B + c) div D"
    using n(2) by (simp_all add: mod_add_left_eq div_add1_eq [of B c] div_add1_eq [of "B mod D" c])
  show "c < nat_cols D N S \<Longrightarrow> unat (rc_devidx (cs ! c)) = (B + c) mod D"
    using mc(1) dm(1) by (simp add: nth n(4))
  show "c < nat_cols D N S \<Longrightarrow> unat (rc_offset (cs ! c)) = (B + c) div D * 2 ^ shift"
    using mc(2) by (simp add: nth n(4,5) dm(2) flip: distrib_right)
  show "c < nat_cols D N S \<Longrightarrow> unat (rc_size (cs ! c)) = nat_rows D N S c * 2 ^ shift"
    using mc(3) by (simp only: nth n(6,7) nat_rows_def Let_def)
  show "c < nat_cols D N S \<Longrightarrow> rc_error (cs ! c) = None \<and> \<not> rc_tried (cs ! c)"
    using mc(4,5) by (simp add: nth)
qed


lemma sum_list_rows:
  assumes "N < D"
  shows "(\<Sum>c = N..<nat_cols D N S. nat_rows D N S c) = S"
    and "c < N \<Longrightarrow> nat_rows D N S c = (S + (D - N) - 1) div (D - N)"
    and "(\<Sum>c < nat_cols D N S. nat_rows D N S c) = S + N * ((S + (D - N) - 1) div (D - N))"
proof -
  have m: "0 < D - N" "S mod (D - N) < D - N" using assms by simp_all
  have "(\<Sum>c = N..<nat_cols D N S. nat_rows D N S c) = (\<Sum>c < nat_cols D N S - N. nat_rows D N S (c + N))"
    by (rule sum.reindex_bij_witness [of _ "\<lambda>c. c + N" "\<lambda>c. c - N"]) auto
  also have "\<dots> = S"
  proof (cases "S div (D - N) = 0")
    case True
    then have "S < D - N" using m by (simp add: div_eq_0_iff)
    then show ?thesis by (simp add: nat_cols_def nat_rows_def)
  next
    case False
    have "(\<Sum>c < D - N. if c < r then 1 else 0) = r" if "r \<le> D - N" for r :: nat
    proof -
      have "{c. c < D - N \<and> c < r} = {..<r}" using that by auto
      then show ?thesis by (simp add: sum.If_cases Int_def)
    qed
    then have "(\<Sum>c < D - N. S div (D - N) + (if c < S mod (D - N) then 1 else 0)) = S"
      using m by (simp add: sum.distrib mult.commute)
    moreover have "nat_rows D N S (c + N) = S div (D - N) + (if c < S mod (D - N) then 1 else 0)" for c
      by (simp add: nat_rows_def Let_def)
    ultimately show ?thesis using False by (simp add: nat_cols_def Let_def)
  qed
  finally show d: "(\<Sum>c = N..<nat_cols D N S. nat_rows D N S c) = S" .
  have ceil: "(S + (D - N) - 1) div (D - N) = S div (D - N) + (if S mod (D - N) = 0 then 0 else 1)"
  proof (cases "S mod (D - N) = 0")
    case True
    then obtain k where k: "S = (D - N) * k" by (auto simp: mod_eq_0_iff_dvd elim: dvdE)
    have "(S + (D - N) - 1) div (D - N) = (D - N - 1 + k * (D - N)) div (D - N)"
      using m k by (simp add: mult.commute add.commute)
    also have "\<dots> = k" using m by (subst div_mult_self1) auto
    finally show ?thesis using True k m by simp
  next
    case False
    have "S + (D - N) - 1 = S mod (D - N) - 1 + (S div (D - N) + 1) * (D - N)"
      using False m(1) div_mult_mod_eq [of S "D - N"] by (simp add: distrib_right)
    also have "\<dots> div (D - N) = S div (D - N) + 1"
      using m by (subst div_mult_self1) (auto simp: less_imp_diff_less)
    finally show ?thesis using False by simp
  qed
  show p: "nat_rows D N S c = (S + (D - N) - 1) div (D - N)" if "c < N" for c
    unfolding ceil using that by (simp add: nat_rows_def Let_def)
  show "(\<Sum>c < nat_cols D N S. nat_rows D N S c) = S + N * ((S + (D - N) - 1) div (D - N))"
  proof (cases "S = 0")
    case True
    then show ?thesis using m by (simp add: nat_cols_def)
  next
    case False
    then have "N \<le> nat_cols D N S"
      using assms by (auto simp: nat_cols_def Let_def div_eq_0_iff)
    then have "(\<Sum>c < nat_cols D N S. nat_rows D N S c) =
        (\<Sum>c < N. nat_rows D N S c) + (\<Sum>c = N..<nat_cols D N S. nat_rows D N S c)"
      by (simp add: lessThan_atLeast0 sum.atLeastLessThan_concat)
    then show ?thesis by (simp add: d p)
  qed
qed


lemma nat_rows_shape:
  "c \<le> d \<Longrightarrow> nat_rows D N S d \<le> nat_rows D N S c"
  "c \<le> N \<Longrightarrow> nat_rows D N S c = nat_rows D N S 0"
  by (auto simp: nat_rows_def Let_def)

lemma rows_words: "3 \<le> shift \<Longrightarrow> k * 2 ^ shift div 8 = (k * 2 ^ (shift - 3) :: nat)"
  using power_add [of "2 :: nat" 3 "shift - 3"] by simp

lemma rc_count_rows: "3 \<le> shift \<Longrightarrow> unat (rc_size rc) = k * 2 ^ shift \<Longrightarrow> rc_count rc = k * 2 ^ (shift - 3)"
  by (simp add: rc_count_def unat_div rows_words)

text \<open>The data handed to the columns: fresh parity buffers, then the pieces of the block.\<close>

definition layout_data :: "(nat \<Rightarrow> nat \<Rightarrow> u64) \<Rightarrow> nat \<Rightarrow> u64 list \<Rightarrow> raidz_col list \<Rightarrow> u64 list list" where
  "layout_data fresh np io_data cs =
     map (\<lambda>c. map (fresh c) [0..<rc_count (cs ! c)]) [0..<np] @ raidz_split (map rc_count (drop np cs)) io_data"

lemma map_alloc_layout:
  "vdev_raidz_map_alloc fresh io_offset io_size io_data shift dcols nparity =
     (let cs = layout_cols io_offset io_size shift dcols nparity; np = unat nparity;
          bc = drop_bit shift io_size - drop_bit shift io_size div (dcols - nparity) * (dcols - nparity);
          rm = \<lparr>rm_cols = length cs, rm_bigcols = unat (if bc = 0 then 0 else bc + nparity),
                rm_asize = roundup (sum_list (map rc_size cs)) (push_bit shift (nparity + 1)),
                rm_missingdata = 0, rm_missingparity = 0, rm_firstdatacol = np,
                rm_col = map2 set_data (layout_data fresh np io_data cs) cs\<rparr>
      in if np = 1 \<and> io_offset AND push_bit 20 1 \<noteq> 0 then map_swap rm else rm)"
  by (simp add: vdev_raidz_map_alloc_def layout_cols_def layout_data_def Let_def)

lemma layout_data_length:
  assumes "raidz_geometry shift dcols nparity io_offset io_size" "length io_data = unat io_size div 8"
  defines "cs \<equiv> layout_cols io_offset io_size shift dcols nparity" and "N \<equiv> unat nparity"
  shows "length (layout_data fresh N io_data cs) = length cs"
    and "c < length cs \<Longrightarrow> length (layout_data fresh N io_data cs ! c) = rc_count (cs ! c)"
    and "concat (drop N (layout_data fresh N io_data cs)) = io_data"
proof -
  note n = geometry_nat [OF assms(1), folded N_def]
  note l = layout_cols_nat [OF assms(1), folded N_def cs_def]
  let ?S = "unat io_size div 2 ^ shift" and ?D = "unat dcols"
  have sh: "3 \<le> shift" using assms(1) by (simp add: raidz_geometry_def)
  have N: "N < length cs" using n(10) l(1) by simp
  then show len: "length (layout_data fresh N io_data cs) = length cs"
    by (simp add: layout_data_def)
  have "map rc_count (drop N cs) = map (\<lambda>c. nat_rows ?D N ?S c * 2 ^ (shift - 3)) [N..<length cs]"
    using l(1) l(4) by (intro nth_equalityI) (auto simp: rc_count_rows [OF sh])
  then have "sum_list (map rc_count (drop N cs)) = (\<Sum>c = N..<length cs. nat_rows ?D N ?S c) * 2 ^ (shift - 3)"
    by (simp add: sum_list_mult_const interv_sum_list_conv_sum_set_nat)
  also have "\<dots> = ?S * 2 ^ (shift - 3)" using l(1) sum_list_rows(1) [OF n(2)] by simp
  also have "\<dots> = length io_data"
    using n(11) assms(2) rows_words [OF sh, of ?S] by simp
  finally have s: "sum_list (map rc_count (drop N cs)) = length io_data" .
  show "concat (drop N (layout_data fresh N io_data cs)) = io_data"
    by (simp add: layout_data_def raidz_split_concat s)
  show "c < length cs \<Longrightarrow> length (layout_data fresh N io_data cs ! c) = rc_count (cs ! c)"
    using N by (auto simp: layout_data_def nth_append raidz_split_nth s)
qed


text \<open>The allocated map: its shape, the block it holds, and that it is well formed.\<close>

lemma map_alloc_shape:
  fixes fresh :: "nat \<Rightarrow> nat \<Rightarrow> u64"
  assumes "raidz_geometry shift dcols nparity io_offset io_size" "length io_data = unat io_size div 8"
  defines "D \<equiv> unat dcols" and "N \<equiv> unat nparity" and "S \<equiv> unat io_size div 2 ^ shift"
    and "B \<equiv> unat io_offset div 2 ^ shift"
    and "rm \<equiv> vdev_raidz_map_alloc fresh io_offset io_size io_data shift dcols nparity"
  shows "rm_cols rm = nat_cols D N S" "rm_firstdatacol rm = N" "length (rm_col rm) = nat_cols D N S"
    and "c < nat_cols D N S \<Longrightarrow> unat (rc_devidx (rm_col rm ! c)) = (B + swapped nparity io_offset c) mod D"
    and "c < nat_cols D N S \<Longrightarrow> unat (rc_offset (rm_col rm ! c)) = (B + swapped nparity io_offset c) div D * 2 ^ shift"
    and "c < nat_cols D N S \<Longrightarrow> unat (rc_size (rm_col rm ! c)) = nat_rows D N S c * 2 ^ shift"
    and "c < nat_cols D N S \<Longrightarrow> rc_error (rm_col rm ! c) = None \<and> \<not> rc_tried (rm_col rm ! c)"
    and "c < nat_cols D N S \<Longrightarrow> length (rc_data (rm_col rm ! c)) = nat_rows D N S c * 2 ^ (shift - 3)"
    and "raidz_data rm = io_data"
    and "rm_asize rm = roundup (sum_list (map rc_size (layout_cols io_offset io_size shift dcols nparity)))
           (push_bit shift (nparity + 1))"
proof -
  define cs where "cs = layout_cols io_offset io_size shift dcols nparity"
  define ds where "ds = layout_data fresh N io_data cs"
  note n = geometry_nat [OF assms(1), folded D_def N_def S_def B_def]
  note l = layout_cols_nat [OF assms(1), folded D_def N_def S_def B_def cs_def]
  note d = layout_data_length [OF assms(1,2), folded N_def cs_def, where fresh = fresh, folded ds_def]
  have sh: "3 \<le> shift" using assms(1) by (simp add: raidz_geometry_def)
  let ?sw = "N = 1 \<and> io_offset AND push_bit 20 1 \<noteq> 0"
  obtain r0 where rm: "rm = (if ?sw then map_swap r0 else r0)" and r0: "rm_col r0 = map2 set_data ds cs"
    "rm_cols r0 = length cs" "rm_firstdatacol r0 = N"
    "rm_asize r0 = roundup (sum_list (map rc_size cs)) (push_bit shift (nparity + 1))"
    using map_alloc_layout [of fresh io_offset io_size io_data shift dcols nparity]
    unfolding rm_def by (auto simp: Let_def N_def cs_def ds_def)
  have len: "length (rm_col r0) = length cs" using d(1) r0 by simp
  then have two: "1 < length (rm_col r0)" using n(1,10) l(1) by auto
  have N1: "N = Suc 0 \<longleftrightarrow> nparity = 1" using word_eq_unat [of nparity 1] by (auto simp: N_def)
  have c0: "rm_col r0 ! c = set_data (ds ! c) (cs ! c)" if "c < length cs" for c
    using that d(1) r0 by simp
  have sw: "swapped nparity io_offset c < length cs" if "c < length cs" for c
    using that two len by (auto simp: swapped_def)
  show "rm_cols rm = nat_cols D N S" "rm_firstdatacol rm = N" "length (rm_col rm) = nat_cols D N S"
    "rm_asize rm = roundup (sum_list (map rc_size (layout_cols io_offset io_size shift dcols nparity)))
           (push_bit shift (nparity + 1))"
    using r0 len l(1) map_swap_simps [OF two] by (simp_all add: rm cs_def)
  have col: "rc_devidx (rm_col rm ! c) = rc_devidx (cs ! swapped nparity io_offset c)"
    "rc_offset (rm_col rm ! c) = rc_offset (cs ! swapped nparity io_offset c)"
    "rc_size (rm_col rm ! c) = rc_size (cs ! c)" "rc_data (rm_col rm ! c) = ds ! c"
    "rc_error (rm_col rm ! c) = rc_error (cs ! c)" "rc_tried (rm_col rm ! c) = rc_tried (cs ! c)"
    if "c < length cs" for c
    using that sw [OF that] map_swap_simps(5-10) [OF two, of c]
    by (simp_all add: rm c0 set_data_def swapped_def N1 split: if_splits) auto
  show "c < nat_cols D N S \<Longrightarrow> unat (rc_devidx (rm_col rm ! c)) = (B + swapped nparity io_offset c) mod D"
    "c < nat_cols D N S \<Longrightarrow> unat (rc_offset (rm_col rm ! c)) = (B + swapped nparity io_offset c) div D * 2 ^ shift"
    "c < nat_cols D N S \<Longrightarrow> unat (rc_size (rm_col rm ! c)) = nat_rows D N S c * 2 ^ shift"
    "c < nat_cols D N S \<Longrightarrow> rc_error (rm_col rm ! c) = None \<and> \<not> rc_tried (rm_col rm ! c)"
    using l col sw by simp_all
  show "c < nat_cols D N S \<Longrightarrow> length (rc_data (rm_col rm ! c)) = nat_rows D N S c * 2 ^ (shift - 3)"
    using l(1,4) d(2) col(4) by (simp add: rc_count_rows [OF sh])
  have "map rc_data (rm_col rm) = ds"
    using col(4) l(1) d(1) \<open>length (rm_col rm) = nat_cols D N S\<close> by (intro nth_equalityI) simp_all
  then show "raidz_data rm = io_data"
    using d(3) \<open>rm_firstdatacol rm = N\<close> by (simp add: raidz_data_def flip: drop_map)
qed


lemma map_alloc_wf:
  fixes fresh :: "nat \<Rightarrow> nat \<Rightarrow> u64"
  assumes "raidz_geometry shift dcols nparity io_offset io_size" "length io_data = unat io_size div 8"
  shows "raidz_wf (vdev_raidz_map_alloc fresh io_offset io_size io_data shift dcols nparity)"
    (is "raidz_wf ?rm")
proof -
  define D N S where "D = unat dcols" and "N = unat nparity" and "S = unat io_size div 2 ^ shift"
  note n = geometry_nat [OF assms(1), folded D_def N_def S_def]
  note m = map_alloc_shape [OF assms, where fresh = fresh, folded D_def N_def S_def]
  have sh: "3 \<le> shift" using assms(1) by (simp add: raidz_geometry_def)
  have rc: "rc_count (rm_col ?rm ! c) = nat_rows D N S c * 2 ^ (shift - 3)" if "c < nat_cols D N S" for c
    using m(6) [OF that] by (rule rc_count_rows [OF sh])
  have c: "0 < nat_cols D N S" "N - 1 < nat_cols D N S" "N < nat_cols D N S" using n(10) by simp_all
  have "nat_rows D N S (N - 1) = nat_rows D N S 0" "nat_rows D N S N = nat_rows D N S 0"
    by (rule nat_rows_shape(2), simp)+
  then show ?thesis
    using m(1-3,8) n(1) c unfolding raidz_wf_def by (simp add: rc nat_rows_shape(1))
qed

lemma add_mod_inj:
  assumes "i < D" "j < D" "(b + i) mod D = (b + j) mod (D :: nat)"
  shows "i = j"
proof -
  have le: "n \<le> m" if "n < D" "(b + m) mod D = (b + n) mod D" for m n
  proof (rule ccontr)
    assume l: "\<not> n \<le> m"
    then have "D dvd (b + n) - (b + m)" using that mod_eq_dvd_iff_nat [of "b + m" "b + n" D] by simp
    then have "D \<le> n - m" using l by (auto intro: dvd_imp_le)
    then show False using that(1) by simp
  qed
  show ?thesis using le [of i j] le [of j i] assms by simp
qed

lemma swapped_inj: "swapped n off c = swapped n off d \<Longrightarrow> c = d"
  by (auto simp: swapped_def split: if_splits)

lemma swapped_less: "1 < n \<Longrightarrow> c < n \<Longrightarrow> swapped np off c < n"
  by (auto simp: swapped_def)

text \<open>The space taken by a block, in sectors.\<close>

definition nat_sectors :: "nat \<Rightarrow> nat \<Rightarrow> nat \<Rightarrow> nat" where
  "nat_sectors D N S = S + N * ((S + (D - N) - 1) div (D - N))"

definition nat_asize :: "nat \<Rightarrow> nat \<Rightarrow> nat \<Rightarrow> nat" where
  "nat_asize D N S = (nat_sectors D N S + N) div (N + 1) * (N + 1)"

lemma sum_list_of_nat: "sum_list (ws :: u64 list) = of_nat (sum_list (map unat ws))"
  by (induction ws) auto

lemma unat_roundup:
  assumes "0 < unat y" "unat x + unat y < 2 ^ 64"
  shows "unat (roundup x y) = (unat x + (unat y - 1)) div unat y * unat y"
proof -
  have y: "unat (y - 1) = unat y - 1" using assms(1) by (subst unat_sub_le) auto
  have x: "unat (x + (y - 1)) = unat x + (unat y - 1)"
    using assms y by (subst unat_add_small) auto
  have "(unat x + (unat y - 1)) div unat y * unat y < 2 ^ 64"
    using div_times_less_eq_dividend [of "unat x + (unat y - 1)" "unat y"] assms by linarith
  then show ?thesis unfolding roundup_def
    by (subst unat_mult_small) (simp_all add: unat_div x)
qed

lemma sectors_bound:
  assumes "N \<in> {1, 2}" "N < D" "0 < S"
  shows "nat_sectors D N S \<le> 3 * S"
proof -
  define m where "m = D - N"
  have "1 \<le> m" using assms(2) by (simp add: m_def)
  moreover from this have "S \<le> S * m" by simp
  ultimately have "S + m - 1 < (S + 1) * m" unfolding distrib_right by linarith
  then have "(S + m - 1) div m \<le> S" using less_mult_imp_div_less [of "S + m - 1" "S + 1" m] by simp
  then show ?thesis using assms(1) by (auto simp: m_def nat_sectors_def)
qed

lemma ceil_scale:
  assumes "0 < k"
  shows "(T * k + ((N + 1) * k - 1)) div ((N + 1) * k) = (T + N) div (N + 1 :: nat)"
proof -
  have "T * k + ((N + 1) * k - 1) = k - 1 + (T + N) * k" using assms by (simp add: distrib_right)
  also have "\<dots> div k = T + N" using assms by (subst div_mult_self1) auto
  finally show ?thesis by (subst mult.commute) (simp only: div_mult2_eq)
qed

lemma sectors_nat:
  assumes "raidz_geometry shift dcols nparity io_offset io_size"
  defines "D \<equiv> unat dcols" and "N \<equiv> unat nparity" and "S \<equiv> unat io_size div 2 ^ shift"
  shows "unat (nparity + 1) = N + 1" "unat (push_bit shift (nparity + 1)) = (N + 1) * 2 ^ shift"
    "(nat_sectors D N S + N + 1) * 2 ^ shift < 2 ^ 64" "nat_sectors D N S < 2 ^ 62"
    "nat_asize D N S * 2 ^ shift < 2 ^ 64"
proof -
  note n = geometry_nat [OF assms(1), folded D_def N_def S_def]
  have g: "shift < 32" "unat io_size < 2 ^ 60" using assms(1) by (auto simp: raidz_geometry_def)
  have p: "(2 :: nat) ^ shift \<le> 2 ^ 31" using g(1) by (intro power_increasing) auto
  have T3: "nat_sectors D N S * 2 ^ shift \<le> 3 * unat io_size"
    using mult_le_mono1 [OF sectors_bound [OF n(1-3)], of "2 ^ shift"] by (simp only: mult.assoc n(11))
  have "nat_sectors D N S * 1 \<le> nat_sectors D N S * 2 ^ shift" by (rule mult_le_mono2) simp
  moreover have "3 * unat io_size < 2 ^ 62" using g(2) by simp
  ultimately show "nat_sectors D N S < 2 ^ 62" using T3 by linarith
  show N1: "unat (nparity + 1) = N + 1" using n(1) by (subst unat_add_small) (auto simp: N_def)
  have "(N + 1) * 2 ^ shift \<le> 3 * 2 ^ shift" using n(1) by auto
  then have y: "(N + 1) * 2 ^ shift \<le> 3 * 2 ^ 31" using p by linarith
  then have "unat (nparity + 1) * 2 ^ shift < 2 ^ LENGTH(64)" unfolding N1 by (rule le_less_trans) simp
  then show "unat (push_bit shift (nparity + 1)) = (N + 1) * 2 ^ shift"
    by (subst unat_push_bit_mult) (simp_all only: N1)
  show b: "(nat_sectors D N S + N + 1) * 2 ^ shift < 2 ^ 64"
    using T3 y g(2) unfolding add.assoc [of _ N 1] distrib_right [of _ "N + 1"] by simp
  have "nat_asize D N S \<le> nat_sectors D N S + N"
    unfolding nat_asize_def by (rule div_times_less_eq_dividend)
  then have "nat_asize D N S * 2 ^ shift \<le> (nat_sectors D N S + N + 1) * 2 ^ shift"
    by (intro mult_le_mono1) simp
  then show "nat_asize D N S * 2 ^ shift < 2 ^ 64" using b by (rule le_less_trans)
qed

lemma map_alloc_asize:
  fixes fresh :: "nat \<Rightarrow> nat \<Rightarrow> u64"
  assumes "raidz_geometry shift dcols nparity io_offset io_size" "length io_data = unat io_size div 8"
  defines "D \<equiv> unat dcols" and "N \<equiv> unat nparity" and "S \<equiv> unat io_size div 2 ^ shift"
  shows "unat (rm_asize (vdev_raidz_map_alloc fresh io_offset io_size io_data shift dcols nparity)) =
      nat_asize D N S * 2 ^ shift"
proof -
  define cs where "cs = layout_cols io_offset io_size shift dcols nparity"
  let ?T = "nat_sectors D N S"
  note n = geometry_nat [OF assms(1), folded D_def N_def S_def]
  note l = layout_cols_nat [OF assms(1), folded D_def N_def S_def cs_def]
  note t = sectors_nat [OF assms(1), folded D_def N_def S_def]
  have "map unat (map rc_size cs) = map (\<lambda>c. nat_rows D N S c * 2 ^ shift) [0..<length cs]"
    using l(1,4) by (intro nth_equalityI) simp_all
  then have "sum_list (map unat (map rc_size cs)) = ?T * 2 ^ shift"
    using l(1) sum_list_rows(3) [OF n(2), of S]
    by (simp add: nat_sectors_def sum_list_mult_const interv_sum_list_conv_sum_set_nat lessThan_atLeast0)
  then have s: "sum_list (map rc_size cs) = of_nat (?T * 2 ^ shift)"
    using sum_list_of_nat [of "map rc_size cs"] by simp
  have b: "?T * 2 ^ shift + (N + 1) * 2 ^ shift < 2 ^ 64"
    using t(3) by (simp only: add.assoc flip: distrib_right)
  then have us: "unat (sum_list (map rc_size cs)) = ?T * 2 ^ shift"
    unfolding s by (subst unat_of_nat) simp
  have r: "(?T * 2 ^ shift + ((N + 1) * 2 ^ shift - 1)) div ((N + 1) * 2 ^ shift) = (?T + N) div (N + 1)"
    by (rule ceil_scale) simp
  show ?thesis
    unfolding map_alloc_shape(10) [OF assms(1,2)] cs_def [symmetric] nat_asize_def mult.assoc
    by (subst unat_roundup) (use b in \<open>simp_all only: t us r\<close>, simp_all)
qed

lemma asize_nat:
  assumes "raidz_geometry shift dcols nparity io_offset io_size"
  defines "D \<equiv> unat dcols" and "N \<equiv> unat nparity" and "S \<equiv> unat io_size div 2 ^ shift"
  shows "unat (vdev_raidz_asize shift dcols nparity io_size) = nat_asize D N S * 2 ^ shift"
proof -
  let ?T = "nat_sectors D N S" and ?a = "drop_bit shift (io_size - 1) + 1"
  note n = geometry_nat [OF assms(1), folded D_def N_def S_def]
  note t = sectors_nat [OF assms(1), folded D_def N_def S_def]
  have g: "D \<le> 256" using assms(1) by (simp add: raidz_geometry_def D_def)
  have ST: "S \<le> ?T" by (simp add: nat_sectors_def)
  obtain k where k: "S = Suc k" using n(3) gr0_implies_Suc by blast
  have "unat io_size - 1 = 2 ^ shift - 1 + k * 2 ^ shift" by (simp add: n(11) [symmetric] k)
  also have "\<dots> div 2 ^ shift = k" by (subst div_mult_self1) auto
  finally have "(unat io_size - 1) div 2 ^ shift = k" .
  moreover have "unat (io_size - 1) = unat io_size - 1"
    using assms(1) by (subst unat_sub_le) (auto simp: raidz_geometry_def Suc_le_eq unat_gt_0)
  ultimately have "unat (drop_bit shift (io_size - 1)) = k" by (simp add: unat_drop_bit_div)
  then have a: "unat ?a = S" using k ST t(4) by (subst unat_add_small) auto
  have DN: "unat (dcols - nparity) = D - N" using n(2) by (simp add: unat_sub_le D_def N_def)
  have "unat (?a + dcols) = S + D"
    using ST t(4) g by (subst unat_add_small) (auto simp only: a D_def, simp)
  then have "unat (?a + dcols - nparity) = S + D - N"
    using n(2) by (subst unat_sub_le) (simp_all add: N_def)
  then have "unat (?a + dcols - nparity - 1) = S + (D - N) - 1"
    using n(2,3) by (subst unat_sub_le) simp_all
  then have c: "unat ((?a + dcols - nparity - 1) div (dcols - nparity)) = (S + (D - N) - 1) div (D - N)"
    by (simp add: unat_div DN)
  have "unat (nparity * ((?a + dcols - nparity - 1) div (dcols - nparity))) = ?T - S"
    using t(4) unfolding nat_sectors_def by (subst unat_mult_small) (simp_all only: c N_def [symmetric], simp_all)
  moreover define x where "x = ?a + nparity * ((?a + dcols - nparity - 1) div (dcols - nparity))"
  ultimately have w: "unat x = ?T"
    using t(4) ST unfolding x_def by (subst unat_add_small) (simp_all only: a, simp_all)
  have "unat (roundup x (nparity + 1)) = nat_asize D N S"
    using t(4) n(1) by (subst unat_roundup) (auto simp: w t(1) nat_asize_def)
  then show ?thesis
    unfolding vdev_raidz_asize_def Let_def x_def [symmetric]
    by (subst unat_push_bit_mult) (use t(5) in simp_all)
qed

text \<open>
  The sectors of the children a map covers, as pairs of a child and a sector number.  Sector
  \<open>k\<close> of the RAID-Z device is sector \<open>k div D\<close> of child \<open>k mod D\<close>.
\<close>

definition child_sectors :: "nat \<Rightarrow> raidz_map \<Rightarrow> (nat \<times> nat) list" where
  "child_sectors shift rm =
     concat (map (\<lambda>rc. map (\<lambda>j. (unat (rc_devidx rc), unat (rc_offset rc) div 2 ^ shift + j))
                         [0..<unat (rc_size rc) div 2 ^ shift]) (rm_col rm))"

lemma nat_sectors_eq:
  assumes "0 < N" "N < D"
  shows "nat_sectors D N S = S div (D - N) * D + (if S mod (D - N) = 0 then 0 else S mod (D - N) + N)"
proof -
  define q r where "q = S div (D - N)" and "r = S mod (D - N)"
  have c: "(S + (D - N) - 1) div (D - N) = q + (if r = 0 then 0 else 1)"
    using sum_list_rows(2) [OF assms(2,1), of S] assms(1)
    by (simp add: nat_rows_def Let_def q_def r_def split: if_splits)
  have "S = q * (D - N) + r" by (simp only: q_def r_def div_mult_mod_eq)
  moreover have "q * (D - N) + N * q = q * D"
    using assms(2) distrib_left [of q "D - N" N] by (simp add: mult.commute)
  ultimately show ?thesis unfolding nat_sectors_def c q_def [symmetric] r_def [symmetric]
    by (simp add: distrib_left)
qed

lemma row_sector:
  assumes "0 < N" "N < D" "c < nat_cols D N S" "j < nat_rows D N S c" "nat_cols D N S \<le> D"
  shows "c + j * D < nat_sectors D N S"
proof (cases "j < S div (D - N)")
  case True
  then have "(j + 1) * D \<le> S div (D - N) * D" by (intro mult_le_mono1) simp
  then show ?thesis using assms(3,5) unfolding nat_sectors_eq [OF assms(1,2)] distrib_right by linarith
next
  case False
  then have "j = S div (D - N)" "c < (if S mod (D - N) = 0 then 0 else S mod (D - N) + N)"
    using assms(4) by (auto simp: nat_rows_def Let_def split: if_splits)
  then show ?thesis unfolding nat_sectors_eq [OF assms(1,2)] by simp
qed

lemma nat_rows_swapped:
  "c < 2 \<Longrightarrow> nat_rows D 1 S (1 - c) = nat_rows D 1 S c"
  using nat_rows_shape(2) [of c 1 D S] nat_rows_shape(2) [of "1 - c" 1 D S] by auto


lemma sector_row:
  assumes "0 < N" "N < D" "k < nat_sectors D N S"
  shows "k mod D < nat_cols D N S" "k div D < nat_rows D N S (k mod D)"
proof -
  define q bc where "q = S div (D - N)" and "bc = (if S mod (D - N) = 0 then 0 else S mod (D - N) + N)"
  have T: "k < q * D + bc" using assms(3) by (simp add: nat_sectors_eq [OF assms(1,2)] q_def bc_def)
  have "S mod (D - N) < D - N" using assms(2) by simp
  then have "S mod (D - N) + N \<le> D" using assms(2) by linarith
  then have bc: "bc \<le> D" by (simp add: bc_def)
  have "k < (q + 1) * D" using T bc by simp
  then have le: "k div D \<le> q" using less_mult_imp_div_less [of k "q + 1" D] by simp
  have eq: "k mod D < bc" if "k div D = q"
    using T that div_mult_mod_eq [of k D] by simp
  show "k div D < nat_rows D N S (k mod D)"
    using le eq unfolding nat_rows_def Let_def q_def [symmetric] bc_def [symmetric]
    by (cases "k div D = q") auto
  show "k mod D < nat_cols D N S"
    using le eq assms(2) unfolding nat_cols_def Let_def q_def [symmetric] bc_def [symmetric] by auto
qed

lemma child_sector:
  fixes fresh :: "nat \<Rightarrow> nat \<Rightarrow> u64"
  assumes "raidz_geometry shift dcols nparity io_offset io_size" "length io_data = unat io_size div 8"
  defines "D \<equiv> unat dcols" and "N \<equiv> unat nparity" and "S \<equiv> unat io_size div 2 ^ shift"
    and "B \<equiv> unat io_offset div 2 ^ shift"
    and "rm \<equiv> vdev_raidz_map_alloc fresh io_offset io_size io_data shift dcols nparity"
  assumes "c < nat_cols D N S"
  shows "(unat (rc_devidx (rm_col rm ! c)), unat (rc_offset (rm_col rm ! c)) div 2 ^ shift + j) =
      (\<lambda>k. (k mod D, k div D)) (B + (swapped nparity io_offset c + j * D))"
    and "unat (rc_size (rm_col rm ! c)) div 2 ^ shift = nat_rows D N S (swapped nparity io_offset c)"
proof -
  note m = map_alloc_shape [OF assms(1,2), where fresh = fresh, folded D_def N_def S_def B_def rm_def]
  note n = geometry_nat [OF assms(1), folded D_def N_def S_def B_def]
  show "(unat (rc_devidx (rm_col rm ! c)), unat (rc_offset (rm_col rm ! c)) div 2 ^ shift + j) =
      (\<lambda>k. (k mod D, k div D)) (B + (swapped nparity io_offset c + j * D))"
    using m(4,5) [OF assms(8)] n(2) by (simp flip: add.assoc)
  have "nat_rows D N S (swapped nparity io_offset c) = nat_rows D N S c"
    by (auto simp: swapped_def N_def nat_rows_swapped [simplified])
  then show "unat (rc_size (rm_col rm ! c)) div 2 ^ shift = nat_rows D N S (swapped nparity io_offset c)"
    using m(6) [OF assms(8)] by simp
qed

lemma child_sectors_set:
  fixes fresh :: "nat \<Rightarrow> nat \<Rightarrow> u64"
  assumes "raidz_geometry shift dcols nparity io_offset io_size" "length io_data = unat io_size div 8"
  defines "D \<equiv> unat dcols" and "N \<equiv> unat nparity" and "S \<equiv> unat io_size div 2 ^ shift"
    and "B \<equiv> unat io_offset div 2 ^ shift"
    and "rm \<equiv> vdev_raidz_map_alloc fresh io_offset io_size io_data shift dcols nparity"
  shows "set (child_sectors shift rm) = (\<lambda>k. (k mod D, k div D)) ` {B..<B + nat_sectors D N S}"
proof -
  let ?sw = "swapped nparity io_offset" and ?f = "\<lambda>k. (k mod D, k div D)"
  note n = geometry_nat [OF assms(1), folded D_def N_def S_def B_def]
  note m = map_alloc_shape [OF assms(1,2), where fresh = fresh, folded D_def N_def S_def B_def rm_def]
  note c = child_sector [OF assms(1,2), where fresh = fresh, folded D_def N_def S_def B_def rm_def]
  have N: "0 < N" "1 < nat_cols D N S" using n(1,10) by auto
  have sw: "?sw (?sw c) = c" for c by (auto simp: swapped_def)
  show ?thesis
  proof (intro equalityI subsetI)
    fix x assume "x \<in> set (child_sectors shift rm)"
    then obtain i j where x: "i < nat_cols D N S" "j < unat (rc_size (rm_col rm ! i)) div 2 ^ shift"
      "x = (unat (rc_devidx (rm_col rm ! i)), unat (rc_offset (rm_col rm ! i)) div 2 ^ shift + j)"
      by (auto simp: child_sectors_def in_set_conv_nth [of _ "rm_col rm"] m(3))
    have "?sw i + j * D < nat_sectors D N S"
      using row_sector [OF N(1) n(2) swapped_less [OF N(2) x(1)] _ n(9)] x(2) c(2) [OF x(1)] by simp
    then show "x \<in> ?f ` {B..<B + nat_sectors D N S}"
      unfolding x(3) c(1) [OF x(1)] by (intro imageI) simp
  next
    fix x assume "x \<in> ?f ` {B..<B + nat_sectors D N S}"
    then obtain k where k: "k < nat_sectors D N S" "x = ?f (B + k)"
      by (auto simp: image_iff Bex_def) (metis add_diff_inverse_nat nat_add_left_cancel_less not_less)
    let ?c = "?sw (k mod D)"
    have i: "?c < nat_cols D N S" using swapped_less [OF N(2) sector_row(1) [OF N(1) n(2) k(1)]] .
    moreover have "k div D < unat (rc_size (rm_col rm ! ?c)) div 2 ^ shift"
      using c(2) [OF i] sector_row(2) [OF N(1) n(2) k(1)] by (simp add: sw)
    moreover have "x = (unat (rc_devidx (rm_col rm ! ?c)), unat (rc_offset (rm_col rm ! ?c)) div 2 ^ shift + k div D)"
      unfolding c(1) [OF i] k(2) sw by simp
    ultimately show "x \<in> set (child_sectors shift rm)"
      using m(3) by (auto simp: child_sectors_def intro!: bexI [of _ "rm_col rm ! ?c"])
  qed
qed

lemma map_alloc_devidx:
  fixes fresh :: "nat \<Rightarrow> nat \<Rightarrow> u64"
  assumes "raidz_geometry shift dcols nparity off sz" "length dat = unat sz div 8"
  shows "distinct (map rc_devidx (rm_col (vdev_raidz_map_alloc fresh off sz dat shift dcols nparity)))"
    (is "distinct (map rc_devidx (rm_col ?rm))")
proof -
  define D N S where "D = unat dcols" and "N = unat nparity" and "S = unat sz div 2 ^ shift"
  note n = geometry_nat [OF assms(1), folded D_def N_def S_def]
  note m = map_alloc_shape [OF assms(1,2), where fresh = fresh, folded D_def N_def S_def]
  have D: "1 < nat_cols D N S" "0 < D" using n(1,2,10) by auto
  show ?thesis
    unfolding distinct_conv_nth
  proof (intro allI impI, rule notI)
    fix c d assume h: "c < length (map rc_devidx (rm_col ?rm))" "d < length (map rc_devidx (rm_col ?rm))" "c \<noteq> d"
      "map rc_devidx (rm_col ?rm) ! c = map rc_devidx (rm_col ?rm) ! d"
    have l: "c < nat_cols D N S" "d < nat_cols D N S" using h(1,2) m(3) by simp_all
    let ?s = "swapped nparity off"
    have "?s c < D" "?s d < D" using swapped_less [OF D(1)] l n(9) less_le_trans by blast+
    moreover have "(unat off div 2 ^ shift + ?s c) mod D = (unat off div 2 ^ shift + ?s d) mod D"
      using m(4) [OF l(1)] m(4) [OF l(2)] h(4) l m(3) by simp
    ultimately have "?s c = ?s d" by (rule add_mod_inj)
    then show False using h(3) swapped_inj by blast
  qed
qed

lemma child_sectors_distinct:
  assumes "distinct (map rc_devidx (rm_col rm))"
  shows "distinct (child_sectors shift rm)"
proof -
  have "distinct (map rc_devidx cs) \<Longrightarrow> distinct (child_sectors shift (rm\<lparr>rm_col := cs\<rparr>))" for cs
    by (induction cs) (auto simp: child_sectors_def distinct_map inj_on_def word_unat_eq_iff)
  from this [OF assms] show ?thesis by simp
qed

lemma sectors_announced:
  assumes "raidz_geometry shift dcols nparity off sz"
  shows "nat_sectors (unat dcols) (unat nparity) (unat sz div 2 ^ shift) * 2 ^ shift \<le> unat (vdev_raidz_asize shift dcols nparity sz)"
proof -
  define D N S where "D = unat dcols" and "N = unat nparity" and "S = unat sz div 2 ^ shift"
  have a: "nat_sectors D N S \<le> nat_asize D N S"
    unfolding nat_asize_def using div_mult_mod_eq [of "nat_sectors D N S + N" "N + 1"]
      mod_less_divisor [of "N + 1" "nat_sectors D N S + N"] by linarith
  then show ?thesis unfolding asize_nat [OF assms] D_def N_def S_def by (rule mult_le_mono1)
qed

section \<open>Properties of the layout\<close>

text \<open>
  C12. The allocated map is well formed and holds the block; its columns lie on distinct children
  of the device; the columns carry no error; and the space recorded in it is what the size
  calculation announced (the assertion at the end of the allocation).
\<close>

theorem raidz_map_alloc_layout:
  fixes fresh :: "nat \<Rightarrow> nat \<Rightarrow> u64"
  assumes "raidz_geometry shift dcols nparity io_offset io_size" "length io_data = unat io_size div 8"
  defines "rm \<equiv> vdev_raidz_map_alloc fresh io_offset io_size io_data shift dcols nparity"
  shows "raidz_wf rm \<and> raidz_data rm = io_data \<and>
    distinct (map rc_devidx (rm_col rm)) \<and> list_all (\<lambda>rc. rc_devidx rc < dcols) (rm_col rm) \<and>
    list_all (\<lambda>rc. rc_error rc = None \<and> \<not> rc_tried rc) (rm_col rm) \<and>
    rm_asize rm = vdev_raidz_asize shift dcols nparity io_size"
proof -
  define D N S where "D = unat dcols" and "N = unat nparity" and "S = unat io_size div 2 ^ shift"
  note n = geometry_nat [OF assms(1), folded D_def N_def S_def]
  note m = map_alloc_shape [OF assms(1,2), where fresh = fresh, folded D_def N_def S_def rm_def]
  have D: "1 < nat_cols D N S" "0 < D" using n(1,2,10) by auto
  have "distinct (map rc_devidx (rm_col rm))"
    unfolding rm_def by (rule map_alloc_devidx [OF assms(1,2)])
  moreover have "list_all (\<lambda>rc. rc_devidx rc < dcols) (rm_col rm)"
    using m(3,4) D(2) by (auto simp: list_all_length word_less_nat_alt D_def)
  moreover have "list_all (\<lambda>rc. rc_error rc = None \<and> \<not> rc_tried rc) (rm_col rm)"
    using m(3,7) by (simp add: list_all_length)
  moreover have "unat (rm_asize rm) = unat (vdev_raidz_asize shift dcols nparity io_size)"
    using map_alloc_asize [OF assms(1,2), of fresh] asize_nat [OF assms(1)] by (simp add: rm_def)
  ultimately show ?thesis
    using map_alloc_wf [OF assms(1,2), of fresh] m(9) by (simp add: rm_def word_unat_eq_iff)
qed

lemma example_geometry:
  "raidz_geometry 9 4 1 0x1000 0x600" "raidz_geometry 9 4 1 0x1800 0x400"
  by (simp_all add: raidz_geometry_def)

theorem raidz_map_alloc_layout_witness:
  "raidz_data (vdev_raidz_map_alloc (\<lambda>_ _. 0) 0x1000 0x600 (replicate 192 7) 9 4 1) = replicate 192 7"
  using raidz_map_alloc_layout [OF example_geometry(1), of "replicate 192 7" "\<lambda>_ _. 0"]
  unfolding length_replicate by simp

text \<open>
  C11. The children's sectors of a block are all different, and they are one-to-one with a range of
  sectors of the RAID-Z device that begins at the block's offset and lies inside the space the size
  calculation announced for it: sector i of the device is sector i div n of child i mod n, for n
  children.  So two blocks whose allocated ranges do not overlap never share a sector of a child.
\<close>

theorem raidz_blocks_disjoint:
  fixes fresh fresh' :: "nat \<Rightarrow> nat \<Rightarrow> u64"
  assumes "raidz_geometry shift dcols nparity off size'" "length dat = unat size' div 8"
    and "raidz_geometry shift dcols nparity off' size''" "length dat' = unat size'' div 8"
    and "unat off + unat (vdev_raidz_asize shift dcols nparity size') \<le> unat off'"
  defines "secs \<equiv> child_sectors shift (vdev_raidz_map_alloc fresh off size' dat shift dcols nparity)"
    and "secs' \<equiv> child_sectors shift (vdev_raidz_map_alloc fresh' off' size'' dat' shift dcols nparity)"
  shows "distinct secs \<and>
    (\<exists>k. k * 2 ^ shift \<le> unat (vdev_raidz_asize shift dcols nparity size') \<and>
      set secs = (\<lambda>i. (i mod unat dcols, i div unat dcols)) ` {unat off div 2 ^ shift..<unat off div 2 ^ shift + k}) \<and>
    set secs \<inter> set secs' = {}"
proof -
  define D N S where "D = unat dcols" and "N = unat nparity" and "S = unat size' div 2 ^ shift"
  note b = sectors_announced [OF assms(1), folded D_def N_def S_def]
  then have c: "(unat off + nat_sectors D N S * 2 ^ shift) div 2 ^ shift \<le> unat off' div 2 ^ shift"
    using assms(5) by (intro div_le_mono) linarith
  then have le: "unat off div 2 ^ shift + nat_sectors D N S \<le> unat off' div 2 ^ shift"
    by (subst (asm) div_mult_self1) simp_all
  have inj: "i = j" if "i mod D = j mod D" "i div D = j div D" for i j :: nat
    using that by (metis div_mult_mod_eq)
  note s = child_sectors_set [OF assms(1,2), where fresh = fresh, folded secs_def D_def N_def S_def]
    child_sectors_set [OF assms(3,4), where fresh = fresh', folded secs'_def D_def N_def]
  have "set secs \<inter> set secs' = {}"
    unfolding s
  proof (rule equals0I, elim IntE imageE)
    fix x i j assume "x = (i mod D, i div D)" "x = (j mod D, j div D)"
      "i \<in> {unat off div 2 ^ shift..<unat off div 2 ^ shift + nat_sectors D N S}"
      "j \<in> {unat off' div 2 ^ shift..<unat off' div 2 ^ shift + nat_sectors D N (unat size'' div 2 ^ shift)}"
    then show False using inj [of i j] le by simp
  qed
  moreover have "distinct secs"
    unfolding secs_def by (rule child_sectors_distinct [OF map_alloc_devidx [OF assms(1,2)]])
  ultimately show ?thesis using b s(1) D_def by blast
qed

theorem raidz_blocks_disjoint_witness:
  "set (child_sectors 9 (vdev_raidz_map_alloc (\<lambda>_ _. 0) 0x1000 0x600 (replicate 192 7) 9 4 1)) \<inter>
   set (child_sectors 9 (vdev_raidz_map_alloc (\<lambda>_ _. 0) 0x1800 0x400 (replicate 128 8) 9 4 1)) = {}"
proof -
  have "unat (0x1000 :: u64) + unat (vdev_raidz_asize 9 4 1 0x600) \<le> unat (0x1800 :: u64)"
    by (simp add: vdev_raidz_asize_def roundup_def)
  then show ?thesis
    using raidz_blocks_disjoint [OF example_geometry(1) _ example_geometry(2),
        of "replicate 192 7" "replicate 128 8" "\<lambda>_ _. 0" "\<lambda>_ _. 0"]
    unfolding length_replicate by simp
qed

end
