(* ===== verification/Raidz_Io.thy ===== *)
theory Raidz_Io
  imports Raidz
begin

text \<open>
  The read and write paths of RAID-Z (\<^verbatim>\<open>uts/common/fs/zfs/vdev_raidz.c\<close>): starting an I/O, the
  completion of its child I/Os, the verification of parity, and the three phases of a read with
  the repair of damaged children.

  Child I/O is asynchronous.  The routines return the requests they issue; the completion of a
  request is a step of its own, \<open>child_complete\<close>, which stores what was read and runs
  \<open>vdev_raidz_child_done\<close>.  The block's checksum is the argument \<open>ck\<close>: \<open>ck ws\<close> is the condition
  \<^verbatim>\<open>zio_checksum_error(zio) == 0\<close> for a buffer holding \<open>ws\<close>.  The statistics counters and the
  error reports are collected as events.
\<close>

section \<open>State\<close>

datatype zio_type = ZIO_TYPE_READ | ZIO_TYPE_WRITE

text \<open>The flags of a zio the code tests, the block's place and its buffer.\<close>

record zio =
  io_type :: zio_type
  io_offset :: u64
  io_size :: u64
  io_data :: "u64 list"
  io_scrub :: bool
  io_failfast :: bool
  io_speculative :: bool
  io_resilver :: bool

text \<open>
  The device: \<open>vdev_dead\<close> is \<^verbatim>\<open>vdev_is_dead\<close> of a child, \<open>vdev_stale\<close> the test of the child's dirty
  time log for the birth of the block, \<open>vdev_writeable\<close> the \<^verbatim>\<open>FWRITE\<close> bit of the pool's mode.
\<close>

record raidz_vdev =
  vdev_ashift :: nat
  vdev_children :: u64
  vdev_nparity :: u64
  vdev_dead :: "u64 \<Rightarrow> bool"
  vdev_stale :: "u64 \<Rightarrow> bool"
  vdev_writeable :: bool

record child_io =
  ci_type :: zio_type
  ci_devidx :: u64
  ci_offset :: u64
  ci_data :: "u64 list"
  ci_size :: u64
  ci_col :: nat

datatype raidz_event = Corrected_P | Corrected_Q | Corrected_PQ
  | Checksum_Error u64 u64 u64
  | Checksum_Ereport u64 u64 u64

definition raidz_child_io :: "zio_type \<Rightarrow> raidz_map \<Rightarrow> nat \<Rightarrow> child_io" where
  "raidz_child_io ty rm c =
     (let rc = rm_col rm ! c
      in \<lparr>ci_type = ty, ci_devidx = rc_devidx rc, ci_offset = rc_offset rc, ci_data = rc_data rc,
          ci_size = rc_size rc, ci_col = c\<rparr>)"

section \<open>Starting an I/O\<close>

definition vdev_raidz_child_done :: "errno option \<Rightarrow> raidz_col \<Rightarrow> raidz_col" where
  "vdev_raidz_child_done io_error rc =
     rc\<lparr>rc_error := io_error, rc_tried := True, rc_skipped := False\<rparr>"

text \<open>A column that is not read: it counts as missing, with the given error.\<close>

definition miss_col :: "nat \<Rightarrow> errno \<Rightarrow> bool \<Rightarrow> raidz_map \<Rightarrow> raidz_map" where
  "miss_col c error tried rm =
     (let rm = (if c \<ge> rm_firstdatacol rm then rm\<lparr>rm_missingdata := Suc (rm_missingdata rm)\<rparr>
                else rm\<lparr>rm_missingparity := Suc (rm_missingparity rm)\<rparr>)
      in upd_col c (\<lambda>rc. rc\<lparr>rc_error := Some error, rc_tried := tried \<or> rc_tried rc,
                              rc_skipped := True\<rparr>) rm)"

definition start_read_col ::
  "raidz_vdev \<Rightarrow> bool \<Rightarrow> raidz_map \<times> child_io list \<Rightarrow> nat \<Rightarrow> raidz_map \<times> child_io list" where
  "start_read_col vd scrub st c =
     (let (rm, ios) = st; devidx = rc_devidx (rm_col rm ! c)
      in if vdev_dead vd devidx then (miss_col c ENXIO True rm, ios)
         else if vdev_stale vd devidx then (miss_col c ESTALE False rm, ios)
         else if c \<ge> rm_firstdatacol rm \<or> rm_missingdata rm > 0 \<or> scrub
         then (rm, ios @ [raidz_child_io ZIO_TYPE_READ rm c])
         else (rm, ios))"

definition vdev_raidz_io_start ::
  "raidz_vdev \<Rightarrow> (nat \<Rightarrow> nat \<Rightarrow> u64) \<Rightarrow> zio \<Rightarrow> raidz_map \<times> child_io list" where
  "vdev_raidz_io_start vd fresh zio =
     (let rm = vdev_raidz_map_alloc fresh (io_offset zio) (io_size zio) (io_data zio)
                 (vdev_ashift vd) (vdev_children vd) (vdev_nparity vd)
      in case io_type zio of
           ZIO_TYPE_WRITE \<Rightarrow>
             let rm = (if rm_firstdatacol rm = 1 then vdev_raidz_generate_parity_p rm
                       else vdev_raidz_generate_parity_pq rm)
             in (rm, map (raidz_child_io ZIO_TYPE_WRITE rm) [0..<rm_cols rm])
         | ZIO_TYPE_READ \<Rightarrow>
             foldl (start_read_col vd (io_scrub zio)) (rm, []) (rev [0..<rm_cols rm]))"

text \<open>
  The completion of a child I/O with the answer \<open>(error, words)\<close>: a read has stored the words in
  the column's buffer, whatever its error.
\<close>

definition child_complete :: "errno option \<times> u64 list \<Rightarrow> child_io \<Rightarrow> raidz_map \<Rightarrow> raidz_map" where
  "child_complete ans io rm =
     upd_col (ci_col io) (\<lambda>rc. vdev_raidz_child_done (fst ans)
       (case ci_type io of ZIO_TYPE_READ \<Rightarrow> set_data (snd ans) rc | ZIO_TYPE_WRITE \<Rightarrow> rc)) rm"

section \<open>Verifying parity\<close>

definition raidz_checksum_error :: "bool \<Rightarrow> raidz_col \<Rightarrow> raidz_event list" where
  "raidz_checksum_error speculative rc =
     (if speculative then [] else [Checksum_Error (rc_devidx rc) (rc_offset rc) (rc_size rc)])"

definition verify_col ::
  "bool \<Rightarrow> raidz_map \<Rightarrow> raidz_map \<times> nat \<times> raidz_event list \<Rightarrow> nat \<Rightarrow> raidz_map \<times> nat \<times> raidz_event list" where
  "verify_col speculative orig st c =
     (let (rm, ret, ev) = st; rc = rm_col rm ! c
      in if \<not> rc_tried rc \<or> rc_error rc \<noteq> None then st
         else if rc_data (rm_col orig ! c) \<noteq> rc_data rc
         then (upd_col c (rc_error_update (\<lambda>_. Some ECKSUM)) rm, Suc ret,
               ev @ raidz_checksum_error speculative rc)
         else st)"

definition raidz_parity_verify :: "bool \<Rightarrow> raidz_map \<Rightarrow> raidz_map \<times> nat \<times> raidz_event list" where
  "raidz_parity_verify speculative rm =
     (let rm' = (if rm_firstdatacol rm = 1 then vdev_raidz_generate_parity_p rm
                 else vdev_raidz_generate_parity_pq rm)
      in foldl (verify_col speculative rm) (rm', 0, []) [0..<rm_firstdatacol rm])"

section \<open>Completing an I/O\<close>

record io_counts =
  cn_error :: "errno option"
  cn_numerrors :: nat
  cn_parity :: nat
  cn_data :: nat
  cn_unexpected :: nat

definition count_col :: "raidz_map \<Rightarrow> io_counts \<Rightarrow> nat \<Rightarrow> io_counts" where
  "count_col rm st c =
     (let rc = rm_col rm ! c
      in case rc_error rc of
           None \<Rightarrow> st
         | Some e \<Rightarrow>
             \<lparr>cn_error = (if cn_error st \<noteq> Some EIO then Some e else cn_error st),
              cn_numerrors = Suc (cn_numerrors st),
              cn_parity = (if c < rm_firstdatacol rm then Suc (cn_parity st) else cn_parity st),
              cn_data = (if c < rm_firstdatacol rm then cn_data st else Suc (cn_data st)),
              cn_unexpected = (if rc_skipped rc then cn_unexpected st else Suc (cn_unexpected st))\<rparr>)"

definition count_errors :: "raidz_map \<Rightarrow> io_counts" where
  "count_errors rm = foldl (count_col rm)
     \<lparr>cn_error = None, cn_numerrors = 0, cn_parity = 0, cn_data = 0, cn_unexpected = 0\<rparr> [0..<rm_cols rm]"

text \<open>The first column from \<open>c\<close> on with an error.\<close>

definition find_error :: "raidz_map \<Rightarrow> nat \<Rightarrow> nat" where
  "find_error rm c =
     (case find (\<lambda>i. rc_error (rm_col rm ! i) \<noteq> None) [c..<rm_cols rm] of
        Some i \<Rightarrow> i | None \<Rightarrow> rm_cols rm)"

text \<open>
  Phase 1: produce valid data from the columns read.  The result is the map, and on success the
  number of unexpected errors and the events.
\<close>

definition produce_data ::
  "(u64 list \<Rightarrow> bool) \<Rightarrow> bool \<Rightarrow> raidz_map \<Rightarrow> io_counts \<Rightarrow> raidz_map \<times> (nat \<times> raidz_event list) option" where
  "produce_data ck speculative rm cn =
     (if cn_data cn = 0 then
        if ck (raidz_data rm) then
          let (rm, n, ev) = raidz_parity_verify speculative rm
          in (rm, Some (cn_unexpected cn + n, ev))
        else (rm, None)
      else if cn_data cn = 1 then
        let c = find_error rm (rm_firstdatacol rm);
            p_ok = (rc_error (rm_col rm ! VDEV_RAIDZ_P) = None);
            rm = (if p_ok then vdev_raidz_reconstruct_p rm c else vdev_raidz_reconstruct_q rm c)
        in if ck (raidz_data rm) then
             let ev = [if p_ok then Corrected_P else Corrected_Q]
             in if rm_firstdatacol rm > 1 then
                  let (rm, n, ev') = raidz_parity_verify speculative rm
                  in (rm, Some (cn_unexpected cn + n, ev @ ev'))
                else (rm, Some (cn_unexpected cn, ev))
           else (rm, None)
      else
        let c1 = find_error rm (rm_firstdatacol rm);
            c = find_error rm (Suc c1);
            rm = vdev_raidz_reconstruct_pq rm c1 c
        in if ck (raidz_data rm) then (rm, Some (cn_unexpected cn, [Corrected_PQ])) else (rm, None))"

text \<open>Phase 3: the children found to have returned bad data are told so.\<close>

definition impute :: "bool \<Rightarrow> nat \<Rightarrow> raidz_map \<Rightarrow> raidz_event list" where
  "impute speculative c rm =
     (let rc = rm_col rm ! c
      in if rc_tried rc \<and> rc_error rc = None then raidz_checksum_error speculative rc else [])"

definition blame :: "nat \<Rightarrow> raidz_map \<Rightarrow> raidz_map" where
  "blame c rm = upd_col c (rc_error_update (\<lambda>_. Some ECKSUM)) rm"

fun combine_one ::
  "(u64 list \<Rightarrow> bool) \<Rightarrow> bool \<Rightarrow> (raidz_map \<Rightarrow> nat \<Rightarrow> raidz_map) \<Rightarrow> raidz_event \<Rightarrow> nat list \<Rightarrow> raidz_map \<Rightarrow>
   raidz_map \<times> raidz_event list option" where
  "combine_one ck speculative recon corrected [] rm = (rm, None)"
| "combine_one ck speculative recon corrected (c # cs) rm =
     (let orig = rc_data (rm_col rm ! c);
          rm = recon rm c
      in if ck (raidz_data rm)
         then (blame c rm, Some (corrected # impute speculative c rm))
         else combine_one ck speculative recon corrected cs (upd_col c (set_data orig) rm))"

fun combine_second ::
  "(u64 list \<Rightarrow> bool) \<Rightarrow> bool \<Rightarrow> nat \<Rightarrow> nat list \<Rightarrow> raidz_map \<Rightarrow> raidz_map \<times> raidz_event list option" where
  "combine_second ck speculative c [] rm = (rm, None)"
| "combine_second ck speculative c (c1 # cs) rm =
     (let orig1 = rc_data (rm_col rm ! c1);
          rm = vdev_raidz_reconstruct_pq rm c c1
      in if ck (raidz_data rm)
         then (blame c1 (blame c rm),
               Some (Corrected_PQ # impute speculative c rm @ impute speculative c1 rm))
         else combine_second ck speculative c cs (upd_col c1 (set_data orig1) rm))"

fun combine_two ::
  "(u64 list \<Rightarrow> bool) \<Rightarrow> bool \<Rightarrow> nat list \<Rightarrow> raidz_map \<Rightarrow> raidz_map \<times> raidz_event list option" where
  "combine_two ck speculative [] rm = (rm, None)"
| "combine_two ck speculative (c # cs) rm =
     (let orig = rc_data (rm_col rm ! c)
      in case combine_second ck speculative c [Suc c..<rm_cols rm] rm of
           (rm, Some ev) \<Rightarrow> (rm, Some ev)
         | (rm, None) \<Rightarrow> combine_two ck speculative cs (upd_col c (set_data orig) rm))"

definition combine ::
  "(u64 list \<Rightarrow> bool) \<Rightarrow> bool \<Rightarrow> raidz_map \<Rightarrow> raidz_map \<times> raidz_event list option" where
  "combine ck speculative rm =
     (let first = rm_firstdatacol rm; cols = rm_cols rm;
          ok = (\<lambda>rm c. rc_error (rm_col rm ! c) = None);
          (rm, res) = (if ok rm VDEV_RAIDZ_P
             then combine_one ck speculative vdev_raidz_reconstruct_p Corrected_P [first..<cols] rm
             else (rm, None));
          (rm, res) = (if res = None \<and> first > 1 \<and> ok rm VDEV_RAIDZ_Q
             then combine_one ck speculative vdev_raidz_reconstruct_q Corrected_Q [first..<cols] rm
             else (rm, res))
      in if res = None \<and> first > 1 \<and> ok rm VDEV_RAIDZ_P \<and> ok rm VDEV_RAIDZ_Q
         then combine_two ck speculative [first..<cols - 1] rm
         else (rm, res))"

text \<open>
  How the routine leaves the I/O: on to the next stage, waiting for the columns being reread,
  or waiting for repairs.
\<close>

datatype io_next = Next_Stage | Reread "child_io list" | Repair "child_io list"

record io_result =
  ir_error :: "errno option"
  ir_map :: raidz_map
  ir_next :: io_next
  ir_events :: "raidz_event list"

definition read_done ::
  "raidz_vdev \<Rightarrow> zio \<Rightarrow> raidz_map \<Rightarrow> errno option \<Rightarrow> nat \<Rightarrow> raidz_event list \<Rightarrow> io_result" where
  "read_done vd zio rm error unexpected ev =
     \<lparr>ir_error = error, ir_map = rm,
      ir_next = (if error = None \<and> vdev_writeable vd \<and> (unexpected \<noteq> 0 \<or> io_resilver zio)
                 then Repair (map (raidz_child_io ZIO_TYPE_WRITE rm)
                        (filter (\<lambda>c. rc_error (rm_col rm ! c) \<noteq> None) [0..<rm_cols rm]))
                 else Next_Stage),
      ir_events = ev\<rparr>"

text \<open>Phases 2 and 3, reached when phase 1 did not produce the data.\<close>

definition read_retry ::
  "raidz_vdev \<Rightarrow> (u64 list \<Rightarrow> bool) \<Rightarrow> zio \<Rightarrow> raidz_map \<Rightarrow> io_counts \<Rightarrow> io_result" where
  "read_retry vd ck zio rm cn =
     (let rm = rm\<lparr>rm_missingdata := 0, rm_missingparity := 0\<rparr>;
          untried = filter (\<lambda>c. \<not> rc_tried (rm_col rm ! c)) [0..<rm_cols rm]
      in if untried \<noteq> []
         then \<lparr>ir_error = None, ir_map = rm,
               ir_next = Reread (map (raidz_child_io ZIO_TYPE_READ rm) untried), ir_events = []\<rparr>
         else if cn_numerrors cn \<ge> rm_firstdatacol rm
         then read_done vd zio rm (cn_error cn) 1 []
         else case combine ck (io_speculative zio) rm of
                (rm, Some ev) \<Rightarrow> read_done vd zio rm None 1 ev
              | (rm, None) \<Rightarrow>
                  read_done vd zio rm (Some ECKSUM) 1
                    (if io_speculative zio then []
                     else map (\<lambda>rc. Checksum_Ereport (rc_devidx rc) (rc_offset rc) (rc_size rc)) (rm_col rm)))"

definition vdev_raidz_io_done ::
  "raidz_vdev \<Rightarrow> (u64 list \<Rightarrow> bool) \<Rightarrow> zio \<Rightarrow> raidz_map \<Rightarrow> io_result" where
  "vdev_raidz_io_done vd ck zio rm =
     (let cn = count_errors rm
      in case io_type zio of
           ZIO_TYPE_WRITE \<Rightarrow>
             \<lparr>ir_error = (if cn_numerrors cn \<le> rm_firstdatacol rm \<and> \<not> io_failfast zio then None
                          else cn_error cn),
              ir_map = rm, ir_next = Next_Stage, ir_events = []\<rparr>
         | ZIO_TYPE_READ \<Rightarrow>
             let (rm, res) = (if cn_numerrors cn \<le> rm_firstdatacol rm
                              then produce_data ck (io_speculative zio) rm cn else (rm, None))
             in case res of
                  Some (unexpected, ev) \<Rightarrow> read_done vd zio rm None unexpected ev
                | None \<Rightarrow> read_retry vd ck zio rm cn)"

section \<open>Reconstruction changes the data of its columns only\<close>

lemma set_data_fields [simp]:
  "rc_error (set_data d rc) = rc_error rc" "rc_tried (set_data d rc) = rc_tried rc"
  "rc_skipped (set_data d rc) = rc_skipped rc" "rc_devidx (set_data d rc) = rc_devidx rc"
  "rc_offset (set_data d rc) = rc_offset rc"
  by (simp_all add: set_data_def)

lemma upd_col_same: "upd_col c (set_data (rc_data (rm_col rm ! c))) rm = rm"
  by (simp add: upd_col_def)

lemma data_cols_set: "c \<in> set (data_cols rm) \<longleftrightarrow> rm_firstdatacol rm \<le> c \<and> c < rm_cols rm"
  by (auto simp: data_cols_def)

text \<open>A routine that recomputes the data of one column.\<close>

definition recomputes :: "(raidz_map \<Rightarrow> nat \<Rightarrow> raidz_map) \<Rightarrow> raidz_map \<Rightarrow> bool" where
  "recomputes recon rm \<longleftrightarrow> (\<forall>x \<in> set (data_cols rm). \<exists>d. length d = rc_count (rm_col rm ! x) \<and>
     recon rm x = upd_col x (set_data d) rm)"

lemma reconstruct_p_recomputes:
  assumes wf: "raidz_wf rm"
  shows "recomputes vdev_raidz_reconstruct_p rm"
  unfolding recomputes_def
proof
  fix x assume x: "x \<in> set (data_cols rm)"
  let ?n = "rc_count (rm_col rm ! x)" and ?P = "rc_data (rm_col rm ! 0)"
  note w = raidz_wf_simps [OF wf] and x' = data_col_bounds [OF wf x]
  let ?word = "\<lambda>i. foldl (\<lambda>w c. if c = x then w else w XOR colw rm i c) (take ?n ?P ! i) (data_cols rm)"
  have "vdev_raidz_reconstruct_p rm x =
      foldl (recon_p_col x ?n) (upd_col x (set_data (take ?n ?P)) rm) (data_cols rm)"
    using w(6) [of x] x' by (simp add: vdev_raidz_reconstruct_p_def Let_def VDEV_RAIDZ_P_def
        data_cols_def copy_words_def upd_col_def)
  also have "\<dots> = upd_col x (set_data (map ?word [0..<?n])) rm"
    using w(6) [of 0] w(7) [of x] w(5) x' x by (intro fold_col recon_p_step wf) auto
  finally show "\<exists>d. length d = ?n \<and> vdev_raidz_reconstruct_p rm x = upd_col x (set_data d) rm"
    by (intro exI [of _ "map ?word [0..<?n]"]) simp
qed

lemma reconstruct_q_recomputes:
  assumes wf: "raidz_wf rm" and first: "rm_firstdatacol rm = 2"
  shows "recomputes vdev_raidz_reconstruct_q rm"
  unfolding recomputes_def
proof
  fix x assume x: "x \<in> set (data_cols rm)"
  let ?n = "rc_count (rm_col rm ! x)" and ?Q = "rc_data (rm_col rm ! 1)" and ?D = "rc_data (rm_col rm ! x)"
  let ?e = "255 - (rm_cols rm - 1 - x)"
  note w = raidz_wf_simps [OF wf] and x' = data_col_bounds [OF wf x]
  let ?word = "\<lambda>i. foldl (\<lambda>w c. if c = rm_firstdatacol rm then (if c = x then 0 else colw rm i c)
      else T64 w XOR (if c = x then 0 else colw rm i c)) (?D ! i) (data_cols rm)"
  have "foldl (recon_q_col x ?n) rm (data_cols rm) =
      foldl (recon_q_col x ?n) (upd_col x (set_data ?D) rm) (data_cols rm)"
    by (simp add: upd_col_same)
  also have "\<dots> = upd_col x (set_data (map ?word [0..<?n])) rm"
    using w(6) [of x] x x' by (intro fold_col recon_q_step wf) auto
  finally have "vdev_raidz_reconstruct_q rm x =
      upd_col x (set_data (recon_q_scale ?e ?n ?Q (map ?word [0..<?n]))) rm"
    using first x' w(1) x by (simp add: vdev_raidz_reconstruct_q_def Let_def VDEV_RAIDZ_Q_def data_cols_def)
  moreover have "?n \<le> length ?Q" using w(6) [of 1] w(4,9) w(7) [of x] first x' by simp
  then have "length (recon_q_scale ?e ?n ?Q (map ?word [0..<?n])) = ?n"
    by (simp add: recon_q_scale_eq)
  ultimately show "\<exists>d. length d = ?n \<and> vdev_raidz_reconstruct_q rm x = upd_col x (set_data d) rm"
    by blast
qed

lemma upd_col_comm3:
  "x \<noteq> y \<Longrightarrow> upd_col x (set_data d) (upd_col y (set_data e) (upd_col x (set_data r) rm)) =
     upd_col x (set_data d) (upd_col y (set_data e) rm)"
  using upd_col_comm [of y x "set_data e" "set_data r" rm] by simp

lemma reconstruct_pq_recomputes:
  assumes wf: "raidz_wf rm" and first: "rm_firstdatacol rm = 2"
    and xy: "x \<in> set (data_cols rm)" "y \<in> set (data_cols rm)" "x < y"
  shows "\<exists>d e. length d = rc_count (rm_col rm ! x) \<and> length e = rc_count (rm_col rm ! y) \<and>
    (\<forall>r. length r = rc_count (rm_col rm ! x) \<longrightarrow> vdev_raidz_reconstruct_pq (upd_col x (set_data r) rm) x y =
       upd_col x (set_data d) (upd_col y (set_data e) rm))"
proof -
  note x = data_col_bounds [OF wf xy(1)] and y = data_col_bounds [OF wf xy(2)]
  have ne: "x \<noteq> 0" "x \<noteq> 1" "x \<noteq> y" using x(3) first xy(3) by auto
  let ?u = "\<lambda>r. upd_col x (set_data r) rm"
  have f: "(colw (?u r) i)(x := 0, y := 0) = (colw rm i)(x := 0, y := 0)" for r i
    using colw_upd [OF x(4)] by (intro ext) auto
  have d: "data_cols (?u r) = data_cols rm" "rc_count (rm_col (?u r) ! c) = rc_count (rm_col rm ! c)"
    "rc_data (rm_col (?u r) ! 0) = rc_data (rm_col rm ! 0)" "rc_data (rm_col (?u r) ! 1) = rc_data (rm_col rm ! 1)" for r c
    using x(4) ne by (auto simp: data_cols_def upd_col_nth)
  have wf': "raidz_wf (?u r)" if "length r = rc_count (rm_col rm ! x)" for r
    using raidz_wf_set_data [OF wf that] .
  note form = reconstruct_pq_form [OF wf' _ _ _ xy(3), unfolded d f upd_col_simps, OF _ first xy(1,2)]
  show ?thesis
    apply (intro exI conjI allI impI)
    apply (rule_tac [3] trans)
    apply (erule_tac [3] form)
    apply (rule_tac [3] upd_col_comm3 [OF ne(3)])
    apply simp_all
    done
qed


section \<open>The block and the errors of a map\<close>

lemma raidz_data_cong:
  assumes "rm_firstdatacol rm' = rm_firstdatacol rm" "length (rm_col rm') = length (rm_col rm)"
    "\<And>c. rm_firstdatacol rm \<le> c \<Longrightarrow> c < length (rm_col rm) \<Longrightarrow> rc_data (rm_col rm' ! c) = rc_data (rm_col rm ! c)"
  shows "raidz_data rm' = raidz_data rm"
proof -
  have "map rc_data (drop (rm_firstdatacol rm) (rm_col rm')) = map rc_data (drop (rm_firstdatacol rm) (rm_col rm))"
    using assms(2,3) by (intro nth_equalityI) auto
  then show ?thesis by (simp add: raidz_data_def assms(1))
qed

lemma raidz_data_blame [simp]: "raidz_data (blame c rm) = raidz_data rm"
proof (rule raidz_data_cong)
  fix d assume "d < length (rm_col rm)"
  then show "rc_data (rm_col (blame c rm) ! d) = rc_data (rm_col rm ! d)"
    by (cases "d = c") (auto simp: blame_def)
qed (simp_all add: blame_def)

lemma raidz_data_damaged:
  assumes "raidz_damaged X orig rm" "raidz_wf orig" "X \<inter> set (data_cols orig) = {}"
  shows "raidz_data rm = raidz_data orig"
proof (rule raidz_data_cong)
  fix c assume c: "rm_firstdatacol orig \<le> c" "c < length (rm_col orig)"
  then have "c \<in> set (data_cols orig)" using raidz_wf_simps(1) [OF assms(2)] by (simp add: data_cols_set)
  then show "rc_data (rm_col rm ! c) = rc_data (rm_col orig ! c)"
    using damaged_simps(4) [OF assms(1), of c] assms(3) by (metis IntI data_cols_set empty_iff)
qed (use raidz_wf_simps(1) [OF assms(2)] raidz_wf_simps(1) [OF damaged_simps(6) [OF assms(1)]]
  in \<open>simp_all add: damaged_simps [OF assms(1)]\<close>)

definition errs :: "raidz_map \<Rightarrow> nat set" where
  "errs rm = {c. c < rm_cols rm \<and> rc_error (rm_col rm ! c) \<noteq> None}"

lemma errs_finite [simp]: "finite (errs rm)"
  by (simp add: errs_def)

lemma count_errors:
  "cn_numerrors (count_errors rm) = card (errs rm)"
  "cn_data (count_errors rm) = card (errs rm \<inter> {rm_firstdatacol rm..})"
  "cn_error (count_errors rm) = None \<longleftrightarrow> errs rm = {}"
proof -
  define E where "E = (\<lambda>n. {c. c < n \<and> rc_error (rm_col rm ! c) \<noteq> None})"
  let ?f = "\<lambda>n. foldl (count_col rm)
    \<lparr>cn_error = None, cn_numerrors = 0, cn_parity = 0, cn_data = 0, cn_unexpected = 0\<rparr> [0..<n]"
  have step: "E (Suc n) = (if rc_error (rm_col rm ! n) \<noteq> None then insert n (E n) else E n)" for n
    by (auto simp: E_def less_Suc_eq)
  have fin: "finite (E n)" "n \<notin> E n" for n by (auto simp: E_def)
  have "cn_numerrors (?f n) = card (E n) \<and> cn_data (?f n) = card (E n \<inter> {rm_firstdatacol rm..}) \<and>
      (cn_error (?f n) = None \<longleftrightarrow> E n = {})" for n
  proof (induction n)
    case 0
    then show ?case by (simp add: E_def)
  next
    case (Suc n)
    then show ?case
      using fin [of n] by (auto simp: step count_col_def Let_def Int_insert_left split: option.splits)
  qed
  from this [of "rm_cols rm"] show "cn_numerrors (count_errors rm) = card (errs rm)"
    "cn_data (count_errors rm) = card (errs rm \<inter> {rm_firstdatacol rm..})"
    "cn_error (count_errors rm) = None \<longleftrightarrow> errs rm = {}"
    by (simp_all add: count_errors_def E_def errs_def)
qed

lemma find_error:
  assumes "c \<le> x" "x \<in> errs rm" "\<And>d. d \<in> errs rm \<Longrightarrow> c \<le> d \<Longrightarrow> x \<le> d"
  shows "find_error rm c = x"
proof -
  have x: "x < rm_cols rm" "rc_error (rm_col rm ! x) \<noteq> None" using assms(2) by (auto simp: errs_def)
  have "find (\<lambda>i. rc_error (rm_col rm ! i) \<noteq> None) [c..<rm_cols rm] = Some x"
    unfolding find_Some_iff
  proof (intro exI [of _ "x - c"] conjI allI impI)
    fix j assume "j < x - c"
    then show "\<not> rc_error (rm_col rm ! ([c..<rm_cols rm] ! j)) \<noteq> None"
      using assms(3) [of "c + j"] x(1) by (cases "c + j \<in> errs rm") (auto simp: errs_def)
  qed (use assms(1) x in auto)
  then show ?thesis by (simp add: find_error_def)
qed

text \<open>Verification recomputes parity and marks parity columns; it leaves the data columns alone.\<close>

lemma verify_col_step:
  "rm_firstdatacol (fst (verify_col sp orig st c)) = rm_firstdatacol (fst st)"
  "length (rm_col (fst (verify_col sp orig st c))) = length (rm_col (fst st))"
  "d \<noteq> c \<Longrightarrow> rm_col (fst (verify_col sp orig st c)) ! d = rm_col (fst st) ! d"
  by (cases st, simp add: verify_col_def Let_def)+

lemma parity_verify_data:
  assumes wf: "raidz_wf rm"
  shows "raidz_data (fst (raidz_parity_verify speculative rm)) = raidz_data rm"
proof -
  note w = raidz_wf_simps [OF wf] and g = raidz_generate_parity [OF wf]
  let ?f = "\<lambda>cs. foldl (verify_col speculative rm) (raidz_generate rm, 0, []) cs"
  have lg: "length (rm_col (raidz_generate rm)) = length (rm_col rm)"
    using raidz_wf_simps(1) [OF parity_wf [OF g(1)]] g(3) w(1) by simp
  have "rm_firstdatacol (fst (?f cs)) = rm_firstdatacol rm \<and> length (rm_col (fst (?f cs))) = length (rm_col rm) \<and>
      (\<forall>c \<ge> rm_firstdatacol rm. rm_col (fst (?f cs)) ! c = rm_col rm ! c)"
    if "set cs \<subseteq> {0..<rm_firstdatacol rm}" for cs
    using that
  proof (induction cs rule: rev_induct)
    case Nil
    then show ?case using g lg by simp
  next
    case (snoc c cs)
    then show ?case by (simp add: verify_col_step)
  qed
  from this [of "[0..<rm_firstdatacol rm]"] show ?thesis
    by (intro raidz_data_cong) (simp_all add: raidz_parity_verify_def raidz_generate_def)
qed

section \<open>The combinatorial phase\<close>

text \<open>
  What the loops over one column do: on failure the map is as before and no column would have
  done; on success the map is the reconstruction of one column, blamed, and it checks.
\<close>

lemma combine_one:
  assumes "recomputes recon rm" "set cs \<subseteq> set (data_cols rm)"
  shows "combine_one ck sp recon ev cs rm = (rm', None) \<Longrightarrow>
      rm' = rm \<and> (\<forall>c \<in> set cs. \<not> ck (raidz_data (recon rm c)))"
    and "combine_one ck sp recon ev cs rm = (rm', Some es) \<Longrightarrow>
      \<exists>c \<in> set cs. rm' = blame c (recon rm c) \<and> ck (raidz_data (recon rm c))"
proof -
  have "(case combine_one ck sp recon ev cs rm of
      (rm', None) \<Rightarrow> rm' = rm \<and> (\<forall>c \<in> set cs. \<not> ck (raidz_data (recon rm c)))
    | (rm', Some es) \<Rightarrow> \<exists>c \<in> set cs. rm' = blame c (recon rm c) \<and> ck (raidz_data (recon rm c)))"
    using assms(2)
  proof (induction cs)
    case (Cons c cs)
    obtain d where "recon rm c = upd_col c (set_data d) rm"
      using assms(1) Cons.prems by (auto simp: recomputes_def)
    then have "upd_col c (set_data (rc_data (rm_col rm ! c))) (recon rm c) = rm"
      by (simp add: upd_col_same)
    then show ?case
      using Cons by (auto simp: Let_def split: option.splits prod.splits)
  qed simp
  then show "combine_one ck sp recon ev cs rm = (rm', None) \<Longrightarrow>
      rm' = rm \<and> (\<forall>c \<in> set cs. \<not> ck (raidz_data (recon rm c)))"
    and "combine_one ck sp recon ev cs rm = (rm', Some es) \<Longrightarrow>
      \<exists>c \<in> set cs. rm' = blame c (recon rm c) \<and> ck (raidz_data (recon rm c))"
    by simp_all
qed

text \<open>
  The inner loop over pairs leaves the first column of the pair as its last attempt computed it.
\<close>

lemma combine_second:
  assumes wf: "raidz_wf rm" "rm_firstdatacol rm = 2" and c: "c \<in> set (data_cols rm)"
    and cs: "set cs \<subseteq> set (data_cols rm) \<inter> {c<..}" and r: "length r = rc_count (rm_col rm ! c)"
  shows "case combine_second ck sp c cs (upd_col c (set_data r) rm) of
      (rm', None) \<Rightarrow> (\<exists>r'. rm' = upd_col c (set_data r') rm) \<and>
        (\<forall>c1 \<in> set cs. \<not> ck (raidz_data (vdev_raidz_reconstruct_pq rm c c1)))
    | (rm', Some es) \<Rightarrow> \<exists>c1 \<in> set cs. rm' = blame c1 (blame c (vdev_raidz_reconstruct_pq rm c c1)) \<and>
        ck (raidz_data (vdev_raidz_reconstruct_pq rm c c1))"
  using cs r
proof (induction cs arbitrary: r)
  case (Cons c1 cs)
  have c1: "c1 \<in> set (data_cols rm)" "c < c1" using Cons.prems by auto
  obtain d e where de: "length d = rc_count (rm_col rm ! c)"
    "\<And>r. length r = rc_count (rm_col rm ! c) \<Longrightarrow>
      vdev_raidz_reconstruct_pq (upd_col c (set_data r) rm) c c1 = upd_col c (set_data d) (upd_col c1 (set_data e) rm)"
    using reconstruct_pq_recomputes [OF wf c c1] by blast
  have "length (rc_data (rm_col rm ! c)) = rc_count (rm_col rm ! c)"
    using raidz_wf_simps(6) [OF wf(1)] c by (simp add: data_cols_set)
  from de(2) [OF this] have rec: "vdev_raidz_reconstruct_pq rm c c1 = upd_col c (set_data d) (upd_col c1 (set_data e) rm)"
    by (simp add: upd_col_same)
  have "upd_col c1 (set_data (rc_data (rm_col (upd_col c (set_data r) rm) ! c1)))
      (upd_col c (set_data d) (upd_col c1 (set_data e) rm)) = upd_col c (set_data d) rm"
    using c1(2) upd_col_comm [of c1 c "set_data (rc_data (rm_col rm ! c1))" "set_data d"]
    by (simp add: upd_col_same)
  then show ?case
    using Cons.IH [OF _ de(1)] Cons.prems de(2) [OF Cons.prems(2)]
    by (auto simp: Let_def rec split: option.splits prod.splits)
qed auto


lemma combine_two:
  assumes wf: "raidz_wf rm" "rm_firstdatacol rm = 2" and cs: "set cs \<subseteq> set (data_cols rm)"
  shows "case combine_two ck sp cs rm of
      (rm', None) \<Rightarrow> rm' = rm \<and>
        (\<forall>c \<in> set cs. \<forall>c1 \<in> {c<..<rm_cols rm}. \<not> ck (raidz_data (vdev_raidz_reconstruct_pq rm c c1)))
    | (rm', Some es) \<Rightarrow> \<exists>c \<in> set cs. \<exists>c1 \<in> {c<..<rm_cols rm}.
        rm' = blame c1 (blame c (vdev_raidz_reconstruct_pq rm c c1)) \<and>
        ck (raidz_data (vdev_raidz_reconstruct_pq rm c c1))"
  using cs
proof (induction cs)
  case (Cons c cs)
  have c: "c \<in> set (data_cols rm)" using Cons.prems by simp
  have "length (rc_data (rm_col rm ! c)) = rc_count (rm_col rm ! c)"
    using raidz_wf_simps(6) [OF wf(1)] c by (simp add: data_cols_set)
  note sec = combine_second [OF wf c _ this, of "[Suc c..<rm_cols rm]" ck sp, unfolded upd_col_same]
  have "set [Suc c..<rm_cols rm] \<subseteq> set (data_cols rm) \<inter> {c<..}" using c by (auto simp: data_cols_set)
  note sec = sec [OF this]
  have s: "set [Suc c..<rm_cols rm] = {c<..<rm_cols rm}" by auto
  obtain rm1 res where e: "combine_second ck sp c [Suc c..<rm_cols rm] rm = (rm1, res)" by fastforce
  show ?case
  proof (cases res)
    case None
    then obtain r where r: "rm1 = upd_col c (set_data r) rm"
      "\<forall>c1 \<in> {c<..<rm_cols rm}. \<not> ck (raidz_data (vdev_raidz_reconstruct_pq rm c c1))"
      using sec unfolding e s by auto
    then have "upd_col c (set_data (rc_data (rm_col rm ! c))) rm1 = rm" by (simp add: upd_col_same)
    then show ?thesis
      using None e r(2) Cons.IH Cons.prems by (auto simp: Let_def split: option.splits prod.splits)
  next
    case (Some es)
    then show ?thesis using sec e unfolding s by (auto simp: Let_def)
  qed
qed simp

lemma wf_first: "raidz_wf rm \<Longrightarrow> 1 < rm_firstdatacol rm \<longleftrightarrow> rm_firstdatacol rm = 2"
  using raidz_wf_simps(2,3) [of rm] by auto

text \<open>
  A stage of the phase that starts from \<open>rm\<close>: it fails and leaves the map as it was, none of the
  candidates passing the checksum, or it ends with a map that passes.
\<close>

definition stage :: "(u64 list \<Rightarrow> bool) \<Rightarrow> raidz_map \<Rightarrow> raidz_map set \<Rightarrow> raidz_map \<times> raidz_event list option \<Rightarrow> bool" where
  "stage ck rm tries out \<longleftrightarrow> (case out of
     (rm', None) \<Rightarrow> rm' = rm \<and> (\<forall>m \<in> tries. \<not> ck (raidz_data m))
   | (rm', Some es) \<Rightarrow> ck (raidz_data rm'))"

lemma stage_one:
  assumes "recomputes recon rm"
  shows "stage ck rm (recon rm ` set (data_cols rm)) (combine_one ck sp recon ev (data_cols rm) rm)"
  using combine_one [OF assms subset_refl, of ck sp ev] by (fastforce simp: stage_def split: prod.split option.split)

lemma stage_two:
  assumes "raidz_wf rm" "rm_firstdatacol rm = 2"
  shows "stage ck rm {vdev_raidz_reconstruct_pq rm c c1 |c c1. c \<in> set (data_cols rm) \<and> c < c1 \<and> c1 < rm_cols rm}
    (combine_two ck sp [rm_firstdatacol rm..<rm_cols rm - 1] rm)"
proof -
  have "set [rm_firstdatacol rm..<rm_cols rm - 1] \<subseteq> set (data_cols rm)" by (auto simp: data_cols_set)
  from combine_two [OF assms this, of ck sp] show ?thesis
    by (force simp: stage_def data_cols_set split: prod.splits option.splits)
qed

lemma combine_stage:
  assumes wf: "raidz_wf rm"
  defines "p \<equiv> rc_error (rm_col rm ! VDEV_RAIDZ_P) = None" and "q \<equiv> 1 < rm_firstdatacol rm \<and> rc_error (rm_col rm ! VDEV_RAIDZ_Q) = None"
  shows "stage ck rm ((if p then vdev_raidz_reconstruct_p rm ` set (data_cols rm) else {}) \<union>
      (if q then vdev_raidz_reconstruct_q rm ` set (data_cols rm) else {}) \<union>
      (if p \<and> q then {vdev_raidz_reconstruct_pq rm c c1 |c c1. c \<in> set (data_cols rm) \<and> c < c1 \<and> c1 < rm_cols rm} else {}))
    (combine ck sp rm)" (is "stage ck rm (?P \<union> ?Q \<union> ?R) _")
proof -
  define o1 where "o1 = (if p then combine_one ck sp vdev_raidz_reconstruct_p Corrected_P (data_cols rm) rm else (rm, None))"
  define o2 where "o2 = (if q then combine_one ck sp vdev_raidz_reconstruct_q Corrected_Q (data_cols rm) rm else (rm, None))"
  define o3 where "o3 = (if p \<and> q then combine_two ck sp [rm_firstdatacol rm..<rm_cols rm - 1] rm else (rm, None))"
  have s1: "stage ck rm ?P o1"
    using stage_one [OF reconstruct_p_recomputes [OF wf]] by (simp add: o1_def) (simp add: stage_def)
  have s2: "stage ck rm ?Q o2"
    using stage_one [OF reconstruct_q_recomputes [OF wf]] wf_first [OF wf] by (simp add: o2_def q_def) (simp add: stage_def)
  have s3: "stage ck rm ?R o3"
    using stage_two [OF wf] wf_first [OF wf] by (simp add: o3_def q_def) (simp add: stage_def)
  obtain r1 e1 r2 e2 where e: "o1 = (r1, e1)" "o2 = (r2, e2)" by fastforce
  have o1: "(if rc_error (rm_col rm ! VDEV_RAIDZ_P) = None
      then combine_one ck sp vdev_raidz_reconstruct_p Corrected_P [rm_firstdatacol rm..<rm_cols rm] rm
      else (rm, None)) = (r1, e1)"
    using e(1) by (simp only: o1_def p_def data_cols_def)
  have o2: "(if 1 < rm_firstdatacol rm \<and> rc_error (rm_col rm ! VDEV_RAIDZ_Q) = None
      then combine_one ck sp vdev_raidz_reconstruct_q Corrected_Q [rm_firstdatacol rm..<rm_cols rm] rm
      else (rm, None)) = (r2, e2)"
    using e(2) by (simp only: o2_def q_def data_cols_def)
  show ?thesis
  proof (cases e1)
    case (Some es)
    then have "combine ck sp rm = o1" unfolding combine_def Let_def o1 e by simp
    then show ?thesis using s1 e(1) Some by (simp add: stage_def)
  next
    case None
    then have r1: "r1 = rm" "\<forall>m \<in> ?P. \<not> ck (raidz_data m)" using s1 e(1) by (simp_all add: stage_def)
    show ?thesis
    proof (cases e2)
      case (Some es)
      then have "combine ck sp rm = o2"
        using None r1 unfolding combine_def Let_def o1 e by (simp only: prod.case simp_thms o2) simp
      then show ?thesis using s2 e(2) Some by (simp add: stage_def)
    next
      case e2: None
      then have r2: "r2 = rm" "\<forall>m \<in> ?Q. \<not> ck (raidz_data m)" using s2 e(2) by (simp_all add: stage_def)
      have "combine ck sp rm = o3"
        using None r1 e2 r2 unfolding combine_def Let_def o1
        by (simp only: prod.case simp_thms o2) (simp add: o3_def p_def q_def)
      then show ?thesis using s3 r1(2) r2(2) by (auto simp: stage_def split: prod.splits option.splits)
    qed
  qed
qed

section \<open>Phase 1\<close>

text \<open>Maps that differ in the data of some columns only.\<close>

definition same_but :: "nat set \<Rightarrow> raidz_map \<Rightarrow> raidz_map \<Rightarrow> bool" where
  "same_but X rm rm' \<longleftrightarrow> raidz_wf rm' \<and> rm_cols rm' = rm_cols rm \<and> rm_firstdatacol rm' = rm_firstdatacol rm \<and>
     (\<forall>c<rm_cols rm. (\<exists>d. rm_col rm' ! c = set_data d (rm_col rm ! c)) \<and>
        (c \<notin> X \<longrightarrow> rm_col rm' ! c = rm_col rm ! c))"

lemma same_but_refl: "raidz_wf rm \<Longrightarrow> same_but X rm rm"
  unfolding same_but_def by (metis set_data_simps(2))

lemma same_but_upd:
  assumes "same_but X rm rm'" "x \<in> X" "x < rm_cols rm" "length d = rc_count (rm_col rm ! x)"
  shows "same_but X rm (upd_col x (set_data d) rm')"
proof -
  have wf: "raidz_wf rm'" and s: "rm_cols rm' = rm_cols rm" "rm_firstdatacol rm' = rm_firstdatacol rm"
    and c: "\<And>c. c < rm_cols rm \<Longrightarrow> (\<exists>d. rm_col rm' ! c = set_data d (rm_col rm ! c)) \<and>
      (c \<notin> X \<longrightarrow> rm_col rm' ! c = rm_col rm ! c)"
    using assms(1) by (auto simp: same_but_def)
  have "rc_count (rm_col rm' ! x) = rc_count (rm_col rm ! x)" using c [OF assms(3)] by auto
  then have "raidz_wf (upd_col x (set_data d) rm')" using raidz_wf_set_data [OF wf, of d x] assms(4) by simp
  then show ?thesis
    using assms(2,3) s c raidz_wf_simps(1) [OF wf] unfolding same_but_def
    by (auto simp: upd_col_nth) (metis set_data_simps(1))+
qed

lemma same_but_simps:
  assumes "same_but X rm rm'"
  shows "raidz_wf rm'" "rm_cols rm' = rm_cols rm" "rm_firstdatacol rm' = rm_firstdatacol rm"
    "c < rm_cols rm \<Longrightarrow> rc_error (rm_col rm' ! c) = rc_error (rm_col rm ! c)"
    "c < rm_cols rm \<Longrightarrow> rc_tried (rm_col rm' ! c) = rc_tried (rm_col rm ! c)"
    "c < rm_cols rm \<Longrightarrow> rc_devidx (rm_col rm' ! c) = rc_devidx (rm_col rm ! c)"
    "c < rm_cols rm \<Longrightarrow> rc_offset (rm_col rm' ! c) = rc_offset (rm_col rm ! c)"
    "c < rm_cols rm \<Longrightarrow> rc_size (rm_col rm' ! c) = rc_size (rm_col rm ! c)"
    "c < rm_cols rm \<Longrightarrow> c \<notin> X \<Longrightarrow> rm_col rm' ! c = rm_col rm ! c"
    "errs rm' = errs rm" "data_cols rm' = data_cols rm"
proof -
  show g: "raidz_wf rm'" "rm_cols rm' = rm_cols rm" "rm_firstdatacol rm' = rm_firstdatacol rm"
    "c < rm_cols rm \<Longrightarrow> c \<notin> X \<Longrightarrow> rm_col rm' ! c = rm_col rm ! c" for c
    using assms by (auto simp: same_but_def)
  have d: "\<exists>d. rm_col rm' ! c = set_data d (rm_col rm ! c)" if "c < rm_cols rm" for c
    using assms that by (auto simp: same_but_def)
  then show "c < rm_cols rm \<Longrightarrow> rc_error (rm_col rm' ! c) = rc_error (rm_col rm ! c)"
    "c < rm_cols rm \<Longrightarrow> rc_tried (rm_col rm' ! c) = rc_tried (rm_col rm ! c)"
    "c < rm_cols rm \<Longrightarrow> rc_devidx (rm_col rm' ! c) = rc_devidx (rm_col rm ! c)"
    "c < rm_cols rm \<Longrightarrow> rc_offset (rm_col rm' ! c) = rc_offset (rm_col rm ! c)"
    "c < rm_cols rm \<Longrightarrow> rc_size (rm_col rm' ! c) = rc_size (rm_col rm ! c)" for c
    by (metis set_data_fields set_data_simps(4))+
  then show "errs rm' = errs rm" by (auto simp: errs_def g)
  show "data_cols rm' = data_cols rm" by (simp add: data_cols_def g)
qed

lemma damaged_same_but:
  assumes "raidz_damaged X orig rm" "same_but Y rm rm'" "Y \<subseteq> X"
  shows "raidz_damaged X orig rm'"
proof -
  have "c \<notin> Y" if "c \<notin> X" for c using that assms(3) by blast
  then show ?thesis
    using assms(1) same_but_simps [OF assms(2)] unfolding raidz_damaged_def by simp
qed

text \<open>The map phase 1 tries, by the data columns with errors.\<close>

definition candidate :: "raidz_map \<Rightarrow> raidz_map" where
  "candidate rm =
     (let k = card (errs rm \<inter> {rm_firstdatacol rm..}); c = find_error rm (rm_firstdatacol rm)
      in if k = 0 then rm
         else if k = 1 then
           (if rc_error (rm_col rm ! VDEV_RAIDZ_P) = None then vdev_raidz_reconstruct_p rm c
            else vdev_raidz_reconstruct_q rm c)
         else vdev_raidz_reconstruct_pq rm c (find_error rm (Suc c)))"


lemma card_2_cases:
  fixes Y :: "nat set"
  assumes "finite Y" "card Y \<le> 2"
  obtains "Y = {}" | x where "Y = {x}" | x y where "Y = {x, y}" "x < y"
proof -
  consider "card Y = 0" | "card Y = 1" | "card Y = 2" using assms(2) by linarith
  then show thesis
  proof cases
    case 2
    then show ?thesis using that(2) by (rule card_1_singletonE)
  next
    case 3
    then obtain x y where "Y = {x, y}" "x \<noteq> y" by (auto simp: card_2_iff)
    then show ?thesis using that(3) [of x y] that(3) [of y x] by (cases "x < y") (simp_all add: insert_commute)
  qed (use assms(1) that(1) in auto)
qed

lemma card_2_eq:
  assumes "finite X" "{x, y} \<subseteq> X" "x \<noteq> y" "card X \<le> f" "f \<le> (2 :: nat)"
  shows "X = {x, y}" "f = 2"
proof -
  have c: "card {x, y} = 2" using assms(3) by simp
  then show "f = 2" using card_mono [OF assms(1,2)] assms(4,5) by linarith
  then show "X = {x, y}" using card_seteq [OF assms(1,2)] c assms(4) by simp
qed

lemma error_cols:
  assumes wf: "raidz_wf rm" and "card (errs rm) \<le> rm_firstdatacol rm"
  obtains "errs rm \<inter> {rm_firstdatacol rm..} = {}" "candidate rm = rm"
  | x where "errs rm \<inter> {rm_firstdatacol rm..} = {x}" "x \<in> set (data_cols rm)"
      "find_error rm (rm_firstdatacol rm) = x" "rc_error (rm_col rm ! 0) = None"
      "candidate rm = vdev_raidz_reconstruct_p rm x"
  | x where "errs rm = {0, x}" "x \<in> set (data_cols rm)" "find_error rm (rm_firstdatacol rm) = x"
      "rm_firstdatacol rm = 2" "rc_error (rm_col rm ! 0) \<noteq> None" "candidate rm = vdev_raidz_reconstruct_q rm x"
  | x y where "errs rm = {x, y}" "x \<in> set (data_cols rm)" "y \<in> set (data_cols rm)" "x < y"
      "find_error rm (rm_firstdatacol rm) = x" "find_error rm (Suc x) = y" "rm_firstdatacol rm = 2"
      "candidate rm = vdev_raidz_reconstruct_pq rm x y"
proof -
  define f where "f = rm_firstdatacol rm"
  define E where "E = errs rm \<inter> {f..}"
  note w = raidz_wf_simps [OF wf, folded f_def]
  have EE: "E \<subseteq> errs rm" "finite E" by (auto simp: E_def)
  have data: "x \<in> set (data_cols rm)" if "x \<in> E" for x
    using that by (auto simp: E_def errs_def data_cols_set f_def)
  have "card E \<le> 2" using card_mono [OF errs_finite EE(1)] assms(2) w(3) by (simp add: f_def)
  then consider "E = {}" | x where "E = {x}" | x y where "E = {x, y}" "x < y"
    by (rule card_2_cases [OF EE(2)])
  moreover have inE: "d \<in> E" if "d \<in> errs rm" "f \<le> d" for d using that by (simp add: E_def)
  ultimately show thesis
  proof cases
    case 1
    then show ?thesis using that(1) by (simp add: candidate_def E_def f_def)
  next
    case (2 x)
    then have xE: "x \<in> E" by simp
    then have x: "x \<in> errs rm" "f \<le> x" "0 < x" using w(2) by (simp_all add: E_def)
    have fe: "find_error rm f = x"
    proof (rule find_error)
      fix d assume "d \<in> errs rm" "f \<le> d"
      from inE [OF this] show "x \<le> d" using 2 by simp
    qed (use x in auto)
    show ?thesis
    proof (cases "rc_error (rm_col rm ! 0) = None")
      case True
      then show ?thesis
        using that(2) [of x] 2 fe data by (simp add: candidate_def E_def f_def VDEV_RAIDZ_P_def)
    next
      case False
      then have "{0, x} \<subseteq> errs rm" using w(5) x by (auto simp: errs_def)
      then have "errs rm = {0, x}" "f = 2"
        using card_2_eq [of "errs rm" 0 x f] x(3) assms(2) w(3) by (simp_all add: f_def)
      moreover have "candidate rm = vdev_raidz_reconstruct_q rm x"
        using 2 fe False unfolding candidate_def E_def f_def Let_def VDEV_RAIDZ_P_def by auto
      ultimately show ?thesis
        using that(3) [of x] fe data [OF xE] False unfolding f_def by blast
    qed
  next
    case (3 x y)
    then have xE: "x \<in> E" "y \<in> E" by simp_all
    then have x: "x \<in> errs rm" "f \<le> x" "y \<in> errs rm" by (simp_all add: E_def)
    have fe: "find_error rm f = x"
    proof (rule find_error)
      fix d assume "d \<in> errs rm" "f \<le> d"
      from inE [OF this] show "x \<le> d" using 3 by auto
    qed (use x in auto)
    have fe2: "find_error rm (Suc x) = y"
    proof (rule find_error)
      fix d assume "d \<in> errs rm" "Suc x \<le> d"
      then have "d \<in> E" using inE x(2) by simp
      then show "y \<le> d" using \<open>Suc x \<le> d\<close> 3 by auto
    qed (use x 3 in auto)
    have "errs rm = {x, y}" "f = 2"
      using card_2_eq [of "errs rm" x y f] x 3(2) assms(2) w(3) by (simp_all add: f_def)
    moreover have "candidate rm = vdev_raidz_reconstruct_pq rm x y"
      using 3 fe fe2 unfolding candidate_def E_def f_def Let_def by simp
    ultimately show ?thesis
      using that(4) [of x y] 3(2) fe fe2 data [OF xE(1)] data [OF xE(2)] unfolding f_def by blast
  qed
qed


lemma candidate_same:
  assumes wf: "raidz_wf rm" and le: "card (errs rm) \<le> rm_firstdatacol rm"
  shows "same_but (errs rm) rm (candidate rm)"
proof (cases rule: error_cols [OF wf le, case_names none p q pq])
  case none
  then show ?thesis using same_but_refl [OF wf] by simp
next
  case (p x)
  then obtain d where "length d = rc_count (rm_col rm ! x)" "candidate rm = upd_col x (set_data d) rm"
    using reconstruct_p_recomputes [OF wf] by (auto simp: recomputes_def)
  then show ?thesis using same_but_upd [OF same_but_refl [OF wf]] p(1,2) by (auto simp: data_cols_set)
next
  case (q x)
  then obtain d where "length d = rc_count (rm_col rm ! x)" "candidate rm = upd_col x (set_data d) rm"
    using reconstruct_q_recomputes [OF wf] by (auto simp: recomputes_def)
  then show ?thesis using same_but_upd [OF same_but_refl [OF wf]] q(1,2) by (auto simp: data_cols_set)
next
  case (pq x y)
  have "length (rc_data (rm_col rm ! x)) = rc_count (rm_col rm ! x)"
    using raidz_wf_simps(6) [OF wf] pq(2) by (simp add: data_cols_set)
  then obtain d e where "length d = rc_count (rm_col rm ! x)" "length e = rc_count (rm_col rm ! y)"
    "candidate rm = upd_col x (set_data d) (upd_col y (set_data e) rm)"
    using reconstruct_pq_recomputes [OF wf pq(7,2,3,4)] upd_col_same pq(8) by metis
  then show ?thesis
    using same_but_upd [OF same_but_upd [OF same_but_refl [OF wf]]] pq(1-3) by (auto simp: data_cols_set)
qed

lemma produce_data:
  assumes wf: "raidz_wf rm" and le: "card (errs rm) \<le> rm_firstdatacol rm"
  shows "case produce_data ck sp rm (count_errors rm) of
      (rm', None) \<Rightarrow> rm' = candidate rm \<and> \<not> ck (raidz_data (candidate rm))
    | (rm', Some (n, ev)) \<Rightarrow> ck (raidz_data rm') \<and> raidz_data rm' = raidz_data (candidate rm)"
proof -
  note s = candidate_same [OF wf le]
  note v = parity_verify_data [OF same_but_simps(1) [OF s], of sp]
  show ?thesis
  proof (cases rule: error_cols [OF wf le, case_names none p q pq])
    case none
    then show ?thesis
      using v by (auto simp: produce_data_def count_errors Let_def split: prod.splits)
  next
    case (p x)
    then have "cn_data (count_errors rm) = 1" by (simp add: count_errors)
    then show ?thesis
      using p(3-5) v by (auto simp: produce_data_def Let_def VDEV_RAIDZ_P_def split: prod.splits)
  next
    case (q x)
    then have "errs rm \<inter> {rm_firstdatacol rm..} = {x}" by (auto simp: data_cols_set)
    then have "cn_data (count_errors rm) = 1" by (simp add: count_errors)
    then show ?thesis
      using q(3-6) v by (auto simp: produce_data_def Let_def VDEV_RAIDZ_P_def split: prod.splits)
  next
    case (pq x y)
    then have "errs rm \<inter> {rm_firstdatacol rm..} = {x, y}" by (auto simp: data_cols_set)
    then have "cn_data (count_errors rm) = 2" using pq(4) by (simp add: count_errors)
    then show ?thesis using pq(5,6,8) by (auto simp: produce_data_def Let_def)
  qed
qed


section \<open>Recovery\<close>

lemma raidz_data_repaired:
  assumes "raidz_damaged X orig rm" "raidz_wf orig" "x \<in> set (data_cols orig)" "X \<inter> set (data_cols orig) \<subseteq> {x}"
  shows "raidz_data (upd_col x (set_data (rc_data (rm_col orig ! x))) rm) = raidz_data orig"
proof (rule raidz_data_damaged)
  have "x < rm_cols orig" using assms(3) by (simp add: data_cols_set)
  from damaged_repair [OF assms(1,2) this]
  show "raidz_damaged (X - {x}) orig (upd_col x (set_data (rc_data (rm_col orig ! x))) rm)" .
qed (use assms in auto)

lemma raidz_data_repaired2:
  assumes "raidz_damaged X orig rm" "raidz_wf orig" "x \<in> set (data_cols orig)" "y \<in> set (data_cols orig)"
    "X \<inter> set (data_cols orig) \<subseteq> {x, y}"
  shows "raidz_data (upd_col x (set_data (rc_data (rm_col orig ! x)))
    (upd_col y (set_data (rc_data (rm_col orig ! y))) rm)) = raidz_data orig"
proof (rule raidz_data_repaired)
  have "y < rm_cols orig" using assms(4) by (simp add: data_cols_set)
  from damaged_repair [OF assms(1,2) this]
  show "raidz_damaged (X - {y}) orig (upd_col y (set_data (rc_data (rm_col orig ! y))) rm)" .
qed (use assms in auto)

text \<open>What each reconstruction yields when the damage is within its reach.\<close>

lemma reconstruct_data:
  assumes par: "raidz_parity orig" and dam: "raidz_damaged X orig rm" and "rm_cols orig \<le> 256"
  shows "0 \<notin> X \<Longrightarrow> x \<in> set (data_cols orig) \<Longrightarrow> X \<inter> set (data_cols orig) \<subseteq> {x} \<Longrightarrow>
      raidz_data (vdev_raidz_reconstruct_p rm x) = raidz_data orig"
    and "1 \<notin> X \<Longrightarrow> rm_firstdatacol orig = 2 \<Longrightarrow> x \<in> set (data_cols orig) \<Longrightarrow> X \<inter> set (data_cols orig) \<subseteq> {x} \<Longrightarrow>
      raidz_data (vdev_raidz_reconstruct_q rm x) = raidz_data orig"
    and "0 \<notin> X \<Longrightarrow> 1 \<notin> X \<Longrightarrow> rm_firstdatacol orig = 2 \<Longrightarrow> x \<in> set (data_cols orig) \<Longrightarrow>
      y \<in> set (data_cols orig) \<Longrightarrow> x < y \<Longrightarrow> X \<inter> set (data_cols orig) \<subseteq> {x, y} \<Longrightarrow>
      raidz_data (vdev_raidz_reconstruct_pq rm x y) = raidz_data orig"
  using reconstruct_p [OF par dam] reconstruct_q [OF par dam _ _ _ _ assms(3)]
    reconstruct_pq [OF par dam _ _ _ _ _ _ _ assms(3)]
    raidz_data_repaired [OF dam parity_wf [OF par]] raidz_data_repaired2 [OF dam parity_wf [OF par]]
  by simp_all

lemma candidate_recovers:
  assumes par: "raidz_parity orig" and dam: "raidz_damaged X orig rm" and cols: "rm_cols orig \<le> 256"
    and X: "X = errs rm" "card X \<le> rm_firstdatacol orig"
  shows "raidz_data (candidate rm) = raidz_data orig"
proof -
  note d = damaged_simps [OF dam]
  note r = reconstruct_data [OF par dam cols]
  have le: "card (errs rm) \<le> rm_firstdatacol rm" using X d(2) by simp
  have data: "X \<inter> set (data_cols orig) = errs rm \<inter> {rm_firstdatacol rm..}"
    using X(1) d(1,2) by (auto simp: data_cols_set errs_def)
  show ?thesis
  proof (cases rule: error_cols [OF d(6) le, case_names none p q pq])
    case none
    then show ?thesis using raidz_data_damaged [OF dam parity_wf [OF par]] data by simp
  next
    case (p x)
    then have "0 \<notin> X" using X(1) by (simp add: errs_def)
    then show ?thesis using r(1) [of x] p data d(7) by simp
  next
    case (q x)
    then have "1 \<notin> X" using X(1) by (auto simp: data_cols_set)
    then show ?thesis using r(2) [of x] q d X(1) by (auto simp: data_cols_set)
  next
    case (pq x y)
    then have "0 \<notin> X" "1 \<notin> X" using X(1) by (auto simp: data_cols_set)
    then show ?thesis using r(3) [of x y] pq d X(1) by auto
  qed
qed

lemma combine_recovers:
  assumes par: "raidz_parity orig" and dam: "raidz_damaged X orig rm" and cols: "rm_cols orig \<le> 256"
    and X: "errs rm \<subseteq> X" "X \<subseteq> {..<rm_cols orig}" "card X \<le> rm_firstdatacol orig"
      "X \<inter> set (data_cols orig) \<noteq> {}"
    and ck: "ck (raidz_data orig)"
  shows "\<exists>rm' es. combine ck sp rm = (rm', Some es) \<and> ck (raidz_data rm')"
proof (rule ccontr)
  assume n: "\<not> ?thesis"
  note d = damaged_simps [OF dam] and r = reconstruct_data [OF par dam cols]
  note w = raidz_wf_simps [OF parity_wf [OF par]]
  note s = combine_stage [OF d(6), of ck sp, unfolded VDEV_RAIDZ_P_def VDEV_RAIDZ_Q_def]
  have no: "\<not> ck (raidz_data m)"
    if "m \<in> (if rc_error (rm_col rm ! 0) = None then vdev_raidz_reconstruct_p rm ` set (data_cols rm) else {}) \<or>
      m \<in> (if 1 < rm_firstdatacol rm \<and> rc_error (rm_col rm ! 1) = None then vdev_raidz_reconstruct_q rm ` set (data_cols rm) else {}) \<or>
      m \<in> (if rc_error (rm_col rm ! 0) = None \<and> 1 < rm_firstdatacol rm \<and> rc_error (rm_col rm ! 1) = None
        then {vdev_raidz_reconstruct_pq rm c c1 |c c1. c \<in> set (data_cols rm) \<and> c < c1 \<and> c1 < rm_cols rm} else {})" for m
    using s n that by (auto simp: stage_def split: prod.splits option.splits)
  have fin: "finite X" using X(2) finite_subset by blast
  have ok: "rc_error (rm_col rm ! c) = None" if "c \<notin> X" "c < rm_cols orig" for c
    using that X(1) d(1) by (auto simp: errs_def)
  define Y where "Y = X \<inter> set (data_cols orig)"
  have Y: "Y \<subseteq> X" "Y \<noteq> {}" "finite Y" using X(4) fin by (auto simp: Y_def)
  have "card Y \<le> 2" using card_mono [OF fin Y(1)] X(3) w(3) by linarith
  then consider y where "Y = {y}" "0 \<notin> X" | y where "Y = {y}" "0 \<in> X" | x y where "Y = {x, y}" "x < y"
    using Y(2) by (cases rule: card_2_cases [OF Y(3)]) auto
  then show False
  proof cases
    case (1 y)
    then have "y \<in> set (data_cols orig)" by (auto simp: Y_def)
    then show False
      using no [of "vdev_raidz_reconstruct_p rm y"] r(1) [of y] ck 1 ok [of 0] w(5) by (simp add: d(7) Y_def)
  next
    case (2 y)
    then have y: "y \<in> set (data_cols orig)" "y \<in> X" by (auto simp: Y_def)
    then have "0 < y" using w(2) by (simp add: data_cols_set)
    then have "X = {0, y}" "rm_firstdatacol orig = 2"
      using card_2_eq [OF fin, of 0 y "rm_firstdatacol orig"] 2 y X(3) w(3) by simp_all
    moreover from this have "1 \<notin> X" using y(1) by (auto simp: data_cols_set)
    ultimately show False
      using no [of "vdev_raidz_reconstruct_q rm y"] r(2) [of y] ck 2 ok [of 1] w(4) y(1) by (auto simp: d Y_def)
  next
    case (3 x y)
    then have xy: "x \<in> set (data_cols orig)" "y \<in> set (data_cols orig)" by (auto simp: Y_def)
    have "X = {x, y}" "rm_firstdatacol orig = 2"
      using card_2_eq [OF fin, of x y "rm_firstdatacol orig"] 3 Y(1) X(3) w(3) by simp_all
    moreover from this have "0 \<notin> X" "1 \<notin> X" using xy by (auto simp: data_cols_set)
    moreover have "y < rm_cols orig" using xy(2) by (simp add: data_cols_set)
    ultimately show False
      using no [of "vdev_raidz_reconstruct_pq rm x y"] r(3) [of x y] ck 3 ok [of 0] ok [of 1] w(4,5) xy
      by (auto simp: d Y_def)
  qed
qed

section \<open>Completing a read\<close>

lemma counters_simps [simp]:
  "raidz_wf (rm\<lparr>rm_missingdata := a, rm_missingparity := b\<rparr>) = raidz_wf rm"
  "raidz_data (rm\<lparr>rm_missingdata := a, rm_missingparity := b\<rparr>) = raidz_data rm"
  "raidz_damaged X orig (rm\<lparr>rm_missingdata := a, rm_missingparity := b\<rparr>) = raidz_damaged X orig rm"
  "errs (rm\<lparr>rm_missingdata := a, rm_missingparity := b\<rparr>) = errs rm"
  "data_cols (rm\<lparr>rm_missingdata := a, rm_missingparity := b\<rparr>) = data_cols rm"
  by (simp_all add: raidz_wf_def raidz_data_def raidz_damaged_def errs_def data_cols_def)

lemma read_done_simps [simp]:
  "ir_error (read_done vd zio rm e n ev) = e" "ir_map (read_done vd zio rm e n ev) = rm"
  "ir_next (read_done vd zio rm e n ev) \<noteq> Reread ios"
  by (simp_all add: read_done_def)

text \<open>Phases 2 and 3 report success only with data that passes the checksum.\<close>

lemma read_retry_ck:
  assumes wf: "raidz_wf rm" and "card (errs rm) \<ge> rm_firstdatacol rm \<longrightarrow> cn_error cn \<noteq> None"
    "cn_numerrors cn = card (errs rm)" "ir_error (read_retry vd ck zio rm cn) = None"
    "\<forall>ios. ir_next (read_retry vd ck zio rm cn) \<noteq> Reread ios"
  shows "ck (raidz_data (ir_map (read_retry vd ck zio rm cn)))"
proof -
  let ?rm = "rm\<lparr>rm_missingdata := 0, rm_missingparity := 0\<rparr>"
  have "stage ck ?rm T (combine ck (io_speculative zio) ?rm) \<Longrightarrow>
      combine ck (io_speculative zio) ?rm = (rm', Some es) \<Longrightarrow> ck (raidz_data rm')" for T rm' es
    by (simp add: stage_def)
  note s = this [OF combine_stage]
  show ?thesis
    using assms s by (auto simp: read_retry_def Let_def split: if_splits prod.splits option.splits)
qed

definition read_step :: "(u64 list \<Rightarrow> bool) \<Rightarrow> zio \<Rightarrow> raidz_map \<Rightarrow> raidz_map \<times> (nat \<times> raidz_event list) option" where
  "read_step ck zio rm = (if card (errs rm) \<le> rm_firstdatacol rm
     then produce_data ck (io_speculative zio) rm (count_errors rm) else (rm, None))"

lemma io_done_read:
  "io_type zio = ZIO_TYPE_READ \<Longrightarrow> vdev_raidz_io_done vd ck zio rm =
     (case read_step ck zio rm of
        (rm', Some (unexpected, ev)) \<Rightarrow> read_done vd zio rm' None unexpected ev
      | (rm', None) \<Rightarrow> read_retry vd ck zio rm' (count_errors rm))"
  by (simp add: vdev_raidz_io_done_def read_step_def Let_def count_errors split: prod.split)

lemma read_step:
  assumes wf: "raidz_wf rm"
  shows "case read_step ck zio rm of
      (rm', None) \<Rightarrow> same_but (errs rm) rm rm' \<and>
        (card (errs rm) \<le> rm_firstdatacol rm \<longrightarrow> rm' = candidate rm \<and> \<not> ck (raidz_data (candidate rm)))
    | (rm', Some (n, ev)) \<Rightarrow> ck (raidz_data rm')"
  using produce_data [OF wf, of ck "io_speculative zio"] candidate_same [OF wf] same_but_refl [OF wf]
  by (auto simp: read_step_def split: prod.splits option.splits)

lemma io_done_ck:
  assumes wf: "raidz_wf rm" and "io_type zio = ZIO_TYPE_READ"
    "ir_error (vdev_raidz_io_done vd ck zio rm) = None"
    "\<forall>ios. ir_next (vdev_raidz_io_done vd ck zio rm) \<noteq> Reread ios"
  shows "ck (raidz_data (ir_map (vdev_raidz_io_done vd ck zio rm)))"
proof (cases "read_step ck zio rm")
  case (Pair rm' res)
  note st = read_step [OF wf, of ck zio, unfolded Pair]
  show ?thesis
  proof (cases res)
    case None
    then have s: "same_but (errs rm) rm rm'" using st by simp
    have "0 < rm_firstdatacol rm" using raidz_wf_simps(2) [OF wf] .
    then have "rm_firstdatacol rm \<le> card (errs rm) \<longrightarrow> cn_error (count_errors rm) \<noteq> None"
      by (auto simp: count_errors)
    then show ?thesis
      using read_retry_ck [of rm' "count_errors rm" vd ck zio] assms(3,4) same_but_simps [OF s]
      by (simp add: io_done_read [OF assms(2)] Pair None count_errors)
  next
    case (Some p)
    then show ?thesis
      using st by (cases p) (simp add: io_done_read [OF assms(2)] Pair)
  qed
qed


text \<open>With every column tried and the damage within reach, a read succeeds.\<close>

lemma io_done_recovers:
  assumes par: "raidz_parity orig" and dam: "raidz_damaged X orig rm" and cols: "rm_cols orig \<le> 256"
    and X: "errs rm \<subseteq> X" "X \<subseteq> {..<rm_cols orig}" "card X \<le> rm_firstdatacol orig"
    and ck: "ck (raidz_data orig)" and tried: "\<forall>c<rm_cols orig. rc_tried (rm_col rm ! c)"
    and ty: "io_type zio = ZIO_TYPE_READ"
  shows "ir_error (vdev_raidz_io_done vd ck zio rm) = None"
    and "ir_next (vdev_raidz_io_done vd ck zio rm) \<noteq> Reread ios"
proof -
  note d = damaged_simps [OF dam]
  have fin: "finite X" using X(2) finite_subset by blast
  have le: "card (errs rm) \<le> rm_firstdatacol rm" using card_mono [OF fin X(1)] X(3) d(2) by simp
  obtain rm' res where st: "read_step ck zio rm = (rm', res)" by fastforce
  note step = read_step [OF d(6), of ck zio, unfolded st]
  have "ir_error (vdev_raidz_io_done vd ck zio rm) = None \<and> ir_next (vdev_raidz_io_done vd ck zio rm) \<noteq> Reread ios"
  proof (cases res)
    case None
    then have s: "same_but (errs rm) rm rm'" "rm' = candidate rm" "\<not> ck (raidz_data rm')"
      using step le by auto
    note e = same_but_simps [OF s(1)]
    have dam': "raidz_damaged X orig rm'" using damaged_same_but [OF dam s(1) X(1)] .
    have "errs rm \<noteq> X" using candidate_recovers [OF par dam cols _ X(3)] ck s by auto
    then have "errs rm \<subset> X" using X(1) by auto
    then have lt: "card (errs rm) < rm_firstdatacol orig"
      using psubset_card_mono [OF fin, of "errs rm"] X(3) by linarith
    have "X \<inter> set (data_cols orig) \<noteq> {}"
      using raidz_data_damaged [OF dam' parity_wf [OF par]] s(3) ck by auto
    then have "\<exists>r es. combine ck (io_speculative zio) (rm'\<lparr>rm_missingdata := 0, rm_missingparity := 0\<rparr>) = (r, Some es) \<and>
        ck (raidz_data r)"
      using dam' X e(10) ck by (intro combine_recovers [OF par _ cols, where X = X]) simp_all
    then obtain r es where "combine ck (io_speculative zio) (rm'\<lparr>rm_missingdata := 0, rm_missingparity := 0\<rparr>) = (r, Some es)"
      by blast
    moreover have "filter (\<lambda>c. \<not> rc_tried (rm_col rm' ! c)) [0..<rm_cols rm'] = []"
      using tried e(2,5) d(1) by (auto simp: filter_empty_conv)
    ultimately show ?thesis
      using lt e(3) d(2) by (simp add: io_done_read [OF ty] st None read_retry_def Let_def count_errors)
  next
    case (Some p)
    then show ?thesis by (cases p) (simp add: io_done_read [OF ty] st)
  qed
  then show "ir_error (vdev_raidz_io_done vd ck zio rm) = None"
    "ir_next (vdev_raidz_io_done vd ck zio rm) \<noteq> Reread ios" by simp_all
qed

text \<open>
  A stripe being read: a column outside \<open>X\<close> has no error, and once tried it holds the data of
  \<open>orig\<close>.
\<close>

definition partial :: "nat set \<Rightarrow> raidz_map \<Rightarrow> raidz_map \<Rightarrow> bool" where
  "partial X orig rm \<longleftrightarrow> raidz_wf rm \<and> rm_cols rm = rm_cols orig \<and> rm_firstdatacol rm = rm_firstdatacol orig \<and>
     (\<forall>c<rm_cols orig. rc_size (rm_col rm ! c) = rc_size (rm_col orig ! c) \<and>
        rc_devidx (rm_col rm ! c) = rc_devidx (rm_col orig ! c) \<and> rc_offset (rm_col rm ! c) = rc_offset (rm_col orig ! c) \<and>
        (c \<notin> X \<longrightarrow> rc_error (rm_col rm ! c) = None \<and>
           (rc_tried (rm_col rm ! c) \<longrightarrow> rc_data (rm_col rm ! c) = rc_data (rm_col orig ! c))))"

lemma partial_tried:
  assumes "partial X orig rm" "\<forall>c<rm_cols orig. rc_tried (rm_col rm ! c)"
  shows "raidz_damaged X orig rm"
  using assms by (auto simp: partial_def raidz_damaged_def)

lemma partial_errs: "partial X orig rm \<Longrightarrow> errs rm \<subseteq> X"
  by (auto simp: partial_def errs_def)

lemma partial_same_but:
  assumes "partial X orig rm" "same_but Y rm rm'" "Y \<subseteq> X"
  shows "partial X orig rm'"
proof -
  have "c \<notin> Y" if "c \<notin> X" for c using that assms(3) by blast
  then show ?thesis
    using assms(1) same_but_simps [OF assms(2)] unfolding partial_def by simp
qed

lemma partial_counters [simp]:
  "partial X orig (rm\<lparr>rm_missingdata := a, rm_missingparity := b\<rparr>) = partial X orig rm"
  by (simp add: partial_def)

lemma partial_complete:
  assumes p: "partial X orig rm" and io: "ci_type io = ZIO_TYPE_READ" "ci_col io < rm_cols orig"
    and "length (snd ans) = rc_count (rm_col orig ! ci_col io)"
    and "ci_col io \<notin> X \<longrightarrow> ans = (None, rc_data (rm_col orig ! ci_col io))"
  shows "partial X orig (child_complete ans io rm)"
proof -
  let ?c = "ci_col io" and ?f = "\<lambda>rc. vdev_raidz_child_done (fst ans) (set_data (snd ans) rc)"
  have wf: "raidz_wf rm" and sz: "rc_size (rm_col rm ! ?c) = rc_size (rm_col orig ! ?c)"
    using p io(2) by (simp_all add: partial_def)
  have cc: "child_complete ans io rm = upd_col ?c ?f rm" by (simp add: child_complete_def io(1))
  have "raidz_wf (upd_col ?c ?f rm)"
    using assms(4) sz by (intro raidz_wf_upd [OF wf]) (simp_all add: vdev_raidz_child_done_def rc_count_def)
  then show ?thesis
    using p assms(3,5) raidz_wf_simps(1) [OF wf] unfolding partial_def cc
    by (auto simp: upd_col_nth vdev_raidz_child_done_def)
qed


text \<open>The requests of a read are for columns of the stripe, at their place.\<close>

definition reads :: "raidz_map \<Rightarrow> child_io \<Rightarrow> bool" where
  "reads orig io \<longleftrightarrow> ci_type io = ZIO_TYPE_READ \<and> ci_col io < rm_cols orig \<and>
     ci_devidx io = rc_devidx (rm_col orig ! ci_col io) \<and> ci_offset io = rc_offset (rm_col orig ! ci_col io) \<and>
     ci_size io = rc_size (rm_col orig ! ci_col io)"

lemma partial_reads:
  "partial X orig rm \<Longrightarrow> c < rm_cols orig \<Longrightarrow> reads orig (raidz_child_io ZIO_TYPE_READ rm c)"
  by (simp add: reads_def raidz_child_io_def Let_def partial_def)

lemma partial_miss:
  assumes p: "partial X orig rm" and "c \<in> X" "c < rm_cols orig"
  shows "partial X orig (miss_col c e t rm)"
proof -
  have wf: "raidz_wf rm" using p by (simp add: partial_def)
  let ?f = "\<lambda>rc. rc\<lparr>rc_error := Some e, rc_tried := t \<or> rc_tried rc, rc_skipped := True\<rparr>"
  have "raidz_wf (upd_col c ?f rm)" by (intro raidz_wf_upd [OF wf]) simp_all
  then have u: "partial X orig (upd_col c ?f rm)"
    using p assms(2,3) raidz_wf_simps(1) [OF wf] unfolding partial_def by (auto simp: upd_col_nth)
  have "upd_col c f (rm\<lparr>rm_missingdata := a\<rparr>) = (upd_col c f rm)\<lparr>rm_missingdata := a, rm_missingparity := rm_missingparity rm\<rparr>"
    "upd_col c f (rm\<lparr>rm_missingparity := a\<rparr>) = (upd_col c f rm)\<lparr>rm_missingdata := rm_missingdata rm, rm_missingparity := a\<rparr>" for f a
    by (simp_all add: upd_col_def)
  then show ?thesis using u by (simp add: miss_col_def Let_def)
qed

lemma start_read:
  assumes p: "partial X orig rm" and "set cs \<subseteq> {..<rm_cols orig}"
    and alive: "\<forall>c<rm_cols orig. c \<notin> X \<longrightarrow> \<not> vdev_dead vd (rc_devidx (rm_col orig ! c)) \<and> \<not> vdev_stale vd (rc_devidx (rm_col orig ! c))"
  shows "partial X orig (fst (foldl (start_read_col vd scrub) (rm, []) cs)) \<and>
    (\<forall>io \<in> set (snd (foldl (start_read_col vd scrub) (rm, []) cs)). reads orig io)"
  using assms(2)
proof (induction cs rule: rev_induct)
  case Nil
  then show ?case using p by simp
next
  case (snoc c cs)
  obtain rm' ios where e: "foldl (start_read_col vd scrub) (rm, []) cs = (rm', ios)" by fastforce
  have p': "partial X orig rm'" and io: "\<forall>io \<in> set ios. reads orig io" and c: "c < rm_cols orig"
    using snoc e by auto
  have "rc_devidx (rm_col rm' ! c) = rc_devidx (rm_col orig ! c)" using p' c by (simp add: partial_def)
  then have "partial X orig (fst (start_read_col vd scrub (rm', ios) c)) \<and>
      (\<forall>io \<in> set (snd (start_read_col vd scrub (rm', ios) c)). reads orig io)"
    using alive c partial_miss [OF p' _ c] partial_reads [OF p' c] p' io
    by (auto simp: start_read_col_def Let_def)
  then show ?case by (simp add: e)
qed

section \<open>A read from start to end\<close>

text \<open>
  The child I/Os complete with the answers of \<open>disk\<close>; those of the second round, if there is one,
  with the answers of \<open>disk'\<close>.
\<close>

definition complete_all :: "(child_io \<Rightarrow> errno option \<times> u64 list) \<Rightarrow> child_io list \<Rightarrow> raidz_map \<Rightarrow> raidz_map" where
  "complete_all disk ios rm = fold (\<lambda>io. child_complete (disk io) io) ios rm"

definition raidz_read ::
  "raidz_vdev \<Rightarrow> (nat \<Rightarrow> nat \<Rightarrow> u64) \<Rightarrow> (u64 list \<Rightarrow> bool) \<Rightarrow> (child_io \<Rightarrow> errno option \<times> u64 list) \<Rightarrow>
   (child_io \<Rightarrow> errno option \<times> u64 list) \<Rightarrow> zio \<Rightarrow> io_result" where
  "raidz_read vd fresh ck disk disk' zio =
     (let (rm, ios) = vdev_raidz_io_start vd fresh zio;
          r = vdev_raidz_io_done vd ck zio (complete_all disk ios rm)
      in case ir_next r of
           Reread ios \<Rightarrow> vdev_raidz_io_done vd ck zio (complete_all disk' ios (ir_map r))
         | _ \<Rightarrow> r)"

text \<open>What the disks answer for the columns outside \<open>X\<close>.\<close>

definition answers :: "nat set \<Rightarrow> raidz_map \<Rightarrow> (child_io \<Rightarrow> errno option \<times> u64 list) \<Rightarrow> bool" where
  "answers X orig disk \<longleftrightarrow> (\<forall>io. reads orig io \<longrightarrow>
     length (snd (disk io)) = rc_count (rm_col orig ! ci_col io) \<and>
     (ci_col io \<notin> X \<longrightarrow> disk io = (None, rc_data (rm_col orig ! ci_col io))))"

lemma complete_all:
  assumes "partial X orig rm" "\<forall>io \<in> set ios. reads orig io" "answers X orig disk"
  shows "partial X orig (complete_all disk ios rm)"
    and "c < rm_cols orig \<Longrightarrow> rc_tried (rm_col rm ! c) \<or> c \<in> ci_col ` set ios \<Longrightarrow>
      rc_tried (rm_col (complete_all disk ios rm) ! c)"
proof -
  have "partial X orig (complete_all disk ios rm) \<and> (\<forall>c<rm_cols orig. rc_tried (rm_col rm ! c) \<or> c \<in> ci_col ` set ios \<longrightarrow>
      rc_tried (rm_col (complete_all disk ios rm) ! c))"
    using assms(1,2)
  proof (induction ios arbitrary: rm)
    case (Cons io ios)
    have io: "ci_type io = ZIO_TYPE_READ" "ci_col io < rm_cols orig" and r: "reads orig io"
      using Cons.prems by (simp_all add: reads_def)
    have p: "partial X orig (child_complete (disk io) io rm)"
      using partial_complete [OF Cons.prems(1) io] assms(3) r by (simp add: answers_def)
    have "length (rm_col rm) = rm_cols orig"
      using Cons.prems(1) raidz_wf_simps(1) [of rm] by (simp add: partial_def)
    then have "rc_tried (rm_col (child_complete (disk io) io rm) ! c) \<longleftrightarrow> rc_tried (rm_col rm ! c) \<or> c = ci_col io" for c
      using io by (auto simp: child_complete_def upd_col_nth vdev_raidz_child_done_def)
    then show ?case using Cons.IH [OF p] Cons.prems by (auto simp: complete_all_def)
  qed (simp add: complete_all_def)
  then show "partial X orig (complete_all disk ios rm)"
    and "c < rm_cols orig \<Longrightarrow> rc_tried (rm_col rm ! c) \<or> c \<in> ci_col ` set ios \<Longrightarrow>
      rc_tried (rm_col (complete_all disk ios rm) ! c)" by auto
qed

lemma io_done_partial:
  fixes vd :: raidz_vdev
  assumes par: "raidz_parity orig" and cols: "rm_cols orig \<le> 256" and p: "partial X orig rm"
    and X: "X \<subseteq> {..<rm_cols orig}" "card X \<le> rm_firstdatacol orig"
    and ck: "ck (raidz_data orig)" and ty: "io_type zio = ZIO_TYPE_READ"
    and tried: "\<forall>c<rm_cols orig. rc_tried (rm_col rm ! c)"
  defines "r \<equiv> vdev_raidz_io_done vd ck zio rm"
  shows "ir_error r = None \<and> (\<forall>ios. ir_next r \<noteq> Reread ios) \<and> ck (raidz_data (ir_map r))"
proof -
  note a = io_done_recovers [where ck = ck and vd = vd, OF par partial_tried [OF p tried] cols partial_errs [OF p] X ck tried ty, folded r_def]
  have "raidz_wf rm" using p by (simp add: partial_def)
  from io_done_ck [OF this ty, where vd = vd and ck = ck, folded r_def] a show ?thesis by simp
qed

text \<open>The first round ends the read, or every column not tried yet is read.\<close>

lemma io_done_first:
  fixes vd :: raidz_vdev and ck :: "u64 list \<Rightarrow> bool"
  assumes p: "partial X orig rm" and X: "X \<subseteq> {..<rm_cols orig}" "card X \<le> rm_firstdatacol orig"
    and ty: "io_type zio = ZIO_TYPE_READ" and untried: "\<not> (\<forall>c<rm_cols orig. rc_tried (rm_col rm ! c))"
  defines "r \<equiv> vdev_raidz_io_done vd ck zio rm"
  shows "(ir_error r = None \<and> (\<forall>ios. ir_next r \<noteq> Reread ios) \<and> ck (raidz_data (ir_map r))) \<or>
    (\<exists>ios. ir_next r = Reread ios \<and> partial X orig (ir_map r) \<and> (\<forall>io \<in> set ios. reads orig io) \<and>
       (\<forall>c<rm_cols orig. rc_tried (rm_col (ir_map r) ! c) \<or> c \<in> ci_col ` set ios))"
proof (cases "read_step ck zio rm")
  case (Pair rm' res)
  have wf: "raidz_wf rm" and n: "rm_cols rm = rm_cols orig" using p by (simp_all add: partial_def)
  note step = read_step [OF wf, of ck zio, unfolded Pair]
  show ?thesis
  proof (cases res)
    case None
    then have s: "same_but (errs rm) rm rm'" using step by simp
    note e = same_but_simps [OF s]
    let ?rm = "rm'\<lparr>rm_missingdata := 0, rm_missingparity := 0\<rparr>"
    let ?u = "filter (\<lambda>c. \<not> rc_tried (rm_col rm' ! c)) [0..<rm_cols rm']"
    have p': "partial X orig ?rm" using partial_same_but [OF p s partial_errs [OF p]] by simp
    obtain c where "c < rm_cols orig" "\<not> rc_tried (rm_col rm' ! c)" using untried e(5) n by auto
    then have "?u \<noteq> []" using e(2) n by (auto simp: filter_empty_conv)
    then have r: "ir_next r = Reread (map (raidz_child_io ZIO_TYPE_READ ?rm) ?u)" "ir_map r = ?rm"
      by (simp_all add: r_def io_done_read [OF ty] Pair None read_retry_def Let_def)
    have "ci_col ` set (map (raidz_child_io ZIO_TYPE_READ ?rm) ?u) = set ?u"
      by (force simp: raidz_child_io_def Let_def)
    then show ?thesis
      using r p' e(2) n partial_reads [OF p'] by (intro disjI2 exI conjI) auto
  next
    case (Some q)
    then show ?thesis using step by (cases q) (simp add: r_def io_done_read [OF ty] Pair)
  qed
qed

lemma raidz_read_recovers:
  assumes par: "raidz_parity orig" and cols: "rm_cols orig \<le> 256"
    and X: "X \<subseteq> {..<rm_cols orig}" "card X \<le> rm_firstdatacol orig"
    and ck: "ck (raidz_data orig)" and ty: "io_type zio = ZIO_TYPE_READ"
    and alive: "\<forall>c<rm_cols orig. c \<notin> X \<longrightarrow> \<not> vdev_dead vd (rc_devidx (rm_col orig ! c)) \<and> \<not> vdev_stale vd (rc_devidx (rm_col orig ! c))"
    and disk: "answers X orig disk" "answers X orig disk'"
    and start: "partial X orig (vdev_raidz_map_alloc fresh (io_offset zio) (io_size zio) (io_data zio)
      (vdev_ashift vd) (vdev_children vd) (vdev_nparity vd))" (is "partial X orig ?rm")
  defines "r \<equiv> raidz_read vd fresh ck disk disk' zio"
  shows "ir_error r = None \<and> (\<forall>ios. ir_next r \<noteq> Reread ios) \<and> ck (raidz_data (ir_map r))"
proof -
  obtain rm ios where st: "vdev_raidz_io_start vd fresh zio = (rm, ios)" by fastforce
  have "rm_cols ?rm = rm_cols orig" using start by (simp add: partial_def)
  then have p: "partial X orig rm" and io: "\<forall>io \<in> set ios. reads orig io"
    using start_read [OF start _ alive, of "rev [0..<rm_cols orig]" "io_scrub zio"] st
    by (auto simp: vdev_raidz_io_start_def ty lessThan_atLeast0)
  note c1 = complete_all [OF p io disk(1)]
  let ?rm = "complete_all disk ios rm"
  have rd: "r = (case ir_next (vdev_raidz_io_done vd ck zio ?rm) of
      Reread ios' \<Rightarrow> vdev_raidz_io_done vd ck zio (complete_all disk' ios' (ir_map (vdev_raidz_io_done vd ck zio ?rm)))
    | _ \<Rightarrow> vdev_raidz_io_done vd ck zio ?rm)"
    by (simp add: r_def raidz_read_def st Let_def)
  show ?thesis
  proof (cases "\<forall>c<rm_cols orig. rc_tried (rm_col ?rm ! c)")
    case True
    from io_done_partial [where ck = ck and vd = vd, OF par cols c1(1) X ck ty this] show ?thesis
      by (simp add: rd split: io_next.split)
  next
    case False
    from io_done_first [OF c1(1) X ty False, where vd = vd and ck = ck] show ?thesis
    proof (elim disjE exE conjE)
      fix ios' assume re: "ir_next (vdev_raidz_io_done vd ck zio ?rm) = Reread ios'"
        and p2: "partial X orig (ir_map (vdev_raidz_io_done vd ck zio ?rm))"
        and io2: "\<forall>io \<in> set ios'. reads orig io"
        and t2: "\<forall>c<rm_cols orig. rc_tried (rm_col (ir_map (vdev_raidz_io_done vd ck zio ?rm)) ! c) \<or> c \<in> ci_col ` set ios'"
      note c2 = complete_all [OF p2 io2 disk(2)]
      show ?thesis
        using io_done_partial [where ck = ck and vd = vd, OF par cols c2(1) X ck ty] c2(2) t2 by (simp add: rd re)
    qed (simp add: rd split: io_next.split)
  qed
qed

lemma generate_same:
  assumes wf: "raidz_wf rm"
  shows "same_but {0..<rm_firstdatacol rm} rm (raidz_generate rm)"
proof -
  note w = raidz_wf_simps [OF wf]
  consider "rm_firstdatacol rm = 1" | "rm_firstdatacol rm = 2" using w(2,3) by linarith
  then show ?thesis
  proof cases
    case 1
    then show ?thesis
      using generate_parity_p [OF wf] w(5)
      by (auto simp: raidz_generate_def intro!: same_but_upd same_but_refl wf)
  next
    case 2
    then show ?thesis
      using generate_pq_wf [OF wf 2] w(4,5,9)
      by (auto simp: raidz_generate_def intro!: same_but_upd same_but_refl wf)
  qed
qed

text \<open>The stripe a write puts on the children.\<close>

lemma start_write:
  fixes fresh :: "nat \<Rightarrow> nat \<Rightarrow> u64"
  assumes g: "raidz_geometry (vdev_ashift vd) (vdev_children vd) (vdev_nparity vd) (io_offset zio) (io_size zio)"
    and len: "length (io_data zio) = unat (io_size zio) div 8" and ty: "io_type zio = ZIO_TYPE_WRITE"
  defines "a \<equiv> vdev_raidz_map_alloc fresh (io_offset zio) (io_size zio) (io_data zio) (vdev_ashift vd) (vdev_children vd) (vdev_nparity vd)"
    and "w \<equiv> fst (vdev_raidz_io_start vd fresh zio)"
  shows "raidz_parity w" "raidz_data w = io_data zio" "same_but {0..<rm_firstdatacol a} a w"
    "snd (vdev_raidz_io_start vd fresh zio) = map (raidz_child_io ZIO_TYPE_WRITE w) [0..<rm_cols w]"
proof -
  have w: "w = raidz_generate a"
    by (simp add: w_def vdev_raidz_io_start_def ty a_def Let_def raidz_generate_def)
  have wf: "raidz_wf a" unfolding a_def by (rule map_alloc_wf [OF g len])
  show "raidz_parity w" unfolding w by (rule raidz_generate_parity [OF wf])
  show s: "same_but {0..<rm_firstdatacol a} a w" unfolding w by (rule generate_same [OF wf])
  note e = same_but_simps [OF s]
  have "raidz_data w = raidz_data a"
    using raidz_wf_simps(1) [OF wf] raidz_wf_simps(1) [OF e(1)] e
    by (intro raidz_data_cong) auto
  also have "\<dots> = io_data zio" unfolding a_def by (rule map_alloc_shape(9) [OF g len])
  finally show "raidz_data w = io_data zio" .
  show "snd (vdev_raidz_io_start vd fresh zio) = map (raidz_child_io ZIO_TYPE_WRITE w) [0..<rm_cols w]"
    by (simp add: w vdev_raidz_io_start_def ty a_def Let_def raidz_generate_def)
qed

lemma alloc_partial:
  assumes g: "raidz_geometry shift dcols nparity off size'" and "length ws = unat size' div 8" "length ws' = unat size' div 8"
    and s: "same_but Y (vdev_raidz_map_alloc fresh off size' ws shift dcols nparity) w"
  shows "partial X w (vdev_raidz_map_alloc fresh' off size' ws' shift dcols nparity)"
proof -
  note a = map_alloc_shape [OF g assms(2), where fresh = fresh]
  note b = map_alloc_shape [OF g assms(3), where fresh = fresh']
  note e = same_but_simps [OF s]
  let ?n = "nat_cols (unat dcols) (unat nparity) (unat size' div 2 ^ shift)"
  have "rc_devidx (rm_col (vdev_raidz_map_alloc fresh' off size' ws' shift dcols nparity) ! c) = rc_devidx (rm_col w ! c)"
    "rc_offset (rm_col (vdev_raidz_map_alloc fresh' off size' ws' shift dcols nparity) ! c) = rc_offset (rm_col w ! c)"
    "rc_size (rm_col (vdev_raidz_map_alloc fresh' off size' ws' shift dcols nparity) ! c) = rc_size (rm_col w ! c)"
    if "c < ?n" for c
    using that a(1) e(6-8) [of c] a(4-6) [of c] b(4-6) [of c] by (simp_all add: word_unat_eq_iff)
  then show ?thesis
    using map_alloc_wf [OF g assms(3), of fresh'] a(1,2) b(1,2,7) e(2,3) by (auto simp: partial_def)
qed


section \<open>Properties of the I/O paths\<close>

text \<open>
  C1. A block written to RAID-Z can be read back as long as at most as many of its columns as there
  are parity columns are bad: on a dead child, on a child whose dirty time log covers the block,
  answering with errors, or silently returning wrong data, in any combination.  The read, with
  its second round when it needs one, ends without an error and with data that passes the
  checksum, so with the block that was written when the checksum tells it from others.  The device
  has one or two parity columns among at most 256 children, and the block is a nonzero number of
  whole sectors.
\<close>

theorem raidz_write_read:
  fixes vd :: raidz_vdev and zr :: zio and fresh fresh' :: "nat \<Rightarrow> nat \<Rightarrow> u64"
  assumes g: "raidz_geometry (vdev_ashift vd) (vdev_children vd) (vdev_nparity vd) (io_offset zr) (io_size zr)"
    and len: "length ws = unat (io_size zr) div 8" "length (io_data zr) = unat (io_size zr) div 8"
    and ty: "io_type zr = ZIO_TYPE_READ" and ck: "ck ws"
  defines "w \<equiv> fst (vdev_raidz_io_start vd fresh (zr\<lparr>io_type := ZIO_TYPE_WRITE, io_data := ws\<rparr>))"
  assumes X: "X \<subseteq> {..<rm_cols w}" "card X \<le> unat (vdev_nparity vd)"
    and alive: "\<forall>c<rm_cols w. c \<notin> X \<longrightarrow> \<not> vdev_dead vd (rc_devidx (rm_col w ! c)) \<and> \<not> vdev_stale vd (rc_devidx (rm_col w ! c))"
    and disk: "answers X w disk" "answers X w disk'"
  defines "r \<equiv> raidz_read vd fresh' ck disk disk' zr"
  shows "ir_error r = None \<and> (\<forall>ios. ir_next r \<noteq> Reread ios) \<and> ck (raidz_data (ir_map r)) \<and>
    ((\<forall>ws'. ck ws' \<longrightarrow> ws' = ws) \<longrightarrow> raidz_data (ir_map r) = ws)"
proof -
  let ?zw = "zr\<lparr>io_type := ZIO_TYPE_WRITE, io_data := ws\<rparr>"
  have zw: "io_offset ?zw = io_offset zr" "io_size ?zw = io_size zr" "io_data ?zw = ws" "io_type ?zw = ZIO_TYPE_WRITE"
    by simp_all
  note sw = start_write [of vd ?zw, where fresh = fresh, unfolded zw, OF g len(1) refl, folded w_def]
  note a = map_alloc_shape(1,2) [OF g len(1), where fresh = fresh] and n = geometry_nat(9) [OF g]
  note e = same_but_simps(2,3) [OF sw(3)]
  have c: "rm_cols w \<le> 256" using a(1) n e(1) g by (simp add: raidz_geometry_def)
  have f: "card X \<le> rm_firstdatacol w" using a(2) e(2) X(2) by simp
  have d: "ck (raidz_data w)" using ck sw(2) by simp
  note rec = raidz_read_recovers [where ck = ck and vd = vd and fresh = fresh', OF sw(1) c X(1) f d ty alive disk
      alloc_partial [OF g len sw(3)], folded r_def]
  then show ?thesis by blast
qed


text \<open>An example: four children, the third of them dead, and disks that answer with what was written.\<close>

definition example_vd :: raidz_vdev where
  "example_vd = \<lparr>vdev_ashift = 9, vdev_children = 4, vdev_nparity = 1, vdev_dead = (\<lambda>d. d = 2),
     vdev_stale = (\<lambda>_. False), vdev_writeable = True\<rparr>"

definition example_zio :: zio where
  "example_zio = \<lparr>io_type = ZIO_TYPE_READ, io_offset = 0x1000, io_size = 0x600, io_data = replicate 192 0,
     io_scrub = False, io_failfast = False, io_speculative = False, io_resilver = False\<rparr>"

definition example_written :: raidz_map where
  "example_written = fst (vdev_raidz_io_start example_vd (\<lambda>_ _. 0)
     (example_zio\<lparr>io_type := ZIO_TYPE_WRITE, io_data := replicate 192 7\<rparr>))"

definition example_disk :: "child_io \<Rightarrow> errno option \<times> u64 list" where
  "example_disk io = (None, rc_data (rm_col example_written ! ci_col io))"

lemma example_written:
  "raidz_parity example_written" "rm_cols example_written = 4" "rm_firstdatacol example_written = 1"
  "c < 4 \<Longrightarrow> unat (rc_devidx (rm_col example_written ! c)) = c"
  "errs example_written = {}" "raidz_data example_written = replicate 192 7"
proof -
  let ?zw = "example_zio\<lparr>io_type := ZIO_TYPE_WRITE, io_data := replicate 192 7\<rparr>"
  have g: "raidz_geometry (vdev_ashift example_vd) (vdev_children example_vd) (vdev_nparity example_vd) (io_offset ?zw) (io_size ?zw)"
    and len: "length (io_data ?zw) = unat (io_size ?zw) div 8" "io_type ?zw = ZIO_TYPE_WRITE"
    using example_geometry(1) by (simp_all add: example_vd_def example_zio_def)
  note sw = start_write [OF g len, of "\<lambda>_ _. 0", folded example_written_def]
  note a = map_alloc_shape [OF g len(1), where fresh = "\<lambda>_ _. 0"] and e = same_but_simps [OF sw(3)]
  have n: "nat_cols (unat (vdev_children example_vd)) (unat (vdev_nparity example_vd)) (unat (io_size ?zw) div 2 ^ vdev_ashift example_vd) = 4"
    by (simp add: nat_cols_def example_vd_def example_zio_def)
  show "raidz_parity example_written" by (rule sw(1))
  show "rm_cols example_written = 4" "rm_firstdatacol example_written = 1"
    using e(2,3) a(1,2) n by (simp_all add: example_vd_def)
  show "unat (rc_devidx (rm_col example_written ! c)) = c" if "c < 4"
  proof -
    have "(8 + c) mod 4 = c" using that mod_mult_self1 [of c 2 4] by (simp add: add.commute)
    then show ?thesis
      using that e(6) [of c] a(1) a(4) [of c] n
      by (simp add: swapped_def) (simp add: example_vd_def example_zio_def)
  qed
  show "errs example_written = {}" using e(2,10) a(1,7) by (auto simp: errs_def)
  show "raidz_data example_written = replicate 192 7" using sw(2) by simp
qed

theorem raidz_write_read_witness:
  "raidz_data (ir_map (raidz_read example_vd (\<lambda>_ _. 0) (\<lambda>ws. ws = replicate 192 7) example_disk example_disk example_zio)) =
     replicate 192 7"
proof -
  have "unat (rc_devidx (rm_col example_written ! c)) \<noteq> 2" if "c < 4" "c \<notin> {2}" for c
    using that example_written(4) by auto
  then have alive: "\<forall>c<rm_cols example_written. c \<notin> {2} \<longrightarrow> \<not> vdev_dead example_vd (rc_devidx (rm_col example_written ! c)) \<and>
      \<not> vdev_stale example_vd (rc_devidx (rm_col example_written ! c))"
    by (auto simp: example_written(2) example_vd_def dest: arg_cong [where f = unat])
  have ans: "answers {2} example_written example_disk"
    using raidz_wf_simps(6) [OF parity_wf [OF example_written(1)]]
    by (simp add: answers_def example_disk_def reads_def)
  have g: "raidz_geometry (vdev_ashift example_vd) (vdev_children example_vd) (vdev_nparity example_vd)
      (io_offset example_zio) (io_size example_zio)"
    using example_geometry(1) by (simp add: example_vd_def example_zio_def)
  have x: "{2} \<subseteq> {..<rm_cols example_written}" "card {2 :: nat} \<le> unat (vdev_nparity example_vd)"
    by (simp_all add: example_written(2) example_vd_def)
  have l: "length (replicate 192 (7 :: u64)) = unat (io_size example_zio) div 8"
    "length (io_data example_zio) = unat (io_size example_zio) div 8" "io_type example_zio = ZIO_TYPE_READ"
    by (simp_all add: example_zio_def)
  show ?thesis
    using raidz_write_read [where fresh = "\<lambda>_ _. 0" and fresh' = "\<lambda>_ _. 0", OF g l(1,2,3),
        of "\<lambda>ws. ws = replicate 192 7" "{2}" example_disk example_disk, folded example_written_def, OF refl x alive ans ans]
    by blast
qed

text \<open>
  C2. A read that ends without an error, other than to read more columns, delivers data that passes
  the checksum, whatever the columns held and whatever errors they had.
\<close>

theorem raidz_read_checksummed:
  assumes "raidz_wf rm" "io_type zio = ZIO_TYPE_READ" "ir_error (vdev_raidz_io_done vd ck zio rm) = None"
    and "\<forall>ios. ir_next (vdev_raidz_io_done vd ck zio rm) \<noteq> Reread ios"
  shows "ck (raidz_data (ir_map (vdev_raidz_io_done vd ck zio rm)))"
  using assms by (rule io_done_ck)


theorem raidz_read_checksummed_witness:
  "raidz_data (ir_map (vdev_raidz_io_done example_vd (\<lambda>ws. ws = replicate 192 7) example_zio example_written)) =
     replicate 192 7"
proof -
  let ?ck = "\<lambda>ws. ws = replicate 192 7"
  note wf = parity_wf [OF example_written(1)]
  have ty: "io_type example_zio = ZIO_TYPE_READ" by (simp add: example_zio_def)
  have "candidate example_written = example_written" by (simp add: candidate_def example_written(5))
  then obtain rm n ev where "read_step ?ck example_zio example_written = (rm, Some (n, ev))"
    using read_step [OF wf, of ?ck example_zio] example_written(5,6)
    by (auto split: prod.splits option.splits)
  then have r: "vdev_raidz_io_done example_vd ?ck example_zio example_written = read_done example_vd example_zio rm None n ev"
    by (simp add: io_done_read [OF ty])
  show ?thesis
    by (rule raidz_read_checksummed [OF wf ty]) (simp_all add: r)
qed

lemma raidz_data_inj:
  assumes "raidz_wf orig" "raidz_damaged X orig rm" "raidz_data rm = raidz_data orig" "c \<in> set (data_cols orig)"
  shows "rc_data (rm_col rm ! c) = rc_data (rm_col orig ! c)"
proof -
  note d = damaged_simps [OF assms(2)]
  let ?f = "rm_firstdatacol orig" and ?w = "\<lambda>rm. map rc_data (drop (rm_firstdatacol orig) (rm_col rm))"
  have l: "length (rm_col rm) = rm_cols orig" "length (rm_col orig) = rm_cols orig"
    using raidz_wf_simps(1) [OF assms(1)] raidz_wf_simps(1) [OF d(6)] d(1) by simp_all
  have "length (rc_data (rm_col rm ! i)) = length (rc_data (rm_col orig ! i))" if "i < rm_cols orig" for i
    using that raidz_wf_simps(6) [OF assms(1)] raidz_wf_simps(6) [OF d(6)] d(1,3) by simp
  then have "\<forall>(x, y) \<in> set (zip (?w rm) (?w orig)). length x = length y"
    using l by (auto simp: set_zip)
  then have "?w rm = ?w orig"
    using concat_eq_concat_iff [of "?w rm" "?w orig"] assms(3) l by (simp add: raidz_data_def d(2))
  from arg_cong [OF this, of "\<lambda>l. l ! (c - ?f)"] show ?thesis
    using assms(4) l by (auto simp: data_cols_set diff_less_mono)
qed

text \<open>
  C13. Repairs after the combinatorial phase.  On a double-parity stripe whose Q column could not be
  read and one of whose data columns was silently wrong, the read recovers the data from P: it
  ends without an error and the data delivered is the stripe's.  The repair then also rewrites the
  Q column, and with the contents of the buffer of the failed read, so with wrong contents
  wherever that buffer does not happen to hold Q: this path never recomputes Q.
\<close>

theorem raidz_repair_stale_q:
  assumes par: "raidz_parity orig" "rm_firstdatacol orig = 2" "rm_cols orig \<le> 256"
    and dam: "raidz_damaged {1, y} orig rm" "y \<in> set (data_cols orig)"
    and wrong: "rc_data (rm_col rm ! y) \<noteq> rc_data (rm_col orig ! y)"
    and errs: "errs rm = {1}" and tried: "list_all rc_tried (rm_col rm)"
    and zio: "io_type zio = ZIO_TYPE_READ" "vdev_writeable vd"
  defines "r \<equiv> vdev_raidz_io_done vd (\<lambda>ws. ws = raidz_data orig) zio rm"
  shows "ir_error r = None \<and> raidz_data (ir_map r) = raidz_data orig \<and>
    (\<exists>ios io. ir_next r = Repair ios \<and>
      io \<in> set ios \<and> ci_col io = 1 \<and> ci_type io = ZIO_TYPE_WRITE \<and> ci_data io = rc_data (rm_col rm ! 1))"
proof -
  let ?ck = "\<lambda>ws. ws = raidz_data orig"
  note d = damaged_simps [OF dam(1)] and w = raidz_wf_simps [OF parity_wf [OF par(1)]]
  have len: "length (rm_col rm) = rm_cols orig" using raidz_wf_simps(1) [OF d(6)] d(1) by simp
  have ne: "raidz_data rm \<noteq> raidz_data orig" using raidz_data_inj [OF parity_wf [OF par(1)] dam(1) _ dam(2)] wrong by blast
  have k: "errs rm \<inter> {rm_firstdatacol rm..} = {}" by (simp add: errs d(2) par(2))
  then have cand: "candidate rm = rm" by (simp add: candidate_def)
  have st: "read_step ?ck zio rm = (rm, None)"
    using k ne by (simp add: read_step_def produce_data_def count_errors errs d(2) par(2))
  let ?rm = "rm\<lparr>rm_missingdata := 0, rm_missingparity := 0\<rparr>"
  have wf: "raidz_wf ?rm" using d(6) by simp
  obtain rm' res where c1: "combine_one ?ck (io_speculative zio) vdev_raidz_reconstruct_p Corrected_P (data_cols ?rm) ?rm = (rm', res)"
    by fastforce
  note one = combine_one [OF reconstruct_p_recomputes [OF wf] subset_refl, of ?ck "io_speculative zio" Corrected_P]
  have "raidz_data (vdev_raidz_reconstruct_p ?rm y) = raidz_data orig"
    using par dam w(2) by (intro reconstruct_data(1) [where X = "{1, y}"]) (auto simp: data_cols_set)
  then obtain es where res: "res = Some es" using one(1) c1 dam(2) d(7) by (cases res) auto
  then obtain c where c: "c \<in> set (data_cols orig)" "rm' = blame c (vdev_raidz_reconstruct_p ?rm c)"
    using one(2) c1 d(7) by auto
  obtain d' where "vdev_raidz_reconstruct_p ?rm c = upd_col c (set_data d') ?rm"
    using reconstruct_p_recomputes [OF wf] c(1) d(7) by (auto simp: recomputes_def)
  then have q: "rm_col rm' ! 1 = rm_col rm ! 1" "rm_cols rm' = rm_cols orig"
    using c par(2) d(1) by (auto simp: blame_def data_cols_set)
  have "0 \<notin> errs rm" by (simp add: errs)
  then have "rc_error (rm_col rm ! 0) = None" using w(5) d(1) by (simp add: errs_def)
  then have comb: "combine ?ck (io_speculative zio) ?rm = (rm', Some es)"
    using c1 res by (simp add: combine_def Let_def VDEV_RAIDZ_P_def data_cols_def)
  have "filter (\<lambda>c. \<not> rc_tried (rm_col rm ! c)) [0..<rm_cols rm] = []"
    using tried len d(1) by (auto simp: filter_empty_conv list_all_length)
  then have r: "r = read_done vd zio rm' None 1 es"
    using comb by (simp add: r_def io_done_read [OF zio(1)] st read_retry_def Let_def count_errors errs d(2) par(2))
  have "1 \<in> errs rm" by (simp add: errs)
  then have "rc_error (rm_col rm ! 1) \<noteq> None" by (simp add: errs_def)
  then have "1 \<in> set (filter (\<lambda>c. rc_error (rm_col rm' ! c) \<noteq> None) [0..<rm_cols rm'])"
    using q w(4) par(2) by simp
  then have "raidz_child_io ZIO_TYPE_WRITE rm' 1 \<in> set (map (raidz_child_io ZIO_TYPE_WRITE rm')
      (filter (\<lambda>c. rc_error (rm_col rm' ! c) \<noteq> None) [0..<rm_cols rm']))"
    unfolding set_map by (rule imageI)
  moreover have "ci_data (raidz_child_io ZIO_TYPE_WRITE rm' 1) = rc_data (rm_col rm ! 1)"
    "ci_col (raidz_child_io ZIO_TYPE_WRITE rm' 1) = 1" "ci_type (raidz_child_io ZIO_TYPE_WRITE rm' 1) = ZIO_TYPE_WRITE"
    using q by (simp_all add: raidz_child_io_def Let_def)
  moreover have "ir_next r = Repair (map (raidz_child_io ZIO_TYPE_WRITE rm')
      (filter (\<lambda>c. rc_error (rm_col rm' ! c) \<noteq> None) [0..<rm_cols rm']))"
    using zio(2) by (simp add: r read_done_def)
  moreover have e: "ir_error r = None" by (simp add: r)
  moreover have "raidz_data (ir_map r) = raidz_data orig"
    using io_done_ck [OF d(6) zio(1), of vd ?ck] e zio(2) by (simp add: r_def [symmetric]) (simp add: r read_done_def)
  ultimately show ?thesis by metis
qed

definition example_failed :: raidz_map where
  "example_failed =
     (let rm = upd_col 4 (set_data [9]) example_stripe;
          rm = upd_col 1 (\<lambda>rc. rc\<lparr>rc_error := Some EIO, rc_data := map (\<lambda>w. w + 1) (rc_data rc)\<rparr>) rm
      in rm\<lparr>rm_col := map (rc_tried_update (\<lambda>_. True)) (rm_col rm)\<rparr>)"

lemma example_stripe_error: "c < 5 \<Longrightarrow> rc_error (rm_col example_stripe ! c) = None"
proof -
  let ?rm = "\<lparr>rm_cols = 5, rm_bigcols = 0, rm_asize = 0, rm_missingdata = 0,
     rm_missingparity = 0, rm_firstdatacol = 2,
     rm_col = map example_col [[0, 0], [0, 0], [0x0123456789abcdef, 0xff], [0xdeadbeef, 7], [0x80]]\<rparr>"
  assume c: "c < 5"
  have wf: "raidz_wf ?rm" by (simp add: raidz_wf_def all_below)
  have "rc_error (example_col ws) = None" for ws by (simp add: example_col_def)
  moreover have "c = 0 \<or> c = 1 \<or> c = 2 \<or> c = 3 \<or> c = 4" using c by linarith
  ultimately show ?thesis
    using c same_but_simps(4) [OF generate_same [OF wf], of c, folded example_stripe_def] by auto
qed

lemma example_failed:
  "raidz_damaged {1, 4} example_stripe example_failed" "errs example_failed = {1}"
  "list_all rc_tried (rm_col example_failed)" "rc_data (rm_col example_failed ! 4) = [9]"
  "rc_data (rm_col example_failed ! 1) = map (\<lambda>w. w + 1) (rc_data (rm_col example_stripe ! 1))"
proof -
  note ex = example_stripe and w = raidz_wf_simps [OF example_stripe(5)]
  have len: "length (rm_col example_stripe) = 5" using w(1) ex(2) by simp
  have c: "rm_col example_failed ! c = rc_tried_update (\<lambda>_. True)
      (if c = 4 then set_data [9] (rm_col example_stripe ! c)
       else if c = 1 then (rm_col example_stripe ! c)\<lparr>rc_error := Some EIO, rc_data := map (\<lambda>w. w + 1) (rc_data (rm_col example_stripe ! c))\<rparr>
       else rm_col example_stripe ! c)" if "c < 5" for c
    using that len by (auto simp: example_failed_def Let_def upd_col_nth)
  have f: "rm_cols example_failed = 5" "rm_firstdatacol example_failed = 2" "length (rm_col example_failed) = 5"
    using ex(2,3) len by (simp_all add: example_failed_def Let_def)
  have "length (rc_data (rm_col example_stripe ! 4)) = 1" using ex(9) by simp
  then have "raidz_wf example_failed"
    using f len ex(2,3) by (intro raidz_wf_shape [OF ex(5)]) (auto simp: c)
  then show "raidz_damaged {1, 4} example_stripe example_failed"
    using f ex(2,3) by (auto simp: raidz_damaged_def c)
  show "errs example_failed = {1}"
    using example_stripe_error by (auto simp: errs_def f c split: if_splits)
  show "list_all rc_tried (rm_col example_failed)" using f by (auto simp: list_all_length c)
  show "rc_data (rm_col example_failed ! 4) = [9]"
    "rc_data (rm_col example_failed ! 1) = map (\<lambda>w. w + 1) (rc_data (rm_col example_stripe ! 1))"
    by (simp_all add: c)
qed

theorem raidz_repair_stale_q_witness:
  "\<exists>ios io. ir_next (vdev_raidz_io_done example_vd (\<lambda>ws. ws = raidz_data example_stripe) example_zio example_failed) = Repair ios \<and>
    io \<in> set ios \<and> ci_col io = 1 \<and> ci_type io = ZIO_TYPE_WRITE \<and> ci_data io \<noteq> rc_data (rm_col example_stripe ! 1)"
proof -
  have "rc_data (rm_col example_stripe ! 1) \<noteq> []"
    using raidz_wf_simps(6) [OF example_stripe(5), of 1] raidz_wf_simps(8,9) [OF example_stripe(5)] example_stripe(2,3,6)
    by auto
  then have "rc_data (rm_col example_failed ! 1) \<noteq> rc_data (rm_col example_stripe ! 1)"
    unfolding example_failed(5) by (cases "rc_data (rm_col example_stripe ! 1)") auto
  then show ?thesis
    using raidz_repair_stale_q [OF example_stripe(1,3) _ example_failed(1) _ _ example_failed(2,3), of example_zio example_vd]
    by (force simp: example_stripe(2,4,9) example_failed(4) example_zio_def example_vd_def)
qed


lemma count_errors_eio:
  assumes "c < rm_cols rm" "rc_error (rm_col rm ! c) = Some EIO"
  shows "cn_error (count_errors rm) = Some EIO"
proof -
  let ?f = "\<lambda>n. foldl (count_col rm)
    \<lparr>cn_error = None, cn_numerrors = 0, cn_parity = 0, cn_data = 0, cn_unexpected = 0\<rparr> [0..<n]"
  have "c < n \<Longrightarrow> cn_error (?f n) = Some EIO" for n
  proof (induction n)
    case (Suc n)
    then show ?case
      using assms(2) by (cases "c = n") (auto simp: count_col_def Let_def split: option.splits)
  qed simp
  then show ?thesis using assms(1) by (simp add: count_errors_def)
qed

text \<open>
  C14. A read all of whose columns have been tried and more of whose columns have errors than there
  are parity columns fails: no data is delivered and nothing is repaired.  It fails with
  \<open>EIO\<close> when some column did, since that may be worth a retry.
\<close>

theorem raidz_read_gives_up:
  assumes wf: "raidz_wf rm" and ty: "io_type zio = ZIO_TYPE_READ"
    and errs: "rm_firstdatacol rm < card (errs rm)" and tried: "list_all rc_tried (rm_col rm)"
  shows "ir_error (vdev_raidz_io_done vd ck zio rm) \<noteq> None \<and> ir_next (vdev_raidz_io_done vd ck zio rm) = Next_Stage \<and>
    ((\<exists>c<rm_cols rm. rc_error (rm_col rm ! c) = Some EIO) \<longrightarrow> ir_error (vdev_raidz_io_done vd ck zio rm) = Some EIO)"
proof -
  have "read_step ck zio rm = (rm, None)" using errs by (simp add: read_step_def)
  moreover have "filter (\<lambda>c. \<not> rc_tried (rm_col rm ! c)) [0..<rm_cols rm] = []"
    using tried raidz_wf_simps(1) [OF wf] by (auto simp: filter_empty_conv list_all_length)
  moreover have "cn_error (count_errors rm) \<noteq> None" using errs by (auto simp: count_errors)
  ultimately have "ir_error (vdev_raidz_io_done vd ck zio rm) = cn_error (count_errors rm)"
    "ir_next (vdev_raidz_io_done vd ck zio rm) = Next_Stage"
    using errs by (simp_all add: io_done_read [OF ty] read_retry_def Let_def count_errors read_done_def)
  then show ?thesis
    using count_errors_eio [of _ rm] \<open>cn_error (count_errors rm) \<noteq> None\<close> by auto
qed

definition example_dead :: raidz_map where
  "example_dead = example_stripe\<lparr>rm_col := map (vdev_raidz_child_done (Some EIO)) (rm_col example_stripe)\<rparr>"

theorem raidz_read_gives_up_witness:
  "ir_error (vdev_raidz_io_done example_vd (\<lambda>_. True) example_zio example_dead) = Some EIO"
proof -
  note ex = example_stripe and w = raidz_wf_simps [OF example_stripe(5)]
  have len: "length (rm_col example_stripe) = 5" using w(1) ex(2) by simp
  have c: "rm_col example_dead ! c = vdev_raidz_child_done (Some EIO) (rm_col example_stripe ! c)" if "c < 5" for c
    using that len by (simp add: example_dead_def)
  have f: "rm_cols example_dead = 5" "rm_firstdatacol example_dead = 2" "length (rm_col example_dead) = 5"
    using ex(2,3) len by (simp_all add: example_dead_def)
  have wf: "raidz_wf example_dead"
    using f len ex(2,3) by (intro raidz_wf_shape [OF ex(5)]) (auto simp: c vdev_raidz_child_done_def)
  have e: "errs example_dead = {..<5}" using f by (auto simp: errs_def c vdev_raidz_child_done_def)
  have t: "list_all rc_tried (rm_col example_dead)" by (simp add: list_all_length f c vdev_raidz_child_done_def)
  have "\<exists>c<rm_cols example_dead. rc_error (rm_col example_dead ! c) = Some EIO"
    using f c [of 0] by (intro exI [of _ 0]) (simp add: vdev_raidz_child_done_def)
  then show ?thesis
    using raidz_read_gives_up [OF wf _ _ t, of example_zio example_vd "\<lambda>_. True"] by (simp add: e f example_zio_def)
qed

text \<open>
  C15. A write reports success exactly when no column failed, or when it is not a failfast write and
  no more columns failed than there are parity columns.
\<close>

theorem raidz_write_outcome:
  assumes "io_type zio = ZIO_TYPE_WRITE"
  shows "ir_error (vdev_raidz_io_done vd ck zio rm) = None \<longleftrightarrow>
    errs rm = {} \<or> (card (errs rm) \<le> rm_firstdatacol rm \<and> \<not> io_failfast zio)"
  using assms by (auto simp: vdev_raidz_io_done_def Let_def count_errors)

theorem raidz_write_outcome_witness:
  "ir_error (vdev_raidz_io_done example_vd (\<lambda>_. True) (example_zio\<lparr>io_type := ZIO_TYPE_WRITE\<rparr>) example_failed) = None"
  using raidz_write_outcome [of "example_zio\<lparr>io_type := ZIO_TYPE_WRITE\<rparr>" example_vd "\<lambda>_. True" example_failed]
    damaged_simps(2) [OF example_failed(1)] example_stripe(3)
  by (simp add: example_failed(2) example_zio_def)


section \<open>Opening the device\<close>

lemma open_children:
  "ro_numerrors (foldl open_child st chs) = ro_numerrors st + length [e. Inl e \<leftarrow> chs]"
  "ro_lasterror (foldl open_child st chs) = (if [e. Inl e \<leftarrow> chs] = [] then ro_lasterror st else Some (last [e. Inl e \<leftarrow> chs]))"
  "ro_asize (foldl open_child st chs) - 1 = foldl min (ro_asize st - 1) (map (\<lambda>a. a - 1) [asize. Inr (asize, _) \<leftarrow> chs])"
  "ro_ashift (foldl open_child st chs) = Max (insert (ro_ashift st) (set [ash. Inr (_, ash) \<leftarrow> chs]))"
proof (induction chs arbitrary: st)
  case (Cons ch chs)
  { case 1 show ?case using Cons(1) by (auto simp: open_child_def split: sum.splits prod.splits) next
    case 2 show ?case using Cons(2) by (auto simp: open_child_def split: sum.splits prod.splits) next
    case 3 show ?case using Cons(3) by (auto simp: open_child_def split: sum.splits prod.splits) next
    case 4 show ?case using Cons(4) by (cases "set [ash. Inr (_, ash) \<leftarrow> chs] = {}")
        (auto simp: open_child_def max.assoc split: sum.splits prod.splits) }
qed simp_all

lemma foldl_min:
  fixes x :: "'a :: linorder"
  assumes "x \<le> z" "\<forall>y \<in> set xs. x \<le> y" "z = x \<or> x \<in> set xs"
  shows "foldl min z xs = x"
  using assms by (induction xs arbitrary: z) (auto simp: min_def)

lemma open_asize:
  assumes "\<forall>a \<in> set [asize. Inr (asize, _) \<leftarrow> chs]. 0 < a" "ro_asize st = 0"
  shows "ro_asize (foldl open_child st chs) =
    (let A = [asize. Inr (asize, _) \<leftarrow> chs] in if A = [] then 0 else Min (set A))"
proof -
  define A where "A = [asize. Inr (asize, _) \<leftarrow> chs]"
  have e: "ro_asize (foldl open_child st chs) - 1 = foldl min (-1) (map (\<lambda>a. a - 1) A)"
    using open_children(3) [of st chs] assms(2) by (simp add: A_def)
  show ?thesis
  proof (cases "A = []")
    case True
    then show ?thesis using e by (simp add: A_def [symmetric])
  next
    case False
    define m where "m = Min (set A)"
    have m: "m \<in> set A" "\<forall>a \<in> set A. m \<le> a" using False by (simp_all add: m_def)
    have pos: "0 < a" if "a \<in> set A" for a using assms(1) that unfolding A_def by blast
    have "m - 1 \<le> a - 1" if "a \<in> set A" for a
      using m(2) that pos [OF that] pos [OF m(1)]
      by (simp add: word_le_nat_alt unat_sub_le word_gt_0 Suc_le_eq unat_gt_0 diff_le_mono)
    then have "foldl min (-1) (map (\<lambda>a. a - 1) A) = m - 1" using m by (intro foldl_min) auto
    then show ?thesis using False e by (simp add: A_def [symmetric] m_def [symmetric])
  qed
qed

text \<open>
  C16. A label with more parity than the two columns supported, or with no more children than
  parity columns, is refused with \<open>EINVAL\<close>.  Otherwise opening succeeds exactly when no more
  children fail to open than there are parity columns, and else reports the error of the last
  child that failed and that there are not enough replicas.  The size it hands back is the number
  of children times the size of the smallest child that opened (all sizes being nonzero), and 0
  when none did: the caller starts it at 0, which the subtraction of 1 turns into the largest
  value.  The shift it hands back is the largest of the caller's and those of the opened children.
\<close>

theorem raidz_open_outcome:
  fixes children :: "child_open list"
  defines "failed \<equiv> [e. Inl e \<leftarrow> children]" and "A \<equiv> [asize. Inr (asize, _) \<leftarrow> children]"
  assumes "0 < nparity" "\<forall>a \<in> set A. 0 < a"
  shows "vdev_raidz_open nparity children 0 ashift =
    (if VDEV_RAIDZ_MAXPARITY < nparity \<or> length children \<le> nparity then ((Some EINVAL, Some VDEV_AUX_BAD_LABEL), 0, ashift)
     else (if length failed \<le> nparity then (None, None) else (Some (last failed), Some VDEV_AUX_NO_REPLICAS),
       (if A = [] then 0 else Min (set A)) * of_nat (length children),
       Max (insert ashift (set [ash. Inr (_, ash) \<leftarrow> children]))))"
proof -
  let ?st = "\<lparr>ro_asize = 0, ro_ashift = ashift, ro_lasterror = None, ro_numerrors = 0\<rparr>"
  note o = open_children [of ?st children, folded failed_def]
  have "ro_asize (foldl open_child ?st children) = (if A = [] then 0 else Min (set A))"
    using open_asize [of children ?st] assms(4) by (simp add: A_def Let_def)
  moreover have "ro_lasterror (foldl open_child ?st children) = Some (last failed)" if "nparity < length failed"
    using o(2) that by (cases failed) simp_all
  ultimately show ?thesis
    using o(1,4) by (auto simp: vdev_raidz_open_def Let_def)
qed

theorem raidz_open_outcome_witness:
  "vdev_raidz_open 1 [Inr (0x4000, 9), Inl ENXIO, Inr (0x3000, 12)] 0 9 = ((None, None), 0x9000, 12)"
  using raidz_open_outcome [of 1 "[Inr (0x4000, 9), Inl ENXIO, Inr (0x3000, 12)]" 9]
  by (simp add: VDEV_RAIDZ_MAXPARITY_def)

end
