(* ===== verification/Avl.thy ===== *)
theory Avl
  imports Prelude "HOL-Library.Multiset"
begin

text \<open>
  The AVL trees of the kernel (\<^verbatim>\<open>common/avl/avl.c\<close>, \<^verbatim>\<open>uts/common/sys/avl_impl.h\<close>).

  A node holds its two children, its balance and the user's data; the children are addressed by
  an index, 0 or 1, as in the code.  The parent link and the child index of a node, which the code
  stores in the node, are its position: a pointer to a node of a tree is a pair \<open>(path, node)\<close> of
  the subtree below it and the list of its ancestors, nearest first, each with the index of the
  child the path goes through and the other child.  Following the parent link drops the first
  ancestor; storing into a node rebuilds its ancestors.  An \<^verbatim>\<open>avl_index_t\<close>, a parent and the index
  of a missing child, is the path to that place.  The comparison function is an argument.
\<close>

unbundle bit_operations_syntax

section \<open>Nodes and places\<close>

datatype 'a avl_node = AVL_NULL | AVL_NODE (c0: "'a avl_node") (c1: "'a avl_node") (bal: int) (dat: 'a)

type_synonym 'a frame = "nat \<times> 'a avl_node \<times> int \<times> 'a"
type_synonym 'a place = "'a frame list \<times> 'a avl_node"

record 'a avl_tree =
  avl_root :: "'a avl_node"
  avl_numnodes :: nat

fun avl_child :: "nat \<Rightarrow> 'a avl_node \<Rightarrow> 'a avl_node" where
  "avl_child i AVL_NULL = AVL_NULL"
| "avl_child i (AVL_NODE l r b x) = (if i = 0 then l else r)"

fun set_child :: "nat \<Rightarrow> 'a avl_node \<Rightarrow> 'a avl_node \<Rightarrow> 'a avl_node" where
  "set_child i c AVL_NULL = AVL_NULL"
| "set_child i c (AVL_NODE l r b x) = (if i = 0 then AVL_NODE c r b x else AVL_NODE l c b x)"

fun avl_xbalance :: "'a avl_node \<Rightarrow> int" where
  "avl_xbalance AVL_NULL = 0"
| "avl_xbalance (AVL_NODE l r b x) = b"

fun avl_setbalance :: "int \<Rightarrow> 'a avl_node \<Rightarrow> 'a avl_node" where
  "avl_setbalance b AVL_NULL = AVL_NULL"
| "avl_setbalance b (AVL_NODE l r b' x) = AVL_NODE l r b x"

text \<open>The node of an ancestor, given the child the path goes through.\<close>

fun plug :: "'a frame \<Rightarrow> 'a avl_node \<Rightarrow> 'a avl_node" where
  "plug (i, other, b, x) t = (if i = 0 then AVL_NODE t other b x else AVL_NODE other t b x)"

definition rebuild :: "'a frame list \<Rightarrow> 'a avl_node \<Rightarrow> 'a avl_node" where
  "rebuild path t = fold plug path t"

text \<open>Going down to a child, and down the children of one side as long as there are any.\<close>

fun down :: "nat \<Rightarrow> 'a place \<Rightarrow> 'a place" where
  "down i (path, AVL_NULL) = (path, AVL_NULL)"
| "down i (path, AVL_NODE l r b x) =
     (if i = 0 then ((i, r, b, x) # path, l) else ((i, l, b, x) # path, r))"

function descend :: "nat \<Rightarrow> 'a place \<Rightarrow> 'a place" where
  "descend i (path, t) =
     (if avl_child i t = AVL_NULL then (path, t) else descend i (down i (path, t)))"
  by pat_completeness auto
termination
proof (relation "measure (\<lambda>(i, p). size (snd p))")
  fix i path and t :: "'a avl_node"
  assume "avl_child i t \<noteq> AVL_NULL"
  then show "((i, down i (path, t)), i, path, t) \<in> measure (\<lambda>(i, p). size (snd p))"
    by (cases t) auto
qed simp

section \<open>Walking\<close>

definition avl_child2balance :: "int list" where
  "avl_child2balance = [-1, 1]"

definition avl_balance2child :: "nat list" where
  "avl_balance2child = [0, 0, 1]"

text \<open>Back through the parents until one is reached from its child \<open>i\<close>.\<close>

fun ascend :: "nat \<Rightarrow> 'a place \<Rightarrow> 'a place option" where
  "ascend i ([], t) = None"
| "ascend i (f # path, t) =
     (if fst f = i then Some (path, plug f t) else ascend i (path, plug f t))"

definition avl_walk :: "'a place \<Rightarrow> nat \<Rightarrow> 'a place option" where
  "avl_walk oldnode left =
     (let right = 1 - left
      in if snd oldnode = AVL_NULL then None
         else if avl_child left (snd oldnode) \<noteq> AVL_NULL then Some (descend right (down left oldnode))
         else ascend right oldnode)"

definition avl_first :: "'a avl_tree \<Rightarrow> 'a place option" where
  "avl_first tree = (if avl_root tree = AVL_NULL then None else Some (descend 0 ([], avl_root tree)))"

definition avl_last :: "'a avl_tree \<Rightarrow> 'a place option" where
  "avl_last tree = (if avl_root tree = AVL_NULL then None else Some (descend 1 ([], avl_root tree)))"

text \<open>An index is the path to a missing child; its first ancestor is the index's node.\<close>

definition avl_nearest :: "'a frame list \<Rightarrow> nat \<Rightarrow> 'a place option" where
  "avl_nearest where direction =
     (case where of
        [] \<Rightarrow> None
      | f # path \<Rightarrow>
          let child = fst f; node = (path, plug f AVL_NULL)
          in if child \<noteq> direction then Some node else avl_walk node direction)"

text \<open>The search: the node found, or the index of the place where the value would go.\<close>

fun find_from :: "('v \<Rightarrow> 'a \<Rightarrow> int) \<Rightarrow> 'v \<Rightarrow> 'a frame list \<Rightarrow> 'a avl_node \<Rightarrow> 'a place + 'a frame list" where
  "find_from compar value path AVL_NULL = Inr path"
| "find_from compar value path (AVL_NODE l r b x) =
     (let diff = compar value x
      in if diff = 0 then Inl (path, AVL_NODE l r b x)
         else let child = avl_balance2child ! nat (1 + diff)
              in if child = 0 then find_from compar value ((child, r, b, x) # path) l
                 else find_from compar value ((child, l, b, x) # path) r)"

definition avl_find :: "('v \<Rightarrow> 'a \<Rightarrow> int) \<Rightarrow> 'a avl_tree \<Rightarrow> 'v \<Rightarrow> 'a place + 'a frame list" where
  "avl_find compar tree value = find_from compar value [] (avl_root tree)"

section \<open>Rotation\<close>

text \<open>The subtree after the rotation, and whether it is shorter than before.\<close>

definition avl_rotation :: "'a avl_node \<Rightarrow> int \<Rightarrow> 'a avl_node \<times> bool" where
  "avl_rotation node balance =
     (let left = (if balance < 0 then 0 else 1);
          right = 1 - left;
          left_heavy = balance div 2;
          right_heavy = - left_heavy;
          child = avl_child left node;
          child_bal = avl_xbalance child
      in if child_bal \<noteq> right_heavy then
           let child_bal = child_bal + right_heavy;
               cright = avl_child right child;
               node = avl_setbalance (- child_bal) (set_child left cright node);
               child = avl_setbalance child_bal (set_child right node child)
           in (child, child_bal = 0)
         else
           let gchild = avl_child right child;
               gleft = avl_child left gchild;
               gright = avl_child right gchild;
               node = set_child left gright node;
               child = set_child right gleft child;
               balance = avl_xbalance gchild;
               child = avl_setbalance (if balance = right_heavy then left_heavy else 0) child;
               node = avl_setbalance (if balance = left_heavy then right_heavy else 0) node;
               gchild = avl_setbalance 0 (set_child right node (set_child left child gchild))
           in (gchild, True))"

section \<open>Insertion\<close>

text \<open>Back up the tree from a subtree that has become taller.\<close>

fun insert_fix :: "'a frame list \<Rightarrow> 'a avl_node \<Rightarrow> 'a avl_node" where
  "insert_fix [] t = t"
| "insert_fix ((which_child, other, old_balance, x) # path) t =
     (let node = plug (which_child, other, old_balance, x) t;
          new_balance = old_balance + avl_child2balance ! which_child
      in if new_balance = 0 then rebuild path (avl_setbalance 0 node)
         else if old_balance \<noteq> 0 then rebuild path (fst (avl_rotation node new_balance))
         else insert_fix path (avl_setbalance new_balance node))"

definition avl_insert :: "'a avl_tree \<Rightarrow> 'a \<Rightarrow> 'a frame list \<Rightarrow> 'a avl_tree" where
  "avl_insert tree new_data where =
     tree\<lparr>avl_root := insert_fix where (AVL_NODE AVL_NULL AVL_NULL 0 new_data),
          avl_numnodes := Suc (avl_numnodes tree)\<rparr>"

definition avl_insert_here :: "'a avl_tree \<Rightarrow> 'a \<Rightarrow> 'a place \<Rightarrow> nat \<Rightarrow> 'a avl_tree" where
  "avl_insert_here tree new_data here direction =
     (let child = direction;
          (node, child) = (if avl_child child (snd here) \<noteq> AVL_NULL
                           then (descend (1 - child) (down child here), 1 - child) else (here, child))
      in avl_insert tree new_data (fst (down child node)))"

text \<open>Adding a value that is there already panics: no tree.\<close>

definition avl_add :: "('a \<Rightarrow> 'a \<Rightarrow> int) \<Rightarrow> 'a avl_tree \<Rightarrow> 'a \<Rightarrow> 'a avl_tree option" where
  "avl_add compar tree new_node =
     (case avl_find compar tree new_node of
        Inl node \<Rightarrow> None
      | Inr where \<Rightarrow> Some (avl_insert tree new_node where))"

section \<open>Removal\<close>

text \<open>Back up the tree from a subtree that has become shorter.\<close>

fun remove_fix :: "'a frame list \<Rightarrow> 'a avl_node \<Rightarrow> 'a avl_node" where
  "remove_fix [] t = t"
| "remove_fix ((which_child, other, old_balance, x) # path) t =
     (let node = plug (which_child, other, old_balance, x) t;
          new_balance = old_balance - avl_child2balance ! which_child
      in if old_balance = 0 then rebuild path (avl_setbalance new_balance node)
         else if new_balance = 0 then remove_fix path (avl_setbalance new_balance node)
         else let (t', shorter) = avl_rotation node new_balance
              in if \<not> shorter then rebuild path t' else remove_fix path t')"

text \<open>
  A node with two children changes places with a neighbour first: \<open>swap_leaf\<close> is the place of the
  node to delete after that.  The neighbour's data is in the node's frame; the node that is left
  at the end of the path has at most one child.
\<close>

definition swap_leaf :: "'a place \<Rightarrow> 'a place" where
  "swap_leaf delete =
     (let (path, d) = delete
      in if avl_child 0 d \<noteq> AVL_NULL \<and> avl_child 1 d \<noteq> AVL_NULL then
           let left = avl_balance2child ! nat (avl_xbalance d + 1);
               right = 1 - left;
               (below, node) = descend right ([], avl_child left d)
           in (below @ (left, avl_child right d, avl_xbalance d, dat node) # path, node)
         else delete)"

definition avl_remove :: "'a avl_tree \<Rightarrow> 'a place \<Rightarrow> 'a avl_tree" where
  "avl_remove tree delete =
     (let (path, d) = swap_leaf delete;
          node = (if avl_child 0 d \<noteq> AVL_NULL then avl_child 0 d else avl_child 1 d)
      in tree\<lparr>avl_root := remove_fix path node, avl_numnodes := avl_numnodes tree - 1\<rparr>)"

section \<open>Creating and destroying a tree\<close>

definition avl_create :: "'a avl_tree" where
  "avl_create = \<lparr>avl_root = AVL_NULL, avl_numnodes = 0\<rparr>"

text \<open>
  The cookie of the destroying walk: the place of the node handed out last, which is still linked
  to its parent.  The empty path is the value \<^verbatim>\<open>CHILDBIT\<close>: no parent to return to.
\<close>

datatype 'a cookie = Cookie_Null | Cookie "'a frame list"

definition check_right_side :: "'a place \<Rightarrow> 'a place" where
  "check_right_side node = (if avl_child 1 (snd node) \<noteq> AVL_NULL then down 1 node else node)"

definition avl_destroy_nodes ::
  "'a avl_tree \<Rightarrow> 'a cookie \<Rightarrow> 'a option \<times> 'a avl_tree \<times> 'a cookie" where
  "avl_destroy_nodes tree cookie =
     (case cookie of
        Cookie_Null \<Rightarrow>
          (case avl_first tree of
             None \<Rightarrow> (None, tree, Cookie [])
           | Some first \<Rightarrow>
               let node = check_right_side first
               in (Some (dat (snd node)), tree, Cookie (fst node)))
      | Cookie [] \<Rightarrow>
          (None, (if avl_root tree \<noteq> AVL_NULL then tree\<lparr>avl_root := AVL_NULL, avl_numnodes := 0\<rparr> else tree),
           cookie)
      | Cookie (f # path) \<Rightarrow>
          let child = fst f;
              parent = plug f AVL_NULL;
              tree = tree\<lparr>avl_root := rebuild path parent, avl_numnodes := avl_numnodes tree - 1\<rparr>
          in if child = 1 \<or> avl_child 1 parent = AVL_NULL
             then (Some (dat parent), tree, Cookie path)
             else let node = check_right_side (descend 0 (down 1 (path, parent)))
                  in (Some (dat (snd node)), tree, Cookie (fst node)))"

section \<open>The packed links\<close>

text \<open>
  On 64-bit machines a node keeps its parent, its child index and its balance in one word, and an
  index is the node's address with the child index in its lowest bit.
\<close>

definition AVL_XPARENT :: "64 word \<Rightarrow> 64 word" where
  "AVL_XPARENT pcb = pcb AND NOT 7"

definition AVL_SETPARENT :: "64 word \<Rightarrow> 64 word \<Rightarrow> 64 word" where
  "AVL_SETPARENT pcb p = (pcb AND 7) OR p"

definition AVL_XCHILD :: "64 word \<Rightarrow> 64 word" where
  "AVL_XCHILD pcb = drop_bit 2 pcb AND 1"

definition AVL_SETCHILD :: "64 word \<Rightarrow> 32 word \<Rightarrow> 64 word" where
  "AVL_SETCHILD pcb c = (pcb AND NOT 4) OR scast (push_bit 2 c)"

definition AVL_XBALANCE :: "64 word \<Rightarrow> 32 word" where
  "AVL_XBALANCE pcb = ucast ((pcb AND 3) - 1)"

definition AVL_SETBALANCE :: "64 word \<Rightarrow> 32 word \<Rightarrow> 64 word" where
  "AVL_SETBALANCE pcb b = (pcb AND NOT 3) OR scast (b + 1)"

definition AVL_INDEX2NODE :: "64 word \<Rightarrow> 64 word" where
  "AVL_INDEX2NODE x = x AND NOT 1"

definition AVL_INDEX2CHILD :: "64 word \<Rightarrow> 64 word" where
  "AVL_INDEX2CHILD x = x AND 1"

definition AVL_MKINDEX :: "64 word \<Rightarrow> 64 word \<Rightarrow> 64 word" where
  "AVL_MKINDEX n c = n OR c"

section \<open>Order and balance\<close>

fun inorder :: "'a avl_node \<Rightarrow> 'a list" where
  "inorder AVL_NULL = []"
| "inorder (AVL_NODE l r b x) = inorder l @ x # inorder r"

fun height :: "'a avl_node \<Rightarrow> nat" where
  "height AVL_NULL = 0"
| "height (AVL_NODE l r b x) = Suc (max (height l) (height r))"

text \<open>The invariant: the balance is the difference of the heights, and it is at most 1.\<close>

fun avl_ok :: "'a avl_node \<Rightarrow> bool" where
  "avl_ok AVL_NULL \<longleftrightarrow> True"
| "avl_ok (AVL_NODE l r b x) \<longleftrightarrow>
     b = int (height r) - int (height l) \<and> b \<in> {-1, 0, 1} \<and> avl_ok l \<and> avl_ok r"

text \<open>The data before and after a place, and the invariant of a path to a subtree of a given height.\<close>

fun left_of :: "'a frame list \<Rightarrow> 'a list" where
  "left_of [] = []"
| "left_of ((i, other, b, x) # path) = left_of path @ (if i = 0 then [] else inorder other @ [x])"

fun right_of :: "'a frame list \<Rightarrow> 'a list" where
  "right_of [] = []"
| "right_of ((i, other, b, x) # path) = (if i = 0 then x # inorder other else []) @ right_of path"

fun path_ok :: "'a frame list \<Rightarrow> nat \<Rightarrow> bool" where
  "path_ok [] h \<longleftrightarrow> True"
| "path_ok ((i, other, b, x) # path) h \<longleftrightarrow>
     i \<in> {0, 1} \<and> avl_ok other \<and> b \<in> {-1, 0, 1} \<and>
     b = (if i = 0 then int (height other) - int h else int h - int (height other)) \<and>
     path_ok path (Suc (max h (height other)))"

lemma height_0 [simp]: "height t = 0 \<longleftrightarrow> t = AVL_NULL"
  by (cases t) auto

lemma rebuild_simps [simp]: "rebuild [] t = t" "rebuild (f # path) t = rebuild path (plug f t)"
  by (simp_all add: rebuild_def)

lemma inorder_rebuild: "inorder (rebuild path t) = left_of path @ inorder t @ right_of path"
  by (induction path arbitrary: t) auto

lemma avl_ok_rebuild:
  "path_ok path (height t) \<Longrightarrow> avl_ok t \<Longrightarrow> avl_ok (rebuild path t)"
  by (induction path arbitrary: t) (auto simp: max.commute)

text \<open>A place of a tree, and the moves between places.\<close>

definition place_of :: "'a avl_node \<Rightarrow> 'a place \<Rightarrow> bool" where
  "place_of root p \<longleftrightarrow> rebuild (fst p) (snd p) = root \<and> list_all (\<lambda>f. fst f \<in> {0, 1}) (fst p)"

lemma place_path_ok:
  assumes "avl_ok (rebuild path t)" "list_all (\<lambda>f. fst f \<in> {0, 1}) path"
  shows "path_ok path (height t)" "avl_ok t"
proof -
  have "path_ok path (height t) \<and> avl_ok t"
    using assms
  proof (induction path arbitrary: t)
    case (Cons f path)
    obtain i other b x where f: "f = (i, other, b, x)" by (cases f)
    have "path_ok path (height (plug f t)) \<and> avl_ok (plug f t)"
      using Cons by simp
    then show ?case using Cons.prems by (auto simp: f max.commute split: if_splits)
  qed simp
  then show "path_ok path (height t)" "avl_ok t" by simp_all
qed

section \<open>Rotations\<close>

lemma rotation_left:
  assumes "avl_ok l" "avl_ok r" "height l = height r + 2" "avl_rotation (AVL_NODE l r b x) (-2) = (t, shorter)"
  shows "avl_ok t" "inorder t = inorder l @ x # inorder r"
    "shorter \<longleftrightarrow> bal l \<noteq> 0" "height t = (if shorter then height r + 2 else Suc (height r + 2))"
proof -
  obtain ll lr lb lx where l: "l = AVL_NODE ll lr lb lx" using assms(3) by (cases l) auto
  have "avl_ok t \<and> inorder t = inorder l @ x # inorder r \<and> (shorter \<longleftrightarrow> bal l \<noteq> 0) \<and>
      height t = (if shorter then height r + 2 else Suc (height r + 2))"
  proof (cases "lb = 1")
    case True
    then obtain gl gr gb gx where "lr = AVL_NODE gl gr gb gx" using assms(1) l by (cases lr) auto
    then show ?thesis
      using assms True unfolding l avl_rotation_def Let_def by (auto split: if_splits simp: max_def)
  next
    case False
    then show ?thesis
      using assms unfolding l avl_rotation_def Let_def by (auto split: if_splits simp: max_def)
  qed
  then show "avl_ok t" "inorder t = inorder l @ x # inorder r"
    "shorter \<longleftrightarrow> bal l \<noteq> 0" "height t = (if shorter then height r + 2 else Suc (height r + 2))" by simp_all
qed

lemma rotation_right:
  assumes "avl_ok l" "avl_ok r" "height r = height l + 2" "avl_rotation (AVL_NODE l r b x) 2 = (t, shorter)"
  shows "avl_ok t" "inorder t = inorder l @ x # inorder r"
    "shorter \<longleftrightarrow> bal r \<noteq> 0" "height t = (if shorter then height l + 2 else Suc (height l + 2))"
proof -
  obtain rl rr rb rx where r: "r = AVL_NODE rl rr rb rx" using assms(3) by (cases r) auto
  have "avl_ok t \<and> inorder t = inorder l @ x # inorder r \<and> (shorter \<longleftrightarrow> bal r \<noteq> 0) \<and>
      height t = (if shorter then height l + 2 else Suc (height l + 2))"
  proof (cases "rb = -1")
    case True
    then obtain gl gr gb gx where "rl = AVL_NODE gl gr gb gx" using assms(2) r by (cases rl) auto
    then show ?thesis
      using assms True unfolding r avl_rotation_def Let_def by (auto split: if_splits simp: max_def)
  next
    case False
    then show ?thesis
      using assms unfolding r avl_rotation_def Let_def by (auto split: if_splits simp: max_def)
  qed
  then show "avl_ok t" "inorder t = inorder l @ x # inorder r"
    "shorter \<longleftrightarrow> bal r \<noteq> 0" "height t = (if shorter then height l + 2 else Suc (height l + 2))" by simp_all
qed


section \<open>Restoring the balance\<close>

lemma child2balance_simps [simp]: "avl_child2balance ! 0 = -1" "avl_child2balance ! Suc 0 = 1"
  by (simp_all add: avl_child2balance_def)

lemma insert_fix:
  assumes "path_ok path h" "avl_ok t" "height t = Suc h" "h = 0 \<or> bal t \<noteq> 0"
  shows "avl_ok (insert_fix path t) \<and> inorder (insert_fix path t) = left_of path @ inorder t @ right_of path"
  using assms
proof (induction path arbitrary: t h)
  case (Cons f path)
  obtain i other b x where f: "f = (i, other, b, x)" by (cases f)
  note t = Cons.prems(2-4)
  have p: "avl_ok other" "path_ok path (Suc (max h (height other)))" using Cons.prems(1) by (simp_all add: f)
  consider (ok) "i = 0 \<and> b = 1 \<or> i = 1 \<and> b = -1" "height other = Suc h"
    | (up) "i = 0 \<or> i = 1" "b = 0" "height other = h"
    | (left) "i = 0" "b = -1" "h = Suc (height other)" | (right) "i = 1" "b = 1" "h = Suc (height other)"
    using Cons.prems(1) by (auto simp: f split: if_splits)
  then show ?case
  proof cases
    case ok
    then show ?thesis
      using p t by (auto simp: f inorder_rebuild intro!: avl_ok_rebuild)
  next
    case up
    let ?t = "avl_setbalance (b + avl_child2balance ! i) (plug f t)"
    have "avl_ok (insert_fix path ?t) \<and> inorder (insert_fix path ?t) = left_of path @ inorder ?t @ right_of path"
      using p t up by (intro Cons.IH [of "Suc h"]) (auto simp: f)
    then show ?thesis using up by (auto simp: f)
  next
    case left
    obtain t' sh where r: "avl_rotation (AVL_NODE t other b x) (-2) = (t', sh)" by fastforce
    have h: "height t = height other + 2" using t left by simp
    note rot = rotation_left [OF t(1) p(1) h r]
    then have "avl_ok (rebuild path t')" using p t left by (intro avl_ok_rebuild) auto
    then show ?thesis using left r rot(2) by (simp add: f inorder_rebuild)
  next
    case right
    obtain t' sh where r: "avl_rotation (AVL_NODE other t b x) 2 = (t', sh)" by fastforce
    have h: "height t = height other + 2" using t right by simp
    note rot = rotation_right [OF p(1) t(1) h r]
    then have "avl_ok (rebuild path t')" using p t right by (intro avl_ok_rebuild) auto
    then show ?thesis using right r rot(2) by (simp add: f inorder_rebuild)
  qed
qed simp

lemma remove_fix:
  assumes "path_ok path (Suc (height t))" "avl_ok t"
  shows "avl_ok (remove_fix path t) \<and> inorder (remove_fix path t) = left_of path @ inorder t @ right_of path"
  using assms
proof (induction path arbitrary: t)
  case (Cons f path)
  obtain i other b x where f: "f = (i, other, b, x)" by (cases f)
  note t = Cons.prems(2)
  have p: "avl_ok other" "path_ok path (Suc (max (Suc (height t)) (height other)))"
    using Cons.prems(1) by (simp_all add: f)
  consider (ok) "i = 0 \<or> i = 1" "b = 0" "height other = Suc (height t)"
    | (up) "i = 0 \<and> b = -1 \<or> i = 1 \<and> b = 1" "height other = height t"
    | (right) "i = 0" "b = 1" "height other = height t + 2" | (left) "i = 1" "b = -1" "height other = height t + 2"
    using Cons.prems(1) by (auto simp: f split: if_splits)
  then show ?case
  proof cases
    case ok
    then show ?thesis
      using p t by (auto simp: f inorder_rebuild intro!: avl_ok_rebuild)
  next
    case up
    let ?t = "avl_setbalance (b - avl_child2balance ! i) (plug f t)"
    have "avl_ok (remove_fix path ?t) \<and> inorder (remove_fix path ?t) = left_of path @ inorder ?t @ right_of path"
      using p t up by (intro Cons.IH) (auto simp: f)
    then show ?thesis using up by (auto simp: f)
  next
    case right
    obtain t' sh where r: "avl_rotation (AVL_NODE t other b x) 2 = (t', sh)" by fastforce
    note rot = rotation_right [OF t p(1) right(3) r]
    show ?thesis
      using Cons.IH [of t'] rot p right r avl_ok_rebuild [of path t']
      by (auto simp: f inorder_rebuild)
  next
    case left
    obtain t' sh where r: "avl_rotation (AVL_NODE other t b x) (-2) = (t', sh)" by fastforce
    note rot = rotation_left [OF p(1) t left(3) r]
    show ?thesis
      using Cons.IH [of t'] rot p left r avl_ok_rebuild [of path t']
      by (auto simp: f inorder_rebuild)
  qed
qed simp

section \<open>Places\<close>

declare descend.simps [simp del]

lemma rebuild_append: "rebuild (p @ q) t = rebuild q (rebuild p t)"
  by (simp add: rebuild_def)

lemma left_of_append: "left_of (p @ q) = left_of q @ left_of p"
  by (induction p) auto

lemma right_of_append: "right_of (p @ q) = right_of p @ right_of q"
  by (induction p) auto

lemma down:
  assumes "t \<noteq> AVL_NULL" "i \<in> {0, 1}"
  shows "fst (down i (path, t)) = (i, avl_child (1 - i) t, bal t, dat t) # path"
    "snd (down i (path, t)) = avl_child i t" "rebuild (fst (down i (path, t))) (avl_child i t) = rebuild path t"
  using assms by (cases t; auto)+

text \<open>
  Going down one side of a subtree keeps the tree and ends at a node without a child on that
  side, which is the first or the last of the subtree.
\<close>

lemma descend:
  assumes "descend i (path, t) = (path', t')" "t \<noteq> AVL_NULL" "i \<in> {0, 1}"
  shows "t' \<noteq> AVL_NULL" "avl_child i t' = AVL_NULL" "rebuild path' t' = rebuild path t"
    "list_all (\<lambda>f. fst f \<in> {0, 1}) path \<Longrightarrow> list_all (\<lambda>f. fst f \<in> {0, 1}) path'"
    "i = 0 \<Longrightarrow> left_of path' = left_of path" "i = 0 \<Longrightarrow> inorder t' @ right_of path' = inorder t @ right_of path"
    "i = 1 \<Longrightarrow> right_of path' = right_of path" "i = 1 \<Longrightarrow> left_of path' @ inorder t' = left_of path @ inorder t"
proof -
  have "t' \<noteq> AVL_NULL \<and> avl_child i t' = AVL_NULL \<and> rebuild path' t' = rebuild path t \<and>
    (list_all (\<lambda>f. fst f \<in> {0, 1}) path \<longrightarrow> list_all (\<lambda>f. fst f \<in> {0, 1}) path') \<and>
    (i = 0 \<longrightarrow> left_of path' = left_of path \<and> inorder t' @ right_of path' = inorder t @ right_of path) \<and>
    (i = 1 \<longrightarrow> right_of path' = right_of path \<and> left_of path' @ inorder t' = left_of path @ inorder t)"
    using assms
  proof (induction i "(path, t)" arbitrary: path t rule: descend.induct)
    case (1 i path t)
    show ?case
    proof (cases "avl_child i t = AVL_NULL")
      case True
      then show ?thesis using 1(2-4) by (simp add: descend.simps)
    next
      case False
      obtain l r b x where t: "t = AVL_NODE l r b x" using 1(3) by (cases t) auto
      have "descend i (down i (path, t)) = (path', t')" using 1(2) False by (simp add: descend.simps)
      then show ?thesis
        using 1(1) [OF False, of "fst (down i (path, t))" "snd (down i (path, t))"] False 1(4) by (auto simp: t)
    qed
  qed
  then show "t' \<noteq> AVL_NULL" "avl_child i t' = AVL_NULL" "rebuild path' t' = rebuild path t"
    "list_all (\<lambda>f. fst f \<in> {0, 1}) path \<Longrightarrow> list_all (\<lambda>f. fst f \<in> {0, 1}) path'"
    "i = 0 \<Longrightarrow> left_of path' = left_of path" "i = 0 \<Longrightarrow> inorder t' @ right_of path' = inorder t @ right_of path"
    "i = 1 \<Longrightarrow> right_of path' = right_of path" "i = 1 \<Longrightarrow> left_of path' @ inorder t' = left_of path @ inorder t"
    by simp_all
qed

lemma balance2child: "b \<in> {-1, 0, 1} \<Longrightarrow> avl_balance2child ! nat (b + 1) = (if b = 1 then 1 else 0)"
  by (auto simp: avl_balance2child_def)

text \<open>The exchange with a neighbour leaves a node with at most one child to remove.\<close>

lemma swap_leaf:
  assumes ok: "avl_ok (rebuild path d)" "list_all (\<lambda>f. fst f \<in> {0, 1}) path" and d: "d \<noteq> AVL_NULL"
    and sw: "swap_leaf (path, d) = (path', d')"
  shows "path_ok path' (height d')" "avl_ok d'" "d' \<noteq> AVL_NULL" "avl_child 0 d' = AVL_NULL \<or> avl_child 1 d' = AVL_NULL"
    "left_of path' @ inorder (avl_child 0 d') @ inorder (avl_child 1 d') @ right_of path' =
     left_of path @ inorder (avl_child 0 d) @ inorder (avl_child 1 d) @ right_of path"
proof -
  obtain l r b x where dd: "d = AVL_NODE l r b x" using d by (cases d) auto
  note p = place_path_ok [OF ok]
  have "path_ok path' (height d') \<and> avl_ok d' \<and> d' \<noteq> AVL_NULL \<and> (avl_child 0 d' = AVL_NULL \<or> avl_child 1 d' = AVL_NULL) \<and>
    left_of path' @ inorder (avl_child 0 d') @ inorder (avl_child 1 d') @ right_of path' =
    left_of path @ inorder l @ inorder r @ right_of path"
  proof (cases "l \<noteq> AVL_NULL \<and> r \<noteq> AVL_NULL")
    case False
    then show ?thesis using sw p by (auto simp: swap_leaf_def dd)
  next
    case True
    define i where "i = (if b = 1 then 1 else 0 :: nat)"
    have i: "i \<in> {0, 1}" "1 - i \<in> {0, 1}" "avl_balance2child ! nat (b + 1) = i"
      using p(2) balance2child [of b] by (auto simp: dd i_def)
    let ?c = "avl_child i d" and ?o = "avl_child (1 - i) d"
    obtain below node where de: "descend (1 - i) ([], ?c) = (below, node)" by fastforce
    have c: "?c \<noteq> AVL_NULL" using True by (simp add: dd)
    note D = descend [OF de c i(2)]
    have path': "path' = below @ (i, ?o, b, dat node) # path" "d' = node"
      using sw True de i(3) by (auto simp: swap_leaf_def dd Let_def)
    have "rebuild path' d' = rebuild path (AVL_NODE l r b (dat node))"
      using D(3) i(1) by (auto simp: path' rebuild_append dd)
    moreover have "avl_ok (rebuild path (AVL_NODE l r b (dat node)))"
      using p unfolding dd avl_ok.simps height.simps by (intro avl_ok_rebuild) auto
    moreover have "list_all (\<lambda>f. fst f \<in> {0, 1}) path'" using D(4) ok(2) i(1) by (simp add: path')
    ultimately have "path_ok path' (height d')" "avl_ok d'" using place_path_ok [of path' d'] by simp_all
    moreover have "left_of path' @ inorder (avl_child 0 d') @ inorder (avl_child 1 d') @ right_of path' =
        left_of path @ inorder l @ inorder r @ right_of path"
      using D(1,2) D(5-8) i(1) by (cases node) (auto simp: path' left_of_append right_of_append dd)
    ultimately show ?thesis using D(1,2) i(1) by (auto simp: path')
  qed
  then show "path_ok path' (height d')" "avl_ok d'" "d' \<noteq> AVL_NULL" "avl_child 0 d' = AVL_NULL \<or> avl_child 1 d' = AVL_NULL"
    "left_of path' @ inorder (avl_child 0 d') @ inorder (avl_child 1 d') @ right_of path' =
     left_of path @ inorder (avl_child 0 d) @ inorder (avl_child 1 d) @ right_of path"
    by (simp_all add: dd)
qed


section \<open>The operations on a tree\<close>

text \<open>The invariant of a tree: balanced, with its number of nodes right.\<close>

definition tree_ok :: "'a avl_tree \<Rightarrow> bool" where
  "tree_ok tree \<longleftrightarrow> avl_ok (avl_root tree) \<and> avl_numnodes tree = length (inorder (avl_root tree))"

abbreviation data :: "'a avl_tree \<Rightarrow> 'a list" where
  "data tree \<equiv> inorder (avl_root tree)"

text \<open>A node of a tree, and a missing child of a tree.\<close>

definition node_of :: "'a avl_tree \<Rightarrow> 'a place \<Rightarrow> bool" where
  "node_of tree p \<longleftrightarrow> place_of (avl_root tree) p \<and> snd p \<noteq> AVL_NULL"

definition index_of :: "'a avl_tree \<Rightarrow> 'a frame list \<Rightarrow> bool" where
  "index_of tree path \<longleftrightarrow> place_of (avl_root tree) (path, AVL_NULL)"

text \<open>The data before and after a node.\<close>

definition before :: "'a place \<Rightarrow> 'a list" where
  "before p = left_of (fst p) @ inorder (avl_child 0 (snd p))"

definition after :: "'a place \<Rightarrow> 'a list" where
  "after p = inorder (avl_child 1 (snd p)) @ right_of (fst p)"

lemma node_data: "node_of tree p \<Longrightarrow> data tree = before p @ dat (snd p) # after p"
  using inorder_rebuild [of "fst p" "snd p"]
  by (cases "snd p") (auto simp: node_of_def place_of_def before_def after_def)

lemma index_data: "index_of tree path \<Longrightarrow> data tree = left_of path @ right_of path"
  using inorder_rebuild [of path AVL_NULL] by (simp add: index_of_def place_of_def)

lemma avl_insert_ok:
  assumes "tree_ok tree" "index_of tree path"
  shows "tree_ok (avl_insert tree x path)" "data (avl_insert tree x path) = left_of path @ x # right_of path"
proof -
  have r: "rebuild path AVL_NULL = avl_root tree" "list_all (\<lambda>f. fst f \<in> {0, 1}) path"
    using assms(2) by (simp_all add: index_of_def place_of_def)
  have "path_ok path 0" using place_path_ok(1) [of path AVL_NULL] r assms(1) by (simp add: tree_ok_def)
  then have "avl_ok (avl_root (avl_insert tree x path)) \<and> data (avl_insert tree x path) = left_of path @ x # right_of path"
    using insert_fix [of path 0 "AVL_NODE AVL_NULL AVL_NULL 0 x"] by (simp add: avl_insert_def)
  then show "tree_ok (avl_insert tree x path)" "data (avl_insert tree x path) = left_of path @ x # right_of path"
    using assms(1) index_data [OF assms(2)] by (simp_all add: tree_ok_def) (simp add: avl_insert_def)
qed

lemma avl_remove_ok:
  assumes "tree_ok tree" "node_of tree p"
  shows "tree_ok (avl_remove tree p)" "data (avl_remove tree p) = before p @ after p"
proof -
  obtain path d where p: "p = (path, d)" by fastforce
  have ok: "avl_ok (rebuild path d)" "list_all (\<lambda>f. fst f \<in> {0, 1}) path" "d \<noteq> AVL_NULL"
    using assms by (auto simp: tree_ok_def node_of_def place_of_def p)
  obtain path' d' where sw: "swap_leaf (path, d) = (path', d')" by fastforce
  note s = swap_leaf [OF ok sw]
  let ?n = "if avl_child 0 d' \<noteq> AVL_NULL then avl_child 0 d' else avl_child 1 d'"
  have "height d' = Suc (height ?n)" "avl_ok ?n" "inorder ?n = inorder (avl_child 0 d') @ inorder (avl_child 1 d')"
    using s(2-4) by (cases d'; auto)+
  then have "avl_ok (remove_fix path' ?n) \<and> inorder (remove_fix path' ?n) = before p @ after p"
    using remove_fix [of path' ?n] s(1,5) by (simp add: before_def after_def p)
  then have "avl_ok (avl_root (avl_remove tree p)) \<and> data (avl_remove tree p) = before p @ after p"
    by (simp add: avl_remove_def p sw)
  then show "tree_ok (avl_remove tree p)" "data (avl_remove tree p) = before p @ after p"
    using assms(1) node_data [OF assms(2)]
    by (simp_all add: tree_ok_def) (simp add: avl_remove_def p sw split: prod.splits)
qed


text \<open>The first and the last node.\<close>

lemma avl_first_ok:
  "avl_first tree = None \<Longrightarrow> data tree = []"
  "avl_first tree = Some p \<Longrightarrow> node_of tree p \<and> before p = [] \<and> avl_child 0 (snd p) = AVL_NULL"
proof -
  show "avl_first tree = None \<Longrightarrow> data tree = []" by (auto simp: avl_first_def split: if_splits)
  assume a: "avl_first tree = Some p"
  obtain path t where p: "p = (path, t)" by fastforce
  have ne: "avl_root tree \<noteq> AVL_NULL" and d: "descend 0 ([], avl_root tree) = (path, t)"
    using a p by (auto simp: avl_first_def split: if_splits)
  from descend(1-5) [OF d ne] show "node_of tree p \<and> before p = [] \<and> avl_child 0 (snd p) = AVL_NULL"
    by (simp add: node_of_def place_of_def before_def p)
qed

lemma avl_last_ok:
  "avl_last tree = None \<Longrightarrow> data tree = []"
  "avl_last tree = Some p \<Longrightarrow> node_of tree p \<and> after p = []"
proof -
  show "avl_last tree = None \<Longrightarrow> data tree = []" by (auto simp: avl_last_def split: if_splits)
  assume a: "avl_last tree = Some p"
  obtain path t where p: "p = (path, t)" by fastforce
  have ne: "avl_root tree \<noteq> AVL_NULL" and d: "descend 1 ([], avl_root tree) = (path, t)"
    using a p by (auto simp: avl_last_def split: if_splits)
  from descend(1-4,7) [OF d ne] show "node_of tree p \<and> after p = []"
    by (simp add: node_of_def place_of_def after_def p)
qed

text \<open>Walking moves to the neighbour in the order of the tree.\<close>

lemma ascend:
  assumes "list_all (\<lambda>f. fst f \<in> {0, 1}) path" "i \<in> {0, 1}"
  shows "ascend i (path, t) = None \<Longrightarrow> (if i = 0 then right_of path else left_of path) = []"
    and "ascend i (path, t) = Some (path', t') \<Longrightarrow> rebuild path' t' = rebuild path t \<and> t' \<noteq> AVL_NULL \<and>
      list_all (\<lambda>f. fst f \<in> {0, 1}) path' \<and>
      (if i = 0 then right_of path = dat t' # after (path', t') else left_of path = before (path', t') @ [dat t'])"
proof -
  have "case ascend i (path, t) of None \<Rightarrow> (if i = 0 then right_of path else left_of path) = []
    | Some (path', t') \<Rightarrow> rebuild path' t' = rebuild path t \<and> t' \<noteq> AVL_NULL \<and>
      list_all (\<lambda>f. fst f \<in> {0, 1}) path' \<and>
      (if i = 0 then right_of path = dat t' # after (path', t') else left_of path = before (path', t') @ [dat t'])"
    using assms(1)
  proof (induction path arbitrary: t)
    case (Cons f path)
    obtain j other b x where f: "f = (j, other, b, x)" by (cases f)
    have j: "j \<in> {0, 1}" using Cons.prems by (simp add: f)
    show ?case
    proof (cases "j = i")
      case True
      then show ?thesis using Cons.prems j assms(2) by (auto simp: f after_def before_def)
    next
      case False
      then show ?thesis
        using Cons.IH [of "plug f t"] Cons.prems j assms(2)
        by (auto simp: f split: option.splits prod.splits)
    qed
  qed simp
  then show "ascend i (path, t) = None \<Longrightarrow> (if i = 0 then right_of path else left_of path) = []"
    and "ascend i (path, t) = Some (path', t') \<Longrightarrow> rebuild path' t' = rebuild path t \<and> t' \<noteq> AVL_NULL \<and>
      list_all (\<lambda>f. fst f \<in> {0, 1}) path' \<and>
      (if i = 0 then right_of path = dat t' # after (path', t') else left_of path = before (path', t') @ [dat t'])"
    by simp_all
qed

lemma avl_walk_ok:
  assumes "node_of tree p" "i \<in> {0, 1}"
  shows "avl_walk p i = None \<Longrightarrow> (if i = 0 then before p else after p) = []"
    and "avl_walk p i = Some q \<Longrightarrow> node_of tree q \<and> (if i = 0 then before p = before q @ [dat (snd q)]
      else after p = dat (snd q) # after q)"
proof -
  obtain path t where p: "p = (path, t)" by fastforce
  have t: "t \<noteq> AVL_NULL" "rebuild path t = avl_root tree" "list_all (\<lambda>f. fst f \<in> {0, 1}) path"
    using assms(1) by (auto simp: node_of_def place_of_def p)
  have j: "1 - i \<in> {0, 1}" using assms(2) by auto
  note a = ascend [OF t(3) j, of t]
  have "case avl_walk p i of None \<Rightarrow> (if i = 0 then before p else after p) = []
    | Some q \<Rightarrow> node_of tree q \<and> (if i = 0 then before p = before q @ [dat (snd q)] else after p = dat (snd q) # after q)"
  proof (cases "avl_child i t = AVL_NULL")
    case True
    then have w: "avl_walk p i = ascend (1 - i) (path, t)" using t(1) by (simp add: avl_walk_def p)
    show ?thesis
    proof (cases "ascend (1 - i) (path, t)")
      case None
      then show ?thesis using a(1) True assms(2) unfolding w None by (cases "i = 0") (auto simp: before_def after_def p)
    next
      case (Some q)
      then show ?thesis
        using a(2) [of "fst q" "snd q"] True assms(2) t(2) unfolding w Some
        by (cases "i = 0") (auto simp: node_of_def place_of_def p before_def after_def)
    qed
  next
    case False
    obtain path' t' where d: "descend (1 - i) (down i (path, t)) = (path', t')" by fastforce
    then have d': "descend (1 - i) (fst (down i (path, t)), avl_child i t) = (path', t')"
      using down(2) [OF t(1) assms(2), of path] by (metis prod.collapse)
    have w: "avl_walk p i = Some (path', t')" using False t(1) d by (simp add: avl_walk_def p Let_def)
    note D = descend [OF d' False j] and dn = down [OF t(1) assms(2), of path]
    have "node_of tree (path', t')"
      using D(1,3,4) dn t(2,3) assms(2) by (auto simp: node_of_def place_of_def)
    moreover have "if i = 0 then before p = before (path', t') @ [dat t'] else after p = dat t' # after (path', t')"
      using D(1,2,5-8) dn assms(2) t(1) by (cases t; cases t') (auto simp: before_def after_def p)
    ultimately show ?thesis by (simp add: w)
  qed
  then show "avl_walk p i = None \<Longrightarrow> (if i = 0 then before p else after p) = []"
    and "avl_walk p i = Some q \<Longrightarrow> node_of tree q \<and> (if i = 0 then before p = before q @ [dat (snd q)]
      else after p = dat (snd q) # after q)" by (simp_all split: option.splits)
qed

text \<open>The node next to an index.\<close>

lemma avl_nearest_ok:
  assumes "index_of tree path" "i \<in> {0, 1}"
  shows "avl_nearest path i = None \<Longrightarrow> (if i = 0 then left_of path else right_of path) = []"
    and "avl_nearest path i = Some q \<Longrightarrow> node_of tree q \<and> (if i = 0 then left_of path = before q @ [dat (snd q)]
      else right_of path = dat (snd q) # after q)"
proof -
  have "case avl_nearest path i of None \<Rightarrow> (if i = 0 then left_of path else right_of path) = []
    | Some q \<Rightarrow> node_of tree q \<and> (if i = 0 then left_of path = before q @ [dat (snd q)] else right_of path = dat (snd q) # after q)"
  proof (cases path)
    case (Cons f path')
    obtain j other b x where f: "f = (j, other, b, x)" by (cases f)
    have n: "node_of tree (path', plug f AVL_NULL)" and j: "j \<in> {0, 1}"
      using assms(1) by (auto simp: index_of_def node_of_def place_of_def Cons f)
    show ?thesis
      using avl_walk_ok [OF n assms(2)] n j assms(2)
      by (auto simp: avl_nearest_def Cons f before_def after_def split: option.splits if_splits)
  qed (simp add: avl_nearest_def)
  then show "avl_nearest path i = None \<Longrightarrow> (if i = 0 then left_of path else right_of path) = []"
    and "avl_nearest path i = Some q \<Longrightarrow> node_of tree q \<and> (if i = 0 then left_of path = before q @ [dat (snd q)]
      else right_of path = dat (snd q) # after q)" by (simp_all split: option.splits)
qed

text \<open>
  The order a search needs: the comparisons of the value with the data from left to right are
  first 1, then 0, then -1.
\<close>

definition ordered_by :: "('v \<Rightarrow> 'a \<Rightarrow> int) \<Rightarrow> 'v \<Rightarrow> 'a list \<Rightarrow> bool" where
  "ordered_by compar v xs \<longleftrightarrow> list_all (\<lambda>x. compar v x \<in> {-1, 0, 1}) xs \<and>
     sorted_wrt (\<lambda>a b. compar v b \<le> compar v a) xs"

lemma find_from:
  assumes "ordered_by compar v (inorder t)" "list_all (\<lambda>f. fst f \<in> {0, 1}) path"
  shows "find_from compar v path t = Inl (path', t') \<Longrightarrow>
      rebuild path' t' = rebuild path t \<and> t' \<noteq> AVL_NULL \<and> list_all (\<lambda>f. fst f \<in> {0, 1}) path' \<and> compar v (dat t') = 0"
    and "find_from compar v path t = Inr path' \<Longrightarrow>
      rebuild path' AVL_NULL = rebuild path t \<and> list_all (\<lambda>f. fst f \<in> {0, 1}) path' \<and>
      (list_all (\<lambda>x. compar v x = 1) (left_of path) \<longrightarrow> list_all (\<lambda>x. compar v x = 1) (left_of path')) \<and>
      (list_all (\<lambda>x. compar v x = -1) (right_of path) \<longrightarrow> list_all (\<lambda>x. compar v x = -1) (right_of path'))"
proof -
  have "case find_from compar v path t of
      Inl (path', t') \<Rightarrow> rebuild path' t' = rebuild path t \<and> t' \<noteq> AVL_NULL \<and>
        list_all (\<lambda>f. fst f \<in> {0, 1}) path' \<and> compar v (dat t') = 0
    | Inr path' \<Rightarrow> rebuild path' AVL_NULL = rebuild path t \<and> list_all (\<lambda>f. fst f \<in> {0, 1}) path' \<and>
      (list_all (\<lambda>x. compar v x = 1) (left_of path) \<longrightarrow> list_all (\<lambda>x. compar v x = 1) (left_of path')) \<and>
      (list_all (\<lambda>x. compar v x = -1) (right_of path) \<longrightarrow> list_all (\<lambda>x. compar v x = -1) (right_of path'))"
    using assms
  proof (induction t arbitrary: path)
    case (AVL_NODE l r b x)
    have o: "ordered_by compar v (inorder l)" "ordered_by compar v (inorder r)" "compar v x \<in> {-1, 0, 1}"
      and s: "\<forall>y \<in> set (inorder l). compar v x \<le> compar v y \<and> compar v y \<in> {-1, 0, 1}"
        "\<forall>y \<in> set (inorder r). compar v y \<le> compar v x \<and> compar v y \<in> {-1, 0, 1}"
      using AVL_NODE.prems(1) by (auto simp: ordered_by_def sorted_wrt_append list_all_iff)
    have a: "compar v x = 1 \<Longrightarrow> list_all (\<lambda>y. compar v y = 1) (inorder l)"
      "compar v x = -1 \<Longrightarrow> list_all (\<lambda>y. compar v y = -1) (inorder r)"
      using s by (force simp: list_all_iff)+
    consider "compar v x = 0" | "compar v x = 1" | "compar v x = -1" using o(3) by auto
    then show ?case
    proof cases
      case 1
      then show ?thesis using AVL_NODE.prems by simp
    next
      case 2
      then show ?thesis
        using AVL_NODE.IH(2) [OF o(2), of "(1, l, b, x) # path"] AVL_NODE.prems(2) a(1)
        by (auto simp: avl_balance2child_def split: sum.splits)
    next
      case 3
      then show ?thesis
        using AVL_NODE.IH(1) [OF o(1), of "(0, r, b, x) # path"] AVL_NODE.prems(2) a(2)
        by (auto simp: avl_balance2child_def split: sum.splits)
    qed
  qed simp
  then show "find_from compar v path t = Inl (path', t') \<Longrightarrow>
      rebuild path' t' = rebuild path t \<and> t' \<noteq> AVL_NULL \<and> list_all (\<lambda>f. fst f \<in> {0, 1}) path' \<and> compar v (dat t') = 0"
    and "find_from compar v path t = Inr path' \<Longrightarrow>
      rebuild path' AVL_NULL = rebuild path t \<and> list_all (\<lambda>f. fst f \<in> {0, 1}) path' \<and>
      (list_all (\<lambda>x. compar v x = 1) (left_of path) \<longrightarrow> list_all (\<lambda>x. compar v x = 1) (left_of path')) \<and>
      (list_all (\<lambda>x. compar v x = -1) (right_of path) \<longrightarrow> list_all (\<lambda>x. compar v x = -1) (right_of path'))"
    by simp_all
qed

lemma avl_find_ok:
  assumes "ordered_by compar v (data tree)"
  shows "avl_find compar tree v = Inl p \<Longrightarrow> node_of tree p \<and> compar v (dat (snd p)) = 0"
    and "avl_find compar tree v = Inr path \<Longrightarrow> index_of tree path \<and>
      list_all (\<lambda>x. compar v x = 1) (left_of path) \<and> list_all (\<lambda>x. compar v x = -1) (right_of path)"
  using find_from(1) [OF assms, of "[]" "fst p" "snd p"] find_from(2) [OF assms, of "[]" path]
  by (auto simp: avl_find_def node_of_def index_of_def place_of_def)

lemma avl_find_none:
  assumes "ordered_by compar v (data tree)"
  shows "(\<exists>path. avl_find compar tree v = Inr path) \<longleftrightarrow> (\<forall>x \<in> set (data tree). compar v x \<noteq> 0)"
proof (cases "avl_find compar tree v")
  case (Inl p)
  then show ?thesis using avl_find_ok(1) [OF assms Inl] node_data [of tree p] by auto
next
  case (Inr path)
  then show ?thesis using avl_find_ok(2) [OF assms Inr] index_data [of tree path] by (auto simp: list_all_iff)
qed

lemma index_down:
  assumes "node_of tree q" "avl_child i (snd q) = AVL_NULL" "i \<in> {0, 1}"
  shows "index_of tree (fst (down i q))"
    "left_of (fst (down i q)) = (if i = 0 then before q else before q @ [dat (snd q)])"
    "right_of (fst (down i q)) = (if i = 0 then dat (snd q) # after q else after q)"
  using assms by (cases q; cases "snd q"; auto simp: node_of_def index_of_def place_of_def before_def after_def)+

lemma avl_insert_here_ok:
  assumes "tree_ok tree" "node_of tree here" "i \<in> {0, 1}"
  shows "tree_ok (avl_insert_here tree x here i)"
    "data (avl_insert_here tree x here i) =
      (if i = 0 then before here @ x # dat (snd here) # after here else before here @ dat (snd here) # x # after here)"
proof -
  have "tree_ok (avl_insert_here tree x here i) \<and> data (avl_insert_here tree x here i) =
      (if i = 0 then before here @ x # dat (snd here) # after here else before here @ dat (snd here) # x # after here)"
  proof (cases "avl_child i (snd here) = AVL_NULL")
    case True
    note d = index_down [OF assms(2) True assms(3)]
    show ?thesis
      using avl_insert_ok [OF assms(1) d(1), of x] d(2,3) True by (simp add: avl_insert_here_def)
  next
    case False
    obtain path t where h: "here = (path, t)" by fastforce
    define q where "q = descend (1 - i) (down i here)"
    have j: "1 - i \<in> {0, 1}" using assms(3) by auto
    have t: "t \<noteq> AVL_NULL" using assms(2) by (simp add: node_of_def h)
    have w: "avl_walk here i = Some q" using False t by (simp add: avl_walk_def q_def h Let_def)
    have "descend (1 - i) (fst (down i (path, t)), avl_child i t) = (fst q, snd q)"
      using down(2) [OF t assms(3), of path] by (simp add: q_def h) (metis prod.collapse)
    from descend(2) [OF this] have c: "avl_child (1 - i) (snd q) = AVL_NULL" using False j by (simp add: h)
    note n = avl_walk_ok(2) [OF assms(2,3) w]
    note d = index_down [OF conjunct1 [OF n] c j]
    have "avl_insert_here tree x here i = avl_insert tree x (fst (down (1 - i) q))"
      using False by (simp add: avl_insert_here_def q_def h)
    then show ?thesis
      using avl_insert_ok [OF assms(1) d(1), of x] d(2,3) n node_data [OF assms(2)] node_data [OF conjunct1 [OF n]] assms(3)
      by auto
  qed
  then show "tree_ok (avl_insert_here tree x here i)"
    "data (avl_insert_here tree x here i) =
      (if i = 0 then before here @ x # dat (snd here) # after here else before here @ dat (snd here) # x # after here)"
    by simp_all
qed

section \<open>Tearing a tree down\<close>

primrec postorder :: "'a avl_node \<Rightarrow> 'a list" where
  "postorder AVL_NULL = []"
| "postorder (AVL_NODE l r b x) = postorder l @ postorder r @ [x]"

lemma mset_postorder: "mset (postorder t) = mset (inorder t)"
  by (induction t) simp_all

text \<open>
  What is left to hand out once the node below a path was: its ancestors, each after its right
  subtree if the path goes through the left child.  A left subtree that was handed out is gone.
\<close>

fun rest :: "'a frame list \<Rightarrow> 'a list" where
  "rest [] = []"
| "rest ((i, other, b, x) # path) = (if i = 0 then postorder other else []) @ x # rest path"

definition torn :: "'a frame \<Rightarrow> bool" where
  "torn f = (case f of (i, other, _) \<Rightarrow> if i = 0 then avl_ok other else i = 1 \<and> other = AVL_NULL)"

lemma first_postorder:
  assumes "avl_ok t" "t \<noteq> AVL_NULL" "list_all torn path" "check_right_side (descend 0 (path, t)) = (path', t')"
  shows "postorder t @ rest path = dat t' # rest path' \<and> list_all torn path'"
  using assms
proof (induction t arbitrary: path)
  case (AVL_NODE l r b x)
  show ?case
  proof (cases "l = AVL_NULL")
    case True
    then have h: "height r \<le> 1" "avl_ok r" using AVL_NODE.prems(1) by auto
    then have "r = AVL_NULL \<or> (\<exists>c y. r = AVL_NODE AVL_NULL AVL_NULL c y)"
      by (cases r; cases "c0 r"; cases "c1 r") auto
    then show ?thesis
      using AVL_NODE.prems True by (auto simp: descend.simps check_right_side_def torn_def)
  next
    case False
    have "descend 0 (path, AVL_NODE l r b x) = descend 0 ((0, r, b, x) # path, l)"
      using False by (subst descend.simps) simp
    then show ?thesis
      using AVL_NODE.IH(1) [of "(0, r, b, x) # path"] AVL_NODE.prems False by (auto simp: torn_def)
  qed
qed simp

text \<open>The state of the walk between two calls.\<close>

definition tearing :: "'a avl_tree \<Rightarrow> 'a cookie \<Rightarrow> 'a list \<Rightarrow> bool" where
  "tearing tree cookie xs \<longleftrightarrow> (\<exists>path. cookie = Cookie path \<and> xs = rest path \<and> list_all torn path \<and>
     avl_root tree \<noteq> AVL_NULL \<and> avl_numnodes tree = Suc (length (rest path)))"

lemma plug_null: "plug f t \<noteq> AVL_NULL"
  by (cases f) simp

lemma rebuild_null: "rebuild path t = AVL_NULL \<longleftrightarrow> path = [] \<and> t = AVL_NULL"
proof (induction path arbitrary: t)
  case (Cons f path)
  then show ?case using Cons.IH [of "plug f t"] plug_null [of f t] by (simp add: rebuild_def)
qed (simp add: rebuild_def)

lemma destroy_step:
  assumes "tearing tree cookie (x # xs)"
  shows "\<exists>tree' cookie'. avl_destroy_nodes tree cookie = (Some x, tree', cookie') \<and> tearing tree' cookie' xs"
proof -
  obtain i other b y path where c: "cookie = Cookie ((i, other, b, y) # path)"
    using assms by (cases cookie) (auto simp: tearing_def elim: rest.elims [OF sym])
  have r: "x # xs = rest ((i, other, b, y) # path)" "list_all torn path" "torn (i, other, b, y)"
    "avl_numnodes tree = Suc (length (x # xs))"
    using assms by (auto simp: tearing_def c)
  show ?thesis
  proof (cases "i = 1 \<or> other = AVL_NULL")
    case True
    then show ?thesis
      using r by (auto simp: avl_destroy_nodes_def c Let_def tearing_def torn_def rebuild_null split: if_splits)
  next
    case False
    then have i: "i = 0" "avl_ok other" "other \<noteq> AVL_NULL" using r(3) by (auto simp: torn_def split: if_splits)
    obtain path' t' where n: "check_right_side (descend 0 ((1, AVL_NULL, b, y) # path, other)) = (path', t')"
      by fastforce
    have "postorder other @ rest ((1, AVL_NULL, b, y) # path) = dat t' # rest path' \<and> list_all torn path'"
      using first_postorder [OF i(2,3) _ n] r(2) by (simp add: torn_def)
    then show ?thesis
      using r i n by (auto simp: avl_destroy_nodes_def c Let_def tearing_def rebuild_null)
  qed
qed

lemma destroy_last:
  assumes "tearing tree cookie []"
  shows "avl_destroy_nodes tree cookie = (None, avl_create, Cookie [])"
proof -
  have "rest path = [] \<Longrightarrow> path = []" for path :: "'a frame list" by (cases path rule: rest.cases) simp_all
  then have "cookie = Cookie []" "avl_root tree \<noteq> AVL_NULL"
    using assms by (auto simp: tearing_def)
  then show ?thesis by (simp add: avl_destroy_nodes_def avl_create_def)
qed

lemma destroy_first:
  assumes "tree_ok tree" "postorder (avl_root tree) = x # xs"
  shows "\<exists>cookie. avl_destroy_nodes tree Cookie_Null = (Some x, tree, cookie) \<and> tearing tree cookie xs"
proof -
  have t: "avl_root tree \<noteq> AVL_NULL" "avl_ok (avl_root tree)" using assms by (auto simp: tree_ok_def)
  obtain path t' where n: "check_right_side (descend 0 ([], avl_root tree)) = (path, t')" by fastforce
  have l: "length (postorder (avl_root tree)) = length (inorder (avl_root tree))"
    using mset_postorder mset_eq_length by blast
  show ?thesis
    using first_postorder [OF t(2,1) _ n] t n assms l
    by (auto simp: avl_destroy_nodes_def avl_first_def tearing_def tree_ok_def)
qed

text \<open>What the calls still hand out, from a null cookie on.\<close>

definition handing :: "'a avl_tree \<Rightarrow> 'a cookie \<Rightarrow> 'a list \<Rightarrow> bool" where
  "handing tree cookie xs \<longleftrightarrow>
     tearing tree cookie xs \<or> cookie = Cookie_Null \<and> tree_ok tree \<and> xs = postorder (avl_root tree)"

lemma handing_start: "tree_ok tree \<Longrightarrow> handing tree Cookie_Null (postorder (avl_root tree))"
  by (simp add: handing_def)

lemma handing_step:
  assumes "handing tree cookie (x # xs)"
  shows "\<exists>tree' cookie'. avl_destroy_nodes tree cookie = (Some x, tree', cookie') \<and> handing tree' cookie' xs"
  using assms destroy_step [of tree cookie x xs] destroy_first [of tree x xs] unfolding handing_def by auto

lemma handing_last:
  assumes "handing tree cookie []"
  shows "avl_destroy_nodes tree cookie = (None, avl_create, Cookie [])"
proof (cases "tearing tree cookie []")
  case False
  then have "tree_ok tree" "postorder (avl_root tree) = []" "cookie = Cookie_Null" using assms by (simp_all add: handing_def)
  moreover from this have "tree = avl_create" by (cases tree; cases "avl_root tree") (auto simp: tree_ok_def avl_create_def)
  ultimately show ?thesis by (simp add: avl_destroy_nodes_def avl_first_def avl_create_def)
qed (rule destroy_last)

text \<open>The loop of the callers, which call until nothing is handed out.\<close>

partial_function (option) destroy_loop ::
  "'a avl_tree \<Rightarrow> 'a cookie \<Rightarrow> ('a list \<times> 'a avl_tree \<times> 'a cookie) option" where
  "destroy_loop tree cookie =
     (case avl_destroy_nodes tree cookie of
        (None, tree, cookie) \<Rightarrow> Some ([], tree, cookie)
      | (Some x, tree, cookie) \<Rightarrow>
          Option.bind (destroy_loop tree cookie) (\<lambda>(xs, tree, cookie). Some (x # xs, tree, cookie)))"

declare destroy_loop.simps [code]

lemma destroy_loop_handing:
  "handing tree cookie xs \<Longrightarrow> destroy_loop tree cookie = Some (xs, avl_create, Cookie [])"
proof (induction xs arbitrary: tree cookie)
  case Nil
  then show ?case by (subst destroy_loop.simps) (simp add: handing_last)
next
  case (Cons x xs)
  from handing_step [OF Cons.prems] Cons.IH show ?case by (subst destroy_loop.simps) auto
qed

section \<open>Height\<close>

lemma height_step:
  fixes a b :: nat
  assumes "2 ^ k \<le> a\<^sup>2" "2 ^ k \<le> b\<^sup>2" "2 * 2 ^ k \<le> a\<^sup>2 \<or> 2 * 2 ^ k \<le> b\<^sup>2"
  shows "4 * 2 ^ k \<le> (a + b)\<^sup>2"
proof -
  have "2 ^ k \<le> a * b"
  proof (cases "a \<le> b")
    case True
    then have "a\<^sup>2 \<le> a * b" by (simp add: power2_eq_square)
    then show ?thesis using assms(1) by linarith
  next
    case False
    then have "b\<^sup>2 \<le> a * b" by (simp add: power2_eq_square)
    then show ?thesis using assms(2) by linarith
  qed
  moreover have "(a + b)\<^sup>2 = a\<^sup>2 + b\<^sup>2 + 2 * (a * b)" by (simp add: power2_sum)
  ultimately show ?thesis using assms by linarith
qed

lemma height_size: "avl_ok t \<Longrightarrow> 2 ^ height t \<le> (length (inorder t) + 1)\<^sup>2"
proof (induction t)
  case (AVL_NODE l r b x)
  let ?a = "length (inorder l) + 1" and ?b = "length (inorder r) + 1"
  have ih: "2 ^ height l \<le> ?a\<^sup>2" "2 ^ height r \<le> ?b\<^sup>2" using AVL_NODE by auto
  consider (same) "height l = height r" | (left) "height l = Suc (height r)" | (right) "height r = Suc (height l)"
    using AVL_NODE.prems by force
  then have "2 ^ Suc (max (height l) (height r)) \<le> (?a + ?b)\<^sup>2"
  proof cases
    case same
    have "2 ^ height r \<le> ?a\<^sup>2" using ih(1) unfolding same .
    then have "2 * 2 ^ height r \<le> ?a\<^sup>2 + ?b\<^sup>2" using ih(2) by linarith
    also have "\<dots> \<le> (?a + ?b)\<^sup>2" unfolding power2_sum by (rule le_add1)
    finally show ?thesis unfolding same by simp
  next
    case left
    have "2 * 2 ^ height r \<le> ?a\<^sup>2" using ih(1) unfolding left by simp
    then show ?thesis using height_step [of "height r" ?a ?b] ih unfolding left by simp
  next
    case right
    have "2 * 2 ^ height l \<le> ?b\<^sup>2" using ih(2) unfolding right by simp
    then show ?thesis using height_step [of "height l" ?a ?b] ih unfolding right by simp
  qed
  then show ?case by (simp add: add_ac)
qed simp

lemma height_plug: "length path + height t \<le> height (rebuild path t)"
proof (induction path arbitrary: t)
  case (Cons f path)
  obtain i other b x where f: "f = (i, other, b, x)" by (cases f)
  have "Suc (height t) \<le> height (plug f t)" by (simp add: f)
  then show ?case using Cons.IH [of "plug f t"] by (simp add: rebuild_def)
qed (simp add: rebuild_def)

section \<open>Comparison functions\<close>

text \<open>
  The contract of a comparison function: it returns -1, 0 or 1, swapping its arguments negates
  it, and \<open>before\<close> is transitive.  Being equal need not be transitive: a client may compare a
  range with the nodes it overlaps.
\<close>

definition in_order :: "('a \<Rightarrow> 'a \<Rightarrow> int) \<Rightarrow> 'a list \<Rightarrow> bool" where
  "in_order compar xs \<longleftrightarrow> sorted_wrt (\<lambda>x y. compar x y = -1) xs"

locale avl_order =
  fixes compar :: "'a \<Rightarrow> 'a \<Rightarrow> int"
  assumes compar_range: "compar x y \<in> {-1, 0, 1}"
    and compar_swap: "compar y x = - compar x y"
    and compar_trans: "compar x y = -1 \<Longrightarrow> compar y z = -1 \<Longrightarrow> compar x z = -1"
begin

lemma above: "compar x y = 1 \<longleftrightarrow> compar y x = -1"
  using compar_swap [of x y] by simp

lemma in_order_ordered:
  assumes "in_order compar xs"
  shows "ordered_by compar v xs"
proof -
  have "compar v y \<le> compar v x" if "compar x y = -1" for x y
    using that compar_range [of v x] compar_range [of v y] compar_trans [of v x y] compar_trans [of x y v]
      above [of v x] above [of v y] by auto
  then show ?thesis
    using assms compar_range sorted_wrt_mono_rel [of xs "\<lambda>x y. compar x y = -1" "\<lambda>a b. compar v b \<le> compar v a"]
    by (auto simp: in_order_def ordered_by_def list_all_iff)
qed

lemma in_order_append:
  "in_order compar (xs @ ys) \<longleftrightarrow> in_order compar xs \<and> in_order compar ys \<and> (\<forall>x \<in> set xs. \<forall>y \<in> set ys. compar x y = -1)"
  by (simp add: in_order_def sorted_wrt_append)

lemma in_order_Cons:
  "in_order compar (x # xs) \<longleftrightarrow> (\<forall>y \<in> set xs. compar x y = -1) \<and> in_order compar xs"
  by (simp add: in_order_def)

lemma in_order_put:
  assumes "in_order compar (xs @ ys)" "list_all (\<lambda>y. compar x y = 1) xs" "list_all (\<lambda>y. compar x y = -1) ys"
  shows "in_order compar (xs @ x # ys)"
  using assms above by (auto simp: in_order_append in_order_Cons list_all_iff)

lemma in_order_cut: "in_order compar (xs @ x # ys) \<Longrightarrow> in_order compar (xs @ ys)"
  by (auto simp: in_order_append in_order_Cons)

lemma in_order_distinct: "in_order compar xs \<Longrightarrow> distinct xs"
proof (induction xs)
  case (Cons x xs)
  have "compar x x \<noteq> -1" using compar_swap [of x x] by linarith
  then show ?case using Cons by (auto simp: in_order_Cons)
qed simp

lemma find_in_order:
  assumes "in_order compar (data tree)"
  shows "case avl_find compar tree v of
      Inl p \<Rightarrow> node_of tree p \<and> compar v (dat (snd p)) = 0
    | Inr path \<Rightarrow> index_of tree path \<and> list_all (\<lambda>x. compar v x = 1) (left_of path) \<and>
        list_all (\<lambda>x. compar v x = -1) (right_of path)"
  using avl_find_ok [OF in_order_ordered [OF assms, of v]] by (simp split: sum.split)

lemma add_in_order:
  assumes "tree_ok tree" "in_order compar (data tree)"
  shows "avl_add compar tree x = None \<longleftrightarrow> (\<exists>y \<in> set (data tree). compar x y = 0)"
    and "avl_add compar tree x = Some tree' \<Longrightarrow> tree_ok tree' \<and> in_order compar (data tree') \<and>
      set (data tree') = insert x (set (data tree)) \<and> avl_numnodes tree' = Suc (avl_numnodes tree)"
proof -
  note f = find_in_order [OF assms(2), of x]
  show "avl_add compar tree x = None \<longleftrightarrow> (\<exists>y \<in> set (data tree). compar x y = 0)"
    using avl_find_none [OF in_order_ordered [OF assms(2), of x]]
    by (cases "avl_find compar tree x") (auto simp: avl_add_def)
  assume "avl_add compar tree x = Some tree'"
  then obtain path where p: "avl_find compar tree x = Inr path" "tree' = avl_insert tree x path"
    by (auto simp: avl_add_def split: sum.splits)
  then have i: "index_of tree path" "list_all (\<lambda>y. compar x y = 1) (left_of path)"
    "list_all (\<lambda>y. compar x y = -1) (right_of path)" using f by auto
  note r = avl_insert_ok [OF assms(1) i(1), of x]
  have "in_order compar (left_of path @ x # right_of path)"
    using in_order_put [OF _ i(2,3)] assms(2) index_data [OF i(1)] by simp
  then show "tree_ok tree' \<and> in_order compar (data tree') \<and>
      set (data tree') = insert x (set (data tree)) \<and> avl_numnodes tree' = Suc (avl_numnodes tree)"
    using r index_data [OF i(1)] assms(1) by (auto simp: p(2) tree_ok_def)
qed

lemma remove_in_order:
  assumes "tree_ok tree" "in_order compar (data tree)" "node_of tree p"
  shows "tree_ok (avl_remove tree p) \<and> in_order compar (data (avl_remove tree p)) \<and>
    set (data (avl_remove tree p)) = set (data tree) - {dat (snd p)} \<and>
    Suc (avl_numnodes (avl_remove tree p)) = avl_numnodes tree"
  using avl_remove_ok [OF assms(1,3)] node_data [OF assms(3)] assms(2) in_order_cut [of "before p" "dat (snd p)" "after p"]
    in_order_distinct [OF assms(2)] assms(1)
  by (auto simp: tree_ok_def)

lemma insert_here_in_order:
  assumes "tree_ok tree" "in_order compar (data tree)" "node_of tree here"
    and "if i = 0 then compar x (dat (snd here)) = -1 \<and> list_all (\<lambda>y. compar x y = 1) (before here)
      else i = 1 \<and> compar x (dat (snd here)) = 1 \<and> list_all (\<lambda>y. compar x y = -1) (after here)"
  shows "tree_ok (avl_insert_here tree x here i) \<and> in_order compar (data (avl_insert_here tree x here i))"
proof -
  have i: "i \<in> {0, 1}" using assms(4) by (auto split: if_splits)
  note r = avl_insert_here_ok [OF assms(1,3) i, of x]
  let ?y = "dat (snd here)"
  have d: "in_order compar (before here @ ?y # after here)" using assms(2) node_data [OF assms(3)] by simp
  have o: "\<forall>z \<in> set (after here). compar ?y z = -1" "\<forall>z \<in> set (before here). compar z ?y = -1"
    using d unfolding in_order_append in_order_Cons by simp_all
  have "in_order compar (data (avl_insert_here tree x here i))"
  proof (cases "i = 0")
    case True
    have "list_all (\<lambda>y. compar x y = -1) (?y # after here)"
      using o(1) assms(4) True compar_trans [of x ?y] by (simp add: list_all_iff)
    then show ?thesis using in_order_put [of "before here" "?y # after here" x] d r(2) True assms(4) by simp
  next
    case False
    have "list_all (\<lambda>y. compar y x = -1) (before here @ [?y])"
      using o(2) assms(4) False compar_trans [of _ ?y x] above [of x] by (simp add: list_all_iff)
    then have "list_all (\<lambda>y. compar x y = 1) (before here @ [?y])" using above [of x] by (simp add: list_all_iff)
    then show ?thesis
      using in_order_put [of "before here @ [?y]" "after here" x] d r(2) False assms(4) by simp
  qed
  then show ?thesis using r(1) by simp
qed

end

lemma low_bits:
  "bit (1 :: 64 word) n \<longleftrightarrow> n = 0" "bit (3 :: 64 word) n \<longleftrightarrow> n < 2" "bit (4 :: 64 word) n \<longleftrightarrow> n = 2" "bit (7 :: 64 word) n \<longleftrightarrow> n < 3"
  "bit (2 :: 64 word) n \<longleftrightarrow> n = 1"
proof -
  have "bit ((2 :: 64 word) ^ 2 - 1) n \<longleftrightarrow> n < 2" "bit ((2 :: 64 word) ^ 3 - 1) n \<longleftrightarrow> n < 3"
    "bit ((2 :: 64 word) ^ 2) n \<longleftrightarrow> n = 2" "bit ((2 :: 64 word) ^ 1) n \<longleftrightarrow> n = 1"
    unfolding bit_mask_iff [unfolded mask_eq_exp_minus_1] bit_exp_iff
    by (auto simp: possible_bit_def)
  then show "bit (1 :: 64 word) n \<longleftrightarrow> n = 0" "bit (3 :: 64 word) n \<longleftrightarrow> n < 2" "bit (4 :: 64 word) n \<longleftrightarrow> n = 2" "bit (7 :: 64 word) n \<longleftrightarrow> n < 3"
  "bit (2 :: 64 word) n \<longleftrightarrow> n = 1"
    by (simp_all add: bit_1_iff)
qed

lemma pcb_balance:
  fixes pcb k :: "64 word"
  assumes "k = 0 \<or> k = 1 \<or> k = 2"
  shows "((pcb AND NOT 3) OR k) AND 3 = k" "((pcb AND NOT 3) OR k) AND NOT 7 = pcb AND NOT 7"
    "drop_bit 2 ((pcb AND NOT 3) OR k) AND 1 = drop_bit 2 pcb AND 1"
  using assms by (elim disjE; hypsubst; unfold bit_eq_iff [where 'a = "64 word"] bit_and_iff bit_or_iff bit_not_iff bit_drop_bit_eq o_def low_bits bit_0_eq bot_apply; auto simp: possible_bit_def)+

lemma pcb_child:
  fixes pcb k :: "64 word"
  assumes "k = 0 \<or> k = 4"
  shows "((pcb AND NOT 4) OR k) AND NOT 7 = pcb AND NOT 7" "((pcb AND NOT 4) OR k) AND 3 = pcb AND 3"
    "drop_bit 2 ((pcb AND NOT 4) OR k) AND 1 = drop_bit 2 k AND 1"
  using assms by (elim disjE; hypsubst; unfold bit_eq_iff [where 'a = "64 word"] bit_and_iff bit_or_iff bit_not_iff bit_drop_bit_eq o_def low_bits bit_0_eq bot_apply; auto simp: possible_bit_def)+

lemma pcb_parent:
  fixes pcb p k :: "64 word"
  assumes "p AND 7 = 0"
  shows "((pcb AND 7) OR p) AND NOT 7 = p" "drop_bit 2 ((pcb AND 7) OR p) AND 1 = drop_bit 2 pcb AND 1"
    "((pcb AND 7) OR p) AND 3 = pcb AND 3"
    "k = 0 \<or> k = 1 \<Longrightarrow> (p OR k) AND NOT 1 = p" "k = 0 \<or> k = 1 \<Longrightarrow> (p OR k) AND 1 = k"
proof -
  have p [simp]: "n < 3 \<Longrightarrow> \<not> bit p n" for n
    using arg_cong [OF assms(1), of "\<lambda>w. bit w n"] unfolding bit_and_iff low_bits by simp
  have [simp]: "\<not> bit p 0" "\<not> bit p 2" "\<not> bit p (Suc (Suc 0))" by simp_all
  show "((pcb AND 7) OR p) AND NOT 7 = p" "drop_bit 2 ((pcb AND 7) OR p) AND 1 = drop_bit 2 pcb AND 1"
    "((pcb AND 7) OR p) AND 3 = pcb AND 3"
    unfolding bit_eq_iff [where 'a = "64 word"] bit_and_iff bit_or_iff bit_not_iff bit_drop_bit_eq o_def low_bits bit_0_eq bot_apply by (auto simp: possible_bit_def intro: ccontr)
  have nz: "bit p n \<Longrightarrow> 0 < n" for n by (cases n) simp_all
  have "p AND NOT 1 = p" "p AND 1 = 0" "(p OR 1) AND NOT 1 = p" "(p OR 1) AND 1 = 1"
    unfolding bit_eq_iff [where 'a = "64 word"] bit_and_iff bit_or_iff bit_not_iff low_bits by (auto simp: possible_bit_def nz)
  then show "k = 0 \<or> k = 1 \<Longrightarrow> (p OR k) AND NOT 1 = p" "k = 0 \<or> k = 1 \<Longrightarrow> (p OR k) AND 1 = k"
    by auto
qed

section \<open>Properties\<close>

text \<open>The trees that the operations build from an empty tree.\<close>

inductive avl_reach :: "('a \<Rightarrow> 'a \<Rightarrow> int) \<Rightarrow> 'a avl_tree \<Rightarrow> bool" for compar where
  create: "avl_reach compar avl_create"
| add: "avl_reach compar tree \<Longrightarrow> avl_add compar tree x = Some tree' \<Longrightarrow> avl_reach compar tree'"
| insert: "avl_reach compar tree \<Longrightarrow> avl_find compar tree x = Inr where \<Longrightarrow>
    avl_reach compar (avl_insert tree x where)"
| insert_here: "avl_reach compar tree \<Longrightarrow> node_of tree here \<Longrightarrow>
    (if i = 0 then compar x (dat (snd here)) = -1 \<and> list_all (\<lambda>y. compar x y = 1) (before here)
     else i = 1 \<and> compar x (dat (snd here)) = 1 \<and> list_all (\<lambda>y. compar x y = -1) (after here)) \<Longrightarrow>
    avl_reach compar (avl_insert_here tree x here i)"
| remove: "avl_reach compar tree \<Longrightarrow> node_of tree p \<Longrightarrow> avl_reach compar (avl_remove tree p)"

text \<open>
  The order of the loop that the callers write with AVL_NEXT.
\<close>

partial_function (option) avl_next_loop :: "'a place option \<Rightarrow> 'a list option" where
  "avl_next_loop node =
     (case node of
        None \<Rightarrow> Some []
      | Some p \<Rightarrow> Option.bind (avl_next_loop (avl_walk p 1)) (\<lambda>xs. Some (dat (snd p) # xs)))"

declare avl_next_loop.simps [code]

lemma avl_next_loop_from:
  "node_of tree p \<Longrightarrow> avl_next_loop (Some p) = Some (dat (snd p) # after p)"
proof (induction "after p" arbitrary: p)
  case Nil
  then have "avl_walk p 1 = None" using avl_walk_ok(2) [of tree p 1] by (cases "avl_walk p 1") auto
  then show ?case using Nil by (subst avl_next_loop.simps) (simp add: avl_next_loop.simps [of None])
next
  case (Cons x xs)
  then obtain q where q: "avl_walk p 1 = Some q" using avl_walk_ok(1) [of tree p 1] by (cases "avl_walk p 1") auto
  have n: "node_of tree q" "after p = dat (snd q) # after q" using avl_walk_ok(2) [OF Cons.prems _ q] by simp_all
  have "avl_next_loop (Some q) = Some (after p)" using Cons.hyps n by simp
  then show ?case using q by (subst avl_next_loop.simps) simp
qed

lemma sgn_order: "avl_order (\<lambda>x y :: int. sgn (x - y))"
  by unfold_locales (auto simp: sgn_if split: if_splits)

text \<open>
  C23. The invariant of the AVL trees: whatever sequence of insertions and removals built a tree,
  the balance of every node is the difference of the heights of its children and is -1, 0 or 1,
  the node count is the number of nodes, and the data from left to right are strictly in the
  order of the comparison function.
\<close>

theorem avl_invariant:
  assumes "avl_order compar" "avl_reach compar tree"
  shows "tree_ok tree \<and> in_order compar (data tree)"
  using assms(2)
proof induction
  case create
  show ?case by (simp add: tree_ok_def avl_create_def in_order_def)
next
  case (add tree x tree')
  then show ?case using avl_order.add_in_order(2) [OF assms(1), of tree x tree'] by simp
next
  case (insert tree x path)
  then have "avl_add compar tree x = Some (avl_insert tree x path)" by (simp add: avl_add_def)
  then show ?case using avl_order.add_in_order(2) [OF assms(1)] insert by blast
next
  case (insert_here tree here i x)
  then show ?case using avl_order.insert_here_in_order [OF assms(1)] by blast
next
  case (remove tree p)
  then show ?case using avl_order.remove_in_order [OF assms(1)] by blast
qed

theorem avl_invariant_witness:
  "\<exists>tree. avl_add (\<lambda>x y. sgn (x - y)) avl_create (7 :: int) = Some tree \<and> tree_ok tree \<and>
     in_order (\<lambda>x y. sgn (x - y)) (data tree)"
proof -
  let ?tree = "\<lparr>avl_root = AVL_NODE AVL_NULL AVL_NULL 0 7, avl_numnodes = 1\<rparr> :: int avl_tree"
  have a: "avl_add (\<lambda>x y. sgn (x - y)) avl_create (7 :: int) = Some ?tree" by code_simp
  then show ?thesis using avl_invariant [OF sgn_order avl_reach.add [OF avl_reach.create a]] by blast
qed

text \<open>
  C29. avl_find on a tree in order: it returns a node of the tree that compares equal to the value
  exactly when there is one; otherwise the index it returns is the place of the value, with all
  that is before it on its left and all that is after it on its right.  Above a node it finds it
  passes fewer nodes than the tree is high, and on a miss at most as many; and the height is at
  most twice the binary logarithm of the number of nodes plus one.
\<close>

theorem avl_find_outcome:
  assumes "avl_order compar" "tree_ok tree" "in_order compar (data tree)"
  shows "(case avl_find compar tree v of
      Inl (path, t) \<Rightarrow> place_of (avl_root tree) (path, t) \<and> t \<noteq> AVL_NULL \<and> compar v (dat t) = 0 \<and>
        length path < height (avl_root tree)
    | Inr path \<Rightarrow> data tree = left_of path @ right_of path \<and>
        list_all (\<lambda>x. compar v x = 1) (left_of path) \<and> list_all (\<lambda>x. compar v x = -1) (right_of path) \<and>
        length path \<le> height (avl_root tree)) \<and>
    2 ^ height (avl_root tree) \<le> (avl_numnodes tree + 1)\<^sup>2"
proof -
  note f = avl_order.find_in_order [OF assms(1,3), of v]
  have b: "2 ^ height (avl_root tree) \<le> (avl_numnodes tree + 1)\<^sup>2"
    using height_size [of "avl_root tree"] assms(2) by (simp add: tree_ok_def)
  show ?thesis
  proof (cases "avl_find compar tree v")
    case (Inl p)
    obtain path t where p: "p = (path, t)" by fastforce
    have "node_of tree p \<and> compar v (dat t) = 0" using f Inl p by simp
    moreover have "t \<noteq> AVL_NULL \<Longrightarrow> 0 < height t" by (cases t) simp_all
    ultimately show ?thesis
      using Inl p b height_plug [of path t] by (auto simp: node_of_def place_of_def)
  next
    case (Inr path)
    then have "index_of tree path" using f by simp
    then show ?thesis
      using Inr b f index_data [of tree path] height_plug [of path AVL_NULL]
      by (simp add: index_of_def place_of_def)
  qed
qed

theorem avl_find_outcome_witness:
  "let tree = \<lparr>avl_root = AVL_NODE (AVL_NODE AVL_NULL AVL_NULL 0 2) AVL_NULL (-1) 5, avl_numnodes = 2\<rparr> :: int avl_tree
   in avl_find (\<lambda>x y. sgn (x - y)) tree 3 = Inr [(1, AVL_NULL, 0, 2), (0, AVL_NULL, -1, 5)] \<and>
      data tree = left_of [(1, AVL_NULL, 0, 2), (0, AVL_NULL, -1, 5)] @ right_of [(1, AVL_NULL, 0, 2), (0, AVL_NULL, -1, 5)]"
proof -
  let ?tree = "\<lparr>avl_root = AVL_NODE (AVL_NODE AVL_NULL AVL_NULL 0 2) AVL_NULL (-1) 5, avl_numnodes = 2\<rparr> :: int avl_tree"
  have "tree_ok ?tree" "in_order (\<lambda>x y. sgn (x - y)) (data ?tree)" by (simp_all add: tree_ok_def in_order_def)
  moreover have "avl_find (\<lambda>x y. sgn (x - y)) ?tree 3 = Inr [(1, AVL_NULL, 0, 2), (0, AVL_NULL, -1, 5)]" by code_simp
  ultimately show ?thesis using avl_find_outcome [OF sgn_order, of ?tree 3] by (simp add: Let_def)
qed

text \<open>
  C27. avl_add as an operation on a set: on a tree in order it panics exactly when a node of the
  tree compares equal to the new one; otherwise the tree holds the new data besides what it held,
  one node more, and is still balanced, in order and counted.
\<close>

theorem avl_add_set:
  assumes "avl_order compar" "tree_ok tree" "in_order compar (data tree)"
  shows "case avl_add compar tree x of
      None \<Rightarrow> \<exists>y \<in> set (data tree). compar x y = 0
    | Some tree' \<Rightarrow> (\<forall>y \<in> set (data tree). compar x y \<noteq> 0) \<and> set (data tree') = insert x (set (data tree)) \<and>
        avl_numnodes tree' = avl_numnodes tree + 1 \<and> tree_ok tree' \<and> in_order compar (data tree')"
  using avl_order.add_in_order [OF assms, of x] by (cases "avl_add compar tree x") auto

theorem avl_add_set_witness:
  "let tree = \<lparr>avl_root = AVL_NODE (AVL_NODE AVL_NULL AVL_NULL 0 2) AVL_NULL (-1) 5, avl_numnodes = 2\<rparr> :: int avl_tree
   in case avl_add (\<lambda>x y. sgn (x - y)) tree 1 of None \<Rightarrow> False | Some tree' \<Rightarrow> set (data tree') = {1, 2, 5}"
proof -
  let ?tree = "\<lparr>avl_root = AVL_NODE (AVL_NODE AVL_NULL AVL_NULL 0 2) AVL_NULL (-1) 5, avl_numnodes = 2\<rparr> :: int avl_tree"
  have "tree_ok ?tree" "in_order (\<lambda>x y. sgn (x - y)) (data ?tree)" by (simp_all add: tree_ok_def in_order_def)
  moreover have "avl_add (\<lambda>x y. sgn (x - y)) ?tree 1 \<noteq> None" by code_simp
  ultimately show ?thesis using avl_add_set [OF sgn_order, of ?tree 1] by (auto simp: Let_def)
qed

text \<open>
  C26. avl_remove takes the data of its node out of the tree and nothing else: what was before and
  after the node stays in its order, and the tree is still balanced, in order and counted.
\<close>

theorem avl_remove_set:
  assumes "avl_order compar" "tree_ok tree" "in_order compar (data tree)" "node_of tree p"
  shows "data (avl_remove tree p) = before p @ after p \<and> data tree = before p @ dat (snd p) # after p \<and>
    set (data (avl_remove tree p)) = set (data tree) - {dat (snd p)} \<and>
    avl_numnodes (avl_remove tree p) + 1 = avl_numnodes tree \<and> tree_ok (avl_remove tree p) \<and>
    in_order compar (data (avl_remove tree p))"
  using avl_order.remove_in_order [OF assms] avl_remove_ok(2) [OF assms(2,4)] node_data [OF assms(4)] by simp

theorem avl_remove_set_witness:
  "let tree = \<lparr>avl_root = AVL_NODE (AVL_NODE AVL_NULL AVL_NULL 0 2) AVL_NULL (-1) 5, avl_numnodes = 2\<rparr> :: int avl_tree
   in data (avl_remove tree ([], avl_root tree)) = [2]"
proof -
  let ?tree = "\<lparr>avl_root = AVL_NODE (AVL_NODE AVL_NULL AVL_NULL 0 2) AVL_NULL (-1) 5, avl_numnodes = 2\<rparr> :: int avl_tree"
  have "tree_ok ?tree" "in_order (\<lambda>x y. sgn (x - y)) (data ?tree)" by (simp_all add: tree_ok_def in_order_def)
  moreover have "node_of ?tree ([], avl_root ?tree)" by (simp add: node_of_def place_of_def rebuild_def)
  ultimately show ?thesis
    using avl_remove_set [OF sgn_order, of ?tree "([], avl_root ?tree)"] by (simp add: before_def after_def)
qed

text \<open>
  C30. Iteration: starting at avl_first and following avl_walk to the right visits the data of any
  tree from left to right, each node once, and then ends.
\<close>

theorem avl_iterate: "avl_next_loop (avl_first tree) = Some (data tree)"
proof (cases "avl_first tree")
  case None
  then show ?thesis using avl_first_ok(1) [OF None] by (simp add: avl_next_loop.simps)
next
  case (Some p)
  then show ?thesis using avl_first_ok(2) [OF Some] avl_next_loop_from [of tree p] node_data [of tree p] by simp
qed

text \<open>
  avl_insert_here puts the new data directly before or after the given node, also when the
  child at that side is present, and keeps the tree balanced and counted.
\<close>

theorem avl_insert_here_place:
  assumes "tree_ok tree" "i \<in> {0, 1}" "node_of tree here"
  shows "tree_ok (avl_insert_here tree x here i) \<and>
      data (avl_insert_here tree x here i) =
        (if i = 0 then before here @ x # dat (snd here) # after here else before here @ dat (snd here) # x # after here)"
  using avl_insert_here_ok [OF assms(1,3,2), of x] by blast

theorem avl_insert_here_place_witness:
  "let tree = \<lparr>avl_root = AVL_NODE (AVL_NODE AVL_NULL AVL_NULL 0 2) AVL_NULL (-1) 5, avl_numnodes = 2\<rparr> :: int avl_tree
   in data (avl_insert_here tree 3 ([], avl_root tree) 0) = [2, 3, 5]"
proof -
  let ?tree = "\<lparr>avl_root = AVL_NODE (AVL_NODE AVL_NULL AVL_NULL 0 2) AVL_NULL (-1) 5, avl_numnodes = 2\<rparr> :: int avl_tree"
  have "tree_ok ?tree" by (simp add: tree_ok_def)
  moreover have "node_of ?tree ([], avl_root ?tree)" by (simp add: node_of_def place_of_def rebuild_def)
  ultimately show ?thesis
    using avl_insert_here_place [of ?tree 0 "([], avl_root ?tree)" 3] by (simp add: before_def after_def)
qed

text \<open>
  avl_nearest of the index of a missing value is the node directly to its left or right, and
  it is null only when there is no node on that side.
\<close>

theorem avl_nearest_neighbour:
  assumes "index_of tree path" "i \<in> {0, 1}"
  shows "case avl_nearest path i of
        None \<Rightarrow> (if i = 0 then left_of path else right_of path) = []
      | Some q \<Rightarrow> node_of tree q \<and> (if i = 0 then left_of path = before q @ [dat (snd q)]
          else right_of path = dat (snd q) # after q)"
  using avl_nearest_ok [OF assms] by (cases "avl_nearest path i") simp_all

theorem avl_nearest_neighbour_witness:
  "case avl_nearest [(1, AVL_NULL, 0, 2), (0, AVL_NULL, -1, 5 :: int)] 1 of
     None \<Rightarrow> False
   | Some q \<Rightarrow> right_of [(1, AVL_NULL, 0, 2), (0, AVL_NULL, -1, 5)] = dat (snd q) # after q"
proof -
  let ?path = "[(1, AVL_NULL, 0, 2), (0, AVL_NULL, -1, 5)] :: int frame list"
  let ?tree = "\<lparr>avl_root = AVL_NODE (AVL_NODE AVL_NULL AVL_NULL 0 2) AVL_NULL (-1) 5, avl_numnodes = 2\<rparr> :: int avl_tree"
  have "index_of ?tree ?path" by (simp add: index_of_def place_of_def rebuild_def)
  moreover have "avl_nearest ?path 1 \<noteq> None" by code_simp
  ultimately show ?thesis using avl_nearest_neighbour [of ?tree ?path 1] by (auto split: option.splits)
qed

text \<open>
  C28. Tearing a tree down ends: calling avl_destroy_nodes from a null cookie until it hands out
  nothing hands out every node exactly once, children before their parents, and leaves the tree
  as avl_create makes it and the cookie at the mark of the end.
\<close>

theorem avl_destroy_all:
  assumes "tree_ok tree"
  shows "destroy_loop tree Cookie_Null =
      Some (postorder (avl_root tree), avl_create, Cookie []) \<and>
    mset (postorder (avl_root tree)) = mset (data tree)"
  using destroy_loop_handing [OF handing_start [OF assms]] mset_postorder by blast

theorem avl_destroy_all_witness:
  "let tree = \<lparr>avl_root = AVL_NODE (AVL_NODE AVL_NULL AVL_NULL 0 2) AVL_NULL (-1) 5, avl_numnodes = 2\<rparr> :: int avl_tree
   in destroy_loop tree Cookie_Null = Some ([2, 5], avl_create, Cookie [])"
  using avl_destroy_all
    [of "\<lparr>avl_root = AVL_NODE (AVL_NODE AVL_NULL AVL_NULL 0 2) AVL_NULL (-1) 5, avl_numnodes = 2\<rparr> :: int avl_tree"]
  by (simp add: tree_ok_def)

text \<open>
  The packed word of a node: with a parent address that is a multiple of 8, a child index of 0
  or 1 and a balance of -1, 0 or 1, each of the three fields reads back what was stored into it
  and storing one leaves the other two as they are; an index gives back its node and child.
\<close>

theorem avl_pcb_fields:
  assumes "p AND 7 = 0" "c \<in> {0, 1}" "b \<in> {-1, 0, 1}"
  shows "AVL_XPARENT (AVL_SETPARENT pcb p) = p \<and> AVL_XCHILD (AVL_SETPARENT pcb p) = AVL_XCHILD pcb \<and>
      AVL_XBALANCE (AVL_SETPARENT pcb p) = AVL_XBALANCE pcb \<and>
    AVL_XPARENT (AVL_SETCHILD pcb c) = AVL_XPARENT pcb \<and> AVL_XCHILD (AVL_SETCHILD pcb c) = ucast c \<and>
      AVL_XBALANCE (AVL_SETCHILD pcb c) = AVL_XBALANCE pcb \<and>
    AVL_XPARENT (AVL_SETBALANCE pcb b) = AVL_XPARENT pcb \<and> AVL_XCHILD (AVL_SETBALANCE pcb b) = AVL_XCHILD pcb \<and>
      AVL_XBALANCE (AVL_SETBALANCE pcb b) = b \<and>
    AVL_INDEX2NODE (AVL_MKINDEX p (ucast c)) = p \<and> AVL_INDEX2CHILD (AVL_MKINDEX p (ucast c)) = ucast c"
proof -
  have bs: "c = 0 \<or> c = 1" "b = -1 \<or> b = 0 \<or> b = 1" using assms by auto
  have minus: "ucast (-1 :: 64 word) = (-1 :: 32 word)" by code_simp
  have 4: "(scast (b + 1) :: 64 word) = 0 \<or> (scast (b + 1) :: 64 word) = 1 \<or> (scast (b + 1) :: 64 word) = 2"
    using bs(2) by auto
  have 5: "(ucast ((scast (b + 1) :: 64 word) - 1) :: 32 word) = b"
    using bs(2) minus by auto
  show ?thesis
    unfolding AVL_XPARENT_def AVL_XCHILD_def AVL_XBALANCE_def AVL_SETPARENT_def AVL_SETCHILD_def AVL_SETBALANCE_def
      AVL_INDEX2NODE_def AVL_INDEX2CHILD_def AVL_MKINDEX_def
    using pcb_parent [OF assms(1), of pcb] pcb_parent(4,5) [OF assms(1), of "ucast c"] pcb_child [of "scast (push_bit 2 c)" pcb]
      pcb_balance [of "scast (b + 1)" pcb] 4 5 bs(1) by auto
qed

theorem avl_pcb_fields_witness:
  "AVL_XPARENT (AVL_SETPARENT 5 0x1000) = 0x1000 \<and> AVL_XBALANCE (AVL_SETBALANCE 5 (-1)) = -1"
  using avl_pcb_fields [of "0x1000" 0 "-1" 5] by simp

end
