(* ===== verification/Space_Map.thy ===== *)
theory Space_Map
  imports Avl
begin

text \<open>
  The in-core space maps of ZFS (\<^verbatim>\<open>uts/common/fs/zfs/space_map.c\<close>): the segments of a range of
  offsets, kept in an AVL tree.

  A map is a record with the fields of \<^verbatim>\<open>space_map_t\<close>; the lock and the condition variable are
  left out, since every operation runs with the lock held.  The operations vector is a record of
  functions on the map without that vector, and the picker's private data has any type.  A failed
  VERIFY is \<^const>\<open>None\<close>.  A pointer to a segment is its place in the tree; a pointer that is used
  after the tree has changed is looked up again by the segment it points to, since the segments of
  a map differ.  The walks of other maps take the function they call as an argument.
\<close>

unbundle bit_operations_syntax

section \<open>Segments and maps\<close>

definition P2PHASE :: "u64 \<Rightarrow> u64 \<Rightarrow> u64" where
  "P2PHASE x align = x AND (align - 1)"

record space_seg =
  ss_start :: u64
  ss_end :: u64

record 'p space_map_core =
  sm_root :: "space_seg avl_tree"
  sm_space :: u64
  sm_start :: u64
  sm_size :: u64
  sm_shift :: u8
  sm_loaded :: bool
  sm_loading :: bool
  sm_ppd :: "'p option"

record 'p space_map_ops =
  smop_load :: "'p space_map_core \<Rightarrow> 'p space_map_core"
  smop_unload :: "'p space_map_core \<Rightarrow> 'p space_map_core"
  smop_alloc :: "'p space_map_core \<Rightarrow> u64 \<Rightarrow> (u64 \<times> 'p space_map_core) option"
  smop_claim :: "'p space_map_core \<Rightarrow> u64 \<Rightarrow> u64 \<Rightarrow> 'p space_map_core"
  smop_free :: "'p space_map_core \<Rightarrow> u64 \<Rightarrow> u64 \<Rightarrow> 'p space_map_core"

record 'p space_map = "'p space_map_core" +
  sm_ops :: "'p space_map_ops option"

definition space_map_seg_compare :: "space_seg \<Rightarrow> space_seg \<Rightarrow> int" where
  "space_map_seg_compare s1 s2 =
     (if ss_start s1 < ss_start s2 then
        (if ss_end s1 > ss_start s2 then 0 else -1)
      else if ss_start s1 > ss_start s2 then
        (if ss_start s1 < ss_end s2 then 0 else 1)
      else 0)"

definition space_map_create :: "u64 \<Rightarrow> u64 \<Rightarrow> u8 \<Rightarrow> 'p space_map" where
  "space_map_create start sz shift =
     \<lparr>sm_root = avl_create, sm_space = 0, sm_start = start, sm_size = sz, sm_shift = shift,
      sm_loaded = False, sm_loading = False, sm_ppd = None, sm_ops = None\<rparr>"

definition space_map_destroy :: "'p space_map \<Rightarrow> unit option" where
  "space_map_destroy sm = (if sm_space sm = 0 then Some () else None)"

text \<open>A store into the segment at a place, and the place where a segment is now.\<close>

fun set_dat :: "'a \<Rightarrow> 'a avl_node \<Rightarrow> 'a avl_node" where
  "set_dat x AVL_NULL = AVL_NULL"
| "set_dat x (AVL_NODE l r b y) = AVL_NODE l r b x"

definition store :: "'a avl_tree \<Rightarrow> 'a place \<Rightarrow> 'a \<Rightarrow> 'a avl_tree \<times> 'a place" where
  "store tree p x =
     (let p = (fst p, set_dat x (snd p)) in (tree\<lparr>avl_root := rebuild (fst p) (snd p)\<rparr>, p))"

fun locate :: "'a \<Rightarrow> 'a frame list \<Rightarrow> 'a avl_node \<Rightarrow> 'a place option" where
  "locate x path AVL_NULL = None"
| "locate x path (AVL_NODE l r b y) =
     (if x = y then Some (path, AVL_NODE l r b y)
      else case locate x ((0, r, b, y) # path) l of
             None \<Rightarrow> locate x ((1, l, b, y) # path) r
           | Some p \<Rightarrow> Some p)"

definition update_at :: "'a avl_tree \<Rightarrow> 'a \<Rightarrow> 'a \<Rightarrow> 'a avl_tree" where
  "update_at tree x y =
     (case locate x [] (avl_root tree) of None \<Rightarrow> tree | Some p \<Rightarrow> fst (store tree p y))"

section \<open>Adding, removing, testing\<close>

definition unit_phase :: "('p, 'z) space_map_core_scheme \<Rightarrow> u64 \<Rightarrow> u64" where
  "unit_phase sm x = P2PHASE x (push_bit (unat (sm_shift sm)) 1)"

definition merge_segs :: "space_seg avl_tree \<Rightarrow> space_seg frame list \<Rightarrow> u64 \<Rightarrow> u64 \<Rightarrow> space_seg avl_tree" where
  "merge_segs root where start end =
     (let ss_before = map_option (dat \<circ> snd) (avl_nearest where 0);
          ss_after = map_option (dat \<circ> snd) (avl_nearest where 1);
          merge_before = (case ss_before of None \<Rightarrow> False | Some ss \<Rightarrow> ss_end ss = start);
          merge_after = (case ss_after of None \<Rightarrow> False | Some ss \<Rightarrow> ss_start ss = end)
      in if merge_before \<and> merge_after then
           let root = avl_remove root (the (avl_nearest where 0))
           in update_at root (the ss_after) ((the ss_after)\<lparr>ss_start := ss_start (the ss_before)\<rparr>)
         else if merge_before then
           update_at root (the ss_before) ((the ss_before)\<lparr>ss_end := end\<rparr>)
         else if merge_after then
           update_at root (the ss_after) ((the ss_after)\<lparr>ss_start := start\<rparr>)
         else avl_insert root \<lparr>ss_start = start, ss_end = end\<rparr> where)"

definition space_map_add ::
  "('p, 'z) space_map_core_scheme \<Rightarrow> u64 \<Rightarrow> u64 \<Rightarrow> ('p, 'z) space_map_core_scheme option" where
  "space_map_add sm start sz =
     (let end = start + sz
      in if sz \<noteq> 0 \<and> start \<ge> sm_start sm \<and> end \<le> sm_start sm + sm_size sm \<and>
            sm_space sm + sz \<le> sm_size sm \<and> unit_phase sm start = 0 \<and> unit_phase sm sz = 0
         then case avl_find space_map_seg_compare (sm_root sm) \<lparr>ss_start = start, ss_end = end\<rparr> of
                Inl ss \<Rightarrow> None
              | Inr where \<Rightarrow>
                  Some (sm\<lparr>sm_root := merge_segs (sm_root sm) where start end,
                           sm_space := sm_space sm + sz\<rparr>)
         else None)"

definition cut_seg :: "space_seg avl_tree \<Rightarrow> space_seg place \<Rightarrow> u64 \<Rightarrow> u64 \<Rightarrow> space_seg avl_tree" where
  "cut_seg root p start end =
     (let ss = dat (snd p);
          left_over = (ss_start ss \<noteq> start);
          right_over = (ss_end ss \<noteq> end)
      in if left_over \<and> right_over then
           let newseg = \<lparr>ss_start = end, ss_end = ss_end ss\<rparr>;
               (root, p) = store root p (ss\<lparr>ss_end := start\<rparr>)
           in avl_insert_here root newseg p 1
         else if left_over then fst (store root p (ss\<lparr>ss_end := start\<rparr>))
         else if right_over then fst (store root p (ss\<lparr>ss_start := end\<rparr>))
         else avl_remove root p)"

definition space_map_remove ::
  "('p, 'z) space_map_core_scheme \<Rightarrow> u64 \<Rightarrow> u64 \<Rightarrow> ('p, 'z) space_map_core_scheme option" where
  "space_map_remove sm start sz =
     (let end = start + sz
      in if sz \<noteq> 0 \<and> unit_phase sm start = 0 \<and> unit_phase sm sz = 0
         then case avl_find space_map_seg_compare (sm_root sm) \<lparr>ss_start = start, ss_end = end\<rparr> of
                Inr where \<Rightarrow> None
              | Inl p \<Rightarrow>
                  if ss_start (dat (snd p)) \<le> start \<and> ss_end (dat (snd p)) \<ge> end \<and>
                     sm_space sm - sz \<le> sm_size sm
                  then Some (sm\<lparr>sm_root := cut_seg (sm_root sm) p start end, sm_space := sm_space sm - sz\<rparr>)
                  else None
         else None)"

definition space_map_contains :: "('p, 'z) space_map_core_scheme \<Rightarrow> u64 \<Rightarrow> u64 \<Rightarrow> bool option" where
  "space_map_contains sm start sz =
     (let end = start + sz
      in if sz \<noteq> 0 \<and> unit_phase sm start = 0 \<and> unit_phase sm sz = 0
         then Some (case avl_find space_map_seg_compare (sm_root sm) \<lparr>ss_start = start, ss_end = end\<rparr> of
                      Inr where \<Rightarrow> False
                    | Inl p \<Rightarrow> ss_start (dat (snd p)) \<le> start \<and> ss_end (dat (snd p)) \<ge> end)
         else None)"

section \<open>Loops over the segments\<close>

partial_function (option) vacate_loop ::
  "('m \<Rightarrow> u64 \<Rightarrow> u64 \<Rightarrow> 'm option) option \<Rightarrow> space_seg avl_tree \<Rightarrow> space_seg cookie \<Rightarrow> 'm \<Rightarrow>
     (space_seg avl_tree \<times> 'm) option" where
  "vacate_loop func tree cookie mdest =
     (case avl_destroy_nodes tree cookie of
        (None, tree, cookie) \<Rightarrow> Some (tree, mdest)
      | (Some ss, tree, cookie) \<Rightarrow>
          Option.bind
            (case func of None \<Rightarrow> Some mdest | Some f \<Rightarrow> f mdest (ss_start ss) (ss_end ss - ss_start ss))
            (vacate_loop func tree cookie))"

declare vacate_loop.simps [code]

definition space_map_vacate ::
  "('p, 'z) space_map_core_scheme \<Rightarrow> ('m \<Rightarrow> u64 \<Rightarrow> u64 \<Rightarrow> 'm option) option \<Rightarrow> 'm \<Rightarrow>
     (('p, 'z) space_map_core_scheme \<times> 'm) option" where
  "space_map_vacate sm func mdest =
     map_option (\<lambda>(root, mdest). (sm\<lparr>sm_root := root, sm_space := 0\<rparr>, mdest))
       (vacate_loop func (sm_root sm) Cookie_Null mdest)"

partial_function (option) walk_loop ::
  "('m \<Rightarrow> u64 \<Rightarrow> u64 \<Rightarrow> 'm option) \<Rightarrow> space_seg place option \<Rightarrow> 'm \<Rightarrow> 'm option" where
  "walk_loop func ss mdest =
     (case ss of
        None \<Rightarrow> Some mdest
      | Some p \<Rightarrow>
          Option.bind (func mdest (ss_start (dat (snd p))) (ss_end (dat (snd p)) - ss_start (dat (snd p))))
            (walk_loop func (avl_walk p 1)))"

declare walk_loop.simps [code]

definition space_map_walk ::
  "('p, 'z) space_map_core_scheme \<Rightarrow> ('m \<Rightarrow> u64 \<Rightarrow> u64 \<Rightarrow> 'm option) \<Rightarrow> 'm \<Rightarrow> 'm option" where
  "space_map_walk sm func mdest = walk_loop func (avl_first (sm_root sm)) mdest"

partial_function (option) space_map_excise ::
  "('p, 'z) space_map_core_scheme \<Rightarrow> u64 \<Rightarrow> u64 \<Rightarrow> ('p, 'z) space_map_core_scheme option" where
  "space_map_excise sm start sz =
     (let end = start + sz;
          ss = (case avl_find space_map_seg_compare (sm_root sm) \<lparr>ss_start = start, ss_end = start\<rparr> of
                  Inl p \<Rightarrow> Some p
                | Inr where \<Rightarrow> avl_nearest where 1)
      in case ss of
           None \<Rightarrow> Some sm
         | Some p \<Rightarrow>
             if ss_start (dat (snd p)) \<ge> end then Some sm
             else let rm_start = max (ss_start (dat (snd p))) start;
                      rm_end = min (ss_end (dat (snd p))) end
                  in Option.bind (space_map_remove sm rm_start (rm_end - rm_start))
                       (\<lambda>sm. space_map_excise sm start sz))"

declare space_map_excise.simps [code]

definition space_map_union ::
  "('p, 'z) space_map_core_scheme \<Rightarrow> ('p, 'z) space_map_core_scheme \<Rightarrow> ('p, 'z) space_map_core_scheme option" where
  "space_map_union smd sms =
     walk_loop (\<lambda>smd start sz. Option.bind (space_map_excise smd start sz) (\<lambda>smd. space_map_add smd start sz))
       (avl_first (sm_root sms)) smd"

section \<open>The operations vector\<close>

text \<open>An operation of the vector on the whole map.\<close>

definition on_core :: "('p space_map_core \<Rightarrow> 'p space_map_core) \<Rightarrow> 'p space_map \<Rightarrow> 'p space_map" where
  "on_core f sm = space_map_core.extend (f (space_map_core.truncate sm)) \<lparr>sm_ops = sm_ops sm\<rparr>"

definition space_map_unload :: "'p space_map \<Rightarrow> 'p space_map option" where
  "space_map_unload sm =
     (let sm = (case sm_ops sm of
                  None \<Rightarrow> sm
                | Some ops \<Rightarrow> if sm_loaded sm then on_core (smop_unload ops) sm else sm);
          sm = sm\<lparr>sm_loaded := False, sm_ops := None\<rparr>
      in map_option fst (space_map_vacate sm None ()))"

text \<open>Without a vector these three fault.\<close>

definition space_map_alloc :: "'p space_map \<Rightarrow> u64 \<Rightarrow> (u64 \<times> 'p space_map) option" where
  "space_map_alloc sm sz =
     Option.bind (sm_ops sm) (\<lambda>ops.
     Option.bind (smop_alloc ops (space_map_core.truncate sm) sz) (\<lambda>(start, core).
       let sm = space_map_core.extend core \<lparr>sm_ops = sm_ops sm\<rparr>
       in if start \<noteq> -1 then map_option (Pair start) (space_map_remove sm start sz) else Some (start, sm)))"

definition space_map_claim :: "'p space_map \<Rightarrow> u64 \<Rightarrow> u64 \<Rightarrow> 'p space_map option" where
  "space_map_claim sm start sz =
     Option.bind (sm_ops sm) (\<lambda>ops.
       space_map_remove (on_core (\<lambda>core. smop_claim ops core start sz) sm) start sz)"

definition space_map_free :: "'p space_map \<Rightarrow> u64 \<Rightarrow> u64 \<Rightarrow> 'p space_map option" where
  "space_map_free sm start sz =
     Option.bind (space_map_add sm start sz) (\<lambda>sm.
     Option.bind (sm_ops sm) (\<lambda>ops.
       Some (on_core (\<lambda>core. smop_free ops core start sz) sm)))"

section \<open>Stores into the tree\<close>

lemma rebuild_cong:
  "height t = height u \<Longrightarrow> avl_ok t = avl_ok u \<Longrightarrow>
    height (rebuild path t) = height (rebuild path u) \<and> avl_ok (rebuild path t) = avl_ok (rebuild path u)"
proof (induction path arbitrary: t u)
  case (Cons f path)
  obtain i other b x where f: "f = (i, other, b, x)" by (cases f)
  have "height (plug f t) = height (plug f u)" "avl_ok (plug f t) = avl_ok (plug f u)"
    using Cons.prems by (simp_all add: f)
  then show ?case using Cons.IH [of "plug f t" "plug f u"] by (simp add: rebuild_def)
qed (simp add: rebuild_def)

lemma store_ok:
  assumes "tree_ok tree" "node_of tree p"
  shows "tree_ok (fst (store tree p x))" "data (fst (store tree p x)) = before p @ x # after p"
    "node_of (fst (store tree p x)) (snd (store tree p x))"
    "before (snd (store tree p x)) = before p" "after (snd (store tree p x)) = after p"
    "dat (snd (snd (store tree p x))) = x"
proof -
  obtain path t where p: "p = (path, t)" by fastforce
  obtain l r b y where t: "t = AVL_NODE l r b y"
    using assms(2) by (cases t) (auto simp: node_of_def p)
  have n: "node_of (fst (store tree p x)) (snd (store tree p x))"
    using assms(2) by (simp add: store_def Let_def node_of_def place_of_def p t)
  have b: "before (snd (store tree p x)) = before p" "after (snd (store tree p x)) = after p"
    "dat (snd (snd (store tree p x))) = x"
    by (simp_all add: store_def before_def after_def p t)
  show "node_of (fst (store tree p x)) (snd (store tree p x))"
    "before (snd (store tree p x)) = before p" "after (snd (store tree p x)) = after p"
    "dat (snd (snd (store tree p x))) = x" by (rule n b)+
  show d: "data (fst (store tree p x)) = before p @ x # after p"
    using node_data [OF n] b by simp
  have "avl_ok (avl_root (fst (store tree p x))) = avl_ok (avl_root tree)"
    using rebuild_cong [of "set_dat x t" t path] assms(2)
    by (simp add: store_def Let_def node_of_def place_of_def p t)
  moreover have "avl_numnodes (fst (store tree p x)) = avl_numnodes tree" by (simp add: store_def Let_def)
  ultimately show "tree_ok (fst (store tree p x))"
    using assms(1) node_data [OF assms(2)] d by (simp add: tree_ok_def)
qed

lemma locate_ok:
  assumes "x \<in> set (inorder t)" "list_all (\<lambda>f. fst f \<in> {0, 1}) path"
  shows "\<exists>p. locate x path t = Some p \<and> place_of (rebuild path t) p \<and> snd p \<noteq> AVL_NULL \<and> dat (snd p) = x"
  using assms
proof (induction t arbitrary: path)
  case (AVL_NODE l r b y)
  have none: "locate x path' t' = None" if "x \<notin> set (inorder t')" for path' t'
    using that by (induction t' arbitrary: path') auto
  consider "x = y" | "x \<noteq> y" "x \<in> set (inorder l)" | "x \<noteq> y" "x \<notin> set (inorder l)" "x \<in> set (inorder r)"
    using AVL_NODE.prems by auto
  then show ?case
  proof cases
    case 1
    then show ?thesis using AVL_NODE.prems(2) by (simp add: place_of_def)
  next
    case 2
    then show ?thesis
      using AVL_NODE.IH(1) [of "(0, r, b, y) # path"] AVL_NODE.prems(2) by (auto simp: rebuild_def)
  next
    case 3
    then show ?thesis
      using AVL_NODE.IH(2) [of "(1, l, b, y) # path"] AVL_NODE.prems(2) none [OF 3(2)] by (auto simp: rebuild_def)
  qed
qed simp

lemma distinct_split:
  assumes "distinct (xs @ x # ys)" "xs @ x # ys = xs' @ x # ys'"
  shows "xs = xs' \<and> ys = ys'"
proof -
  have "x \<notin> set xs" "x \<notin> set ys" using assms(1) by auto
  then show ?thesis using assms(2) append_Cons_eq_iff by metis
qed

lemma update_at_ok:
  assumes "tree_ok tree" "data tree = xs @ x # ys" "distinct (data tree)"
  shows "tree_ok (update_at tree x y)" "data (update_at tree x y) = xs @ y # ys"
proof -
  obtain p where p: "locate x [] (avl_root tree) = Some p" "node_of tree p" "dat (snd p) = x"
    using locate_ok [of x "avl_root tree" "[]"] assms(2) by (auto simp: node_of_def rebuild_def)
  have "before p = xs \<and> after p = ys"
    using distinct_split [of xs x ys "before p" "after p"] node_data [OF p(2)] assms(3) p(3) unfolding assms(2) by simp
  then show "tree_ok (update_at tree x y)" "data (update_at tree x y) = xs @ y # ys"
    using store_ok(1,2) [OF assms(1) p(2), of y] by (simp_all add: update_at_def p(1))
qed

section \<open>Segments in order\<close>

interpretation seg: avl_order space_map_seg_compare
  by unfold_locales (auto simp: space_map_seg_compare_def split: if_splits)

text \<open>Segments that are not empty and neither overlap nor touch.\<close>

definition apart :: "space_seg list \<Rightarrow> bool" where
  "apart xs \<longleftrightarrow> list_all (\<lambda>s. ss_start s < ss_end s) xs \<and> sorted_wrt (\<lambda>a b. ss_end a < ss_start b) xs"

definition seg_offs :: "space_seg \<Rightarrow> nat set" where
  "seg_offs s = {unat (ss_start s)..<unat (ss_end s)}"

definition offs :: "space_seg list \<Rightarrow> nat set" where
  "offs xs = (\<Union>s \<in> set xs. seg_offs s)"

lemma offs_simps [simp]:
  "offs [] = {}" "offs (s # xs) = seg_offs s \<union> offs xs" "offs (xs @ ys) = offs xs \<union> offs ys"
  by (auto simp: offs_def)

lemma finite_offs [simp]: "finite (offs xs)"
  by (induction xs) (simp_all add: seg_offs_def)

lemma apart_simps [simp]:
  "apart []" "apart (s # xs) \<longleftrightarrow> ss_start s < ss_end s \<and> (\<forall>x \<in> set xs. ss_end s < ss_start x) \<and> apart xs"
  "apart (xs @ ys) \<longleftrightarrow> apart xs \<and> apart ys \<and> (\<forall>x \<in> set xs. \<forall>y \<in> set ys. ss_end x < ss_start y)"
  by (auto simp: apart_def sorted_wrt_append)

lemma apart_in_order: "apart xs \<Longrightarrow> in_order space_map_seg_compare xs"
proof (induction xs)
  case (Cons s xs)
  have "space_map_seg_compare s x = -1" if "x \<in> set xs" for x
    using Cons.prems that by (auto simp: space_map_seg_compare_def)
  then show ?case using Cons by (simp add: in_order_def)
qed (simp add: in_order_def)

lemma apart_distinct: "apart xs \<Longrightarrow> distinct xs"
  by (rule seg.in_order_distinct) (rule apart_in_order)

text \<open>The segments after a range was merged between two lists of segments.\<close>

definition glue :: "space_seg list \<Rightarrow> u64 \<Rightarrow> u64 \<Rightarrow> space_seg list \<Rightarrow> space_seg list" where
  "glue xs start end ys =
     (let mb = (xs \<noteq> [] \<and> ss_end (last xs) = start); ma = (ys \<noteq> [] \<and> ss_start (hd ys) = end)
      in (if mb then butlast xs else xs) @
         \<lparr>ss_start = (if mb then ss_start (last xs) else start), ss_end = (if ma then ss_end (hd ys) else end)\<rparr> #
         (if ma then tl ys else ys))"

lemma seg_update [simp]:
  "s\<lparr>ss_start := a\<rparr> = \<lparr>ss_start = a, ss_end = ss_end s\<rparr>" "s\<lparr>ss_end := b\<rparr> = \<lparr>ss_start = ss_start s, ss_end = b\<rparr>"
  by (cases s; simp)+

lemma merge_segs_ok:
  assumes "tree_ok tree" "apart (data tree)" "index_of tree path"
  shows "tree_ok (merge_segs tree path start end)"
    "data (merge_segs tree path start end) = glue (left_of path) start end (right_of path)"
proof -
  let ?xs = "left_of path" and ?ys = "right_of path"
  have d: "data tree = ?xs @ ?ys" and dist: "distinct (data tree)"
    using index_data [OF assms(3)] apart_distinct [OF assms(2)] by simp_all
  have b: "map_option (dat \<circ> snd) (avl_nearest path 0) = (if ?xs = [] then None else Some (last ?xs))"
    using avl_nearest_ok [OF assms(3), of 0] by (cases "avl_nearest path 0") simp_all
  have a: "map_option (dat \<circ> snd) (avl_nearest path 1) = (if ?ys = [] then None else Some (hd ?ys))"
    using avl_nearest_ok [OF assms(3), of 1] by (cases "avl_nearest path 1") simp_all
  define mb where "mb = (?xs \<noteq> [] \<and> ss_end (last ?xs) = start)"
  define ma where "ma = (?ys \<noteq> [] \<and> ss_start (hd ?ys) = end)"
  have xs: "mb \<Longrightarrow> ?xs = butlast ?xs @ [last ?xs]" and ys: "ma \<Longrightarrow> ?ys = hd ?ys # tl ?ys"
    by (simp_all add: mb_def ma_def)
  have eq: "merge_segs tree path start end =
    (if mb \<and> ma then update_at (avl_remove tree (the (avl_nearest path 0))) (hd ?ys) ((hd ?ys)\<lparr>ss_start := ss_start (last ?xs)\<rparr>)
     else if mb then update_at tree (last ?xs) ((last ?xs)\<lparr>ss_end := end\<rparr>)
     else if ma then update_at tree (hd ?ys) ((hd ?ys)\<lparr>ss_start := start\<rparr>)
     else avl_insert tree \<lparr>ss_start = start, ss_end = end\<rparr> path)"
    unfolding merge_segs_def a b by (auto simp: mb_def ma_def Let_def)
  have "tree_ok (merge_segs tree path start end) \<and>
    data (merge_segs tree path start end) = glue ?xs start end ?ys"
  proof -
    consider "mb" "ma" | "mb" "\<not> ma" | "\<not> mb" "ma" | "\<not> mb" "\<not> ma" by blast
    then show ?thesis
    proof cases
      case 1
      have "avl_nearest path 0 \<noteq> None" using b 1 by (auto simp: mb_def split: if_splits)
      then obtain p where p: "avl_nearest path 0 = Some p" by blast
      have n: "node_of tree p" "?xs = before p @ [dat (snd p)]" using avl_nearest_ok(2) [OF assms(3) _ p] by simp_all
      then have "after p = ?ys" "butlast ?xs = before p"
        using node_data [OF n(1)] d by simp_all
      then have r: "tree_ok (avl_remove tree p)" "data (avl_remove tree p) = butlast ?xs @ hd ?ys # tl ?ys"
        using avl_remove_ok [OF assms(1) n(1)] ys [OF 1(2)] by simp_all
      have "distinct (butlast ?xs @ ?ys)" using dist unfolding d by (subst (asm) xs [OF 1(1)]) auto
      then have "distinct (data (avl_remove tree p))" using r(2) ys [OF 1(2)] by simp
      from update_at_ok [OF r this] show ?thesis
        using 1 by (simp add: eq p glue_def mb_def [symmetric] ma_def [symmetric])
    next
      case 2
      have "data tree = butlast ?xs @ last ?xs # ?ys" using d xs [OF 2(1)] by simp
      from update_at_ok [OF assms(1) this dist] show ?thesis
        using 2 by (simp add: eq glue_def mb_def [symmetric] ma_def [symmetric])
    next
      case 3
      have "data tree = ?xs @ hd ?ys # tl ?ys" using d ys [OF 3(2)] by simp
      from update_at_ok [OF assms(1) this dist] show ?thesis
        using 3 by (simp add: eq glue_def mb_def [symmetric] ma_def [symmetric])
    next
      case 4
      then show ?thesis
        using avl_insert_ok [OF assms(1,3)] by (simp add: eq glue_def mb_def [symmetric] ma_def [symmetric])
    qed
  qed
  then show "tree_ok (merge_segs tree path start end)"
    "data (merge_segs tree path start end) = glue ?xs start end ?ys" by simp_all
qed

lemma glue_apart:
  assumes "apart (xs @ ys)" "start < end" "\<forall>x \<in> set xs. ss_end x \<le> start" "\<forall>y \<in> set ys. end \<le> ss_start y"
  shows "apart (glue xs start end ys)" "offs (glue xs start end ys) = offs (xs @ ys) \<union> {unat start..<unat end}"
proof -
  have xs: "xs = [] \<or> (\<exists>xs' x. xs = xs' @ [x])" by (cases xs rule: rev_cases) auto
  have ys: "ys = [] \<or> (\<exists>y ys'. ys = y # ys')" by (cases ys) auto
  show "apart (glue xs start end ys)"
    using xs ys assms by (elim disjE exE) (auto simp: glue_def Let_def dest: order.strict_trans)
  show "offs (glue xs start end ys) = offs (xs @ ys) \<union> {unat start..<unat end}"
    using xs ys assms by (elim disjE exE) (auto simp: glue_def Let_def seg_offs_def word_less_nat_alt word_le_nat_alt)
qed

text \<open>What is left of a segment when a range is cut out of it.\<close>

definition pieces :: "space_seg \<Rightarrow> u64 \<Rightarrow> u64 \<Rightarrow> space_seg list" where
  "pieces s start end =
     (if ss_start s \<noteq> start then [\<lparr>ss_start = ss_start s, ss_end = start\<rparr>] else []) @
     (if ss_end s \<noteq> end then [\<lparr>ss_start = end, ss_end = ss_end s\<rparr>] else [])"

lemma cut_seg_ok:
  assumes "tree_ok tree" "node_of tree p"
  shows "tree_ok (cut_seg tree p start end)"
    "data (cut_seg tree p start end) = before p @ pieces (dat (snd p)) start end @ after p"
proof -
  let ?s = "dat (snd p)"
  note st = store_ok [OF assms]
  have h: "tree_ok (avl_insert_here (fst (store tree p x)) y (snd (store tree p x)) 1)"
    "data (avl_insert_here (fst (store tree p x)) y (snd (store tree p x)) 1) = before p @ x # y # after p" for x y
    using avl_insert_here_ok [OF st(1) st(3), of 1 x y] st(4-6) [of x] by simp_all
  show "tree_ok (cut_seg tree p start end)"
    using h(1) st(1) avl_remove_ok(1) [OF assms] by (simp add: cut_seg_def Let_def split_beta)
  show "data (cut_seg tree p start end) = before p @ pieces (dat (snd p)) start end @ after p"
    using h(2) st(2) avl_remove_ok(2) [OF assms] by (simp add: cut_seg_def Let_def split_beta pieces_def)
qed

lemma pieces_apart:
  assumes "apart (xs @ s # ys)" "start < end" "ss_start s \<le> start" "end \<le> ss_end s"
  shows "apart (xs @ pieces s start end @ ys)"
    "offs (xs @ pieces s start end @ ys) = offs (xs @ s # ys) - {unat start..<unat end}"
proof -
  have lt: "\<forall>x \<in> set xs. ss_end x < ss_start s" "\<forall>y \<in> set ys. ss_end s < ss_start y" "apart xs" "apart ys"
    "\<forall>x \<in> set xs. \<forall>y \<in> set ys. ss_end x < ss_start y"
    using assms(1) by auto
  show "apart (xs @ pieces s start end @ ys)"
    using lt assms(2-4) by (auto simp: pieces_def intro: order.strict_trans2 order.strict_trans1 order.strict_trans)
  have "offs xs \<inter> {unat start..<unat end} = {}" "offs ys \<inter> {unat start..<unat end} = {}"
    using lt assms(3,4) by (fastforce simp: offs_def seg_offs_def word_less_nat_alt word_le_nat_alt)+
  moreover have "offs (pieces s start end) = seg_offs s - {unat start..<unat end}"
    using assms(2-4) by (auto simp: pieces_def seg_offs_def word_less_nat_alt word_le_nat_alt)
  ultimately show "offs (xs @ pieces s start end @ ys) = offs (xs @ s # ys) - {unat start..<unat end}"
    by auto
qed

section \<open>The invariant of a map\<close>

abbreviation segs :: "('p, 'z) space_map_core_scheme \<Rightarrow> space_seg list" where
  "segs sm \<equiv> data (sm_root sm)"

text \<open>The offsets of a map, its bounds, and the ranges its operations accept.\<close>

definition space_of :: "('p, 'z) space_map_core_scheme \<Rightarrow> nat set" where
  "space_of sm = offs (segs sm)"

definition span :: "u64 \<Rightarrow> u64 \<Rightarrow> nat set" where
  "span start sz = {unat start..<unat start + unat sz}"

definition unit_of :: "('p, 'z) space_map_core_scheme \<Rightarrow> nat" where
  "unit_of sm = 2 ^ unat (sm_shift sm)"

definition bounds :: "('p, 'z) space_map_core_scheme \<Rightarrow> u64 \<times> u64 \<times> u8" where
  "bounds sm = (sm_start sm, sm_size sm, sm_shift sm)"

definition seg_fits :: "('p, 'z) space_map_core_scheme \<Rightarrow> space_seg \<Rightarrow> bool" where
  "seg_fits sm s \<longleftrightarrow> unat (sm_start sm) \<le> unat (ss_start s) \<and> unat (ss_end s) \<le> unat (sm_start sm) + unat (sm_size sm) \<and>
     unit_of sm dvd unat (ss_start s) \<and> unit_of sm dvd unat (ss_end s)"

definition in_range :: "('p, 'z) space_map_core_scheme \<Rightarrow> u64 \<Rightarrow> u64 \<Rightarrow> bool" where
  "in_range sm start sz \<longleftrightarrow> sz \<noteq> 0 \<and> span start sz \<subseteq> span (sm_start sm) (sm_size sm) \<and>
     unit_of sm dvd unat start \<and> unit_of sm dvd unat sz"

definition sm_wf :: "('p, 'z) space_map_core_scheme \<Rightarrow> bool" where
  "sm_wf sm \<longleftrightarrow> tree_ok (sm_root sm) \<and> apart (segs sm) \<and> list_all (seg_fits sm) (segs sm) \<and>
     unat (sm_space sm) = card (space_of sm) \<and>
     unat (sm_start sm) + unat (sm_size sm) < 2 ^ 64 \<and> unat (sm_shift sm) < 64"

lemma unit_phase_0:
  assumes "unat (sm_shift sm) < 64"
  shows "unit_phase sm x = 0 \<longleftrightarrow> unit_of sm dvd unat x"
proof -
  have "push_bit (unat (sm_shift sm)) 1 - 1 = (mask (unat (sm_shift sm)) :: u64)"
    by (simp add: mask_eq_exp_minus_1 push_bit_eq_mult)
  then have "unit_phase sm x = 0 \<longleftrightarrow> unat (x AND mask (unat (sm_shift sm))) = 0"
    by (simp add: unit_phase_def P2PHASE_def unat_eq_0)
  then show ?thesis by (simp add: unat_and_mask unit_of_def dvd_eq_mod_eq_0)
qed

lemma range_word:
  assumes "sm_wf sm" "in_range sm start sz"
  shows "unat (start + sz) = unat start + unat sz" "start < start + sz"
    "unat (sm_start sm + sm_size sm) = unat (sm_start sm) + unat (sm_size sm)"
    "unat (sm_start sm) \<le> unat start" "unat start + unat sz \<le> unat (sm_start sm) + unat (sm_size sm)"
    "0 < unat sz"
proof -
  show z: "0 < unat sz" using assms(2) by (simp add: in_range_def unat_gt_0)
  have b: "unat (sm_start sm) \<le> unat start \<and> unat start + unat sz \<le> unat (sm_start sm) + unat (sm_size sm)"
    using assms(2) z by (simp add: in_range_def span_def)
  then show "unat (sm_start sm) \<le> unat start" "unat start + unat sz \<le> unat (sm_start sm) + unat (sm_size sm)"
    by simp_all
  have "unat (sm_start sm) + unat (sm_size sm) < 2 ^ 64" using assms(1) by (simp add: sm_wf_def)
  then show "unat (start + sz) = unat start + unat sz"
    "unat (sm_start sm + sm_size sm) = unat (sm_start sm) + unat (sm_size sm)"
    using b by (simp_all add: unat_word_ariths)
  then show "start < start + sz" using z by (simp add: word_less_nat_alt)
qed

lemma space_of_bounded: "sm_wf sm \<Longrightarrow> space_of sm \<subseteq> span (sm_start sm) (sm_size sm)"
  by (fastforce simp: sm_wf_def list_all_iff seg_fits_def space_of_def offs_def seg_offs_def span_def)

lemma card_space_of:
  assumes "sm_wf sm"
  shows "card (space_of sm) \<le> unat (sm_size sm)" "unat (sm_space sm) = card (space_of sm)"
  using card_mono [OF _ space_of_bounded [OF assms]] assms by (simp_all add: span_def sm_wf_def)

lemma compare_range:
  assumes "start < end" "ss_start s < ss_end s"
  shows "space_map_seg_compare \<lparr>ss_start = start, ss_end = end\<rparr> s = 1 \<longleftrightarrow> ss_end s \<le> start"
    "space_map_seg_compare \<lparr>ss_start = start, ss_end = end\<rparr> s = -1 \<longleftrightarrow> end \<le> ss_start s"
    "space_map_seg_compare \<lparr>ss_start = start, ss_end = end\<rparr> s = 0 \<longleftrightarrow>
      seg_offs s \<inter> {unat start..<unat end} \<noteq> {}"
  using assms by (auto simp: space_map_seg_compare_def seg_offs_def word_less_nat_alt word_le_nat_alt)

lemma find_range:
  assumes "sm_wf sm" "start < end"
  shows "avl_find space_map_seg_compare (sm_root sm) \<lparr>ss_start = start, ss_end = end\<rparr> = Inl p \<Longrightarrow>
      node_of (sm_root sm) p \<and> seg_offs (dat (snd p)) \<inter> {unat start..<unat end} \<noteq> {}"
    and "avl_find space_map_seg_compare (sm_root sm) \<lparr>ss_start = start, ss_end = end\<rparr> = Inr path \<Longrightarrow>
      index_of (sm_root sm) path \<and> (\<forall>x \<in> set (left_of path). ss_end x \<le> start) \<and>
      (\<forall>y \<in> set (right_of path). end \<le> ss_start y) \<and> space_of sm \<inter> {unat start..<unat end} = {}"
proof -
  have a: "apart (segs sm)" using assms(1) by (simp add: sm_wf_def)
  have ok: "s \<in> set (segs sm) \<Longrightarrow> ss_start s < ss_end s" for s using a by (simp add: apart_def list_all_iff)
  note f = seg.find_in_order [OF apart_in_order [OF a], of "\<lparr>ss_start = start, ss_end = end\<rparr>"]
  show "avl_find space_map_seg_compare (sm_root sm) \<lparr>ss_start = start, ss_end = end\<rparr> = Inl p \<Longrightarrow>
      node_of (sm_root sm) p \<and> seg_offs (dat (snd p)) \<inter> {unat start..<unat end} \<noteq> {}"
    using f node_data [of "sm_root sm" p] compare_range(3) [OF assms(2) ok] by simp
  assume "avl_find space_map_seg_compare (sm_root sm) \<lparr>ss_start = start, ss_end = end\<rparr> = Inr path"
  then have r: "index_of (sm_root sm) path"
    "\<forall>x \<in> set (left_of path). space_map_seg_compare \<lparr>ss_start = start, ss_end = end\<rparr> x = 1"
    "\<forall>x \<in> set (right_of path). space_map_seg_compare \<lparr>ss_start = start, ss_end = end\<rparr> x = -1"
    using f by (simp_all add: list_all_iff)
  have d: "set (segs sm) = set (left_of path) \<union> set (right_of path)" using index_data [OF r(1)] by simp
  have "seg_offs s \<inter> {unat start..<unat end} = {}" if "s \<in> set (segs sm)" for s
    using that r(2,3) compare_range(3) [OF assms(2) ok [OF that]] by (auto simp: d)
  then have "space_of sm \<inter> {unat start..<unat end} = {}" by (auto simp: space_of_def offs_def)
  then show "index_of (sm_root sm) path \<and> (\<forall>x \<in> set (left_of path). ss_end x \<le> start) \<and>
      (\<forall>y \<in> set (right_of path). end \<le> ss_start y) \<and> space_of sm \<inter> {unat start..<unat end} = {}"
    using r compare_range(1,2) [OF assms(2) ok] d by auto
qed

lemma fits_cong: "bounds sm = bounds sm' \<Longrightarrow> seg_fits sm = seg_fits sm'"
  by (simp add: bounds_def seg_fits_def unit_of_def fun_eq_iff)

lemma glue_fits:
  assumes "list_all (seg_fits sm) (xs @ ys)" "seg_fits sm \<lparr>ss_start = start, ss_end = end\<rparr>"
  shows "list_all (seg_fits sm) (glue xs start end ys)"
proof -
  have "xs \<noteq> [] \<Longrightarrow> last xs \<in> set (xs @ ys)" "ys \<noteq> [] \<Longrightarrow> hd ys \<in> set (xs @ ys)" by simp_all
  then show ?thesis
    using assms by (auto simp: glue_def Let_def list_all_iff seg_fits_def dest: in_set_butlastD list.set_sel(2))
qed

lemma pieces_fit:
  assumes "seg_fits sm s" "seg_fits sm \<lparr>ss_start = start, ss_end = end\<rparr>" "start < end"
  shows "list_all (seg_fits sm) (pieces s start end)"
  using assms by (auto simp: pieces_def seg_fits_def word_less_nat_alt)

lemma range_fits:
  assumes "sm_wf sm" "in_range sm start sz"
  shows "seg_fits sm \<lparr>ss_start = start, ss_end = start + sz\<rparr>"
  using range_word [OF assms] assms(2) by (simp add: seg_fits_def in_range_def dvd_add)

lemma unit_phase_range:
  assumes "sm_wf sm" "in_range sm start sz"
  shows "unit_phase sm start = 0" "unit_phase sm sz = 0" "sz \<noteq> 0"
  using assms unit_phase_0 [of sm] by (simp_all add: sm_wf_def in_range_def)

lemma span_word:
  assumes "sm_wf sm" "in_range sm start sz"
  shows "{unat start..<unat (start + sz)} = span start sz"
  using range_word [OF assms] by (simp add: span_def)

text \<open>A map with the segments of another list.\<close>

lemma sm_wf_update:
  assumes "sm_wf sm" "tree_ok root" "apart (data root)" "list_all (seg_fits sm) (data root)"
    "unat sp = card (offs (data root))"
  shows "sm_wf (sm\<lparr>sm_root := root, sm_space := sp\<rparr>)"
proof -
  have "seg_fits (sm\<lparr>sm_root := root, sm_space := sp\<rparr>) = seg_fits sm"
    by (rule fits_cong) (simp add: bounds_def)
  then show ?thesis using assms by (simp add: sm_wf_def space_of_def)
qed

lemma space_map_add_ok:
  assumes "sm_wf sm" "in_range sm start sz"
  shows "if space_of sm \<inter> span start sz = {} then
      \<exists>root. space_map_add sm start sz = Some (sm\<lparr>sm_root := root, sm_space := sm_space sm + sz\<rparr>) \<and>
        sm_wf (sm\<lparr>sm_root := root, sm_space := sm_space sm + sz\<rparr>) \<and>
        offs (data root) = space_of sm \<union> span start sz
    else space_map_add sm start sz = None"
proof -
  let ?e = "start + sz"
  note w = range_word [OF assms] and u = unit_phase_range [OF assms] and sp = span_word [OF assms]
  show ?thesis
  proof (cases "avl_find space_map_seg_compare (sm_root sm) \<lparr>ss_start = start, ss_end = ?e\<rparr>")
    case (Inl p)
    note f = find_range(1) [OF assms(1) w(2) Inl]
    have "dat (snd p) \<in> set (segs sm)" using node_data [of "sm_root sm" p] f by simp
    then have "space_of sm \<inter> span start sz \<noteq> {}" using f sp by (auto simp: space_of_def offs_def)
    then show ?thesis by (simp add: space_map_add_def Let_def Inl)
  next
    case (Inr path)
    note f = find_range(2) [OF assms(1) w(2) Inr]
    let ?root = "merge_segs (sm_root sm) path start ?e"
    have t: "tree_ok (sm_root sm)" "apart (segs sm)" "list_all (seg_fits sm) (segs sm)"
      using assms(1) by (simp_all add: sm_wf_def)
    have i: "index_of (sm_root sm) path" "segs sm = left_of path @ right_of path" using f index_data by auto
    note m = merge_segs_ok [OF t(1,2) i(1), of start ?e]
    have g: "apart (data ?root)" "offs (data ?root) = space_of sm \<union> span start sz"
      using glue_apart [of "left_of path" "right_of path" start ?e] f w(2) t(2) m(2) i(2) sp
      by (simp_all add: space_of_def)
    have disj: "space_of sm \<inter> span start sz = {}" using f sp by simp
    have fin: "finite (space_of sm)" "finite (span start sz)" by (simp_all add: space_of_def span_def)
    have c: "card (offs (data ?root)) = unat (sm_space sm) + unat sz"
      using card_Un_disjoint [OF fin disj] card_space_of(2) [OF assms(1)] by (simp add: g span_def)
    have "offs (data ?root) \<subseteq> span (sm_start sm) (sm_size sm)"
      using space_of_bounded [OF assms(1)] assms(2) by (simp add: g in_range_def)
    then have le: "unat (sm_space sm) + unat sz \<le> unat (sm_size sm)"
      using card_mono [of "span (sm_start sm) (sm_size sm)" "offs (data ?root)"] c by (simp add: span_def)
    have s: "unat (sm_space sm + sz) = unat (sm_space sm) + unat sz"
      using le unsigned_less [of "sm_size sm", where 'a = nat] by (simp add: unat_word_ariths)
    have "sm_wf (sm\<lparr>sm_root := ?root, sm_space := sm_space sm + sz\<rparr>)"
      using sm_wf_update [OF assms(1) m(1) g(1)] glue_fits [of sm "left_of path" "right_of path"]
        t(3) range_fits [OF assms] i(2) m(2) c s by simp
    moreover have "space_map_add sm start sz = Some (sm\<lparr>sm_root := ?root, sm_space := sm_space sm + sz\<rparr>)"
      using w u le s by (simp add: space_map_add_def Inr word_le_nat_alt)
    ultimately show ?thesis using disj g(2) by auto
  qed
qed

lemma apart_pair:
  assumes "apart xs" "s \<in> set xs" "t \<in> set xs"
  shows "s = t \<or> ss_end s < ss_start t \<or> ss_end t < ss_start s"
  using assms by (induction xs) auto

text \<open>A range inside the space of a map lies in one segment.\<close>

lemma apart_covers:
  assumes "apart xs" "s \<in> set xs" "seg_offs s \<inter> {a..<b} \<noteq> {}" "{a..<b} \<subseteq> offs xs"
  shows "unat (ss_start s) \<le> a \<and> b \<le> unat (ss_end s)"
proof -
  have s: "unat (ss_start s) < unat (ss_end s)"
    using assms(1,2) by (auto simp: apart_def list_all_iff word_less_nat_alt)
  have k: "a < unat (ss_end s)" "unat (ss_start s) < b" "a < b" using assms(3) by (auto simp: seg_offs_def)
  have out: "k \<notin> offs xs" if "k + 1 = unat (ss_start s) \<or> k = unat (ss_end s)" for k
  proof
    assume "k \<in> offs xs"
    then obtain t where t: "t \<in> set xs" "unat (ss_start t) \<le> k" "k < unat (ss_end t)"
      by (auto simp: offs_def seg_offs_def)
    then show False
      using apart_pair [OF assms(1,2) t(1)] that s by (auto simp: word_less_nat_alt)
  qed
  have "unat (ss_start s) \<le> a"
  proof (rule ccontr)
    assume "\<not> unat (ss_start s) \<le> a"
    then have "unat (ss_start s) - 1 \<in> {a..<b}" "unat (ss_start s) - 1 + 1 = unat (ss_start s)" using k by auto
    then show False using out assms(4) by blast
  qed
  moreover have "b \<le> unat (ss_end s)"
  proof (rule ccontr)
    assume "\<not> b \<le> unat (ss_end s)"
    then have "unat (ss_end s) \<in> {a..<b}" using k by auto
    then show False using out assms(4) by blast
  qed
  ultimately show ?thesis by simp
qed

text \<open>The search finds the segment that holds a range.\<close>

lemma find_covering:
  assumes "sm_wf sm" "in_range sm start sz"
  shows "(\<exists>p. avl_find space_map_seg_compare (sm_root sm) \<lparr>ss_start = start, ss_end = start + sz\<rparr> = Inl p \<and>
      ss_start (dat (snd p)) \<le> start \<and> start + sz \<le> ss_end (dat (snd p))) \<longleftrightarrow> span start sz \<subseteq> space_of sm"
    (is "?l \<longleftrightarrow> ?r")
proof
  note w = range_word [OF assms] and sp = span_word [OF assms]
  {
    assume ?l
    then obtain p where p: "avl_find space_map_seg_compare (sm_root sm) \<lparr>ss_start = start, ss_end = start + sz\<rparr> = Inl p"
      "ss_start (dat (snd p)) \<le> start" "start + sz \<le> ss_end (dat (snd p))" by blast
    have "dat (snd p) \<in> set (segs sm)" using find_range(1) [OF assms(1) w(2) p(1)] node_data [of "sm_root sm" p] by simp
    then have "seg_offs (dat (snd p)) \<subseteq> space_of sm" by (auto simp: space_of_def offs_def)
    moreover have "span start sz \<subseteq> seg_offs (dat (snd p))"
      using p(2,3) w(1) by (auto simp: span_def seg_offs_def word_le_nat_alt)
    ultimately show ?r by blast
  next
    assume r: ?r
    have "start \<in> {start..<start + sz}" using w(2) by simp
    have ne: "span start sz \<noteq> {}" using w(6) by (simp add: span_def)
    show ?l
    proof (cases "avl_find space_map_seg_compare (sm_root sm) \<lparr>ss_start = start, ss_end = start + sz\<rparr>")
      case (Inl p)
      note f = find_range(1) [OF assms(1) w(2) Inl]
      have "dat (snd p) \<in> set (segs sm)" using f node_data [of "sm_root sm" p] by simp
      from apart_covers [OF _ this, of "unat start" "unat (start + sz)"] f r sp assms(1)
      show ?thesis using Inl by (simp add: sm_wf_def space_of_def word_le_nat_alt)
    next
      case (Inr path)
      then show ?thesis using find_range(2) [OF assms(1) w(2) Inr] r ne sp by auto
    qed
  }
qed

lemma space_map_contains_ok:
  assumes "sm_wf sm" "in_range sm start sz"
  shows "space_map_contains sm start sz = Some (span start sz \<subseteq> space_of sm)"
  using find_covering [OF assms] unit_phase_range [OF assms]
  by (cases "avl_find space_map_seg_compare (sm_root sm) \<lparr>ss_start = start, ss_end = start + sz\<rparr>")
    (simp_all add: space_map_contains_def Let_def)

lemma space_map_remove_ok:
  assumes "sm_wf sm" "in_range sm start sz"
  shows "if span start sz \<subseteq> space_of sm then
      \<exists>root. space_map_remove sm start sz = Some (sm\<lparr>sm_root := root, sm_space := sm_space sm - sz\<rparr>) \<and>
        sm_wf (sm\<lparr>sm_root := root, sm_space := sm_space sm - sz\<rparr>) \<and>
        offs (data root) = space_of sm - span start sz
    else space_map_remove sm start sz = None"
proof (cases "span start sz \<subseteq> space_of sm")
  case False
  then show ?thesis
    using find_covering [OF assms] by (auto simp: space_map_remove_def Let_def split: sum.split)
next
  case True
  let ?e = "start + sz"
  note w = range_word [OF assms] and u = unit_phase_range [OF assms] and sp = span_word [OF assms]
  from True find_covering [OF assms] obtain p where
    p: "avl_find space_map_seg_compare (sm_root sm) \<lparr>ss_start = start, ss_end = ?e\<rparr> = Inl p"
    "ss_start (dat (snd p)) \<le> start" "?e \<le> ss_end (dat (snd p))" by blast
  let ?root = "cut_seg (sm_root sm) p start ?e"
  have t: "tree_ok (sm_root sm)" "apart (segs sm)" "list_all (seg_fits sm) (segs sm)"
    using assms(1) by (simp_all add: sm_wf_def)
  have n: "node_of (sm_root sm) p" using find_range(1) [OF assms(1) w(2) p(1)] by simp
  note d = node_data [OF n] and m = cut_seg_ok [OF t(1) n, of start ?e]
  have g: "apart (data ?root)" "offs (data ?root) = space_of sm - span start sz"
    using pieces_apart [OF t(2) [unfolded d] w(2) p(2,3)] m(2) d sp by (simp_all add: space_of_def)
  have fin: "finite (space_of sm)" by (simp add: space_of_def)
  have c: "card (offs (data ?root)) = unat (sm_space sm) - unat sz" "unat sz \<le> unat (sm_space sm)"
    using card_Diff_subset [OF _ True] card_mono [OF fin True] card_space_of(2) [OF assms(1)] by (simp_all add: g span_def)
  have s: "unat (sm_space sm - sz) = unat (sm_space sm) - unat sz"
    using c(2) by (simp add: unat_sub word_le_nat_alt)
  have "sm_wf (sm\<lparr>sm_root := ?root, sm_space := sm_space sm - sz\<rparr>)"
    using sm_wf_update [OF assms(1) m(1) g(1), of "sm_space sm - sz"] pieces_fit [OF _ range_fits [OF assms] w(2), of "dat (snd p)"]
      t(3) m(2) c s unfolding d by simp
  moreover have "space_map_remove sm start sz = Some (sm\<lparr>sm_root := ?root, sm_space := sm_space sm - sz\<rparr>)"
    using w u p s card_space_of [OF assms(1)] by (simp add: space_map_remove_def word_le_nat_alt)
  ultimately show ?thesis using True g(2) by auto
qed

section \<open>The loops\<close>

primrec fold_opt :: "('m \<Rightarrow> 'a \<Rightarrow> 'm option) \<Rightarrow> 'a list \<Rightarrow> 'm \<Rightarrow> 'm option" where
  "fold_opt f [] m = Some m"
| "fold_opt f (x # xs) m = Option.bind (f m x) (fold_opt f xs)"

definition seg_call :: "('m \<Rightarrow> u64 \<Rightarrow> u64 \<Rightarrow> 'm option) \<Rightarrow> 'm \<Rightarrow> space_seg \<Rightarrow> 'm option" where
  "seg_call func m s = func m (ss_start s) (ss_end s - ss_start s)"

lemma fold_opt_append: "fold_opt f (xs @ ys) m = Option.bind (fold_opt f xs m) (fold_opt f ys)"
  by (induction xs arbitrary: m) (auto split: bind_split)

definition call_opt :: "('m \<Rightarrow> u64 \<Rightarrow> u64 \<Rightarrow> 'm option) option \<Rightarrow> 'm \<Rightarrow> space_seg \<Rightarrow> 'm option" where
  "call_opt func m s = (case func of None \<Rightarrow> Some m | Some f \<Rightarrow> seg_call f m s)"

lemma vacate_step:
  "avl_destroy_nodes tree cookie = (Some x, tree', cookie') \<Longrightarrow>
    vacate_loop func tree cookie m = Option.bind (call_opt func m x) (vacate_loop func tree' cookie')"
  by (subst vacate_loop.simps) (cases func; simp add: call_opt_def seg_call_def)

lemma vacate_end:
  "avl_destroy_nodes tree cookie = (None, tree', cookie') \<Longrightarrow> vacate_loop func tree cookie m = Some (tree', m)"
  by (subst vacate_loop.simps) simp

lemma vacate_handing:
  "handing tree cookie xs \<Longrightarrow> vacate_loop func tree cookie m = map_option (Pair avl_create) (fold_opt (call_opt func) xs m)"
proof (induction xs arbitrary: tree cookie m)
  case Nil
  show ?case using vacate_end [OF handing_last [OF Nil]] by simp
next
  case (Cons x xs)
  from handing_step [OF Cons.prems] obtain tree' cookie' where
    d: "avl_destroy_nodes tree cookie = (Some x, tree', cookie')" "handing tree' cookie' xs" by blast
  show ?case by (cases "call_opt func m x") (simp_all add: vacate_step [OF d(1)] Cons.IH [OF d(2)])
qed

lemmas vacate_fold = vacate_handing [OF handing_start]

lemma walk_fold_from:
  "node_of tree p \<Longrightarrow> walk_loop func (Some p) m = fold_opt (seg_call func) (dat (snd p) # after p) m"
proof (induction "after p" arbitrary: p m)
  case Nil
  then have "avl_walk p 1 = None" using avl_walk_ok(2) [of tree p 1] by (cases "avl_walk p 1") auto
  then show ?case
    using Nil by (subst walk_loop.simps) (auto simp: walk_loop.simps [of _ None] seg_call_def split: bind_split)
next
  case (Cons x xs)
  then obtain q where q: "avl_walk p 1 = Some q" using avl_walk_ok(1) [of tree p 1] by (cases "avl_walk p 1") auto
  have n: "node_of tree q" "after p = dat (snd q) # after q" using avl_walk_ok(2) [OF Cons.prems _ q] by simp_all
  have "walk_loop func (Some q) m = fold_opt (seg_call func) (after p) m" for m
    using Cons.hyps(1) [of q m] Cons.hyps(2) n by simp
  then have "walk_loop func (Some q) = fold_opt (seg_call func) (after p)" by (simp add: fun_eq_iff)
  then show ?case using q by (subst walk_loop.simps) (simp add: seg_call_def)
qed

lemma walk_fold: "walk_loop func (avl_first tree) m = fold_opt (seg_call func) (data tree) m"
proof (cases "avl_first tree")
  case None
  then show ?thesis using avl_first_ok(1) [OF None] by (simp add: walk_loop.simps)
next
  case (Some p)
  then show ?thesis using avl_first_ok(2) [OF Some] walk_fold_from [of tree p] node_data [of tree p] by simp
qed

text \<open>A map that differs from another only in its segments and their total.\<close>

definition resized :: "('p, 'z) space_map_core_scheme \<Rightarrow> ('p, 'z) space_map_core_scheme \<Rightarrow> bool" where
  "resized sm sm' \<longleftrightarrow> (\<exists>root sp. sm' = sm\<lparr>sm_root := root, sm_space := sp\<rparr>)"

lemma resized_update [simp]: "resized sm (sm\<lparr>sm_root := root, sm_space := sp\<rparr>)"
  by (auto simp: resized_def)

lemma resized_refl [simp]: "resized sm sm"
  unfolding resized_def by (rule exI [of _ "sm_root sm"], rule exI [of _ "sm_space sm"]) simp

lemma resized_trans: "resized sm sm' \<Longrightarrow> resized sm' sm'' \<Longrightarrow> resized sm sm''"
  unfolding resized_def by (elim exE) (hypsubst, simp, blast)

lemma resized_bounds: "resized sm sm' \<Longrightarrow> bounds sm' = bounds sm"
  by (auto simp: resized_def bounds_def)

lemma in_range_cong: "bounds sm' = bounds sm \<Longrightarrow> in_range sm' = in_range sm"
  by (simp add: bounds_def in_range_def unit_of_def fun_eq_iff)

lemma add_step:
  assumes "sm_wf sm" "in_range sm start sz" "space_of sm \<inter> span start sz = {}"
  shows "\<exists>sm'. space_map_add sm start sz = Some sm' \<and> sm_wf sm' \<and> resized sm sm' \<and>
    space_of sm' = space_of sm \<union> span start sz"
proof -
  obtain root where r: "space_map_add sm start sz = Some (sm\<lparr>sm_root := root, sm_space := sm_space sm + sz\<rparr>)"
    "sm_wf (sm\<lparr>sm_root := root, sm_space := sm_space sm + sz\<rparr>)" "offs (data root) = space_of sm \<union> span start sz"
    using space_map_add_ok [OF assms(1,2), unfolded if_P [OF assms(3)]] by blast
  then show ?thesis
    by (intro exI [of _ "sm\<lparr>sm_root := root, sm_space := sm_space sm + sz\<rparr>"]) (simp add: space_of_def)
qed

lemma remove_step:
  assumes "sm_wf sm" "in_range sm start sz" "span start sz \<subseteq> space_of sm"
  shows "\<exists>sm'. space_map_remove sm start sz = Some sm' \<and> sm_wf sm' \<and> resized sm sm' \<and>
    space_of sm' = space_of sm - span start sz"
proof -
  obtain root where r: "space_map_remove sm start sz = Some (sm\<lparr>sm_root := root, sm_space := sm_space sm - sz\<rparr>)"
    "sm_wf (sm\<lparr>sm_root := root, sm_space := sm_space sm - sz\<rparr>)" "offs (data root) = space_of sm - span start sz"
    using space_map_remove_ok [OF assms(1,2), unfolded if_P [OF assms(3)]] by blast
  then show ?thesis
    by (intro exI [of _ "sm\<lparr>sm_root := root, sm_space := sm_space sm - sz\<rparr>"]) (simp add: space_of_def)
qed

lemma seg_range:
  assumes "sm_wf sm" "seg_fits sm s" "ss_start s < ss_end s"
  shows "in_range sm (ss_start s) (ss_end s - ss_start s)" "span (ss_start s) (ss_end s - ss_start s) = seg_offs s"
proof -
  have lt: "unat (ss_start s) < unat (ss_end s)" using assms(3) by (simp add: word_less_nat_alt)
  have d: "unat (ss_end s - ss_start s) = unat (ss_end s) - unat (ss_start s)"
    using lt by (simp add: unat_sub word_le_nat_alt)
  have "unit_of sm dvd unat (ss_end s) - unat (ss_start s)"
    using assms(2) by (simp add: seg_fits_def dvd_diff_nat)
  then show "in_range sm (ss_start s) (ss_end s - ss_start s)" "span (ss_start s) (ss_end s - ss_start s) = seg_offs s"
    using assms(2) lt d by (auto simp: in_range_def span_def seg_offs_def seg_fits_def)
qed

lemma fits_resized: "resized sm sm' \<Longrightarrow> seg_fits sm' = seg_fits sm"
  by (rule fits_cong) (simp add: resized_bounds)

text \<open>Segments that can be added to or removed from a map one after the other.\<close>

definition disjoint_segs :: "('p, 'z) space_map_core_scheme \<Rightarrow> space_seg list \<Rightarrow> bool" where
  "disjoint_segs sm xs \<longleftrightarrow> list_all (\<lambda>s. seg_fits sm s \<and> ss_start s < ss_end s) xs \<and>
     sorted_wrt (\<lambda>s t. seg_offs s \<inter> seg_offs t = {}) xs"

lemma disjoint_segs_Cons:
  "disjoint_segs sm (s # xs) \<longleftrightarrow> seg_fits sm s \<and> ss_start s < ss_end s \<and> seg_offs s \<inter> offs xs = {} \<and> disjoint_segs sm xs"
  by (auto simp: disjoint_segs_def offs_def)

lemma disjoint_segs_resized: "resized sm sm' \<Longrightarrow> disjoint_segs sm' xs = disjoint_segs sm xs"
  by (simp add: disjoint_segs_def fits_resized)

lemma fold_add:
  assumes "sm_wf sm" "disjoint_segs sm xs" "space_of sm \<inter> offs xs = {}"
  shows "\<exists>sm'. fold_opt (seg_call space_map_add) xs sm = Some sm' \<and> sm_wf sm' \<and> resized sm sm' \<and>
    space_of sm' = space_of sm \<union> offs xs"
  using assms
proof (induction xs arbitrary: sm)
  case (Cons s xs)
  have s: "seg_fits sm s" "ss_start s < ss_end s" "seg_offs s \<inter> offs xs = {}" "disjoint_segs sm xs"
    using Cons.prems(2) by (simp_all add: disjoint_segs_Cons)
  note r = seg_range [OF Cons.prems(1) s(1,2)]
  obtain sm1 where m: "space_map_add sm (ss_start s) (ss_end s - ss_start s) = Some sm1" "sm_wf sm1" "resized sm sm1"
    "space_of sm1 = space_of sm \<union> seg_offs s"
    using add_step [OF Cons.prems(1) r(1)] Cons.prems(3) r(2) by (auto simp: Int_Un_distrib)
  have "space_of sm1 \<inter> offs xs = {}" using m(4) s(3) Cons.prems(3) by auto
  with Cons.IH [OF m(2)] s(4) disjoint_segs_resized [OF m(3)] obtain sm2 where
    n: "fold_opt (seg_call space_map_add) xs sm1 = Some sm2" "sm_wf sm2" "resized sm1 sm2"
    "space_of sm2 = space_of sm1 \<union> offs xs" by blast
  show ?case
    using n m resized_trans [OF m(3) n(3)] by (intro exI [of _ sm2]) (simp add: seg_call_def [of _ sm s] Un_assoc)
qed simp

lemma fold_remove:
  assumes "sm_wf sm" "disjoint_segs sm xs" "offs xs \<subseteq> space_of sm"
  shows "\<exists>sm'. fold_opt (seg_call space_map_remove) xs sm = Some sm' \<and> sm_wf sm' \<and> resized sm sm' \<and>
    space_of sm' = space_of sm - offs xs"
  using assms
proof (induction xs arbitrary: sm)
  case (Cons s xs)
  have s: "seg_fits sm s" "ss_start s < ss_end s" "seg_offs s \<inter> offs xs = {}" "disjoint_segs sm xs"
    using Cons.prems(2) by (simp_all add: disjoint_segs_Cons)
  note r = seg_range [OF Cons.prems(1) s(1,2)]
  have "span (ss_start s) (ss_end s - ss_start s) \<subseteq> space_of sm" using Cons.prems(3) r(2) by simp
  from remove_step [OF Cons.prems(1) r(1) this] obtain sm1 where
    m: "space_map_remove sm (ss_start s) (ss_end s - ss_start s) = Some sm1" "sm_wf sm1" "resized sm sm1"
    "space_of sm1 = space_of sm - seg_offs s" unfolding r(2) by blast
  have "offs xs \<subseteq> space_of sm1" using m(4) s(3) Cons.prems(3) by auto
  with Cons.IH [OF m(2)] s(4) disjoint_segs_resized [OF m(3)] obtain sm2 where
    n: "fold_opt (seg_call space_map_remove) xs sm1 = Some sm2" "sm_wf sm2" "resized sm1 sm2"
    "space_of sm2 = space_of sm1 - offs xs" by blast
  have "space_of sm2 = space_of sm - (seg_offs s \<union> offs xs)" using n(4) m(4) by blast
  then show ?case
    using n m resized_trans [OF m(3) n(3)] by (intro exI [of _ sm2]) (simp add: seg_call_def [of _ sm s])
qed simp

lemma sorted_wrt_pairs:
  assumes "distinct xs" "\<And>s t. s \<in> set xs \<Longrightarrow> t \<in> set xs \<Longrightarrow> s \<noteq> t \<Longrightarrow> P s t"
  shows "sorted_wrt P xs"
  using assms by (induction xs) auto

text \<open>The segments of a map in any order can be added to or removed from another one.\<close>

lemma map_segs_disjoint:
  assumes "sm_wf sm" "bounds sm' = bounds sm" "mset xs = mset (segs sm)"
  shows "disjoint_segs sm' xs" "offs xs = space_of sm"
proof -
  have a: "apart (segs sm)" "list_all (seg_fits sm) (segs sm)" using assms(1) by (simp_all add: sm_wf_def)
  have e: "set xs = set (segs sm)" "distinct xs"
    using assms(3) apart_distinct [OF a(1)] mset_eq_setD mset_eq_imp_distinct_iff by blast+
  have "seg_offs s \<inter> seg_offs t = {}" if "s \<in> set xs" "t \<in> set xs" "s \<noteq> t" for s t
    using apart_pair [OF a(1), of s t] that by (auto simp: e seg_offs_def word_less_nat_alt)
  moreover have "list_all (\<lambda>s. seg_fits sm' s \<and> ss_start s < ss_end s) xs"
    using a fits_cong [OF assms(2)] by (simp add: list_all_iff e apart_def)
  ultimately show "disjoint_segs sm' xs"
    using sorted_wrt_pairs [OF e(2)] by (simp add: disjoint_segs_def)
  show "offs xs = space_of sm" by (simp add: offs_def space_of_def e)
qed

lemma vacate_none:
  assumes "sm_wf sm"
  shows "space_map_vacate sm None m = Some (sm\<lparr>sm_root := avl_create, sm_space := 0\<rparr>, m)"
proof -
  have "fold_opt (call_opt None) xs m = Some m" for xs :: "space_seg list"
    by (induction xs) (simp_all add: call_opt_def)
  then show ?thesis using assms by (simp add: space_map_vacate_def vacate_fold sm_wf_def)
qed

lemma sm_wf_empty:
  assumes "sm_wf sm"
  shows "sm_wf (sm\<lparr>sm_root := avl_create, sm_space := 0\<rparr>)" "space_of (sm\<lparr>sm_root := avl_create, sm_space := 0\<rparr>) = {}"
  using sm_wf_update [OF assms, of avl_create 0] by (simp_all add: avl_create_def tree_ok_def space_of_def)

lemma walk_add:
  assumes "sm_wf sm" "sm_wf md" "bounds md = bounds sm" "space_of md \<inter> space_of sm = {}"
  shows "\<exists>md'. space_map_walk sm space_map_add md = Some md' \<and> sm_wf md' \<and> resized md md' \<and>
    space_of md' = space_of md \<union> space_of sm"
  using fold_add [OF assms(2), of "segs sm"] map_segs_disjoint [OF assms(1,3), of "segs sm"] assms(4)
  by (simp add: space_map_walk_def walk_fold)

lemma walk_remove:
  assumes "sm_wf sm" "sm_wf md" "bounds md = bounds sm" "space_of sm \<subseteq> space_of md"
  shows "\<exists>md'. space_map_walk sm space_map_remove md = Some md' \<and> sm_wf md' \<and> resized md md' \<and>
    space_of md' = space_of md - space_of sm"
  using fold_remove [OF assms(2), of "segs sm"] map_segs_disjoint [OF assms(1,3), of "segs sm"] assms(4)
  by (simp add: space_map_walk_def walk_fold)

lemma vacate_add:
  assumes "sm_wf sm" "sm_wf md" "bounds md = bounds sm" "space_of md \<inter> space_of sm = {}"
  shows "\<exists>md'. space_map_vacate sm (Some space_map_add) md = Some (sm\<lparr>sm_root := avl_create, sm_space := 0\<rparr>, md') \<and>
    sm_wf md' \<and> resized md md' \<and> space_of md' = space_of md \<union> space_of sm"
proof -
  let ?xs = "postorder (avl_root (sm_root sm))"
  have c: "call_opt (Some space_map_add) = seg_call space_map_add" by (simp add: call_opt_def fun_eq_iff)
  obtain md' where m: "fold_opt (call_opt (Some space_map_add)) ?xs md = Some md'" "sm_wf md'" "resized md md'"
    "space_of md' = space_of md \<union> space_of sm"
    using fold_add [OF assms(2), of ?xs] map_segs_disjoint [OF assms(1,3), of ?xs] assms(4)
    unfolding c by (auto simp: mset_postorder)
  have "tree_ok (sm_root sm)" using assms(1) by (simp add: sm_wf_def)
  then show ?thesis using m by (simp add: space_map_vacate_def vacate_fold)
qed

text \<open>The segment an excision looks at: the first one that ends after the start of the range.\<close>

definition excise_at :: "('p, 'z) space_map_core_scheme \<Rightarrow> u64 \<Rightarrow> space_seg place option" where
  "excise_at sm start =
     (case avl_find space_map_seg_compare (sm_root sm) \<lparr>ss_start = start, ss_end = start\<rparr> of
        Inl p \<Rightarrow> Some p
      | Inr where \<Rightarrow> avl_nearest where 1)"

lemma compare_point:
  assumes "ss_start s < ss_end s"
  shows "space_map_seg_compare \<lparr>ss_start = a, ss_end = a\<rparr> s = 1 \<longleftrightarrow> ss_end s \<le> a"
    "space_map_seg_compare \<lparr>ss_start = a, ss_end = a\<rparr> s = -1 \<longleftrightarrow> a < ss_start s"
    "space_map_seg_compare \<lparr>ss_start = a, ss_end = a\<rparr> s = 0 \<longleftrightarrow> ss_start s \<le> a \<and> a < ss_end s"
  using assms by (auto simp: space_map_seg_compare_def)

lemma excise_at_ok:
  assumes "sm_wf sm"
  shows "excise_at sm start = None \<Longrightarrow> \<forall>s \<in> set (segs sm). ss_end s \<le> start"
    and "excise_at sm start = Some p \<Longrightarrow> node_of (sm_root sm) p \<and> start < ss_end (dat (snd p)) \<and>
      (\<forall>s \<in> set (segs sm). ss_end s \<le> start \<or> ss_start (dat (snd p)) \<le> ss_start s)"
proof -
  let ?v = "\<lparr>ss_start = start, ss_end = start\<rparr>"
  have a: "apart (segs sm)" using assms by (simp add: sm_wf_def)
  have ok: "s \<in> set (segs sm) \<Longrightarrow> ss_start s < ss_end s" for s using a by (simp add: apart_def list_all_iff)
  note f = seg.find_in_order [OF apart_in_order [OF a], of ?v]
  have "(excise_at sm start = None \<longrightarrow> (\<forall>s \<in> set (segs sm). ss_end s \<le> start)) \<and>
    (\<forall>p. excise_at sm start = Some p \<longrightarrow> node_of (sm_root sm) p \<and> start < ss_end (dat (snd p)) \<and>
      (\<forall>s \<in> set (segs sm). ss_end s \<le> start \<or> ss_start (dat (snd p)) \<le> ss_start s))"
  proof (cases "avl_find space_map_seg_compare (sm_root sm) ?v")
    case (Inl p)
    have n: "node_of (sm_root sm) p" "space_map_seg_compare ?v (dat (snd p)) = 0" using f Inl by simp_all
    have i: "dat (snd p) \<in> set (segs sm)" using node_data [OF n(1)] by simp
    have c: "ss_start (dat (snd p)) \<le> start" "start < ss_end (dat (snd p))"
      using compare_point(3) [OF ok [OF i]] n(2) by simp_all
    have "ss_end s \<le> start \<or> ss_start (dat (snd p)) \<le> ss_start s" if "s \<in> set (segs sm)" for s
      using apart_pair [OF a i that] c by (auto dest: order.strict_trans1)
    then show ?thesis using Inl n c by (simp add: excise_at_def)
  next
    case (Inr path)
    have i: "index_of (sm_root sm) path" using f Inr by simp
    note d = index_data [OF i]
    have l: "ss_end s \<le> start" if "s \<in> set (left_of path)" for s
      using f Inr compare_point(1) [OF ok, of s start] that by (simp add: d list_all_iff)
    have r: "start < ss_start s" if "s \<in> set (right_of path)" for s
      using f Inr compare_point(2) [OF ok, of s start] that by (simp add: d list_all_iff)
    have e: "excise_at sm start = avl_nearest path 1" by (simp add: excise_at_def Inr)
    show ?thesis
    proof (cases "avl_nearest path 1")
      case None
      then have "right_of path = []" using avl_nearest_ok(1) [OF i _ None] by simp
      then show ?thesis using l d unfolding e None by simp
    next
      case (Some q)
      have q: "node_of (sm_root sm) q" "right_of path = dat (snd q) # after q"
        using avl_nearest_ok(2) [OF i _ Some] by simp_all
      have s: "ss_start (dat (snd q)) < ss_end (dat (snd q))" using ok [of "dat (snd q)"] d q(2) by simp
      have "apart (dat (snd q) # after q)" using a d q(2) by simp
      then have "ss_start (dat (snd q)) \<le> ss_start y" if "y \<in> set (right_of path)" for y
        using that q(2) s by (auto dest: order.strict_trans)
      then have "ss_end y \<le> start \<or> ss_start (dat (snd q)) \<le> ss_start y" if "y \<in> set (segs sm)" for y
        using that d l by auto
      moreover have "start < ss_end (dat (snd q))" using r [of "dat (snd q)"] q(2) s by simp
      ultimately show ?thesis using q(1) unfolding e Some by simp
    qed
  qed
  then show "excise_at sm start = None \<Longrightarrow> \<forall>s \<in> set (segs sm). ss_end s \<le> start"
    and "excise_at sm start = Some p \<Longrightarrow> node_of (sm_root sm) p \<and> start < ss_end (dat (snd p)) \<and>
      (\<forall>s \<in> set (segs sm). ss_end s \<le> start \<or> ss_start (dat (snd p)) \<le> ss_start s)"
    by blast+
qed

lemma excise_unfold:
  "space_map_excise sm start sz =
     (case excise_at sm start of
        None \<Rightarrow> Some sm
      | Some p \<Rightarrow>
          if start + sz \<le> ss_start (dat (snd p)) then Some sm
          else Option.bind (space_map_remove sm (max (ss_start (dat (snd p))) start)
              (min (ss_end (dat (snd p))) (start + sz) - max (ss_start (dat (snd p))) start))
            (\<lambda>sm. space_map_excise sm start sz))"
  unfolding Let_def [symmetric, of "max _ _"] excise_at_def
  by (subst space_map_excise.simps) (simp only: Let_def)

lemma excise_stop:
  assumes "sm_wf sm" "case excise_at sm start of None \<Rightarrow> True | Some p \<Rightarrow> start + sz \<le> ss_start (dat (snd p))"
    "unat (start + sz) = unat start + unat sz"
  shows "space_of sm \<inter> span start sz = {}"
proof -
  have "seg_offs s \<inter> span start sz = {}" if "s \<in> set (segs sm)" for s
  proof (cases "excise_at sm start")
    case None
    then show ?thesis
      using excise_at_ok(1) [OF assms(1) None] that by (auto simp: seg_offs_def span_def word_le_nat_alt)
  next
    case (Some p)
    then have "ss_end s \<le> start \<or> ss_start (dat (snd p)) \<le> ss_start s" "start + sz \<le> ss_start (dat (snd p))"
      using excise_at_ok(2) [OF assms(1) Some] that assms(2) by simp_all
    then show ?thesis using assms(3) by (auto simp: seg_offs_def span_def word_le_nat_alt)
  qed
  then show ?thesis by (auto simp: space_of_def offs_def)
qed

lemma excise_ok:
  assumes "sm_wf sm" "sz \<noteq> 0" "unat start + unat sz < 2 ^ 64" "unit_of sm dvd unat start" "unit_of sm dvd unat sz"
  shows "\<exists>sm'. space_map_excise sm start sz = Some sm' \<and> sm_wf sm' \<and> resized sm sm' \<and>
    space_of sm' = space_of sm - span start sz"
  using assms
proof (induction "card (space_of sm)" arbitrary: sm rule: less_induct)
  case less
  let ?e = "start + sz"
  have e: "unat ?e = unat start + unat sz" "start < ?e"
    using less.prems(2,3) by (simp_all add: unat_word_ariths word_less_nat_alt unat_gt_0)
  show ?case
  proof (cases "case excise_at sm start of None \<Rightarrow> True | Some p \<Rightarrow> ?e \<le> ss_start (dat (snd p))")
    case True
    then have "space_map_excise sm start sz = Some sm"
      by (subst excise_unfold) (cases "excise_at sm start"; simp)
    then show ?thesis using excise_stop [OF less.prems(1) True e(1)] less.prems(1) by auto
  next
    case False
    then obtain p where p: "excise_at sm start = Some p" "ss_start (dat (snd p)) < ?e"
      by (auto split: option.splits)
    let ?s = "dat (snd p)"
    note at = excise_at_ok(2) [OF less.prems(1) p(1)]
    define a where "a = max (ss_start ?s) start"
    define b where "b = min (ss_end ?s) ?e"
    have i: "?s \<in> set (segs sm)" using node_data [of "sm_root sm" p] at by simp
    then have s: "ss_start ?s < ss_end ?s" "seg_fits sm ?s"
      using less.prems(1) by (simp_all add: sm_wf_def apart_def list_all_iff)
    have ab: "a < b" using s at p(2) e(2) by (simp add: a_def b_def)
    have ud: "unit_of sm dvd unat a" "unit_of sm dvd unat b"
      using s(2) less.prems(4,5) e(1) by (simp_all add: a_def b_def max_def min_def seg_fits_def)
    have uba: "unat (b - a) = unat b - unat a" using ab by (simp add: unat_sub order_less_imp_le)
    have bd: "unat (ss_start ?s) \<le> unat a" "unat b \<le> unat (ss_end ?s)" "unat start \<le> unat a" "unat b \<le> unat ?e"
      by (simp_all add: a_def b_def flip: word_le_nat_alt)
    have sub: "span a (b - a) \<subseteq> seg_offs ?s" "span a (b - a) \<subseteq> span start sz" "span a (b - a) \<noteq> {}"
      using bd e(1) uba ab by (auto simp: span_def seg_offs_def word_less_nat_alt)
    have sp: "seg_offs ?s \<subseteq> space_of sm" using i by (auto simp: space_of_def offs_def)
    have r: "in_range sm a (b - a)"
      using sub(1) sp space_of_bounded [OF less.prems(1)] ud uba ab by (auto simp: in_range_def dvd_diff_nat)
    have inc: "span a (b - a) \<subseteq> space_of sm" using sub(1) sp by blast
    from remove_step [OF less.prems(1) r inc] obtain sm1 where
      m: "space_map_remove sm a (b - a) = Some sm1" "sm_wf sm1" "resized sm sm1" "space_of sm1 = space_of sm - span a (b - a)"
      by blast
    have "space_of sm1 \<subset> space_of sm" using m(4) inc sub(3) by blast
    then have "card (space_of sm1) < card (space_of sm)" by (intro psubset_card_mono) (simp add: space_of_def)
    moreover have "unit_of sm1 = unit_of sm" using m(3) by (auto simp: resized_def unit_of_def)
    ultimately obtain sm2 where n: "space_map_excise sm1 start sz = Some sm2" "sm_wf sm2" "resized sm1 sm2"
      "space_of sm2 = space_of sm1 - span start sz"
      using less.hyps [of sm1] m(2) less.prems by auto
    have "space_map_excise sm start sz = Some sm2"
      using p m(1) n(1) by (subst excise_unfold) (simp add: a_def b_def)
    moreover have "space_of sm2 = space_of sm - span start sz" using n(4) m(4) sub(2) by blast
    ultimately show ?thesis using n(2) resized_trans [OF m(3) n(3)] by blast
  qed
qed

lemma union_ok:
  assumes "sm_wf smd" "sm_wf sms" "bounds smd = bounds sms"
  shows "\<exists>sm'. space_map_union smd sms = Some sm' \<and> sm_wf sm' \<and> resized smd sm' \<and>
    space_of sm' = space_of smd \<union> space_of sms"
proof -
  let ?f = "\<lambda>smd start sz. Option.bind (space_map_excise smd start sz) (\<lambda>smd. space_map_add smd start sz)"
  have "\<exists>sm'. fold_opt (seg_call ?f) xs smd = Some sm' \<and> sm_wf sm' \<and> resized smd sm' \<and>
    space_of sm' = space_of smd \<union> offs xs"
    if "sm_wf smd" "list_all (\<lambda>s. seg_fits smd s \<and> ss_start s < ss_end s) xs" for xs and smd :: "('a, 'b) space_map_core_scheme"
    using that
  proof (induction xs arbitrary: smd)
    case (Cons s xs)
    have s: "seg_fits smd s" "ss_start s < ss_end s" using Cons.prems(2) by simp_all
    note r = seg_range [OF Cons.prems(1) s]
    let ?z = "ss_end s - ss_start s"
    have z: "?z \<noteq> 0" "unit_of smd dvd unat (ss_start s)" "unit_of smd dvd unat ?z" "unat (ss_start s) + unat ?z < 2 ^ 64"
      using r(1) range_word(1) [OF Cons.prems(1) r(1)] range_word(5) [OF Cons.prems(1) r(1)] Cons.prems(1)
      by (auto simp: in_range_def sm_wf_def)
    from excise_ok [OF Cons.prems(1) z(1,4,2,3)] obtain sm1 where
      m: "space_map_excise smd (ss_start s) ?z = Some sm1" "sm_wf sm1" "resized smd sm1" "space_of sm1 = space_of smd - seg_offs s"
      unfolding r(2) by blast
    have r1: "in_range sm1 (ss_start s) ?z" using r(1) in_range_cong [OF resized_bounds [OF m(3)]] by simp
    have d1: "space_of sm1 \<inter> span (ss_start s) ?z = {}" unfolding r(2) m(4) by blast
    from add_step [OF m(2) r1 d1] obtain sm2 where
      n: "space_map_add sm1 (ss_start s) ?z = Some sm2" "sm_wf sm2" "resized sm1 sm2" "space_of sm2 = space_of sm1 \<union> seg_offs s"
      unfolding r(2) by blast
    have t: "resized smd sm2" by (rule resized_trans [OF m(3) n(3)])
    with Cons.IH [OF n(2)] Cons.prems(2) fits_resized [OF t] obtain sm3 where
      k: "fold_opt (seg_call ?f) xs sm2 = Some sm3" "sm_wf sm3" "resized sm2 sm3" "space_of sm3 = space_of sm2 \<union> offs xs"
      by (auto simp: list_all_iff)
    have "space_of sm3 = space_of smd \<union> offs (s # xs)" using k(4) n(4) m(4) by auto
    moreover have "seg_call ?f smd s = Some sm2" by (simp add: seg_call_def m(1) n(1))
    ultimately show ?case using k(1,2) resized_trans [OF t k(3)] by (intro exI [of _ sm3]) simp
  qed simp
  moreover have "list_all (\<lambda>s. seg_fits smd s \<and> ss_start s < ss_end s) (segs sms)"
    using assms(2) fits_cong [OF assms(3)] by (simp add: sm_wf_def apart_def list_all_iff)
  ultimately show ?thesis using assms(1) by (simp add: space_map_union_def walk_fold space_of_def)
qed

section \<open>Properties\<close>

text \<open>The specification: a set of offsets; panics are \<^const>\<open>None\<close>.\<close>

definition set_add :: "nat set \<Rightarrow> nat set \<Rightarrow> nat set option" where
  "set_add S R = (if S \<inter> R = {} then Some (S \<union> R) else None)"

definition set_remove :: "nat set \<Rightarrow> nat set \<Rightarrow> nat set option" where
  "set_remove S R = (if R \<subseteq> S then Some (S - R) else None)"

lemma add_in_range:
  assumes "sm_wf sm" "unat start + unat sz < 2 ^ 64" "space_map_add sm start sz = Some sm'"
  shows "in_range sm start sz"
proof -
  have v: "sz \<noteq> 0" "sm_start sm \<le> start" "start + sz \<le> sm_start sm + sm_size sm"
    "unit_phase sm start = 0" "unit_phase sm sz = 0"
    using assms(3) by (auto simp: space_map_add_def Let_def split: if_splits)
  have "unat (start + sz) = unat start + unat sz"
    "unat (sm_start sm + sm_size sm) = unat (sm_start sm) + unat (sm_size sm)"
    using assms(1,2) by (simp_all add: unat_word_ariths sm_wf_def)
  then show ?thesis
    using v assms(1) unit_phase_0 [of sm] by (auto simp: in_range_def span_def sm_wf_def word_le_nat_alt)
qed

lemma remove_in_range:
  assumes "sm_wf sm" "unat start + unat sz < 2 ^ 64" "space_map_remove sm start sz = Some sm'"
  shows "in_range sm start sz"
proof -
  have u: "sz \<noteq> 0" "unit_phase sm start = 0" "unit_phase sm sz = 0"
    using assms(3) by (auto simp: space_map_remove_def Let_def split: if_splits)
  obtain p where p: "avl_find space_map_seg_compare (sm_root sm) \<lparr>ss_start = start, ss_end = start + sz\<rparr> = Inl p"
    "ss_start (dat (snd p)) \<le> start" "start + sz \<le> ss_end (dat (snd p))"
    using assms(3) by (auto simp: space_map_remove_def Let_def split: if_splits sum.splits)
  have w: "unat (start + sz) = unat start + unat sz" "start < start + sz"
    using assms(2) u(1) by (simp_all add: unat_word_ariths word_less_nat_alt unat_gt_0)
  have "dat (snd p) \<in> set (segs sm)" using find_range(1) [OF assms(1) w(2) p(1)] node_data [of "sm_root sm" p] by simp
  then have "seg_fits sm (dat (snd p))" using assms(1) by (simp add: sm_wf_def list_all_iff)
  then show ?thesis
    using p u w(1) assms(1) unit_phase_0 [of sm] by (auto simp: in_range_def span_def sm_wf_def seg_fits_def word_le_nat_alt)
qed

text \<open>
  C19. A space map implements a set of offsets: on a map in order, adding or removing a range that
  is inside the map and a multiple of its unit does to the set of the map's offsets what the set
  operations do, and fails its VERIFY exactly when the range overlaps what is there or is not all
  there; space_map_contains tells whether the range is all there.
\<close>

theorem space_map_refines:
  assumes "sm_wf sm" "in_range sm start sz"
  shows "map_option space_of (space_map_add sm start sz) = set_add (space_of sm) (span start sz) \<and>
    map_option space_of (space_map_remove sm start sz) = set_remove (space_of sm) (span start sz) \<and>
    space_map_contains sm start sz = Some (span start sz \<subseteq> space_of sm)"
proof -
  have "map_option space_of (space_map_add sm start sz) = set_add (space_of sm) (span start sz)"
  proof (cases "space_of sm \<inter> span start sz = {}")
    case True
    from add_step [OF assms True] show ?thesis unfolding set_add_def if_P [OF True] by force
  next
    case False
    from space_map_add_ok [OF assms] show ?thesis unfolding set_add_def if_not_P [OF False] by simp
  qed
  moreover have "map_option space_of (space_map_remove sm start sz) = set_remove (space_of sm) (span start sz)"
  proof (cases "span start sz \<subseteq> space_of sm")
    case True
    from remove_step [OF assms True] show ?thesis unfolding set_remove_def if_P [OF True] by force
  next
    case False
    from space_map_remove_ok [OF assms] show ?thesis unfolding set_remove_def if_not_P [OF False] by simp
  qed
  ultimately show ?thesis using space_map_contains_ok [OF assms] by simp
qed

lemma create_wf:
  assumes "unat start + unat sz < 2 ^ 64" "unat shift < 64"
  shows "sm_wf (space_map_create start sz shift)" "space_of (space_map_create start sz shift) = {}"
  using assms by (simp_all add: sm_wf_def space_map_create_def avl_create_def tree_ok_def space_of_def)

theorem space_map_refines_witness:
  "map_option space_of (space_map_add (space_map_create 0 4096 9 :: unit space_map) 512 1024) = Some {512..<1536}"
proof -
  let ?sm = "space_map_create 0 4096 9 :: unit space_map"
  have "sm_wf ?sm" "space_of ?sm = {}" using create_wf [of 0 4096 9] by simp_all
  moreover have "in_range ?sm 512 1024"
    by (simp add: in_range_def space_map_create_def span_def unit_of_def)
  ultimately show ?thesis using space_map_refines [of ?sm 512 1024] by (simp add: set_add_def span_def)
qed

text \<open>The maps that the operations build, with arguments whose end does not wrap around.\<close>

inductive sm_reach :: "'p space_map \<Rightarrow> bool" where
  create: "unat start + unat sz < 2 ^ 64 \<Longrightarrow> unat shift < 64 \<Longrightarrow> sm_reach (space_map_create start sz shift)"
| add: "sm_reach sm \<Longrightarrow> unat start + unat sz < 2 ^ 64 \<Longrightarrow> space_map_add sm start sz = Some sm' \<Longrightarrow> sm_reach sm'"
| remove: "sm_reach sm \<Longrightarrow> unat start + unat sz < 2 ^ 64 \<Longrightarrow> space_map_remove sm start sz = Some sm' \<Longrightarrow> sm_reach sm'"
| union: "sm_reach smd \<Longrightarrow> sm_reach sms \<Longrightarrow> bounds smd = bounds sms \<Longrightarrow> space_map_union smd sms = Some sm' \<Longrightarrow> sm_reach sm'"
| vacate: "sm_reach sm \<Longrightarrow> space_map_vacate sm func (m :: 'p space_map) = Some (sm', m') \<Longrightarrow> sm_reach sm'"

text \<open>
  C20. The invariant of the space maps: however a map was built by additions, removals, unions and
  vacating, its tree is balanced, its segments are nonempty, inside the map, multiples of the unit
  and in order with a gap between any two (adjacent segments have been merged), and the total it
  keeps is the number of its offsets.
\<close>

theorem space_map_invariant:
  assumes "sm_reach sm"
  shows "sm_wf sm"
  using assms
proof induction
  case (create start sz shift)
  then show ?case by (rule create_wf(1))
next
  case (add sm start sz sm')
  have r: "in_range sm start sz" by (rule add_in_range [OF add.IH add.hyps(2,3)])
  have "space_of sm \<inter> span start sz = {}"
    using space_map_add_ok [OF add.IH r] add.hyps(3) by (rule_tac ccontr) simp
  from add_step [OF add.IH r this] add.hyps(3) show ?case by auto
next
  case (remove sm start sz sm')
  have r: "in_range sm start sz" by (rule remove_in_range [OF remove.IH remove.hyps(2,3)])
  have "span start sz \<subseteq> space_of sm"
    using space_map_remove_ok [OF remove.IH r] remove.hyps(3) by (rule_tac ccontr) simp
  from remove_step [OF remove.IH r this] remove.hyps(3) show ?case by auto
next
  case (union smd sms sm')
  then show ?case using union_ok [of smd sms] by auto
next
  case (vacate sm func m sm' m')
  then have "sm' = sm\<lparr>sm_root := avl_create, sm_space := 0\<rparr>"
    by (auto simp: space_map_vacate_def vacate_fold sm_wf_def)
  then show ?case using sm_wf_empty(1) [OF vacate.IH] by simp
qed

text \<open>A map of 4096 offsets in units of 512 with one segment, for the examples.\<close>

lemma one_segment:
  fixes c :: "unit space_map"
  defines "c \<equiv> space_map_create 0 4096 9"
  assumes "512 dvd unat start" "512 dvd unat sz" "0 < unat sz" "unat start + unat sz \<le> 4096"
  shows "\<exists>sm. space_map_add c start sz = Some sm \<and> sm_reach sm \<and> sm_wf sm \<and> resized c sm \<and> space_of sm = span start sz"
proof -
  have c: "sm_reach c" "sm_wf c" "space_of c = {}" using create_wf [of 0 4096 9] unfolding c_def by (simp_all add: sm_reach.create)
  have r: "in_range c start sz" using assms(2-5) by (auto simp: c_def in_range_def space_map_create_def span_def unit_of_def)
  from add_step [OF c(2) r] c(3) obtain sm where
    s: "space_map_add c start sz = Some sm" "sm_wf sm" "resized c sm" "space_of sm = span start sz" by auto
  moreover have "sm_reach sm" using assms(4,5) by (intro sm_reach.add [OF c(1) _ s(1)]) simp
  ultimately show ?thesis by blast
qed

theorem space_map_invariant_witness:
  "\<exists>sm. space_map_add (space_map_create 0 4096 9 :: unit space_map) 512 1024 = Some sm \<and> sm_wf sm"
  using space_map_invariant one_segment [of 512 1024] by auto

text \<open>
  C22. space_map_excise of a nonempty range whose start and size are multiples of the map's unit,
  and whose end is below 2^64, ends and takes exactly that range out of the map, whatever segments
  overlap it, and keeps the invariant.
\<close>

theorem space_map_excise_ends:
  assumes "sm_wf sm" "sz \<noteq> 0" "unat start + unat sz < 2 ^ 64" "unit_of sm dvd unat start" "unit_of sm dvd unat sz"
  shows "\<exists>sm'. space_map_excise sm start sz = Some sm' \<and> sm_wf sm' \<and> resized sm sm' \<and>
    space_of sm' = space_of sm - span start sz"
  by (rule excise_ok [OF assms])

theorem space_map_excise_ends_witness:
  "\<exists>sm sm'. space_map_add (space_map_create 0 4096 9 :: unit space_map) 512 1024 = Some sm \<and>
    space_map_excise sm 1024 2048 = Some sm' \<and> space_of sm' = {512..<1024}"
proof -
  from one_segment [of 512 1024] obtain sm where
    s: "space_map_add (space_map_create 0 4096 9 :: unit space_map) 512 1024 = Some sm" "sm_wf sm" "resized (space_map_create 0 4096 9) sm"
    "space_of sm = {512..<1536}" by (auto simp: span_def)
  have u: "unit_of sm = 512" using resized_bounds [OF s(3)] by (simp add: bounds_def unit_of_def space_map_create_def)
  have "{512..<1536} - span 1024 2048 = {512..<1024}" by (auto simp: span_def)
  then show ?thesis using space_map_excise_ends [OF s(2), of 2048 1024] s(1,4) u by auto
qed

text \<open>
  C21. space_map_union of two maps over the same range with the same unit ends and leaves in the
  destination the union of both, however their segments overlap, with the invariant kept.
\<close>

theorem space_map_union_set:
  assumes "sm_wf smd" "sm_wf sms" "bounds smd = bounds sms"
  shows "\<exists>sm'. space_map_union smd sms = Some sm' \<and> sm_wf sm' \<and> resized smd sm' \<and>
    space_of sm' = space_of smd \<union> space_of sms"
  by (rule union_ok [OF assms])

theorem space_map_union_set_witness:
  "\<exists>smd sms sm'. space_map_add (space_map_create 0 4096 9 :: unit space_map) 512 1024 = Some smd \<and>
    space_map_add (space_map_create 0 4096 9) 1024 1024 = Some sms \<and>
    space_map_union smd sms = Some sm' \<and> space_of sm' = {512..<2048}"
proof -
  let ?c = "space_map_create 0 4096 9 :: unit space_map"
  from one_segment [of 512 1024] obtain smd where
    d: "space_map_add ?c 512 1024 = Some smd" "sm_wf smd" "resized ?c smd" "space_of smd = {512..<1536}" by (auto simp: span_def)
  from one_segment [of 1024 1024] obtain sms where
    s: "space_map_add ?c 1024 1024 = Some sms" "sm_wf sms" "resized ?c sms" "space_of sms = {1024..<2048}" by (auto simp: span_def)
  have "bounds smd = bounds sms" using d(3) s(3) by (simp add: resized_bounds)
  moreover have "{512..<1536} \<union> {1024..<2048} = {512..<2048 :: nat}" by auto
  ultimately show ?thesis using space_map_union_set [OF d(2) s(2)] d(1,4) s(1,4) by auto
qed

end
