(* ===== verification/Space_Map_Sync.thy ===== *)
theory Space_Map_Sync
  imports Space_Map
begin

text \<open>
  Space maps on disk (\<^verbatim>\<open>space_map_load\<close>, \<^verbatim>\<open>space_map_sync\<close>, \<^verbatim>\<open>space_map_truncate\<close> of
  \<^verbatim>\<open>uts/common/fs/zfs/space_map.c\<close> and the entry format of \<^verbatim>\<open>sys/space_map.h\<close>).

  A space map object is a log of 64-bit entries.  The DMU calls that read, write and free a range
  of an object are arguments: a record of three functions on the object set's state.  The lock is
  dropped around them in the code; the maps modelled here are not changed meanwhile.  The pass
  number and the transaction group that go into the debug entry are arguments.
\<close>

unbundle bit_operations_syntax

section \<open>Entries\<close>

definition BF64_DECODE :: "u64 \<Rightarrow> nat \<Rightarrow> nat \<Rightarrow> u64" where
  "BF64_DECODE x low len = P2PHASE (drop_bit low x) (push_bit len 1)"

definition BF64_ENCODE :: "u64 \<Rightarrow> nat \<Rightarrow> nat \<Rightarrow> u64" where
  "BF64_ENCODE x low len = push_bit low (P2PHASE x (push_bit len 1))"

definition SM_RUN_DECODE :: "u64 \<Rightarrow> u64" where
  "SM_RUN_DECODE x = BF64_DECODE x 0 15 + 1"

definition SM_RUN_ENCODE :: "u64 \<Rightarrow> u64" where
  "SM_RUN_ENCODE x = BF64_ENCODE (x - 1) 0 15"

definition SM_TYPE_DECODE :: "u64 \<Rightarrow> u64" where
  "SM_TYPE_DECODE x = BF64_DECODE x 15 1"

definition SM_TYPE_ENCODE :: "u64 \<Rightarrow> u64" where
  "SM_TYPE_ENCODE x = BF64_ENCODE x 15 1"

definition SM_OFFSET_DECODE :: "u64 \<Rightarrow> u64" where
  "SM_OFFSET_DECODE x = BF64_DECODE x 16 47"

definition SM_OFFSET_ENCODE :: "u64 \<Rightarrow> u64" where
  "SM_OFFSET_ENCODE x = BF64_ENCODE x 16 47"

definition SM_DEBUG_DECODE :: "u64 \<Rightarrow> u64" where
  "SM_DEBUG_DECODE x = BF64_DECODE x 63 1"

definition SM_DEBUG_ENCODE :: "u64 \<Rightarrow> u64" where
  "SM_DEBUG_ENCODE x = BF64_ENCODE x 63 1"

definition SM_DEBUG_ACTION_ENCODE :: "u64 \<Rightarrow> u64" where
  "SM_DEBUG_ACTION_ENCODE x = BF64_ENCODE x 60 3"

definition SM_DEBUG_SYNCPASS_ENCODE :: "u64 \<Rightarrow> u64" where
  "SM_DEBUG_SYNCPASS_ENCODE x = BF64_ENCODE x 50 10"

definition SM_DEBUG_TXG_ENCODE :: "u64 \<Rightarrow> u64" where
  "SM_DEBUG_TXG_ENCODE x = BF64_ENCODE x 0 50"

definition SM_RUN_MAX :: u64 where
  "SM_RUN_MAX = SM_RUN_DECODE (NOT 0)"

definition SM_ALLOC :: u8 where
  "SM_ALLOC = 0"

definition SM_FREE :: u8 where
  "SM_FREE = 1"

definition SPACE_MAP_BLOCKSHIFT :: nat where
  "SPACE_MAP_BLOCKSHIFT = 12"

section \<open>Objects\<close>

record space_map_obj =
  smo_object :: u64
  smo_objsize :: u64
  smo_alloc :: u64

record 'os dmu =
  dmu_read :: "'os \<Rightarrow> u64 \<Rightarrow> u64 \<Rightarrow> u64 \<Rightarrow> u64 list option"
  dmu_write :: "'os \<Rightarrow> u64 \<Rightarrow> u64 \<Rightarrow> u64 \<Rightarrow> u64 list \<Rightarrow> 'os"
  dmu_free_range :: "'os \<Rightarrow> u64 \<Rightarrow> u64 \<Rightarrow> u64 \<Rightarrow> 'os option"

section \<open>Loading\<close>

text \<open>Waiting for a load in progress, which without another thread never ends.\<close>

definition space_map_load_wait :: "'p space_map \<Rightarrow> 'p space_map option" where
  "space_map_load_wait sm = (if sm_loading sm then None else Some sm)"

definition load_entry :: "u8 \<Rightarrow> u64 \<Rightarrow> 'p space_map \<Rightarrow> u64 \<Rightarrow> 'p space_map option" where
  "load_entry maptype mapstart sm e =
     (if SM_DEBUG_DECODE e \<noteq> 0 then Some sm
      else (if SM_TYPE_DECODE e = ucast maptype then space_map_add else space_map_remove) sm
             (push_bit (unat (sm_shift sm)) (SM_OFFSET_DECODE e) + mapstart)
             (push_bit (unat (sm_shift sm)) (SM_RUN_DECODE e)))"

partial_function (option) load_loop ::
  "'os dmu \<Rightarrow> 'os \<Rightarrow> space_map_obj \<Rightarrow> u8 \<Rightarrow> u64 \<Rightarrow> u64 \<Rightarrow> 'p space_map \<Rightarrow> 'p space_map option" where
  "load_loop dmu os smo maptype mapstart offset sm =
     (let bufsize = push_bit SPACE_MAP_BLOCKSHIFT 1; end = smo_objsize smo
      in if offset < end then
           let sz = min (end - offset) bufsize
           in if P2PHASE sz 8 = 0 \<and> sz \<noteq> 0 then
                Option.bind (dmu_read dmu os (smo_object smo) offset sz) (\<lambda>entry_map.
                Option.bind (fold_opt (load_entry maptype mapstart) (take (unat (sz div 8)) entry_map) sm) (\<lambda>sm.
                  load_loop dmu os smo maptype mapstart (offset + bufsize) sm))
              else None
         else Some sm)"

declare load_loop.simps [code]

definition space_map_load ::
  "'os dmu \<Rightarrow> 'os \<Rightarrow> 'p space_map \<Rightarrow> 'p space_map_ops option \<Rightarrow> u8 \<Rightarrow> space_map_obj \<Rightarrow> 'p space_map option" where
  "space_map_load dmu os sm ops maptype smo =
     Option.bind (space_map_load_wait sm) (\<lambda>sm.
     if sm_loaded sm then Some sm
     else let mapstart = sm_start sm; sm = sm\<lparr>sm_loading := True\<rparr>
       in if sm_space sm \<noteq> 0 then None
          else Option.bind (if maptype = SM_FREE then space_map_add sm (sm_start sm) (sm_size sm) else Some sm) (\<lambda>sm.
          let space = (if maptype = SM_FREE then sm_size sm - smo_alloc smo else smo_alloc smo)
          in Option.bind (load_loop dmu os smo maptype mapstart 0 sm) (\<lambda>sm.
          if sm_space sm \<noteq> space then None
          else let sm = sm\<lparr>sm_loading := False, sm_loaded := True, sm_ops := ops\<rparr>
               in Some (case ops of None \<Rightarrow> sm | Some ops \<Rightarrow> on_core (smop_load ops) sm))))"

section \<open>Syncing\<close>

text \<open>The buffer of entries, the object as far as it is written, and the object set.\<close>

record 'os sync =
  entry_map :: "u64 list"
  sync_smo :: space_map_obj
  sync_os :: 'os

definition sync_flush :: "'os dmu \<Rightarrow> u64 \<Rightarrow> 'os sync \<Rightarrow> 'os sync" where
  "sync_flush dmu sz st =
     (let smo = sync_smo st
      in st\<lparr>sync_os := dmu_write dmu (sync_os st) (smo_object smo) (smo_objsize smo) sz (entry_map st),
            sync_smo := smo\<lparr>smo_objsize := smo_objsize smo + sz\<rparr>, entry_map := []\<rparr>)"

definition sync_put :: "'os dmu \<Rightarrow> u64 \<Rightarrow> u64 \<Rightarrow> 'os sync \<Rightarrow> 'os sync" where
  "sync_put dmu bufsize e st =
     (let st = (if length (entry_map st) = unat (bufsize div 8) then sync_flush dmu bufsize st else st)
      in st\<lparr>entry_map := entry_map st @ [e]\<rparr>)"

function sync_runs :: "'os dmu \<Rightarrow> u64 \<Rightarrow> u8 \<Rightarrow> u64 \<Rightarrow> u64 \<Rightarrow> 'os sync \<Rightarrow> 'os sync" where
  "sync_runs dmu bufsize maptype start sz st =
     (if sz = 0 then st
      else let run_len = min sz SM_RUN_MAX;
               e = SM_OFFSET_ENCODE start OR SM_TYPE_ENCODE (ucast maptype) OR SM_RUN_ENCODE run_len
           in sync_runs dmu bufsize maptype (start + run_len) (sz - run_len) (sync_put dmu bufsize e st))"
  by pat_completeness auto
termination
proof (relation "measure (\<lambda>(dmu, bufsize, maptype, start, sz, st). unat sz)")
  fix sz run_len :: u64
  assume "sz \<noteq> 0" "run_len = min sz SM_RUN_MAX"
  moreover have "0 < SM_RUN_MAX" by code_simp
  ultimately have "0 < run_len" "run_len \<le> sz" by (simp_all add: word_gt_0)
  then have "unat (sz - run_len) < unat sz"
    by (simp add: unat_sub word_less_nat_alt word_le_nat_alt)
  then show "((dmu, bufsize, maptype, start', sz - run_len, st'), dmu, bufsize, maptype, start, sz, st)
      \<in> measure (\<lambda>(dmu, bufsize, maptype, start, sz, st). unat sz)"
    for dmu :: "'os dmu" and bufsize maptype start start' st st' by simp
qed simp

partial_function (option) sync_loop ::
  "'os dmu \<Rightarrow> u64 \<Rightarrow> u8 \<Rightarrow> 'p space_map \<Rightarrow> space_seg cookie \<Rightarrow> 'os sync \<Rightarrow> ('p space_map \<times> 'os sync) option" where
  "sync_loop dmu bufsize maptype sm cookie st =
     (case avl_destroy_nodes (sm_root sm) cookie of
        (None, root, cookie) \<Rightarrow> Some (sm\<lparr>sm_root := root\<rparr>, st)
      | (Some ss, root, cookie) \<Rightarrow>
          let sz = ss_end ss - ss_start ss;
              start = drop_bit (unat (sm_shift sm)) (ss_start ss - sm_start sm);
              sm = sm\<lparr>sm_root := root, sm_space := sm_space sm - sz\<rparr>
          in sync_loop dmu bufsize maptype sm cookie
               (sync_runs dmu bufsize maptype start (drop_bit (unat (sm_shift sm)) sz) st))"

declare sync_loop.simps [code]

definition space_map_sync ::
  "'os dmu \<Rightarrow> u64 \<Rightarrow> u64 \<Rightarrow> 'p space_map \<Rightarrow> u8 \<Rightarrow> space_map_obj \<Rightarrow> 'os \<Rightarrow> ('p space_map \<times> space_map_obj \<times> 'os) option" where
  "space_map_sync dmu syncpass txg sm maptype smo os =
     (if sm_space sm = 0 then Some (sm, smo, os)
      else let smo = smo\<lparr>smo_alloc := (if maptype = SM_ALLOC then smo_alloc smo + sm_space sm
                                        else smo_alloc smo - sm_space sm)\<rparr>;
               bufsize = min ((8 + of_nat (avl_numnodes (sm_root sm))) * 8) (push_bit SPACE_MAP_BLOCKSHIFT 1);
               e = SM_DEBUG_ENCODE 1 OR SM_DEBUG_ACTION_ENCODE (ucast maptype) OR
                   SM_DEBUG_SYNCPASS_ENCODE syncpass OR SM_DEBUG_TXG_ENCODE txg
           in Option.bind
                (sync_loop dmu bufsize maptype sm Cookie_Null \<lparr>entry_map = [e], sync_smo = smo, sync_os = os\<rparr>)
                (\<lambda>(sm, st).
                  let st = (if entry_map st \<noteq> [] then sync_flush dmu (of_nat (length (entry_map st)) * 8) st else st)
                  in if sm_space sm = 0 then Some (sm, sync_smo st, sync_os st) else None))"

definition space_map_truncate ::
  "'os dmu \<Rightarrow> space_map_obj \<Rightarrow> 'os \<Rightarrow> (space_map_obj \<times> 'os) option" where
  "space_map_truncate dmu smo os =
     map_option (Pair (smo\<lparr>smo_objsize := 0, smo_alloc := 0\<rparr>)) (dmu_free_range dmu os (smo_object smo) 0 (-1))"

section \<open>The entry format\<close>

lemma phase_take_bit: "len < 64 \<Longrightarrow> P2PHASE x (push_bit len 1) = take_bit len x"
proof -
  have "(push_bit len 1 - 1 :: u64) = mask len" by (simp add: mask_eq_exp_minus_1 push_bit_eq_mult)
  then show ?thesis by (simp add: P2PHASE_def take_bit_eq_mask)
qed

lemma unat_decode: "len < 64 \<Longrightarrow> unat (BF64_DECODE x low len) = unat x div 2 ^ low mod 2 ^ len"
  unfolding BF64_DECODE_def phase_take_bit unat_take_bit_mod unat_drop_bit_div ..

lemma unat_encode:
  assumes "len < 64" "low + len \<le> 64"
  shows "unat (BF64_ENCODE x low len) = unat x mod 2 ^ len * 2 ^ low"
proof -
  have "unat x mod 2 ^ len * 2 ^ low < 2 ^ len * 2 ^ low" by simp
  also have "\<dots> = 2 ^ (low + len)" by (simp add: power_add)
  also have "\<dots> \<le> 2 ^ 64" using assms(2) by (rule power_increasing) simp
  finally show ?thesis
    using unat_push_bit_mult [of "take_bit len x" low]
    unfolding BF64_ENCODE_def phase_take_bit [OF assms(1)] unat_take_bit_mod by simp
qed

lemma div_mod_add: "r < n \<Longrightarrow> (q * n + r) div n = q" "r < n \<Longrightarrow> (q * n + r) mod n = (r :: nat)"
  by simp_all

definition sm_entry :: "u8 \<Rightarrow> u64 \<Rightarrow> u64 \<Rightarrow> u64" where
  "sm_entry maptype start run_len = SM_OFFSET_ENCODE start OR SM_TYPE_ENCODE (ucast maptype) OR SM_RUN_ENCODE run_len"

lemma SM_RUN_MAX_eq: "SM_RUN_MAX = 32768"
  by code_simp

lemma unat_sm_entry:
  assumes "unat start < 2 ^ 47" "maptype = SM_ALLOC \<or> maptype = SM_FREE" "0 < run_len" "run_len \<le> SM_RUN_MAX"
  shows "unat (sm_entry maptype start run_len) = unat start * 2 ^ 16 + (unat maptype * 2 ^ 15 + (unat run_len - 1))"
proof -
  have r: "unat (run_len - 1) = unat run_len - 1" "unat run_len \<le> 2 ^ 15"
    using assms(3,4) by (simp_all add: unat_sub SM_RUN_MAX_eq word_le_nat_alt word_less_nat_alt)
  have 1: "unat (SM_RUN_ENCODE run_len) = unat run_len - 1"
    using r by (simp add: SM_RUN_ENCODE_def unat_encode)
  have m: "unat maptype < 2" using assms(2) by (auto simp: SM_ALLOC_def SM_FREE_def)
  have 2: "unat (SM_TYPE_ENCODE (ucast maptype)) = unat maptype * 2 ^ 15"
    using m by (simp add: SM_TYPE_ENCODE_def unat_encode unat_ucast_up)
  have 3: "unat (SM_OFFSET_ENCODE start) = unat start * 2 ^ 16"
    using assms(1) by (simp add: SM_OFFSET_ENCODE_def unat_encode)
  have 4: "unat (SM_TYPE_ENCODE (ucast maptype) OR SM_RUN_ENCODE run_len) = unat maptype * 2 ^ 15 + (unat run_len - 1)"
    using unat_or_eq_add [of "SM_RUN_ENCODE run_len" 15 "SM_TYPE_ENCODE (ucast maptype)"] 1 2 r(2) by simp
  have "unat maptype * 2 ^ 15 + (unat run_len - 1) < 2 ^ 16" using m r(2) by (cases "unat maptype") simp_all
  then show ?thesis
    unfolding sm_entry_def
    using unat_or_eq_add [of "SM_TYPE_ENCODE (ucast maptype) OR SM_RUN_ENCODE run_len" 16 "SM_OFFSET_ENCODE start"] 3 4 by simp
qed

lemma sm_entry_decode:
  assumes "unat start < 2 ^ 47" "maptype = SM_ALLOC \<or> maptype = SM_FREE" "0 < run_len" "run_len \<le> SM_RUN_MAX"
  shows "SM_DEBUG_DECODE (sm_entry maptype start run_len) = 0" "SM_TYPE_DECODE (sm_entry maptype start run_len) = ucast maptype"
    "SM_OFFSET_DECODE (sm_entry maptype start run_len) = start" "SM_RUN_DECODE (sm_entry maptype start run_len) = run_len"
proof -
  note u = unat_sm_entry [OF assms]
  have one_lt: "(1 :: nat) < 64" and len_lt: "(47 :: nat) < 64" by simp_all
  let ?l = "unat maptype * 2 ^ 15 + (unat run_len - 1)"
  have m: "unat maptype < 2" using assms(2) by (auto simp: SM_ALLOC_def SM_FREE_def)
  have r: "unat run_len - 1 < 2 ^ 15" "0 < unat run_len" using assms(3,4) by (simp_all add: SM_RUN_MAX_eq word_le_nat_alt word_less_nat_alt)
  have l: "?l < 2 ^ 16" using m r by (cases "unat maptype") simp_all
  have d: "unat (sm_entry maptype start run_len) div 2 ^ 16 = unat start" using l by (simp add: u)
  have "unat (sm_entry maptype start run_len) < 2 ^ 63" using l assms(1) by (simp add: u)
  then have "unat (SM_DEBUG_DECODE (sm_entry maptype start run_len)) = 0" by (simp add: SM_DEBUG_DECODE_def unat_decode)
  then show "SM_DEBUG_DECODE (sm_entry maptype start run_len) = 0" by (simp add: unat_eq_0)
  have "unat (sm_entry maptype start run_len) = (unat start * 2 + unat maptype) * 2 ^ 15 + (unat run_len - 1)" by (simp add: u)
  then have t: "unat (sm_entry maptype start run_len) div 2 ^ 15 = unat start * 2 + unat maptype"
    "unat (sm_entry maptype start run_len) mod 2 ^ 15 = unat run_len - 1" using div_mod_add [OF r(1)] by presburger+
  have "unat (SM_TYPE_DECODE (sm_entry maptype start run_len)) = unat (ucast maptype :: u64)"
    unfolding SM_TYPE_DECODE_def unat_decode [OF one_lt] t(1) using m by (simp add: unat_ucast_up)
  then show "SM_TYPE_DECODE (sm_entry maptype start run_len) = ucast maptype" by (rule unsigned_word_eqI)
  have "unat (SM_OFFSET_DECODE (sm_entry maptype start run_len)) = unat start"
    unfolding SM_OFFSET_DECODE_def unat_decode [OF len_lt] d using assms(1) by simp
  then show "SM_OFFSET_DECODE (sm_entry maptype start run_len) = start" by (rule unsigned_word_eqI)
  have "unat (BF64_DECODE (sm_entry maptype start run_len) 0 15) = unat (run_len - 1)"
    using t(2) r assms(3) by (simp add: unat_decode unat_sub word_le_nat_alt)
  then have "BF64_DECODE (sm_entry maptype start run_len) 0 15 = run_len - 1" by (rule unsigned_word_eqI)
  then show "SM_RUN_DECODE (sm_entry maptype start run_len) = run_len" by (simp add: SM_RUN_DECODE_def)
qed

lemma debug_entry_decode: "SM_DEBUG_DECODE (SM_DEBUG_ENCODE 1 OR w) \<noteq> 0"
proof -
  have one_less: "(1 :: nat) < 64" by simp
  have "bit (SM_DEBUG_ENCODE 1) 63" by code_simp
  then have "bit (SM_DEBUG_DECODE (SM_DEBUG_ENCODE 1 OR w)) 0"
    unfolding SM_DEBUG_DECODE_def BF64_DECODE_def phase_take_bit [OF one_less]
    by (simp only: bit_take_bit_iff bit_drop_bit_eq o_def bit_or_iff) simp
  then show ?thesis by force
qed

section \<open>What a log of entries means\<close>

text \<open>
  The allocated offsets a log describes: each entry adds or removes its range, and a log with an
  entry out of bounds, an allocation of allocated space or a free of free space has no meaning.
\<close>

definition entry_start :: "('p, 'z) space_map_core_scheme \<Rightarrow> u64 \<Rightarrow> u64" where
  "entry_start sm e = push_bit (unat (sm_shift sm)) (SM_OFFSET_DECODE e) + sm_start sm"

definition entry_size :: "('p, 'z) space_map_core_scheme \<Rightarrow> u64 \<Rightarrow> u64" where
  "entry_size sm e = push_bit (unat (sm_shift sm)) (SM_RUN_DECODE e)"

definition disk_step :: "('p, 'z) space_map_core_scheme \<Rightarrow> nat set \<Rightarrow> u64 \<Rightarrow> nat set option" where
  "disk_step sm S e =
     (if SM_DEBUG_DECODE e \<noteq> 0 then Some S
      else if \<not> in_range sm (entry_start sm e) (entry_size sm e) then None
      else if SM_TYPE_DECODE e = 0 then set_add S (span (entry_start sm e) (entry_size sm e))
      else set_remove S (span (entry_start sm e) (entry_size sm e)))"

definition log_set :: "('p, 'z) space_map_core_scheme \<Rightarrow> u64 list \<Rightarrow> nat set option" where
  "log_set sm es = fold_opt (disk_step sm) es {}"

lemma disk_step_cong: "bounds sm' = bounds sm \<Longrightarrow> disk_step sm' = disk_step sm"
  using in_range_cong [of sm' sm]
  by (auto simp: fun_eq_iff disk_step_def entry_start_def entry_size_def bounds_def)

lemma type_decode_bit: "SM_TYPE_DECODE e = 0 \<or> SM_TYPE_DECODE e = 1"
proof -
  have one: "(1 :: nat) < 64" by simp
  have "unat (SM_TYPE_DECODE e) = unat e div 2 ^ 15 mod 2 ^ 1"
    unfolding SM_TYPE_DECODE_def by (rule unat_decode [OF one])
  then have "unat (SM_TYPE_DECODE e) = 0 \<or> unat (SM_TYPE_DECODE e) = 1" by simp linarith
  then show ?thesis by (auto dest: word_eq_unat)
qed

text \<open>A map of the free offsets is the complement of the map of the allocated ones.\<close>

definition view :: "u8 \<Rightarrow> ('p, 'z) space_map_core_scheme \<Rightarrow> nat set \<Rightarrow> nat set" where
  "view maptype sm S = (if maptype = SM_FREE then span (sm_start sm) (sm_size sm) - S else S)"

lemma load_entry_ok:
  assumes "sm_wf sm" "maptype = SM_ALLOC \<or> maptype = SM_FREE" "S \<subseteq> span (sm_start sm) (sm_size sm)"
    "space_of sm = view maptype sm S" "disk_step sm S e = Some S'"
  shows "\<exists>sm'. load_entry maptype (sm_start sm) sm e = Some sm' \<and> sm_wf sm' \<and> resized sm sm' \<and>
    S' \<subseteq> span (sm_start sm) (sm_size sm) \<and> space_of sm' = view maptype sm S'"
proof (cases "SM_DEBUG_DECODE e = 0")
  case False
  then show ?thesis using assms by (intro exI [of _ sm]) (simp add: load_entry_def disk_step_def)
next
  case True
  let ?a = "entry_start sm e" and ?z = "entry_size sm e" and ?U = "span (sm_start sm) (sm_size sm)"
  have r: "in_range sm ?a ?z" using assms(5) True by (auto simp: disk_step_def split: if_splits)
  then have u: "span ?a ?z \<subseteq> ?U" by (simp add: in_range_def)
  have am: "SM_TYPE_DECODE e = ucast maptype \<longleftrightarrow> (SM_TYPE_DECODE e = 0) = (maptype = SM_ALLOC)"
    using type_decode_bit [of e] assms(2) by (auto simp: SM_ALLOC_def SM_FREE_def)
  have le: "load_entry maptype (sm_start sm) sm e =
    (if (SM_TYPE_DECODE e = 0) = (maptype = SM_ALLOC) then space_map_add sm ?a ?z else space_map_remove sm ?a ?z)"
    using True by (simp add: load_entry_def am entry_start_def entry_size_def)
  have mf: "maptype = SM_FREE \<longleftrightarrow> maptype \<noteq> SM_ALLOC" using assms(2) by (auto simp: SM_ALLOC_def SM_FREE_def)
  show ?thesis
  proof (cases "SM_TYPE_DECODE e = 0")
    case t: True
    have s: "S \<inter> span ?a ?z = {}" "S' = S \<union> span ?a ?z"
      using assms(5) True t r by (auto simp: disk_step_def set_add_def split: if_splits)
    show ?thesis
    proof (cases "maptype = SM_ALLOC")
      case a: True
      then have "space_of sm = S" using assms(4) mf by (simp add: view_def)
      with add_step [OF assms(1) r] s a t le u assms(3) mf show ?thesis by (auto simp: view_def)
    next
      case a: False
      then have v: "space_of sm = ?U - S" using assms(4) mf by (simp add: view_def)
      then have "span ?a ?z \<subseteq> space_of sm" using u s by blast
      from remove_step [OF assms(1) r this] obtain sm' where "space_map_remove sm ?a ?z = Some sm'" "sm_wf sm'" "resized sm sm'"
        "space_of sm' = space_of sm - span ?a ?z" by blast
      with v s a t le u assms(3) mf show ?thesis by (intro exI [of _ sm']) (auto simp: view_def)
    qed
  next
    case t: False
    have s: "span ?a ?z \<subseteq> S" "S' = S - span ?a ?z"
      using assms(5) True t r by (auto simp: disk_step_def set_remove_def split: if_splits)
    show ?thesis
    proof (cases "maptype = SM_ALLOC")
      case a: True
      then have "space_of sm = S" using assms(4) mf by (simp add: view_def)
      with remove_step [OF assms(1) r] s a t le assms(3) mf show ?thesis by (auto simp: view_def)
    next
      case a: False
      then have v: "space_of sm = ?U - S" using assms(4) mf by (simp add: view_def)
      then have "space_of sm \<inter> span ?a ?z = {}" using s by blast
      from add_step [OF assms(1) r this] obtain sm' where "space_map_add sm ?a ?z = Some sm'" "sm_wf sm'" "resized sm sm'"
        "space_of sm' = space_of sm \<union> span ?a ?z" by blast
      with v s a t le u assms(3) mf show ?thesis by (intro exI [of _ sm']) (auto simp: view_def)
    qed
  qed
qed

lemma resized_start: "resized sm sm' \<Longrightarrow> sm_start sm' = sm_start sm \<and> view maptype sm' = view maptype sm \<and>
    sm_size sm' = sm_size sm"
  by (auto simp: resized_def view_def fun_eq_iff)

lemma load_entries_ok:
  assumes "sm_wf sm" "maptype = SM_ALLOC \<or> maptype = SM_FREE" "S \<subseteq> span (sm_start sm) (sm_size sm)"
    "space_of sm = view maptype sm S" "fold_opt (disk_step sm) es S = Some S'"
  shows "\<exists>sm'. fold_opt (load_entry maptype (sm_start sm)) es sm = Some sm' \<and> sm_wf sm' \<and> resized sm sm' \<and>
    S' \<subseteq> span (sm_start sm) (sm_size sm) \<and> space_of sm' = view maptype sm S'"
  using assms
proof (induction es arbitrary: sm S)
  case (Cons e es)
  obtain S1 where S1: "disk_step sm S e = Some S1" "fold_opt (disk_step sm) es S1 = Some S'"
    using Cons.prems(5) by (auto simp: bind_eq_Some_conv)
  from load_entry_ok [OF Cons.prems(1-4) S1(1)] obtain sm1 where
    m: "load_entry maptype (sm_start sm) sm e = Some sm1" "sm_wf sm1" "resized sm sm1"
    "S1 \<subseteq> span (sm_start sm) (sm_size sm)" "space_of sm1 = view maptype sm S1" by blast
  note rs = resized_start [OF m(3), of maptype]
  have ds: "disk_step sm1 = disk_step sm" by (rule disk_step_cong) (rule resized_bounds [OF m(3)])
  from Cons.IH [OF m(2) Cons.prems(2), of S1] m(4,5) rs S1(2) ds obtain sm2 where
    n: "fold_opt (load_entry maptype (sm_start sm)) es sm1 = Some sm2" "sm_wf sm2" "resized sm1 sm2"
    "S' \<subseteq> span (sm_start sm) (sm_size sm)" "space_of sm2 = view maptype sm S'" by auto
  then show ?case using m(1) resized_trans [OF m(3) n(3)] by auto
qed auto

section \<open>Objects in the DMU\<close>

text \<open>
  What the code relies on: \<open>words os obj i\<close> is the 64-bit word at byte offset \<open>8 * i\<close> of an object;
  reading a range of whole words gives them, writing a range replaces them and nothing else, and
  freeing the range of a whole object succeeds and touches no other object.
\<close>

definition dmu_ok :: "'os dmu \<Rightarrow> ('os \<Rightarrow> u64 \<Rightarrow> nat \<Rightarrow> u64) \<Rightarrow> bool" where
  "dmu_ok dmu words \<longleftrightarrow>
     (\<forall>os obj offset sz. 8 dvd unat offset \<and> 8 dvd unat sz \<and> unat offset + unat sz < 2 ^ 64 \<longrightarrow>
        dmu_read dmu os obj offset sz = Some (map (words os obj) [unat offset div 8..<(unat offset + unat sz) div 8])) \<and>
     (\<forall>os obj offset sz ws. 8 dvd unat offset \<and> 8 dvd unat sz \<and> unat offset + unat sz < 2 ^ 64 \<and>
        length ws = unat sz div 8 \<longrightarrow>
        words (dmu_write dmu os obj offset sz ws) = (words os)(obj := \<lambda>i.
          if unat offset div 8 \<le> i \<and> i < (unat offset + unat sz) div 8 then ws ! (i - unat offset div 8)
          else words os obj i)) \<and>
     (\<forall>os obj. \<exists>os'. dmu_free_range dmu os obj 0 (-1) = Some os' \<and> (\<forall>obj'. obj' \<noteq> obj \<longrightarrow> words os' obj' = words os obj'))"

definition log :: "('os \<Rightarrow> u64 \<Rightarrow> nat \<Rightarrow> u64) \<Rightarrow> 'os \<Rightarrow> space_map_obj \<Rightarrow> u64 list" where
  "log words os smo = map (words os (smo_object smo)) [0..<unat (smo_objsize smo) div 8]"

lemma dmu_ok_read:
  "dmu_ok dmu words \<Longrightarrow> 8 dvd unat offset \<Longrightarrow> 8 dvd unat sz \<Longrightarrow> unat offset + unat sz < 2 ^ 64 \<Longrightarrow>
    dmu_read dmu os obj offset sz = Some (map (words os obj) [unat offset div 8..<(unat offset + unat sz) div 8])"
  unfolding dmu_ok_def by blast

lemma dmu_ok_write:
  "dmu_ok dmu words \<Longrightarrow> 8 dvd unat offset \<Longrightarrow> 8 dvd unat sz \<Longrightarrow> unat offset + unat sz < 2 ^ 64 \<Longrightarrow>
    length ws = unat sz div 8 \<Longrightarrow>
    words (dmu_write dmu os obj offset sz ws) = (words os)(obj := \<lambda>i.
      if unat offset div 8 \<le> i \<and> i < (unat offset + unat sz) div 8 then ws ! (i - unat offset div 8)
      else words os obj i)"
  unfolding dmu_ok_def by blast

lemma sm_wf_cong:
  assumes "sm_root a = sm_root b" "sm_space a = sm_space b" "bounds a = bounds b"
  shows "sm_wf a = sm_wf b" "space_of a = space_of b"
proof -
  show s: "space_of a = space_of b" by (simp add: space_of_def assms(1))
  show "sm_wf a = sm_wf b"
    using assms fits_cong [OF assms(3)] s by (simp add: sm_wf_def bounds_def)
qed

lemma block_words: "unat (push_bit SPACE_MAP_BLOCKSHIFT 1 :: u64) = 4096" "unat (2 ^ SPACE_MAP_BLOCKSHIFT :: u64) = 4096"
  by (simp_all add: SPACE_MAP_BLOCKSHIFT_def)

lemma load_loop_fold:
  fixes sm :: "'p space_map"
  assumes "dmu_ok dmu words" "8 dvd unat (smo_objsize smo)" "unat (smo_objsize smo) + 4096 < 2 ^ 64"
    "4096 dvd unat offset" "unat offset < unat (smo_objsize smo) + 4096"
  shows "load_loop dmu os smo maptype mapstart offset sm =
    fold_opt (load_entry maptype mapstart)
      (map (words os (smo_object smo)) [unat offset div 8..<unat (smo_objsize smo) div 8]) sm"
  using assms(4,5)
proof (induction "unat (smo_objsize smo) + 4096 - unat offset" arbitrary: offset sm rule: less_induct)
  case less
  let ?e = "unat (smo_objsize smo)" and ?f = "load_entry maptype mapstart" and ?w = "words os (smo_object smo)"
  show ?case
  proof (cases "offset < smo_objsize smo")
    case False
    then show ?thesis by (subst load_loop.simps) (simp add: Let_def word_less_nat_alt div_le_mono)
  next
    case True
    define sz where "sz = min (smo_objsize smo - offset) (push_bit SPACE_MAP_BLOCKSHIFT 1)"
    have lt: "unat offset < ?e" using True by (simp add: word_less_nat_alt)
    have d: "unat (smo_objsize smo - offset) = ?e - unat offset" using lt by (simp add: unat_sub word_le_nat_alt)
    have uz: "unat sz = min (?e - unat offset) 4096"
      unfolding sz_def min_def word_le_nat_alt block_words d by (simp add: d block_words)
    have o8: "8 dvd unat offset" using less.prems(1) by (rule dvd_trans [rotated]) simp
    then have z8: "8 dvd unat sz" using assms(2) by (simp add: uz min_def dvd_diff_nat)
    have e: "unat offset + unat sz = min ?e (unat offset + 4096)" using lt by (simp add: uz)
    have rd: "dmu_read dmu os (smo_object smo) offset sz = Some (map ?w [unat offset div 8..<(unat offset + unat sz) div 8])"
      by (rule dmu_ok_read [OF assms(1) o8 z8]) (use e assms(3) in simp)
    have ph: "P2PHASE sz 8 = 0"
    proof -
      have "unat (P2PHASE sz (push_bit 3 1)) = unat sz mod 2 ^ 3"
        by (subst phase_take_bit) (simp_all add: unat_take_bit_mod)
      then show ?thesis using z8 by (simp add: dvd_eq_mod_eq_0 unat_eq_0)
    qed
    have tk: "take (unat (sz div 8)) (map ?w [unat offset div 8..<(unat offset + unat sz) div 8]) =
        map ?w [unat offset div 8..<(unat offset + unat sz) div 8]"
      using o8 z8 by (simp add: unat_div div_add)
    have ne: "sz \<noteq> 0" using uz lt by (auto simp: unat_gt_0 [symmetric])
    have on: "unat (offset + push_bit SPACE_MAP_BLOCKSHIFT 1) = unat offset + 4096"
      using lt assms(3) block_words by (simp add: unat_word_ariths)
    have ih: "load_loop dmu os smo maptype mapstart (offset + push_bit SPACE_MAP_BLOCKSHIFT 1) sm =
      fold_opt ?f (map ?w [(unat offset + 4096) div 8..<?e div 8]) sm" for sm :: "'p space_map"
      using less.hyps [of "offset + push_bit SPACE_MAP_BLOCKSHIFT 1" sm] less.prems lt unfolding on by simp
    have sp: "[unat offset div 8..<?e div 8] =
        [unat offset div 8..<(unat offset + unat sz) div 8] @ [(unat offset + 4096) div 8..<?e div 8]"
    proof (cases "unat offset + 4096 \<le> ?e")
      case True
      then have "unat offset + unat sz = unat offset + 4096" using e by simp
      moreover have "(unat offset + 4096) div 8 \<le> ?e div 8" using True by (rule div_le_mono)
      moreover have "unat offset div 8 \<le> (unat offset + 4096) div 8" by (rule div_le_mono) simp
      ultimately show ?thesis by (metis le_Suc_ex upt_add_eq_append)
    next
      case False
      then have "unat offset + unat sz = ?e" using e by simp
      moreover have "?e div 8 \<le> (unat offset + 4096) div 8" using False by (intro div_le_mono) simp
      ultimately show ?thesis by simp
    qed
    have "load_loop dmu os smo maptype mapstart offset sm =
      Option.bind (fold_opt ?f (map ?w [unat offset div 8..<(unat offset + unat sz) div 8]) sm)
        (\<lambda>sm. load_loop dmu os smo maptype mapstart (offset + push_bit SPACE_MAP_BLOCKSHIFT 1) sm)"
      using True ph ne rd tk unfolding sz_def by (subst load_loop.simps) (simp add: Let_def)
    then show ?thesis unfolding ih sp map_append fold_opt_append .
  qed
qed

lemma on_core_ppd:
  assumes "\<And>core. \<exists>x. f core = core\<lparr>sm_ppd := x\<rparr>"
  shows "\<exists>x. on_core f sm = sm\<lparr>sm_ppd := x\<rparr>"
proof -
  obtain x where "f (space_map_core.truncate sm) = (space_map_core.truncate sm)\<lparr>sm_ppd := x\<rparr>" using assms by blast
  then have "on_core f sm = sm\<lparr>sm_ppd := x\<rparr>"
    by (cases sm) (simp add: on_core_def space_map_core.defs)
  then show ?thesis ..
qed

lemma view_card:
  assumes "S \<subseteq> span (sm_start sm) (sm_size sm)"
  shows "card (view maptype sm S) = (if maptype = SM_FREE then unat (sm_size sm) - card S else card S)"
    "card S \<le> unat (sm_size sm)"
proof -
  have U: "card (span (sm_start sm) (sm_size sm)) = unat (sm_size sm)" "finite (span (sm_start sm) (sm_size sm))"
    by (simp_all add: span_def)
  show "card (view maptype sm S) = (if maptype = SM_FREE then unat (sm_size sm) - card S else card S)"
    using card_Diff_subset [OF finite_subset [OF assms U(2)] assms] U(1) by (simp add: view_def)
  show "card S \<le> unat (sm_size sm)" using card_mono [OF U(2) assms] U(1) by simp
qed

lemma space_map_load_ok:
  assumes "dmu_ok dmu words" "8 dvd unat (smo_objsize smo)" "unat (smo_objsize smo) + 4096 < 2 ^ 64"
    and "sm_wf sm" "in_range sm (sm_start sm) (sm_size sm)" "sm_space sm = 0" "\<not> sm_loading sm" "\<not> sm_loaded sm"
    and "maptype = SM_ALLOC \<or> maptype = SM_FREE"
    and "log_set sm (log words os smo) = Some S" "unat (smo_alloc smo) = card S"
    and "\<And>o' core. ops = Some o' \<Longrightarrow> \<exists>x. smop_load o' core = core\<lparr>sm_ppd := x\<rparr>"
  shows "\<exists>sm'. space_map_load dmu os sm ops maptype smo = Some sm' \<and> sm_wf sm' \<and> bounds sm' = bounds sm \<and>
    sm_loaded sm' \<and> \<not> sm_loading sm' \<and> sm_ops sm' = ops \<and> S \<subseteq> span (sm_start sm) (sm_size sm) \<and> space_of sm' = view maptype sm S"
proof -
  let ?U = "span (sm_start sm) (sm_size sm)"
  define sm0 where "sm0 = sm\<lparr>sm_loading := True\<rparr>"
  have b0: "bounds sm0 = bounds sm" "sm_space sm0 = sm_space sm" "sm_root sm0 = sm_root sm"
    by (simp_all add: sm0_def bounds_def)
  have w0: "sm_wf sm0" "space_of sm0 = {}"
    using sm_wf_cong [of sm0 sm] b0 assms(4) card_space_of(2) [OF assms(4)] assms(6) by (simp_all add: space_of_def)
  have r0: "in_range sm0 (sm_start sm) (sm_size sm)" using assms(5) in_range_cong [OF b0(1)] by simp
  have U0: "span (sm_start sm0) (sm_size sm0) = ?U" "sm_start sm0 = sm_start sm" "sm_size sm0 = sm_size sm"
    by (simp_all add: sm0_def)
  obtain sm1 where m1: "(if maptype = SM_FREE then space_map_add sm0 (sm_start sm0) (sm_size sm0) else Some sm0) = Some sm1"
    "sm_wf sm1" "resized sm0 sm1" "space_of sm1 = view maptype sm {}"
    using add_step [OF w0(1) r0] w0 U0 by (cases "maptype = SM_FREE") (auto simp: view_def)
  have st1: "sm_start sm1 = sm_start sm" "sm_size sm1 = sm_size sm" "view maptype sm1 = view maptype sm" "bounds sm1 = bounds sm"
    using resized_start [OF m1(3), of maptype] resized_bounds [OF m1(3)] b0 by (simp_all add: sm0_def view_def fun_eq_iff)
  have ds: "disk_step sm1 = disk_step sm" by (rule disk_step_cong) (rule st1(4))
  have es: "fold_opt (disk_step sm1) (log words os smo) {} = Some S" using assms(10) by (simp add: log_set_def ds)
  from load_entries_ok [OF m1(2) assms(9) _ _ es] m1(4) st1 obtain sm2 where
    m2: "fold_opt (load_entry maptype (sm_start sm)) (log words os smo) sm1 = Some sm2" "sm_wf sm2" "resized sm1 sm2"
    "S \<subseteq> ?U" "space_of sm2 = view maptype sm S" by auto
  have lp: "load_loop dmu os smo maptype (sm_start sm) 0 sm1 = Some sm2"
    using load_loop_fold [OF assms(1-3), of 0 os maptype "sm_start sm" sm1] m2(1) by (simp add: log_def)
  note vc = view_card [OF m2(4)]
  have sp: "sm_space sm2 = (if maptype = SM_FREE then sm_size sm - smo_alloc smo else smo_alloc smo)"
    using card_space_of(2) [OF m2(2)] assms(11) vc m2(5)
    by (intro unsigned_word_eqI [where 'a = nat]) (simp add: unat_sub word_le_nat_alt)
  define sm3 where "sm3 = sm2\<lparr>sm_loading := False, sm_loaded := True, sm_ops := ops\<rparr>"
  obtain x where x: "(case ops of None \<Rightarrow> sm3 | Some o' \<Rightarrow> on_core (smop_load o') sm3) = sm3\<lparr>sm_ppd := x\<rparr>"
  proof (cases ops)
    case None
    then show ?thesis using that [of "sm_ppd sm3"] by simp
  next
    case (Some o')
    from on_core_ppd [of "smop_load o'" sm3] assms(12) [OF Some] show ?thesis using that Some by auto
  qed
  have ld: "space_map_load dmu os sm ops maptype smo = Some (sm3\<lparr>sm_ppd := x\<rparr>)"
    using assms(6-8) b0(2) m1(1) lp sp st1 x
    by (simp add: space_map_load_def space_map_load_wait_def Let_def sm0_def [symmetric] sm3_def [symmetric])
  have b3: "bounds (sm3\<lparr>sm_ppd := x\<rparr>) = bounds sm" "sm_root (sm3\<lparr>sm_ppd := x\<rparr>) = sm_root sm2"
    "sm_space (sm3\<lparr>sm_ppd := x\<rparr>) = sm_space sm2"
    using resized_bounds [OF m2(3)] st1(4) by (simp_all add: sm3_def bounds_def)
  have "sm_wf (sm3\<lparr>sm_ppd := x\<rparr>)" "space_of (sm3\<lparr>sm_ppd := x\<rparr>) = view maptype sm S"
    using sm_wf_cong [of "sm3\<lparr>sm_ppd := x\<rparr>" sm2] b3 resized_bounds [OF m2(3)] st1(4) m2(2,5) by simp_all
  then show ?thesis using ld b3(1) m2(4) by (intro exI [of _ "sm3\<lparr>sm_ppd := x\<rparr>"]) (simp add: sm3_def)
qed

section \<open>Writing the log\<close>

text \<open>The log as far as it is on disk or in the buffer.\<close>

definition content :: "('os \<Rightarrow> u64 \<Rightarrow> nat \<Rightarrow> u64) \<Rightarrow> 'os sync \<Rightarrow> u64 list" where
  "content words st = log words (sync_os st) (sync_smo st) @ entry_map st"

definition sync_ok :: "u64 \<Rightarrow> 'os sync \<Rightarrow> bool" where
  "sync_ok bufsize st \<longleftrightarrow> 8 dvd unat (smo_objsize (sync_smo st)) \<and> length (entry_map st) \<le> unat bufsize div 8"

definition same_obj :: "('os \<Rightarrow> u64 \<Rightarrow> nat \<Rightarrow> u64) \<Rightarrow> 'os sync \<Rightarrow> 'os sync \<Rightarrow> bool" where
  "same_obj words st st' \<longleftrightarrow> smo_object (sync_smo st') = smo_object (sync_smo st) \<and>
     smo_alloc (sync_smo st') = smo_alloc (sync_smo st) \<and>
     (\<forall>obj. obj \<noteq> smo_object (sync_smo st) \<longrightarrow> words (sync_os st') obj = words (sync_os st) obj)"

lemma same_obj_refl [simp]: "same_obj words st st"
  by (simp add: same_obj_def)

lemma same_obj_trans: "same_obj words st st' \<Longrightarrow> same_obj words st' st'' \<Longrightarrow> same_obj words st st''"
  by (simp add: same_obj_def)

lemma sync_flush_ok:
  assumes "dmu_ok dmu words" "8 dvd unat (smo_objsize (sync_smo st))" "unat sz = 8 * length (entry_map st)"
    "unat (smo_objsize (sync_smo st)) + unat sz < 2 ^ 64"
  shows "content words (sync_flush dmu sz st) = content words st" "entry_map (sync_flush dmu sz st) = []"
    "same_obj words st (sync_flush dmu sz st)"
    "unat (smo_objsize (sync_smo (sync_flush dmu sz st))) = unat (smo_objsize (sync_smo st)) + unat sz"
proof -
  let ?smo = "sync_smo st" and ?st = "sync_flush dmu sz st"
  have z: "8 dvd unat sz" "length (entry_map st) = unat sz div 8" using assms(3) by simp_all
  note w = dmu_ok_write [OF assms(1,2) z(1) assms(4) z(2), of "sync_os st" "smo_object ?smo"]
  show "entry_map ?st = []" by (simp add: sync_flush_def Let_def)
  show "same_obj words st ?st" using w by (simp add: same_obj_def sync_flush_def Let_def)
  show sz: "unat (smo_objsize (sync_smo ?st)) = unat (smo_objsize ?smo) + unat sz"
    using assms(4) by (simp add: sync_flush_def Let_def unat_word_ariths)
  have d: "(unat (smo_objsize ?smo) + unat sz) div 8 = unat (smo_objsize ?smo) div 8 + length (entry_map st)"
    using assms(2) z by (simp add: div_add)
  have "log words (sync_os ?st) (sync_smo ?st) = log words (sync_os st) ?smo @ entry_map st"
  proof (rule nth_equalityI)
    show "length (log words (sync_os ?st) (sync_smo ?st)) = length (log words (sync_os st) ?smo @ entry_map st)"
      using sz d by (simp add: log_def)
    fix i
    assume "i < length (log words (sync_os ?st) (sync_smo ?st))"
    then have i: "i < unat (smo_objsize ?smo) div 8 + length (entry_map st)" using sz d by (simp add: log_def)
    have "log words (sync_os ?st) (sync_smo ?st) ! i = words (sync_os ?st) (smo_object ?smo) i"
      using i sz d by (simp add: log_def sync_flush_def Let_def)
    also have "\<dots> = (log words (sync_os st) ?smo @ entry_map st) ! i"
      using i w d by (auto simp: sync_flush_def Let_def log_def nth_append)
    finally show "log words (sync_os ?st) (sync_smo ?st) ! i = (log words (sync_os st) ?smo @ entry_map st) ! i" .
  qed
  then show "content words ?st = content words st" by (simp add: content_def sync_flush_def Let_def)
qed

lemma content_length:
  assumes "sync_ok bufsize st"
  shows "8 * length (content words st) = unat (smo_objsize (sync_smo st)) + 8 * length (entry_map st)"
  using assms by (simp add: content_def log_def sync_ok_def)

lemma sync_put_ok:
  assumes "dmu_ok dmu words" "sync_ok bufsize st" "8 dvd unat bufsize" "0 < unat bufsize" "8 * length (content words st) < 2 ^ 64"
  shows "content words (sync_put dmu bufsize e st) = content words st @ [e]" "sync_ok bufsize (sync_put dmu bufsize e st)"
    "same_obj words st (sync_put dmu bufsize e st)"
proof -
  have cap: "unat (bufsize div 8) = unat bufsize div 8" "0 < unat bufsize div 8"
    using assms(3,4) by (auto simp: unat_div)
  have "content words (sync_put dmu bufsize e st) = content words st @ [e] \<and> sync_ok bufsize (sync_put dmu bufsize e st) \<and>
    same_obj words st (sync_put dmu bufsize e st)"
  proof (cases "length (entry_map st) = unat bufsize div 8")
    case True
    have 8: "8 dvd unat (smo_objsize (sync_smo st))" using assms(2) by (simp add: sync_ok_def)
    have z: "unat bufsize = 8 * length (entry_map st)" using True assms(3) by simp
    note f = sync_flush_ok [OF assms(1) 8 z]
    have lt: "unat (smo_objsize (sync_smo st)) + unat bufsize < 2 ^ 64"
      using assms(5) content_length [OF assms(2), of words] z by simp
    have eq: "sync_put dmu bufsize e st = (sync_flush dmu bufsize st)\<lparr>entry_map := [e]\<rparr>"
      using True cap(1) f(2) [OF lt] by (simp add: sync_put_def Let_def)
    have "content words (sync_put dmu bufsize e st) = content words (sync_flush dmu bufsize st) @ [e]"
      using f(2) [OF lt] by (simp add: eq content_def)
    moreover have "sync_ok bufsize (sync_put dmu bufsize e st)"
      using f(4) [OF lt] 8 assms(3) cap(2) by (simp add: eq sync_ok_def)
    moreover have "same_obj words st (sync_put dmu bufsize e st)" using f(3) [OF lt] by (simp add: eq same_obj_def)
    ultimately show ?thesis using f(1) [OF lt] by simp
  next
    case False
    then show ?thesis
      using assms(2) cap(1) by (simp add: sync_put_def content_def sync_ok_def same_obj_def)
  qed
  then show "content words (sync_put dmu bufsize e st) = content words st @ [e]" "sync_ok bufsize (sync_put dmu bufsize e st)"
    "same_obj words st (sync_put dmu bufsize e st)" by simp_all
qed

text \<open>The effect of an entry of either type on the allocated offsets.\<close>

definition apply_type :: "u8 \<Rightarrow> nat set \<Rightarrow> nat set \<Rightarrow> nat set option" where
  "apply_type maptype S R = (if maptype = SM_ALLOC then set_add S R else set_remove S R)"

lemma apply_split:
  assumes "apply_type maptype S (R1 \<union> R2) = Some S'" "R1 \<inter> R2 = {}"
  shows "\<exists>S1. apply_type maptype S R1 = Some S1 \<and> apply_type maptype S1 R2 = Some S'"
  using assms by (auto simp: apply_type_def set_add_def set_remove_def split: if_splits)

definition units :: "('p, 'z) space_map_core_scheme \<Rightarrow> nat \<Rightarrow> nat \<Rightarrow> nat set" where
  "units sm a n = {unat (sm_start sm) + a * unit_of sm..<unat (sm_start sm) + (a + n) * unit_of sm}"

lemma interval_split:
  "(x :: nat) \<le> y \<Longrightarrow> y \<le> z \<Longrightarrow> {s + x..<s + z} = {s + x..<s + y} \<union> {s + y..<s + z} \<and> {s + x..<s + y} \<inter> {s + y..<s + z} = {}"
  by auto

lemma units_split: "units sm a (m + n) = units sm a m \<union> units sm (a + m) n" "units sm a m \<inter> units sm (a + m) n = {}"
proof -
  have "a * unit_of sm \<le> (a + m) * unit_of sm" "(a + m) * unit_of sm \<le> (a + m + n) * unit_of sm"
    by (rule mult_le_mono1, simp)+
  from interval_split [OF this, of "unat (sm_start sm)"]
  show "units sm a (m + n) = units sm a m \<union> units sm (a + m) n" "units sm a m \<inter> units sm (a + m) n = {}"
    unfolding units_def add.assoc [symmetric] by blast+
qed

text \<open>Ranges of units that an entry can hold.\<close>

definition units_fit :: "('p, 'z) space_map_core_scheme \<Rightarrow> nat \<Rightarrow> nat \<Rightarrow> bool" where
  "units_fit sm a n \<longleftrightarrow> a + n \<le> 2 ^ 47 \<and> (a + n) * unit_of sm \<le> unat (sm_size sm) \<and> unit_of sm dvd unat (sm_start sm) \<and>
     unat (sm_start sm) + unat (sm_size sm) < 2 ^ 64 \<and> unat (sm_shift sm) < 64"

lemma disk_step_entry:
  assumes "units_fit sm (unat start) (unat run_len)" "maptype = SM_ALLOC \<or> maptype = SM_FREE"
    "0 < run_len" "run_len \<le> SM_RUN_MAX"
  shows "disk_step sm S (sm_entry maptype start run_len) = apply_type maptype S (units sm (unat start) (unat run_len))"
proof -
  let ?u = "unit_of sm" and ?e = "sm_entry maptype start run_len"
  have r: "0 < unat run_len" using assms(3) by (simp add: word_less_nat_alt)
  have f: "unat start + unat run_len \<le> 2 ^ 47" "(unat start + unat run_len) * ?u \<le> unat (sm_size sm)" "?u dvd unat (sm_start sm)"
    "unat (sm_start sm) + unat (sm_size sm) < 2 ^ 64"
    using assms(1) by (simp_all add: units_fit_def)
  have lt: "unat start < 2 ^ 47" using f(1) r by linarith
  note d = sm_entry_decode [OF lt assms(2-4)]
  have m: "unat start * ?u + unat run_len * ?u \<le> unat (sm_size sm)" using f(2) by (simp add: distrib_right)
  have a: "unat (push_bit (unat (sm_shift sm)) start) = unat start * ?u"
    "unat (push_bit (unat (sm_shift sm)) run_len) = unat run_len * ?u"
    using m f(4) by (simp_all add: unat_push_bit_mult unit_of_def)
  have es: "unat (entry_start sm ?e) = unat (sm_start sm) + unat start * ?u" "unat (entry_size sm ?e) = unat run_len * ?u"
    using a m f(4) by (simp_all add: entry_start_def entry_size_def d unat_word_ariths)
  have sp: "span (entry_start sm ?e) (entry_size sm ?e) = units sm (unat start) (unat run_len)"
    unfolding span_def es units_def by (simp add: distrib_right add.assoc)
  have "0 < unat run_len * ?u" using r by (simp add: unit_of_def)
  then have "entry_size sm ?e \<noteq> 0" using es(2) by (metis unat_0 less_irrefl)
  moreover have "span (entry_start sm ?e) (entry_size sm ?e) \<subseteq> span (sm_start sm) (sm_size sm)"
    unfolding span_def es using m by auto
  ultimately have "in_range sm (entry_start sm ?e) (entry_size sm ?e)"
    using f(3) by (simp add: in_range_def es)
  moreover have "SM_TYPE_DECODE ?e = 0 \<longleftrightarrow> maptype = SM_ALLOC"
    using assms(2) unfolding d(2) by (auto simp: SM_ALLOC_def SM_FREE_def)
  ultimately show ?thesis unfolding disk_step_def apply_type_def sp using d(1) by simp
qed

lemma units_fit_split:
  assumes "units_fit sm a (m + n)"
  shows "units_fit sm a m" "units_fit sm (a + m) n"
proof -
  have "(a + m) * unit_of sm \<le> (a + (m + n)) * unit_of sm" by (rule mult_le_mono1) simp
  also have "\<dots> \<le> unat (sm_size sm)" using assms by (simp add: units_fit_def)
  finally show "units_fit sm a m" "units_fit sm (a + m) n" using assms by (simp_all add: units_fit_def add.assoc)
qed

lemma sync_runs_ok:
  assumes "dmu_ok dmu words" "sync_ok bufsize st" "8 dvd unat bufsize" "0 < unat bufsize"
    "8 * (length (content words st) + unat sz) < 2 ^ 64" "units_fit sm (unat start) (unat sz)"
    "maptype = SM_ALLOC \<or> maptype = SM_FREE"
  shows "\<exists>es. content words (sync_runs dmu bufsize maptype start sz st) = content words st @ es \<and>
    sync_ok bufsize (sync_runs dmu bufsize maptype start sz st) \<and>
    same_obj words st (sync_runs dmu bufsize maptype start sz st) \<and> length es \<le> unat sz \<and>
    (\<forall>S S'. apply_type maptype S (units sm (unat start) (unat sz)) = Some S' \<longrightarrow> fold_opt (disk_step sm) es S = Some S')"
  using assms
proof (induction dmu bufsize maptype start sz st rule: sync_runs.induct)
  case (1 dmu bufsize maptype start sz st)
  show ?case
  proof (cases "sz = 0")
    case True
    then show ?thesis
      using "1.prems" by (subst (1 2 3) sync_runs.simps)
        (auto simp: apply_type_def set_add_def set_remove_def units_def)
  next
    case False
    define r where "r = min sz SM_RUN_MAX"
    define e where "e = SM_OFFSET_ENCODE start OR SM_TYPE_ENCODE (ucast maptype) OR SM_RUN_ENCODE r"
    have ee: "e = sm_entry maptype start r" by (simp add: e_def sm_entry_def)
    have eq: "sync_runs dmu bufsize maptype start sz st =
        sync_runs dmu bufsize maptype (start + r) (sz - r) (sync_put dmu bufsize e st)"
      using False by (subst sync_runs.simps) (simp add: r_def e_def Let_def)
    have r: "0 < r" "r \<le> sz" "r \<le> SM_RUN_MAX"
      using False by (simp_all add: r_def SM_RUN_MAX_eq word_gt_0)
    then have u: "unat (sz - r) = unat sz - unat r" "unat r \<le> unat sz" "0 < unat r"
      by (simp_all add: unat_sub word_le_nat_alt word_less_nat_alt)
    then have sum: "unat r + unat (sz - r) = unat sz" by simp
    have us: "unat (start + r) = unat start + unat r"
      using "1.prems"(6) u(2) by (simp add: units_fit_def unat_word_ariths)
    note fit = units_fit_split [of sm "unat start" "unat r" "unat (sz - r)", unfolded sum, OF "1.prems"(6)]
    have lt: "8 * length (content words st) < 2 ^ 64" using "1.prems"(5) by simp
    note p = sync_put_ok [OF "1.prems"(1-4) lt, of e]
    have ih: "\<exists>es. content words (sync_runs dmu bufsize maptype start sz st) = content words (sync_put dmu bufsize e st) @ es \<and>
      sync_ok bufsize (sync_runs dmu bufsize maptype start sz st) \<and>
      same_obj words (sync_put dmu bufsize e st) (sync_runs dmu bufsize maptype start sz st) \<and> length es \<le> unat (sz - r) \<and>
      (\<forall>S S'. apply_type maptype S (units sm (unat (start + r)) (unat (sz - r))) = Some S' \<longrightarrow> fold_opt (disk_step sm) es S = Some S')"
      unfolding eq
    proof (rule "1.IH" [OF False r_def e_def "1.prems"(1) p(2) "1.prems"(3,4)])
      show "8 * (length (content words (sync_put dmu bufsize e st)) + unat (sz - r)) < 2 ^ 64"
        using "1.prems"(5) u by (simp add: p(1))
      show "units_fit sm (unat (start + r)) (unat (sz - r))" using fit(2) us by simp
    qed (rule "1.prems"(7))
    then obtain es where es: "content words (sync_runs dmu bufsize maptype start sz st) = content words st @ e # es"
      "sync_ok bufsize (sync_runs dmu bufsize maptype start sz st)"
      "same_obj words (sync_put dmu bufsize e st) (sync_runs dmu bufsize maptype start sz st)" "length es \<le> unat (sz - r)"
      "\<And>S S'. apply_type maptype S (units sm (unat start + unat r) (unat (sz - r))) = Some S' \<Longrightarrow> fold_opt (disk_step sm) es S = Some S'"
      by (auto simp: p(1) us)
    have "fold_opt (disk_step sm) (e # es) S = Some S'"
      if S: "apply_type maptype S (units sm (unat start) (unat sz)) = Some S'" for S S'
    proof -
      have "apply_type maptype S (units sm (unat start) (unat r) \<union> units sm (unat start + unat r) (unat (sz - r))) = Some S'"
        using S units_split(1) [of sm "unat start" "unat r" "unat (sz - r)"] sum by simp
      from apply_split [OF this units_split(2)] obtain S1 where
        S1: "apply_type maptype S (units sm (unat start) (unat r)) = Some S1"
        "apply_type maptype S1 (units sm (unat start + unat r) (unat (sz - r))) = Some S'" by blast
      show ?thesis using disk_step_entry [OF fit(1) "1.prems"(7) r(1,3), of S] S1 es(5) by (simp add: ee)
    qed
    then show ?thesis
      using es same_obj_trans [OF p(3) es(3)] u by (intro exI [of _ "e # es"]) auto
  qed
qed

text \<open>Maps whose offsets the entries can hold.\<close>

definition sm_storable :: "('p, 'z) space_map_core_scheme \<Rightarrow> bool" where
  "sm_storable sm \<longleftrightarrow> unit_of sm dvd unat (sm_start sm) \<and> unat (sm_size sm) \<le> 2 ^ 47 * unit_of sm"

definition seg_len :: "space_seg \<Rightarrow> u64" where
  "seg_len s = ss_end s - ss_start s"

lemma seg_units:
  assumes "sm_wf sm" "sm_storable sm" "seg_fits sm s" "ss_start s < ss_end s"
  defines "a \<equiv> drop_bit (unat (sm_shift sm)) (ss_start s - sm_start sm)" and "n \<equiv> drop_bit (unat (sm_shift sm)) (seg_len s)"
  shows "units_fit sm (unat a) (unat n)" "units sm (unat a) (unat n) = seg_offs s" "unat n \<le> unat (seg_len s)"
    "card (seg_offs s) = unat (seg_len s)"
proof -
  let ?u = "unit_of sm"
  have u: "0 < ?u" by (simp add: unit_of_def)
  have f: "unat (sm_start sm) \<le> unat (ss_start s)" "unat (ss_end s) \<le> unat (sm_start sm) + unat (sm_size sm)"
    "?u dvd unat (ss_start s)" "?u dvd unat (ss_end s)" "unat (ss_start s) < unat (ss_end s)" "?u dvd unat (sm_start sm)"
    using assms(2-4) by (simp_all add: seg_fits_def word_less_nat_alt sm_storable_def)
  have l: "unat (seg_len s) = unat (ss_end s) - unat (ss_start s)" "unat (ss_start s - sm_start sm) = unat (ss_start s) - unat (sm_start sm)"
    using f by (simp_all add: seg_len_def unat_sub word_le_nat_alt)
  have un: "unat n = unat (seg_len s) div ?u" "unat a = (unat (ss_start s) - unat (sm_start sm)) div ?u"
    by (simp_all add: n_def a_def unat_drop_bit_div unit_of_def l(2))
  have d: "?u dvd unat (seg_len s)" "?u dvd unat (ss_start s) - unat (sm_start sm)"
    unfolding l using f by (simp_all add: dvd_diff_nat)
  have m: "unat n * ?u = unat (seg_len s)" "unat a * ?u = unat (ss_start s) - unat (sm_start sm)"
    unfolding un using d by simp_all
  have s: "(unat a + unat n) * ?u = unat (ss_end s) - unat (sm_start sm)"
    unfolding distrib_right m l using f by simp
  have le: "(unat a + unat n) * ?u \<le> unat (sm_size sm)" unfolding s using f by simp
  also have "\<dots> \<le> 2 ^ 47 * ?u" using assms(2) by (simp add: sm_storable_def)
  finally have "unat a + unat n \<le> 2 ^ 47" using u by simp
  then show "units_fit sm (unat a) (unat n)" using le f(6) assms(1) by (simp add: units_fit_def sm_wf_def)
  show "units sm (unat a) (unat n) = seg_offs s" unfolding units_def s m(2) seg_offs_def using f by simp
  show "unat n \<le> unat (seg_len s)" unfolding un(1) by simp
  show "card (seg_offs s) = unat (seg_len s)" unfolding l seg_offs_def by simp
qed

lemma sum_seg_len:
  "disjoint_segs sm xs \<Longrightarrow> sum_list (map seg_len xs) = of_nat (card (offs xs))"
proof (induction xs)
  case (Cons s xs)
  have s: "unat (ss_start s) < unat (ss_end s)" "seg_offs s \<inter> offs xs = {}" "disjoint_segs sm xs"
    using Cons.prems by (simp_all add: disjoint_segs_Cons word_less_nat_alt)
  have "card (offs (s # xs)) = (unat (ss_end s) - unat (ss_start s)) + card (offs xs)"
    using card_Un_disjoint [of "seg_offs s" "offs xs"] s(2) by (simp add: seg_offs_def)
  moreover have "(of_nat (unat (ss_end s) - unat (ss_start s)) :: u64) = seg_len s"
    using s(1) by (simp add: seg_len_def of_nat_diff)
  ultimately show ?case using Cons.IH [OF s(3)] by simp
qed simp

lemma apply_fold:
  "disjoint_segs sm xs \<Longrightarrow> apply_type maptype S (offs xs) = Some S' \<Longrightarrow>
    fold_opt (\<lambda>S s. apply_type maptype S (seg_offs s)) xs S = Some S'"
proof (induction xs arbitrary: S)
  case Nil
  then show ?case by (auto simp: apply_type_def set_add_def set_remove_def split: if_splits)
next
  case (Cons s xs)
  have s: "seg_offs s \<inter> offs xs = {}" "disjoint_segs sm xs" using Cons.prems(1) by (simp_all add: disjoint_segs_Cons)
  from apply_split [OF _ s(1), of maptype S S'] Cons.prems(2) obtain S1 where
    "apply_type maptype S (seg_offs s) = Some S1" "apply_type maptype S1 (offs xs) = Some S'" by auto
  then show ?case using Cons.IH [OF s(2)] by simp
qed

lemma sync_loop_handing:
  fixes sm :: "'p space_map"
  assumes "dmu_ok dmu words" "8 dvd unat bufsize" "0 < unat bufsize" "maptype = SM_ALLOC \<or> maptype = SM_FREE"
    "sm_storable sm0" "sm_wf sm0"
  shows "handing (sm_root sm) cookie xs \<Longrightarrow> disjoint_segs sm0 xs \<Longrightarrow> bounds sm = bounds sm0 \<Longrightarrow> sync_ok bufsize st \<Longrightarrow>
    8 * (length (content words st) + card (offs xs)) < 2 ^ 64 \<Longrightarrow>
    \<exists>es st'. sync_loop dmu bufsize maptype sm cookie st =
        Some (sm\<lparr>sm_root := avl_create, sm_space := sm_space sm - sum_list (map seg_len xs)\<rparr>, st') \<and>
      content words st' = content words st @ es \<and> sync_ok bufsize st' \<and> same_obj words st st' \<and> length es \<le> card (offs xs) \<and>
      (\<forall>S S'. fold_opt (\<lambda>S s. apply_type maptype S (seg_offs s)) xs S = Some S' \<longrightarrow> fold_opt (disk_step sm0) es S = Some S')"
proof (induction xs arbitrary: sm cookie st)
  case Nil
  have "sync_loop dmu bufsize maptype sm cookie st = Some (sm\<lparr>sm_root := avl_create\<rparr>, st)"
    by (subst sync_loop.simps) (simp add: handing_last [OF Nil.prems(1)])
  then show ?case using Nil.prems(4) by (intro exI [of _ "[]"] exI [of _ st]) simp
next
  case (Cons s xs)
  have s: "seg_fits sm0 s" "ss_start s < ss_end s" "seg_offs s \<inter> offs xs = {}" "disjoint_segs sm0 xs"
    using Cons.prems(2) by (simp_all add: disjoint_segs_Cons)
  note su = seg_units [OF assms(6,5) s(1,2)]
  have bs: "sm_shift sm = sm_shift sm0" "sm_start sm = sm_start sm0" using Cons.prems(3) by (simp_all add: bounds_def)
  from handing_step [OF Cons.prems(1)] obtain root' cookie' where
    d: "avl_destroy_nodes (sm_root sm) cookie = (Some s, root', cookie')" "handing root' cookie' xs" by blast
  define sm1 where "sm1 = sm\<lparr>sm_root := root', sm_space := sm_space sm - seg_len s\<rparr>"
  define st1 where "st1 = sync_runs dmu bufsize maptype (drop_bit (unat (sm_shift sm0)) (ss_start s - sm_start sm0))
    (drop_bit (unat (sm_shift sm0)) (seg_len s)) st"
  have eq: "sync_loop dmu bufsize maptype sm cookie st = sync_loop dmu bufsize maptype sm1 cookie' st1"
    by (subst sync_loop.simps) (simp add: d(1) Let_def sm1_def st1_def bs seg_len_def)
  have c: "card (offs (s # xs)) = unat (seg_len s) + card (offs xs)"
    using card_Un_disjoint [of "seg_offs s" "offs xs"] s(3) su(4) by (simp add: seg_offs_def)
  have "8 * (length (content words st) + unat (drop_bit (unat (sm_shift sm0)) (seg_len s))) < 2 ^ 64"
    using Cons.prems(5) c su(3) by simp
  from sync_runs_ok [OF assms(1) Cons.prems(4) assms(2,3) this su(1) assms(4)] obtain es where
    es: "content words st1 = content words st @ es" "sync_ok bufsize st1" "same_obj words st st1"
    "length es \<le> unat (drop_bit (unat (sm_shift sm0)) (seg_len s))"
    "\<And>S S'. apply_type maptype S (seg_offs s) = Some S' \<Longrightarrow> fold_opt (disk_step sm0) es S = Some S'"
    unfolding st1_def [symmetric] su(2) by blast
  have t1: "handing (sm_root sm1) cookie' xs" "bounds sm1 = bounds sm0"
    using d(2) Cons.prems(3) by (simp_all add: sm1_def bounds_def)
  have le: "8 * (length (content words st1) + card (offs xs)) < 2 ^ 64" using Cons.prems(5) c su(3) es(1,4) by simp
  from Cons.IH [OF t1(1) s(4) t1(2) es(2) le] obtain es' st' where
    r: "sync_loop dmu bufsize maptype sm1 cookie' st1 =
        Some (sm1\<lparr>sm_root := avl_create, sm_space := sm_space sm1 - sum_list (map seg_len xs)\<rparr>, st')"
      "content words st' = content words st1 @ es'" "sync_ok bufsize st'" "same_obj words st1 st'" "length es' \<le> card (offs xs)"
      "\<And>S S'. fold_opt (\<lambda>S s. apply_type maptype S (seg_offs s)) xs S = Some S' \<Longrightarrow> fold_opt (disk_step sm0) es' S = Some S'"
    by blast
  have "fold_opt (disk_step sm0) (es @ es') S = Some S'"
    if "fold_opt (\<lambda>S s. apply_type maptype S (seg_offs s)) (s # xs) S = Some S'" for S S'
    using that es(5) r(6) by (auto simp: fold_opt_append bind_eq_Some_conv)
  moreover have "length (es @ es') \<le> card (offs (s # xs))" using c es(4) r(5) su(3) by simp
  moreover have "sync_loop dmu bufsize maptype sm cookie st =
      Some (sm\<lparr>sm_root := avl_create, sm_space := sm_space sm - sum_list (map seg_len (s # xs))\<rparr>, st')"
    using r(1) by (simp add: eq sm1_def diff_diff_eq)
  ultimately show ?case
    using r(2,3) es(1) same_obj_trans [OF es(3) r(4)] by (intro exI [of _ "es @ es'"] exI [of _ st']) simp
qed

lemma log_set_bounded:
  assumes "log_set sm es = Some S"
  shows "S \<subseteq> span (sm_start sm) (sm_size sm)"
proof -
  have "S0 \<subseteq> span (sm_start sm) (sm_size sm) \<Longrightarrow> fold_opt (disk_step sm) es S0 = Some S \<Longrightarrow> S \<subseteq> span (sm_start sm) (sm_size sm)" for S0
  proof (induction es arbitrary: S0)
    case (Cons e es)
    then obtain S1 where S1: "disk_step sm S0 e = Some S1" "fold_opt (disk_step sm) es S1 = Some S"
      by (auto simp: bind_eq_Some_conv)
    have "S1 \<subseteq> span (sm_start sm) (sm_size sm)"
      using S1(1) Cons.prems(1) by (auto simp: disk_step_def set_add_def set_remove_def in_range_def split: if_splits)
    then show ?case using Cons.IH S1(2) by blast
  qed simp
  from this [of "{}"] show ?thesis using assms by (simp add: log_set_def)
qed

lemma log_set_append:
  "log_set sm xs = Some S \<Longrightarrow> fold_opt (disk_step sm) ys S = Some S' \<Longrightarrow> log_set sm (xs @ ys) = Some S'"
  by (simp add: log_set_def fold_opt_append)

text \<open>The counter of the allocated space follows the log.\<close>

lemma apply_card:
  fixes al sp :: u64
  assumes "apply_type maptype S R = Some S'" "finite S" "finite R" "S' \<subseteq> span (sm_start sm) (sm_size sm)" "unat al = card S" "unat sp = card R"
  shows "unat (if maptype = SM_ALLOC then al + sp else al - sp) = card S'"
proof (cases "maptype = SM_ALLOC")
  case True
  then have s: "S \<inter> R = {}" "S' = S \<union> R" using assms(1) by (auto simp: apply_type_def set_add_def split: if_splits)
  have c: "card S' = unat al + unat sp" using card_Un_disjoint [OF assms(2,3) s(1)] s(2) assms(5,6) by simp
  have "card S' \<le> unat (sm_size sm)" using card_mono [OF _ assms(4)] by (simp add: span_def)
  then have "unat al + unat sp < 2 ^ 64" using c unsigned_less [of "sm_size sm", where 'a = nat] by simp
  then show ?thesis using True c by (simp add: unat_word_ariths)
next
  case False
  then have s: "R \<subseteq> S" "S' = S - R" using assms(1) by (auto simp: apply_type_def set_remove_def split: if_splits)
  then show ?thesis
    using False card_Diff_subset [OF assms(3) s(1)] card_mono [OF assms(2) s(1)] assms(5,6)
    by (simp add: unat_sub word_le_nat_alt)
qed

text \<open>The buffer has room for an entry and is made of whole words.\<close>

lemma sync_bufsize:
  assumes "unat (sm_size sm) + 9 < 2 ^ 61" "n \<le> unat (sm_size sm)"
  defines "bufsize \<equiv> min ((8 + of_nat n) * 8) (push_bit SPACE_MAP_BLOCKSHIFT 1) :: u64"
  shows "8 dvd unat bufsize" "64 \<le> unat bufsize"
proof -
  have "unat ((8 + of_nat n) * 8 :: u64) = (8 + n) * 8"
    using assms(1,2) by (simp add: unat_word_ariths unat_of_nat)
  then have "unat bufsize = min ((8 + n) * 8) 4096"
    unfolding bufsize_def min_def word_le_nat_alt block_words by (simp add: block_words)
  then show "8 dvd unat bufsize" "64 \<le> unat bufsize" by (simp_all add: min_def)
qed

lemma node_count:
  assumes "sm_wf sm"
  shows "avl_numnodes (sm_root sm) \<le> unat (sm_size sm)"
proof -
  have "length xs \<le> card (offs xs)" if "apart xs" for xs
    using that
  proof (induction xs)
    case (Cons s xs)
    have "seg_offs s \<inter> offs xs = {}" "0 < card (seg_offs s)"
      using Cons.prems by (fastforce simp: seg_offs_def offs_def word_less_nat_alt)+
    then have "card (offs (s # xs)) = card (seg_offs s) + card (offs xs)" "0 < card (seg_offs s)"
      using card_Un_disjoint [of "seg_offs s" "offs xs"] by (simp_all add: seg_offs_def)
    then show ?case using Cons by simp
  qed simp
  from this [of "segs sm"] show ?thesis
    using assms card_space_of(1) [OF assms] by (simp add: sm_wf_def tree_ok_def space_of_def)
qed

lemma sm_empty:
  assumes "sm_wf sm" "sm_space sm = 0"
  shows "sm\<lparr>sm_root := avl_create, sm_space := 0\<rparr> = sm" "space_of sm = {}"
proof -
  have "card (space_of sm) = 0" using card_space_of(2) [OF assms(1)] assms(2) by simp
  then show e: "space_of sm = {}" by (simp add: space_of_def)
  have "seg_offs s \<noteq> {}" if "s \<in> set (segs sm)" for s
    using assms(1) that by (auto simp: sm_wf_def apart_def list_all_iff seg_offs_def word_less_nat_alt)
  then have "segs sm = []" using e by (cases "segs sm") (auto simp: space_of_def offs_def)
  then have "sm_root sm = avl_create"
    using assms(1) by (cases "sm_root sm"; cases "avl_root (sm_root sm)") (auto simp: sm_wf_def tree_ok_def avl_create_def)
  then show "sm\<lparr>sm_root := avl_create, sm_space := 0\<rparr> = sm" using assms(2) by simp
qed

lemma sync_body_ok:
  fixes sm :: "'p space_map"
  assumes "dmu_ok dmu words" "sm_wf sm" "sm_storable sm" "maptype = SM_ALLOC \<or> maptype = SM_FREE"
    and "8 dvd unat bufsize" "0 < unat bufsize" "sync_ok bufsize st0" "log_set sm (content words st0) = Some S"
    and "apply_type maptype S (space_of sm) = Some S'" "8 * (length (content words st0) + card (space_of sm)) < 2 ^ 64"
  shows "\<exists>st. sync_loop dmu bufsize maptype sm Cookie_Null st0 = Some (sm\<lparr>sm_root := avl_create, sm_space := 0\<rparr>, st) \<and>
    log_set sm (content words st) = Some S' \<and> sync_ok bufsize st \<and> same_obj words st0 st \<and>
    length (content words st) \<le> length (content words st0) + card (space_of sm) \<and>
    (\<exists>es. content words st = content words st0 @ es)"
proof -
  let ?xs = "postorder (avl_root (sm_root sm))"
  have ds: "disjoint_segs sm ?xs" "offs ?xs = space_of sm"
    using map_segs_disjoint [OF assms(2), of sm ?xs] by (simp_all add: mset_postorder)
  have t: "tree_ok (sm_root sm)" using assms(2) by (simp add: sm_wf_def)
  have le: "8 * (length (content words st0) + card (offs ?xs)) < 2 ^ 64" using assms(10) by (simp add: ds(2))
  from sync_loop_handing [OF assms(1,5,6,4,3,2) handing_start [OF t] ds(1) refl assms(7) le]
  obtain es st where r: "sync_loop dmu bufsize maptype sm Cookie_Null st0 =
        Some (sm\<lparr>sm_root := avl_create, sm_space := sm_space sm - sum_list (map seg_len ?xs)\<rparr>, st)"
      "content words st = content words st0 @ es" "sync_ok bufsize st" "same_obj words st0 st" "length es \<le> card (offs ?xs)"
      "\<And>S S'. fold_opt (\<lambda>S s. apply_type maptype S (seg_offs s)) ?xs S = Some S' \<Longrightarrow> fold_opt (disk_step sm) es S = Some S'"
    by blast
  have z: "sm_space sm - sum_list (map seg_len ?xs) = 0"
    using sum_seg_len [OF ds(1)] card_space_of(2) [OF assms(2), symmetric] by (simp add: ds(2))
  have "fold_opt (disk_step sm) es S = Some S'" using r(6) apply_fold [OF ds(1)] assms(9) by (simp add: ds(2))
  then have "log_set sm (content words st) = Some S'" using log_set_append [OF assms(8)] by (simp add: r(2))
  then show ?thesis using r z by (intro exI [of _ st]) (simp add: ds(2))
qed

lemma sync_end_ok:
  assumes "dmu_ok dmu words" "sync_ok bufsize st" "8 * length (content words st) < 2 ^ 64"
  defines "st' \<equiv> if entry_map st \<noteq> [] then sync_flush dmu (of_nat (length (entry_map st)) * 8) st else st"
  shows "log words (sync_os st') (sync_smo st') = content words st" "same_obj words st st'"
    "unat (smo_objsize (sync_smo st')) = 8 * length (content words st)"
proof -
  let ?z = "of_nat (length (entry_map st)) * 8 :: u64"
  note cl = content_length [OF assms(2), of words]
  have z: "unat ?z = 8 * length (entry_map st)" using cl assms(3) by (simp add: unat_word_ariths unat_of_nat)
  have 8: "8 dvd unat (smo_objsize (sync_smo st))" using assms(2) by (simp add: sync_ok_def)
  have "unat (smo_objsize (sync_smo st)) + unat ?z < 2 ^ 64" using cl z assms(3) by simp
  note f = sync_flush_ok [OF assms(1) 8 z this]
  show "log words (sync_os st') (sync_smo st') = content words st" "same_obj words st st'"
    "unat (smo_objsize (sync_smo st')) = 8 * length (content words st)"
    using f z cl by (simp_all add: st'_def content_def)
qed

lemma space_map_sync_ok:
  fixes sm :: "'p space_map"
  assumes "dmu_ok dmu words" "sm_wf sm" "sm_storable sm" "maptype = SM_ALLOC \<or> maptype = SM_FREE"
    and "8 dvd unat (smo_objsize smo)" "unat (smo_objsize smo) + 8 * (unat (sm_size sm) + 9) < 2 ^ 64"
    and "log_set sm (log words os smo) = Some S" "unat (smo_alloc smo) = card S" "apply_type maptype S (space_of sm) = Some S'"
  shows "\<exists>smo' os'. space_map_sync dmu syncpass txg sm maptype smo os = Some (sm\<lparr>sm_root := avl_create, sm_space := 0\<rparr>, smo', os') \<and>
    log_set sm (log words os' smo') = Some S' \<and> unat (smo_alloc smo') = card S' \<and> smo_object smo' = smo_object smo \<and>
    8 dvd unat (smo_objsize smo') \<and> unat (smo_objsize smo') \<le> unat (smo_objsize smo) + 8 * (unat (sm_size sm) + 1) \<and>
    (\<forall>obj. obj \<noteq> smo_object smo \<longrightarrow> words os' obj = words os obj) \<and>
    (\<exists>es. log words os' smo' = log words os smo @ es)"
proof (cases "sm_space sm = 0")
  case True
  have "S' = S" using assms(9) sm_empty(2) [OF assms(2) True] by (auto simp: apply_type_def set_add_def set_remove_def split: if_splits)
  then show ?thesis
    using True assms sm_empty(1) [OF assms(2) True] by (intro exI [of _ smo] exI [of _ os]) (simp add: space_map_sync_def)
next
  case False
  define smo1 where "smo1 = smo\<lparr>smo_alloc := (if maptype = SM_ALLOC then smo_alloc smo + sm_space sm else smo_alloc smo - sm_space sm)\<rparr>"
  define bufsize where "bufsize = (min ((8 + of_nat (avl_numnodes (sm_root sm))) * 8) (push_bit SPACE_MAP_BLOCKSHIFT 1) :: u64)"
  define e where "e = SM_DEBUG_ENCODE 1 OR SM_DEBUG_ACTION_ENCODE (ucast maptype) OR SM_DEBUG_SYNCPASS_ENCODE syncpass OR SM_DEBUG_TXG_ENCODE txg"
  define st0 where "st0 = \<lparr>entry_map = [e], sync_smo = smo1, sync_os = os\<rparr>"
  have "unat (sm_size sm) + 9 < 2 ^ 61" using assms(6) by simp
  note buf = sync_bufsize [OF this node_count [OF assms(2)], folded bufsize_def]
  have l0: "log words os smo1 = log words os smo" "smo_objsize smo1 = smo_objsize smo" by (simp_all add: smo1_def log_def)
  have c0: "content words st0 = log words os smo @ [e]" "sync_ok bufsize st0"
    using assms(5) buf(2) by (simp_all add: content_def st0_def l0 sync_ok_def)
  have len: "8 * length (content words st0) = unat (smo_objsize smo) + 8" using assms(5) by (simp add: c0(1)) (simp add: log_def)
  have "disk_step sm S e = Some S" using debug_entry_decode by (simp add: disk_step_def e_def)
  then have ls0: "log_set sm (content words st0) = Some S" using log_set_append [OF assms(7), of "[e]"] by (simp add: c0(1))
  have le: "8 * (length (content words st0) + card (space_of sm)) < 2 ^ 64"
    using assms(6) card_space_of(1) [OF assms(2)] len by simp
  have pos: "0 < unat bufsize" using buf(2) by simp
  from sync_body_ok [OF assms(1-4) buf(1) pos c0(2) ls0 assms(9) le] obtain st where
    r: "sync_loop dmu bufsize maptype sm Cookie_Null st0 = Some (sm\<lparr>sm_root := avl_create, sm_space := 0\<rparr>, st)"
    "log_set sm (content words st) = Some S'" "sync_ok bufsize st" "same_obj words st0 st"
    "length (content words st) \<le> length (content words st0) + card (space_of sm)"
    "\<exists>es. content words st = content words st0 @ es" by blast
  define st' where "st' = (if entry_map st \<noteq> [] then sync_flush dmu (of_nat (length (entry_map st)) * 8) st else st)"
  have "8 * length (content words st) < 2 ^ 64" using r(5) le by simp
  note f = sync_end_ok [OF assms(1) r(3) this, folded st'_def]
  have so: "same_obj words st0 st'" by (rule same_obj_trans [OF r(4) f(2)])
  have "space_map_sync dmu syncpass txg sm maptype smo os = Some (sm\<lparr>sm_root := avl_create, sm_space := 0\<rparr>, sync_smo st', sync_os st')"
    using False r(1) unfolding space_map_sync_def Let_def smo1_def [symmetric] bufsize_def [symmetric] e_def [symmetric] st0_def [symmetric]
    by (simp add: st'_def)
  moreover have "unat (smo_alloc (sync_smo st')) = card S'"
    using so apply_card [OF assms(9) _ _ log_set_bounded [OF r(2)] assms(8) card_space_of(2) [OF assms(2)]]
      finite_subset [OF log_set_bounded [OF assms(7)]]
    by (simp add: same_obj_def st0_def smo1_def space_of_def span_def)
  moreover have "unat (smo_objsize (sync_smo st')) \<le> unat (smo_objsize smo) + 8 * (unat (sm_size sm) + 1)"
    using f(3) r(5) len card_space_of(1) [OF assms(2)] by simp
  moreover have "\<exists>es. log words (sync_os st') (sync_smo st') = log words os smo @ es"
    using r(6) by (auto simp: f(1) c0(1))
  ultimately show ?thesis
    using r(2) f so by (intro exI [of _ "sync_smo st'"] exI [of _ "sync_os st'"]) (simp add: same_obj_def st0_def smo1_def)
qed

section \<open>Properties\<close>

text \<open>
  C18. A space map survives the disk: writing a map of allocations or of frees to an object whose
  log describes the allocated set S (disjoint from the allocations, or holding the frees) empties
  the map and leaves a log that, loaded into a new map of the same range, gives S with the
  allocations added or the frees taken out, as a map of the allocated or of the free space.  The
  log only grows at its end, the other objects stay, and the load's VERIFY of the total passes.
  The map's offsets fit the entry format, and the object has room to grow below 2^64 bytes.
\<close>

theorem space_map_sync_load:
  fixes sm m :: "'p space_map"
  assumes "dmu_ok dmu words" "sm_wf sm" "sm_storable sm" "maptype = SM_ALLOC \<or> maptype = SM_FREE"
    and "8 dvd unat (smo_objsize smo)" "unat (smo_objsize smo) + 8 * (unat (sm_size sm) + 521) < 2 ^ 64"
    and "log_set sm (log words os smo) = Some S" "unat (smo_alloc smo) = card S" "apply_type maptype S (space_of sm) = Some S'"
    and "sm_wf m" "bounds m = bounds sm" "in_range m (sm_start m) (sm_size m)" "sm_space m = 0" "\<not> sm_loading m" "\<not> sm_loaded m"
    and "maptype' = SM_ALLOC \<or> maptype' = SM_FREE"
  shows "\<exists>smo' os' m'. space_map_sync dmu syncpass txg sm maptype smo os =
      Some (sm\<lparr>sm_root := avl_create, sm_space := 0\<rparr>, smo', os') \<and>
    space_map_load dmu os' m None maptype' smo' = Some m' \<and> sm_wf m' \<and> sm_loaded m' \<and>
    space_of m' = (if maptype' = SM_FREE then span (sm_start m) (sm_size m) - S' else S') \<and>
    (\<exists>es. log words os' smo' = log words os smo @ es) \<and>
    (\<forall>obj. obj \<noteq> smo_object smo \<longrightarrow> words os' obj = words os obj)"
proof -
  have "unat (smo_objsize smo) + 8 * (unat (sm_size sm) + 9) < 2 ^ 64" using assms(6) by simp
  from space_map_sync_ok [OF assms(1-5) this assms(7-9)] obtain smo' os' where
    y: "space_map_sync dmu syncpass txg sm maptype smo os = Some (sm\<lparr>sm_root := avl_create, sm_space := 0\<rparr>, smo', os')"
    "log_set sm (log words os' smo') = Some S'" "unat (smo_alloc smo') = card S'" "8 dvd unat (smo_objsize smo')"
    "unat (smo_objsize smo') \<le> unat (smo_objsize smo) + 8 * (unat (sm_size sm) + 1)"
    "\<forall>obj. obj \<noteq> smo_object smo \<longrightarrow> words os' obj = words os obj"
    "\<exists>es. log words os' smo' = log words os smo @ es" by blast
  have le: "unat (smo_objsize smo') + 4096 < 2 ^ 64" using y(5) assms(6) by simp
  have "log_set m (log words os' smo') = Some S'"
    using y(2) disk_step_cong [OF assms(11)] by (simp add: log_set_def)
  from space_map_load_ok [OF assms(1) y(4) le assms(10,12-16) this y(3), of None] obtain m' where
    "space_map_load dmu os' m None maptype' smo' = Some m'" "sm_wf m'" "sm_loaded m'" "space_of m' = view maptype' m S'"
    by auto
  then show ?thesis using y by (intro exI [of _ smo'] exI [of _ os'] exI [of _ m']) (simp add: view_def)
qed

text \<open>An object set in memory, for the example.\<close>

definition mem_dmu :: "(u64 \<Rightarrow> nat \<Rightarrow> u64) dmu" where
  "mem_dmu =
     \<lparr>dmu_read = (\<lambda>os obj offset sz. Some (map (os obj) [unat offset div 8..<(unat offset + unat sz) div 8])),
      dmu_write = (\<lambda>os obj offset sz ws. os(obj := \<lambda>i.
        if unat offset div 8 \<le> i \<and> i < (unat offset + unat sz) div 8 then ws ! (i - unat offset div 8) else os obj i)),
      dmu_free_range = (\<lambda>os obj offset sz. Some (os(obj := \<lambda>i. 0)))\<rparr>"

lemma mem_dmu_ok: "dmu_ok mem_dmu (\<lambda>os. os)"
  by (simp add: dmu_ok_def mem_dmu_def)

theorem space_map_sync_load_witness:
  "\<exists>sm smo' os' m'. space_map_add (space_map_create 0 4096 9 :: unit space_map) 512 1024 = Some sm \<and>
    space_map_sync mem_dmu 1 7 sm SM_ALLOC \<lparr>smo_object = 3, smo_objsize = 0, smo_alloc = 0\<rparr> (\<lambda>obj i. 0) =
      Some (sm\<lparr>sm_root := avl_create, sm_space := 0\<rparr>, smo', os') \<and>
    space_map_load mem_dmu os' (space_map_create 0 4096 9 :: unit space_map) None SM_FREE smo' = Some m' \<and>
    space_of m' = {0..<4096} - {512..<1536}"
proof -
  let ?c = "space_map_create 0 4096 9 :: unit space_map"
  have c: "sm_wf ?c" "space_of ?c = {}" using create_wf [of 0 4096 9] by simp_all
  have r: "in_range ?c 512 1024" "in_range ?c 0 4096" by (simp_all add: in_range_def space_map_create_def span_def unit_of_def)
  have f: "sm_start ?c = 0" "sm_size ?c = 4096" "sm_space ?c = 0" "\<not> sm_loading ?c" "\<not> sm_loaded ?c"
    by (simp_all add: space_map_create_def)
  from add_step [OF c(1) r(1)] c(2) obtain sm where
    s: "space_map_add ?c 512 1024 = Some sm" "sm_wf sm" "resized ?c sm" "space_of sm = span 512 1024" by auto
  have b: "bounds sm = bounds ?c" by (rule resized_bounds [OF s(3)])
  then have "sm_storable sm" "sm_size sm = 4096"
    by (simp_all add: sm_storable_def bounds_def unit_of_def space_map_create_def)
  then show ?thesis
    using space_map_sync_load [OF mem_dmu_ok s(2), of SM_ALLOC "\<lparr>smo_object = 3, smo_objsize = 0, smo_alloc = 0\<rparr>" "\<lambda>obj i. 0" "{}" "span 512 1024" ?c SM_FREE 1 7]
      s c(1) b r(2) f by (auto simp: log_def log_set_def apply_type_def set_add_def span_def)
qed

text \<open>
  C35. The entry format: with an offset below 2^47 units and a run of 1 to SM_RUN_MAX units an entry
  has the run less one in its 15 low bits, the type in bit 15, the offset from bit 16 and the debug
  bit clear, and each field decodes to what was encoded.
\<close>

theorem space_map_entry_format:
  assumes "unat start < 2 ^ 47" "maptype = SM_ALLOC \<or> maptype = SM_FREE" "0 < run_len" "run_len \<le> SM_RUN_MAX"
    and "e = SM_OFFSET_ENCODE start OR SM_TYPE_ENCODE (ucast maptype) OR SM_RUN_ENCODE run_len"
  shows "unat e = unat start * 2 ^ 16 + unat maptype * 2 ^ 15 + (unat run_len - 1) \<and> SM_DEBUG_DECODE e = 0 \<and>
    SM_TYPE_DECODE e = ucast maptype \<and> SM_OFFSET_DECODE e = start \<and> SM_RUN_DECODE e = run_len"
  using unat_sm_entry [OF assms(1-4)] sm_entry_decode [OF assms(1-4)] assms(5) unfolding sm_entry_def by simp

theorem space_map_entry_format_witness:
  "SM_OFFSET_DECODE (SM_OFFSET_ENCODE 5 OR SM_TYPE_ENCODE (ucast SM_FREE) OR SM_RUN_ENCODE 12) = 5"
  using space_map_entry_format [of 5 SM_FREE 12] by (simp add: SM_RUN_MAX_eq)

end
