(* ===== verification/Space_Map_Ops.thy ===== *)
theory Space_Map_Ops
  imports Space_Map_Sync
begin

text \<open>
  The interface between a space map and its operations vector, the block picker.

  The operations that go through the vector (\<^verbatim>\<open>space_map_alloc\<close>, \<^verbatim>\<open>space_map_claim\<close>,
  \<^verbatim>\<open>space_map_free\<close>, \<^verbatim>\<open>space_map_load\<close>, \<^verbatim>\<open>space_map_unload\<close>) are shown to act on the set of offsets as
  they should for every vector that keeps the laws of the locale.
\<close>

section \<open>The interface of a block picker\<close>

text \<open>
  The laws: the operations change only the private data, and a picked block is free, inside the map
  and a multiple of its unit.  \<open>ready\<close> are the states of the private data between the load and the
  unload, \<open>request\<close> the sizes that may be asked of a map.
\<close>

locale space_map_picker =
  fixes ops :: "'p space_map_ops" and ready :: "'p option \<Rightarrow> bool" and request :: "'p space_map_core \<Rightarrow> u64 \<Rightarrow> bool"
  assumes load_law: "\<exists>x. smop_load ops core = core\<lparr>sm_ppd := x\<rparr> \<and> ready x"
    and unload_law: "\<exists>x. smop_unload ops core = core\<lparr>sm_ppd := x\<rparr>"
    and claim_law: "ready (sm_ppd core) \<Longrightarrow> \<exists>x. smop_claim ops core start sz = core\<lparr>sm_ppd := x\<rparr> \<and> ready x"
    and free_law: "ready (sm_ppd core) \<Longrightarrow> \<exists>x. smop_free ops core start sz = core\<lparr>sm_ppd := x\<rparr> \<and> ready x"
    and alloc_law: "sm_wf core \<Longrightarrow> ready (sm_ppd core) \<Longrightarrow> request core sz \<Longrightarrow>
      \<exists>start x. smop_alloc ops core sz = Some (start, core\<lparr>sm_ppd := x\<rparr>) \<and> ready x \<and>
        (start = -1 \<or> in_range core start sz \<and> span start sz \<subseteq> space_of core)"

text \<open>The fields that are not the segments, their total and the private data.\<close>

definition kept :: "'p space_map \<Rightarrow> 'p space_map \<Rightarrow> bool" where
  "kept sm sm' \<longleftrightarrow> bounds sm' = bounds sm \<and> sm_loaded sm' = sm_loaded sm \<and> sm_loading sm' = sm_loading sm \<and>
     sm_ops sm' = sm_ops sm"

lemma kept_refl [simp]: "kept sm sm"
  by (simp add: kept_def)

lemma kept_trans: "kept sm sm' \<Longrightarrow> kept sm' sm'' \<Longrightarrow> kept sm sm''"
  by (simp add: kept_def)

lemma kept_resized: "resized sm sm' \<Longrightarrow> kept sm sm' \<and> sm_ppd sm' = sm_ppd sm"
  by (auto simp: resized_def kept_def bounds_def)

lemma kept_ppd [simp]: "kept sm (sm\<lparr>sm_ppd := x\<rparr>)"
  by (simp add: kept_def bounds_def)

lemma truncate_fields [simp]:
  "sm_ppd (space_map_core.truncate sm) = sm_ppd sm" "bounds (space_map_core.truncate sm) = bounds sm"
  by (simp_all add: space_map_core.defs bounds_def)

lemma truncate_wf [simp]:
  "sm_wf (space_map_core.truncate sm) = sm_wf sm" "space_of (space_map_core.truncate sm) = space_of sm"
  "in_range (space_map_core.truncate sm) = in_range sm"
proof -
  have b: "bounds (space_map_core.truncate sm) = bounds sm" by simp
  have r: "sm_root (space_map_core.truncate sm) = sm_root sm" "sm_space (space_map_core.truncate sm) = sm_space sm"
    by (simp_all add: space_map_core.defs)
  show s: "space_of (space_map_core.truncate sm) = space_of sm" by (simp add: space_of_def r)
  show "in_range (space_map_core.truncate sm) = in_range sm" by (rule in_range_cong) (rule b)
  show "sm_wf (space_map_core.truncate sm) = sm_wf sm"
    using b fits_cong [OF b] s by (simp add: sm_wf_def r bounds_def)
qed

lemma extend_ppd: "space_map_core.extend ((space_map_core.truncate sm)\<lparr>sm_ppd := x\<rparr>) \<lparr>sm_ops = sm_ops sm\<rparr> = sm\<lparr>sm_ppd := x\<rparr>"
  by (cases sm) (simp add: space_map_core.defs)

lemma ppd_wf [simp]:
  "sm_wf (sm\<lparr>sm_ppd := x\<rparr>) = sm_wf sm" "space_of (sm\<lparr>sm_ppd := x\<rparr>) = space_of sm" "in_range (sm\<lparr>sm_ppd := x\<rparr>) = in_range sm"
  using sm_wf_cong [of "sm\<lparr>sm_ppd := x\<rparr>" sm] in_range_cong [of "sm\<lparr>sm_ppd := x\<rparr>" sm] by (simp_all add: bounds_def)

context space_map_picker
begin

text \<open>A map with this vector whose private data is ready.\<close>

definition active :: "'p space_map \<Rightarrow> bool" where
  "active sm \<longleftrightarrow> sm_wf sm \<and> sm_ops sm = Some ops \<and> ready (sm_ppd sm)"

lemma active_resized: "active sm \<Longrightarrow> sm_wf sm' \<Longrightarrow> resized sm sm' \<Longrightarrow> active sm'"
  using kept_resized [of sm sm'] by (auto simp: active_def kept_def)

lemma map_alloc:
  assumes "active sm" "request (space_map_core.truncate sm) sz"
  shows "\<exists>start sm'. space_map_alloc sm sz = Some (start, sm') \<and> active sm' \<and> kept sm sm' \<and>
    (if start = -1 then space_of sm' = space_of sm
     else in_range sm start sz \<and> span start sz \<subseteq> space_of sm \<and> space_of sm' = space_of sm - span start sz)"
proof -
  have a: "sm_wf sm" "sm_ops sm = Some ops" "ready (sm_ppd sm)" using assms(1) by (simp_all add: active_def)
  obtain start x where r: "smop_alloc ops (space_map_core.truncate sm) sz = Some (start, (space_map_core.truncate sm)\<lparr>sm_ppd := x\<rparr>)"
    "ready x" "start = -1 \<or> in_range sm start sz \<and> span start sz \<subseteq> space_of sm"
    using alloc_law [of "space_map_core.truncate sm" sz] a assms(2) by auto
  let ?sm = "sm\<lparr>sm_ppd := x\<rparr>"
  have al: "space_map_alloc sm sz =
      (if start \<noteq> -1 then map_option (Pair start) (space_map_remove ?sm start sz) else Some (start, ?sm))"
    using r(1) extend_ppd [of x sm] by (simp add: space_map_alloc_def a(2))
  have ac: "active ?sm" using a r(2) by (simp add: active_def)
  show ?thesis
  proof (cases "start = -1")
    case True
    then show ?thesis using al ac by auto
  next
    case False
    then obtain sm' where m: "space_map_remove ?sm start sz = Some sm'" "sm_wf sm'" "resized ?sm sm'" "space_of sm' = space_of sm - span start sz"
      using remove_step [of ?sm start sz] r(3) a(1) by auto
    have "kept sm sm'" using kept_trans [OF kept_ppd conjunct1 [OF kept_resized [OF m(3)]]] .
    then show ?thesis using al False m active_resized [OF ac m(2,3)] r(3) by auto
  qed
qed

lemma map_claim:
  assumes "active sm" "in_range sm start sz" "span start sz \<subseteq> space_of sm"
  shows "\<exists>sm'. space_map_claim sm start sz = Some sm' \<and> active sm' \<and> kept sm sm' \<and> space_of sm' = space_of sm - span start sz"
proof -
  have a: "sm_wf sm" "sm_ops sm = Some ops" "ready (sm_ppd sm)" using assms(1) by (simp_all add: active_def)
  obtain x where x: "smop_claim ops (space_map_core.truncate sm) start sz = (space_map_core.truncate sm)\<lparr>sm_ppd := x\<rparr>" "ready x"
    using claim_law [of "space_map_core.truncate sm" start sz] a(3) by auto
  let ?sm = "sm\<lparr>sm_ppd := x\<rparr>"
  have ac: "active ?sm" using a x(2) by (simp add: active_def)
  obtain sm' where m: "space_map_remove ?sm start sz = Some sm'" "sm_wf sm'" "resized ?sm sm'" "space_of sm' = space_of sm - span start sz"
    using remove_step [of ?sm start sz] assms a(1) by auto
  have "space_map_claim sm start sz = Some sm'"
    using m(1) x(1) extend_ppd [of x sm] by (simp add: space_map_claim_def a(2) on_core_def)
  then show ?thesis
    using active_resized [OF ac m(2,3)] kept_trans [OF kept_ppd conjunct1 [OF kept_resized [OF m(3)]]] m(4) by blast
qed

lemma map_free:
  assumes "active sm" "in_range sm start sz" "space_of sm \<inter> span start sz = {}"
  shows "\<exists>sm'. space_map_free sm start sz = Some sm' \<and> active sm' \<and> kept sm sm' \<and> space_of sm' = space_of sm \<union> span start sz"
proof -
  have a: "sm_wf sm" using assms(1) by (simp add: active_def)
  obtain sm1 where m: "space_map_add sm start sz = Some sm1" "sm_wf sm1" "resized sm sm1" "space_of sm1 = space_of sm \<union> span start sz"
    using add_step [OF a assms(2,3)] by blast
  have ac: "active sm1" by (rule active_resized [OF assms(1) m(2,3)])
  then have a1: "sm_ops sm1 = Some ops" "ready (sm_ppd sm1)" by (simp_all add: active_def)
  obtain x where x: "smop_free ops (space_map_core.truncate sm1) start sz = (space_map_core.truncate sm1)\<lparr>sm_ppd := x\<rparr>" "ready x"
    using free_law [of "space_map_core.truncate sm1" start sz] a1 by auto
  have "space_map_free sm start sz = Some (sm1\<lparr>sm_ppd := x\<rparr>)"
    using m(1) x(1) extend_ppd [of x sm1] by (simp add: space_map_free_def a1(1) on_core_def)
  moreover have "kept sm (sm1\<lparr>sm_ppd := x\<rparr>)" using kept_trans [OF conjunct1 [OF kept_resized [OF m(3)]] kept_ppd] .
  ultimately show ?thesis using ac x(2) m(2,4) by (auto simp: active_def)
qed

lemma map_unload:
  assumes "sm_wf sm" "sm_ops sm = None \<or> sm_ops sm = Some ops"
  shows "\<exists>sm'. space_map_unload sm = Some sm' \<and> sm_wf sm' \<and> bounds sm' = bounds sm \<and> \<not> sm_loaded sm' \<and>
    sm_loading sm' = sm_loading sm \<and> sm_ops sm' = None \<and> sm_space sm' = 0 \<and> space_of sm' = {}"
proof -
  obtain x where x: "smop_unload ops (space_map_core.truncate sm) = (space_map_core.truncate sm)\<lparr>sm_ppd := x\<rparr>" using unload_law by blast
  define y where "y = (if sm_ops sm \<noteq> None \<and> sm_loaded sm then x else sm_ppd sm)"
  let ?sm = "sm\<lparr>sm_ppd := y, sm_loaded := False, sm_ops := None\<rparr>"
  have w: "sm_wf ?sm" using assms(1) sm_wf_cong [of ?sm sm] by (simp add: bounds_def)
  have "space_map_unload sm = map_option fst (space_map_vacate ?sm None ())"
    using assms(2) x extend_ppd [of x sm] by (auto simp: space_map_unload_def Let_def on_core_def y_def)
  then show ?thesis
    using vacate_none [OF w, of "()"] sm_wf_empty [OF w] by (simp add: bounds_def)
qed

lemma load_ready:
  assumes "space_map_load dmu os sm (Some ops) maptype smo = Some sm'" "\<not> sm_loaded sm"
  shows "ready (sm_ppd sm')"
proof -
  obtain sm1 where "sm' = on_core (smop_load ops) sm1"
    using assms by (auto simp: space_map_load_def space_map_load_wait_def Let_def bind_eq_Some_conv split: if_splits)
  moreover obtain x where "smop_load ops (space_map_core.truncate sm1) = (space_map_core.truncate sm1)\<lparr>sm_ppd := x\<rparr>" "ready x"
    using load_law by blast
  ultimately show ?thesis using extend_ppd [of x sm1] by (simp add: on_core_def)
qed

lemma map_load:
  assumes "dmu_ok dmu words" "8 dvd unat (smo_objsize smo)" "unat (smo_objsize smo) + 4096 < 2 ^ 64"
    and "sm_wf sm" "in_range sm (sm_start sm) (sm_size sm)" "sm_space sm = 0" "\<not> sm_loading sm" "\<not> sm_loaded sm"
    and "log_set sm (log words os smo) = Some S" "unat (smo_alloc smo) = card S"
  shows "\<exists>sm'. space_map_load dmu os sm (Some ops) SM_FREE smo = Some sm' \<and> active sm' \<and> bounds sm' = bounds sm \<and>
    sm_loaded sm' \<and> \<not> sm_loading sm' \<and> S \<subseteq> span (sm_start sm) (sm_size sm) \<and> space_of sm' = span (sm_start sm) (sm_size sm) - S"
proof -
  have l: "\<And>o' core. Some ops = Some o' \<Longrightarrow> \<exists>x. smop_load o' core = core\<lparr>sm_ppd := x\<rparr>" using load_law by blast
  from space_map_load_ok [OF assms(1-8) _ assms(9,10) l] obtain sm' where
    m: "space_map_load dmu os sm (Some ops) SM_FREE smo = Some sm'" "sm_wf sm'" "bounds sm' = bounds sm" "sm_loaded sm'"
    "\<not> sm_loading sm'" "sm_ops sm' = Some ops" "S \<subseteq> span (sm_start sm) (sm_size sm)" "space_of sm' = view SM_FREE sm S" by blast
  then show ?thesis using load_ready [OF m(1) assms(8)] by (auto simp: active_def view_def)
qed

text \<open>Vacating a map into one with this vector.\<close>

lemma fold_free:
  assumes "active sm" "disjoint_segs sm xs" "space_of sm \<inter> offs xs = {}"
  shows "\<exists>sm'. fold_opt (seg_call space_map_free) xs sm = Some sm' \<and> active sm' \<and> kept sm sm' \<and> space_of sm' = space_of sm \<union> offs xs"
  using assms
proof (induction xs arbitrary: sm)
  case (Cons s xs)
  have w: "sm_wf sm" using Cons.prems(1) by (simp add: active_def)
  have s: "seg_fits sm s" "ss_start s < ss_end s" "seg_offs s \<inter> offs xs = {}" "disjoint_segs sm xs"
    using Cons.prems(2) by (simp_all add: disjoint_segs_Cons)
  note r = seg_range [OF w s(1,2)]
  obtain sm1 where m: "space_map_free sm (ss_start s) (ss_end s - ss_start s) = Some sm1" "active sm1" "kept sm sm1"
    "space_of sm1 = space_of sm \<union> seg_offs s"
    using map_free [OF Cons.prems(1) r(1)] Cons.prems(3) r(2) by (auto simp: Int_Un_distrib)
  have "space_of sm1 \<inter> offs xs = {}" using m(4) s(3) Cons.prems(3) by auto
  moreover have "disjoint_segs sm1 xs"
    using s(4) fits_cong [of sm1 sm] m(3) by (simp add: disjoint_segs_def kept_def)
  ultimately obtain sm2 where
    n: "fold_opt (seg_call space_map_free) xs sm1 = Some sm2" "active sm2" "kept sm1 sm2" "space_of sm2 = space_of sm1 \<union> offs xs"
    using Cons.IH [OF m(2)] by blast
  show ?case
    using n m kept_trans [OF m(3) n(3)] by (intro exI [of _ sm2]) (simp add: seg_call_def [of _ sm s] Un_assoc)
qed simp

lemma vacate_free:
  assumes "sm_wf sm" "active md" "bounds md = bounds sm" "space_of md \<inter> space_of sm = {}"
  shows "\<exists>md'. space_map_vacate sm (Some space_map_free) md = Some (sm\<lparr>sm_root := avl_create, sm_space := 0\<rparr>, md') \<and>
    active md' \<and> kept md md' \<and> space_of md' = space_of md \<union> space_of sm"
proof -
  let ?xs = "postorder (avl_root (sm_root sm))"
  have c: "call_opt (Some space_map_free) = seg_call space_map_free" by (simp add: call_opt_def fun_eq_iff)
  have d: "disjoint_segs md ?xs" "offs ?xs = space_of sm"
    using map_segs_disjoint [OF assms(1,3), of ?xs] by (simp_all add: mset_postorder)
  have "tree_ok (sm_root sm)" using assms(1) by (simp add: sm_wf_def)
  then show ?thesis
    using fold_free [OF assms(2) d(1)] assms(4) d(2) by (auto simp: space_map_vacate_def vacate_fold c)
qed

end

end
