(* ===== verification/Metaslab_Ff.thy ===== *)
theory Metaslab_Ff
  imports Space_Map_Ops
begin

text \<open>
  The first-fit block allocator of the metaslabs (\<^verbatim>\<open>metaslab_ff_*\<close> of
  \<^verbatim>\<open>uts/common/fs/zfs/metaslab.c\<close>, \<^verbatim>\<open>P2ROUNDUP\<close> of \<^verbatim>\<open>sys/sysmacros.h\<close> and \<^verbatim>\<open>highbit\<close> of
  \<^verbatim>\<open>uts/ppc/os/ppc_subr.c\<close>).

  Its private data is the array of 64 cursors, one for each alignment.  The vector
  \<open>metaslab_ff_ops\<close> is shown to keep the laws of the block-picker interface, so that the space map
  operations that go through it act on the set of free offsets as they should.
\<close>

unbundle bit_operations_syntax

section \<open>Definitions\<close>

definition P2ROUNDUP :: "u64 \<Rightarrow> u64 \<Rightarrow> u64" where
  "P2ROUNDUP x align = - (- x AND - align)"

text \<open>\<open>cntlzw\<close> is the PowerPC instruction that counts leading zeros.\<close>

definition cntlzw :: "u32 \<Rightarrow> nat" where
  "cntlzw i = length (takeWhile (\<lambda>n. \<not> bit i n) (rev [0..<32]))"

definition highbit :: "u32 \<Rightarrow> nat" where
  "highbit i = 32 - cntlzw i"

definition metaslab_ff_load :: "u64 list space_map_core \<Rightarrow> u64 list space_map_core" where
  "metaslab_ff_load sm = sm\<lparr>sm_ppd := Some (replicate 64 0)\<rparr>"

definition metaslab_ff_unload :: "u64 list space_map_core \<Rightarrow> u64 list space_map_core" where
  "metaslab_ff_unload sm = sm\<lparr>sm_ppd := None\<rparr>"

text \<open>The loop over the segments; its value is the offset found, if any.\<close>

partial_function (option) ff_search :: "u64 \<Rightarrow> u64 \<Rightarrow> space_seg place option \<Rightarrow> u64 option option" where
  "ff_search align sz ss =
     (case ss of
        None \<Rightarrow> Some None
      | Some p \<Rightarrow>
          let offset = P2ROUNDUP (ss_start (dat (snd p))) align
          in if offset + sz \<le> ss_end (dat (snd p)) then Some (Some offset)
             else ff_search align sz (avl_walk p 1))"

declare ff_search.simps [code]

text \<open>A cursor outside the array of 64 is a fault.\<close>

partial_function (option) metaslab_ff_alloc ::
  "u64 list space_map_core \<Rightarrow> u64 \<Rightarrow> (u64 \<times> u64 list space_map_core) option" where
  "metaslab_ff_alloc sm sz =
     Option.bind (sm_ppd sm) (\<lambda>cursors.
       let align = sz AND - sz;
           i = highbit (ucast align)
       in if i = 0 \<or> length cursors < i then None
          else let cursor = cursors ! (i - 1);
                   ss = (case avl_find space_map_seg_compare (sm_root sm) \<lparr>ss_start = cursor, ss_end = cursor + sz\<rparr> of
                           Inl p \<Rightarrow> Some p
                         | Inr where \<Rightarrow> avl_nearest where 1)
               in Option.bind (ff_search align sz ss) (\<lambda>found.
                    case found of
                      Some offset \<Rightarrow> Some (offset, sm\<lparr>sm_ppd := Some (cursors[i - 1 := offset + sz])\<rparr>)
                    | None \<Rightarrow>
                        if cursor = 0 then Some (-1, sm)
                        else metaslab_ff_alloc (sm\<lparr>sm_ppd := Some (cursors[i - 1 := 0])\<rparr>) sz))"

declare metaslab_ff_alloc.simps [code]

definition metaslab_ff_claim :: "u64 list space_map_core \<Rightarrow> u64 \<Rightarrow> u64 \<Rightarrow> u64 list space_map_core" where
  "metaslab_ff_claim sm start sz = sm"

definition metaslab_ff_free :: "u64 list space_map_core \<Rightarrow> u64 \<Rightarrow> u64 \<Rightarrow> u64 list space_map_core" where
  "metaslab_ff_free sm start sz = sm"

definition metaslab_ff_ops :: "u64 list space_map_ops" where
  "metaslab_ff_ops =
     \<lparr>smop_load = metaslab_ff_load, smop_unload = metaslab_ff_unload, smop_alloc = metaslab_ff_alloc,
      smop_claim = metaslab_ff_claim, smop_free = metaslab_ff_free\<rparr>"

section \<open>Alignment\<close>

lemma odd_lowbit:
  fixes w :: "'a::len word"
  assumes "odd w"
  shows "w AND - w = 1"
proof (rule bit_word_eqI)
  fix n assume n: "n < LENGTH('a)"
  have m: "- w = NOT (w - 1)" by (rule minus_eq_not_minus_1)
  have e: "even (w - 1)" using assms by simp
  have "bit w n \<longleftrightarrow> bit (w - 1) n \<or> n = 0" using odd_bit_iff_bit_pred [OF assms, of n] by simp
  moreover have "\<not> bit (w - 1) 0" using e by (simp add: bit_0)
  ultimately show "bit (w AND - w) n = bit 1 n"
    unfolding m using n by (cases "n = 0") (auto simp: bit_simps)
qed

lemma nat_odd_part:
  fixes n :: nat
  assumes "0 < n"
  shows "\<exists>k m. n = 2 ^ k * m \<and> odd m"
  using assms
proof (induction n rule: less_induct)
  case (less n)
  show ?case
  proof (cases "even n")
    case True
    then obtain n' where n': "n = 2 * n'" by blast
    then obtain k m where "n' = 2 ^ k * m \<and> odd m" using less.IH [of n'] less.prems by auto
    then show ?thesis using n' by (metis mult.assoc power_Suc)
  qed (intro exI [of _ 0] exI [of _ n], simp)
qed

lemma lowbit:
  assumes "sz \<noteq> (0 :: u64)"
  obtains k where "k < 64" "sz AND - sz = 2 ^ k" "2 ^ k dvd unat sz" "\<And>j. 2 ^ j dvd unat sz \<Longrightarrow> j \<le> k"
proof -
  obtain k m where km: "unat sz = 2 ^ k * m" "odd m" using nat_odd_part [of "unat sz"] assms by (auto simp: unat_gt_0)
  have m1: "1 \<le> m" using km(2) by (cases m) simp_all
  have lt: "unat sz < 2 ^ 64" using unsigned_less [of sz, where 'a = nat] by simp
  have k: "k < 64"
  proof (rule ccontr)
    assume "\<not> k < 64"
    then have "(2 :: nat) ^ 64 \<le> 2 ^ k" by (intro power_increasing) simp_all
    then have "2 ^ 64 \<le> unat sz" using km(1) m1 by (metis le_trans mult.right_neutral mult_le_mono2)
    then show False using lt by simp
  qed
  have w: "sz = push_bit k (of_nat m)"
    by (simp only: word_eq_unat [OF km(1)]) (simp add: push_bit_eq_mult mult.commute)
  have o: "odd (of_nat m :: u64)" using km(2) by simp
  have "- sz = push_bit k (- of_nat m)" by (simp add: w push_bit_eq_mult)
  then have "sz AND - sz = push_bit k (of_nat m AND - of_nat m)"
    by (subst (1) w) (simp only: push_bit_and)
  then have a: "sz AND - sz = 2 ^ k" using odd_lowbit [OF o] by simp
  have j: "j \<le> k" if "2 ^ j dvd unat sz" for j
  proof (rule ccontr)
    assume "\<not> j \<le> k"
    then have "(2 :: nat) ^ Suc k dvd 2 ^ j" by (intro le_imp_power_dvd) simp
    then have "2 ^ k * 2 dvd 2 ^ k * m" using that km(1) by (metis dvd_trans power_Suc2)
    then show False using km(2) by simp
  qed
  show thesis using that [OF k a _ j] km(1) by simp
qed

lemma roundup:
  assumes "k < 64" "unat x + 2 ^ k \<le> 2 ^ 64"
  shows "2 ^ k dvd unat (P2ROUNDUP x (2 ^ k))" "unat x \<le> unat (P2ROUNDUP x (2 ^ k))"
    "unat (P2ROUNDUP x (2 ^ k)) < unat x + 2 ^ k"
proof -
  define r where "r = - x AND mask k"
  have n: "- (2 ^ k :: u64) = NOT (mask k)" by (simp add: minus_exp_eq_not_mask)
  have "(- x AND NOT (mask k)) + r = - x"
    unfolding r_def by (subst disjunctive_add, auto simp: bit_simps intro!: bit_word_eqI)
  then have "- x AND NOT (mask k) = - x - r" by (simp only: eq_diff_eq)
  then have p: "P2ROUNDUP x (2 ^ k) = x + r" by (simp add: P2ROUNDUP_def n)
  have r: "unat r = unat (- x) mod 2 ^ k" unfolding r_def by (rule unat_and_mask)
  have lt: "unat r < 2 ^ k" by (simp add: r)
  have u: "unat (x + r) = unat x + unat r" using lt assms(2) by (simp add: unat_word_ariths)
  have "(unat x + unat (- x)) mod 2 ^ 64 = unat (x + - x)" by (simp only: unat_word_ariths) simp
  then have "2 ^ 64 dvd unat x + unat (- x)" by (simp add: dvd_eq_mod_eq_0)
  then have "2 ^ k dvd unat x + unat (- x)"
    using le_imp_power_dvd [of k 64 "2 :: nat"] assms(1) dvd_trans by simp
  then have "2 ^ k dvd unat x + unat r" by (simp add: r dvd_eq_mod_eq_0 mod_add_right_eq)
  then show "2 ^ k dvd unat (P2ROUNDUP x (2 ^ k))" "unat x \<le> unat (P2ROUNDUP x (2 ^ k))"
    "unat (P2ROUNDUP x (2 ^ k)) < unat x + 2 ^ k" using lt by (simp_all add: p u)
qed

lemma roundup_least:
  assumes "k < 64" "unat x + 2 ^ k \<le> 2 ^ 64" "2 ^ k dvd n" "unat x \<le> n"
  shows "unat (P2ROUNDUP x (2 ^ k)) \<le> n"
proof (rule ccontr)
  assume a: "\<not> unat (P2ROUNDUP x (2 ^ k)) \<le> n"
  then have "2 ^ k dvd unat (P2ROUNDUP x (2 ^ k)) - n" using roundup(1) [OF assms(1,2)] assms(3) by (simp add: dvd_diff_nat)
  then have "2 ^ k \<le> unat (P2ROUNDUP x (2 ^ k)) - n" using a by (intro dvd_imp_le) simp_all
  then show False using roundup(3) [OF assms(1,2)] assms(4) a by linarith
qed

lemma unat_exp:
  assumes "k < 64"
  shows "unat (2 ^ k :: u64) = 2 ^ k"
proof -
  have "(2 :: nat) ^ k < 2 ^ 64" using assms by (intro power_strict_increasing) simp_all
  then have "unat (of_nat (2 ^ k) :: u64) = 2 ^ k" by (simp add: unsigned_of_nat take_bit_eq_mod del: of_nat_power)
  then show ?thesis by simp
qed

lemma highbit_exp:
  assumes "k < 32"
  shows "highbit (2 ^ k) = Suc k"
proof -
  have "rev [0..<32] = rev [Suc k..<32] @ k # rev [0..<k]"
    using assms upt_add_eq_append [of 0 k "32 - k"] by (simp add: upt_conv_Cons)
  moreover have "bit (2 ^ k :: u32) n \<longleftrightarrow> n = k" if "n < 32" for n
    using that by (auto simp: bit_simps)
  ultimately have "takeWhile (\<lambda>n. \<not> bit (2 ^ k :: u32) n) (rev [0..<32]) = rev [Suc k..<32]"
    using assms by (simp only:) (subst takeWhile_append2, auto simp: bit_simps)
  then show ?thesis using assms by (simp add: highbit_def cntlzw_def)
qed


section \<open>The search\<close>

text \<open>What a segment gives for an aligned block, and the segments in the order of the search.\<close>

definition ff_fit :: "u64 \<Rightarrow> u64 \<Rightarrow> space_seg \<Rightarrow> bool" where
  "ff_fit align sz s \<longleftrightarrow> P2ROUNDUP (ss_start s) align + sz \<le> ss_end s"

lemma ff_search_find:
  assumes "node_of tree p"
  shows "ff_search align sz (Some p) =
    Some (map_option (\<lambda>s. P2ROUNDUP (ss_start s) align) (List.find (ff_fit align sz) (dat (snd p) # after p)))"
  using assms
proof (induction "after p" arbitrary: p)
  case Nil
  then have "avl_walk p 1 = None" using avl_walk_ok(2) [of tree p 1] by (cases "avl_walk p 1") auto
  then show ?case by (subst ff_search.simps) (simp add: Let_def ff_fit_def Nil(1) [symmetric] ff_search.simps)
next
  case (Cons x xs)
  obtain q where q: "avl_walk p 1 = Some q" using Cons avl_walk_ok(1) [of tree p 1] by (cases "avl_walk p 1") auto
  have n: "node_of tree q" "after p = dat (snd q) # after q" using avl_walk_ok(2) [OF Cons(3) _ q] by simp_all
  show ?case using Cons(1) [of q] Cons(2) n q by (subst ff_search.simps) (simp add: Let_def ff_fit_def)
qed

text \<open>Where a pass starts: the segments before it are in front of the cursor, or too short if the cursor is 0.\<close>

lemma ff_start:
  assumes "sm_wf sm" "unat c + unat sz < 2 ^ 64" "sz \<noteq> 0"
  shows "\<exists>xs ys. segs sm = xs @ ys \<and> (\<forall>s \<in> set xs. ss_end s < c + sz) \<and>
    ff_search align sz
      (case avl_find space_map_seg_compare (sm_root sm) \<lparr>ss_start = c, ss_end = c + sz\<rparr> of
         Inl p \<Rightarrow> Some p | Inr where \<Rightarrow> avl_nearest where 1) =
    Some (map_option (\<lambda>s. P2ROUNDUP (ss_start s) align) (List.find (ff_fit align sz) ys))"
proof -
  have a: "apart (segs sm)" using assms(1) by (simp add: sm_wf_def)
  have u: "unat (c + sz) = unat c + unat sz" using assms(2) by (simp add: unat_word_ariths)
  then have lt: "c < c + sz" using assms(3) by (simp add: word_less_nat_alt unat_gt_0)
  show ?thesis
  proof (cases "avl_find space_map_seg_compare (sm_root sm) \<lparr>ss_start = c, ss_end = c + sz\<rparr>")
    case (Inl p)
    then have p: "node_of (sm_root sm) p" "seg_offs (dat (snd p)) \<inter> {unat c..<unat (c + sz)} \<noteq> {}"
      using find_range(1) [OF assms(1) lt Inl] by simp_all
    note d = node_data [OF p(1)]
    have st: "ss_start (dat (snd p)) < c + sz" using p(2) by (auto simp: seg_offs_def word_less_nat_alt)
    have "ss_end s < c + sz" if "s \<in> set (before p)" for s
      using a that st by (auto simp: d apart_def sorted_wrt_append)
    then have "segs sm = before p @ (dat (snd p) # after p) \<and> (\<forall>s \<in> set (before p). ss_end s < c + sz) \<and>
      ff_search align sz (Some p) =
        Some (map_option (\<lambda>s. P2ROUNDUP (ss_start s) align) (List.find (ff_fit align sz) (dat (snd p) # after p)))"
      using ff_search_find [OF p(1), of align sz] d by blast
    then show ?thesis unfolding Inl sum.case by blast
  next
    case (Inr path)
    note r = find_range(2) [OF assms(1) lt Inr]
    note d = index_data [OF conjunct1 [OF r]]
    have l: "\<forall>s \<in> set (left_of path). ss_end s < c + sz" using r lt by auto
    show ?thesis
    proof (cases "avl_nearest path 1")
      case None
      then have "right_of path = []" using avl_nearest_ok(1) [OF conjunct1 [OF r] _ None] by simp
      then have "segs sm = left_of path @ []" using d by simp
      moreover have "ff_search align sz None =
          Some (map_option (\<lambda>s. P2ROUNDUP (ss_start s) align) (List.find (ff_fit align sz) []))"
        by (simp add: ff_search.simps)
      ultimately show ?thesis using l unfolding Inr sum.case None by blast
    next
      case (Some q)
      have q: "node_of (sm_root sm) q" "right_of path = dat (snd q) # after q"
        using avl_nearest_ok(2) [OF conjunct1 [OF r] _ Some] by simp_all
      have "ff_search align sz (Some q) =
          Some (map_option (\<lambda>s. P2ROUNDUP (ss_start s) align) (List.find (ff_fit align sz) (right_of path)))"
        using ff_search_find [OF q(1), of align sz] by (simp only: q(2))
      then show ?thesis using l d unfolding Inr sum.case Some by blast
    qed
  qed
qed


section \<open>The blocks found\<close>

text \<open>
  The requests the allocator is made for: a multiple of the unit, of an alignment below 4 GiB (its
  cursor is found by a 32-bit \<^verbatim>\<open>highbit\<close>), in a map whose offsets have a bit to spare.
\<close>

definition ff_request :: "('p, 'z) space_map_core_scheme \<Rightarrow> u64 \<Rightarrow> bool" where
  "ff_request sm sz \<longleftrightarrow> sz \<noteq> 0 \<and> unat sz \<le> 2 ^ 62 \<and> \<not> 2 ^ 32 dvd unat sz \<and> unit_of sm dvd unat sz \<and>
     unat (sm_start sm) + unat (sm_size sm) \<le> 2 ^ 63"

definition ff_ready :: "u64 list option \<Rightarrow> bool" where
  "ff_ready ppd \<longleftrightarrow> (\<exists>cursors. ppd = Some cursors \<and> length cursors = 64 \<and> (\<forall>c \<in> set cursors. unat c \<le> 2 ^ 63))"

lemma ff_align:
  assumes "ff_request sm sz"
  obtains k where "k < 32" "sz AND - sz = 2 ^ k" "2 ^ k dvd unat sz" "unit_of sm dvd 2 ^ k"
proof -
  have r: "sz \<noteq> 0" "\<not> 2 ^ 32 dvd unat sz" "unit_of sm dvd unat sz" using assms by (simp_all add: ff_request_def)
  obtain k where k: "k < 64" "sz AND - sz = 2 ^ k" "2 ^ k dvd unat sz" "\<And>j. 2 ^ j dvd unat sz \<Longrightarrow> j \<le> k"
    using lowbit [OF r(1)] by blast
  have "k < 32"
  proof (rule ccontr)
    assume "\<not> k < 32"
    then have "(2 :: nat) ^ 32 dvd 2 ^ k" by (intro le_imp_power_dvd) simp
    then show False using r(2) k(3) dvd_trans by blast
  qed
  moreover have "unit_of sm dvd 2 ^ k"
    using k(4) [of "unat (sm_shift sm)"] r(3) unfolding unit_of_def by (intro le_imp_power_dvd) simp
  ultimately show thesis using that k by blast
qed

lemma seg_bounds:
  assumes "sm_wf sm" "ff_request sm sz" "s \<in> set (segs sm)"
  shows "unat (ss_start s) < unat (ss_end s)" "unat (ss_end s) \<le> 2 ^ 63" "seg_fits sm s" "seg_offs s \<subseteq> space_of sm"
proof -
  show f: "seg_fits sm s" using assms(1,3) by (simp add: sm_wf_def list_all_iff)
  show "unat (ss_end s) \<le> 2 ^ 63" using f assms(2) by (simp add: seg_fits_def ff_request_def)
  show "unat (ss_start s) < unat (ss_end s)" using assms(1,3) by (simp add: sm_wf_def apart_def list_all_iff word_less_nat_alt)
  show "seg_offs s \<subseteq> space_of sm" using assms(3) by (auto simp: space_of_def offs_def)
qed

lemma fit_nat:
  assumes "sm_wf sm" "ff_request sm sz" "s \<in> set (segs sm)" "k < 32"
  shows "unat (P2ROUNDUP (ss_start s) (2 ^ k) + sz) = unat (P2ROUNDUP (ss_start s) (2 ^ k)) + unat sz"
    "2 ^ k dvd unat (P2ROUNDUP (ss_start s) (2 ^ k))" "unat (ss_start s) \<le> unat (P2ROUNDUP (ss_start s) (2 ^ k))"
    "unat (P2ROUNDUP (ss_start s) (2 ^ k)) < unat (ss_start s) + 2 ^ k"
    "\<And>n. 2 ^ k dvd n \<Longrightarrow> unat (ss_start s) \<le> n \<Longrightarrow> unat (P2ROUNDUP (ss_start s) (2 ^ k)) \<le> n"
proof -
  note b = seg_bounds [OF assms(1-3)]
  have k: "(2 :: nat) ^ k \<le> 2 ^ 32" using assms(4) by (intro power_increasing) simp_all
  have e: "unat (ss_start s) + 2 ^ k \<le> 2 ^ 64" using b(1,2) k by simp
  note r = roundup [OF _ e]
  show "unat (P2ROUNDUP (ss_start s) (2 ^ k)) \<le> n" if "2 ^ k dvd n" "unat (ss_start s) \<le> n" for n
    using roundup_least [OF _ e that] assms(4) by simp
  show "2 ^ k dvd unat (P2ROUNDUP (ss_start s) (2 ^ k))" "unat (ss_start s) \<le> unat (P2ROUNDUP (ss_start s) (2 ^ k))"
    and lt: "unat (P2ROUNDUP (ss_start s) (2 ^ k)) < unat (ss_start s) + 2 ^ k" using r assms(4) by simp_all
  have "unat sz \<le> 2 ^ 62" using assms(2) by (simp add: ff_request_def)
  then have "unat (P2ROUNDUP (ss_start s) (2 ^ k)) + unat sz < 2 ^ 64" using lt b(1,2) k by simp
  then show "unat (P2ROUNDUP (ss_start s) (2 ^ k) + sz) = unat (P2ROUNDUP (ss_start s) (2 ^ k)) + unat sz"
    by (simp add: unat_word_ariths)
qed

lemma fit_block:
  assumes "sm_wf sm" "ff_request sm sz" "s \<in> set (segs sm)" "k < 32" "unit_of sm dvd 2 ^ k" "ff_fit (2 ^ k) sz s"
  defines "offset \<equiv> P2ROUNDUP (ss_start s) (2 ^ k)"
  shows "2 ^ k dvd unat offset" "in_range sm offset sz" "span offset sz \<subseteq> space_of sm"
    "unat (offset + sz) \<le> 2 ^ 63" "offset \<noteq> -1"
proof -
  note b = seg_bounds [OF assms(1-3)] and f = fit_nat [OF assms(1-4)]
  show d: "2 ^ k dvd unat offset" using f(2) by (simp add: offset_def)
  have z: "sz \<noteq> 0" "unit_of sm dvd unat sz" using assms(2) by (simp_all add: ff_request_def)
  have e: "unat offset + unat sz \<le> unat (ss_end s)"
    using assms(6) f(1) by (simp add: ff_fit_def word_le_nat_alt offset_def)
  have i: "span offset sz \<subseteq> seg_offs s" using e f(3) by (auto simp: span_def seg_offs_def offset_def)
  then show "span offset sz \<subseteq> space_of sm" using b(4) by blast
  show "in_range sm offset sz"
    using z dvd_trans [OF assms(5) d] e f(3) b(3) by (auto simp: in_range_def seg_fits_def span_def offset_def)
  show u: "unat (offset + sz) \<le> 2 ^ 63" using e b(2) f(1) by (simp add: offset_def)
  have "unat offset \<le> 2 ^ 63" using e b(2) by simp
  moreover have "unat (-1 :: u64) = 2 ^ 64 - 1" by (simp add: unsigned_minus_1_eq_mask mask_eq_exp_minus_1)
  ultimately show "offset \<noteq> -1" by auto
qed

lemma no_fit:
  assumes "sm_wf sm" "ff_request sm sz" "k < 32" "\<forall>s \<in> set (segs sm). \<not> ff_fit (2 ^ k) sz s" "2 ^ k dvd n"
  shows "\<not> {n..<n + unat sz} \<subseteq> space_of sm"
proof
  assume sub: "{n..<n + unat sz} \<subseteq> space_of sm"
  have z: "0 < unat sz" using assms(2) by (simp add: ff_request_def unat_gt_0)
  then have "n \<in> space_of sm" using sub by (intro subsetD [OF sub]) simp
  then obtain s where s: "s \<in> set (segs sm)" "n \<in> seg_offs s" by (auto simp: space_of_def offs_def)
  have "n \<in> seg_offs s \<inter> {n..<n + unat sz}" using s(2) z by simp
  then have c: "unat (ss_start s) \<le> n \<and> n + unat sz \<le> unat (ss_end s)"
    using apart_covers [OF _ s(1), of n "n + unat sz"] sub assms(1) unfolding sm_wf_def space_of_def by blast
  note f = fit_nat [OF assms(1,2) s(1) assms(3)]
  have "unat (P2ROUNDUP (ss_start s) (2 ^ k)) \<le> n" using f(5) c assms(5) by blast
  then have "ff_fit (2 ^ k) sz s" using c f(1) by (simp add: ff_fit_def word_le_nat_alt)
  then show False using assms(4) s(1) by blast
qed


text \<open>One pass: what it finds, or from cursor 0 that there is nothing to find.\<close>

lemma ff_pass:
  assumes "sm_wf sm" "ff_request sm sz" "unat c \<le> 2 ^ 63" "k < 32" "unit_of sm dvd 2 ^ k"
  defines "ss \<equiv> (case avl_find space_map_seg_compare (sm_root sm) \<lparr>ss_start = c, ss_end = c + sz\<rparr> of
      Inl p \<Rightarrow> Some p | Inr where \<Rightarrow> avl_nearest where 1)"
  obtains "ff_search (2 ^ k) sz ss = Some None" "c = 0 \<Longrightarrow> \<forall>s \<in> set (segs sm). \<not> ff_fit (2 ^ k) sz s"
  | offset where "ff_search (2 ^ k) sz ss = Some (Some offset)" "2 ^ k dvd unat offset" "in_range sm offset sz"
      "span offset sz \<subseteq> space_of sm" "unat (offset + sz) \<le> 2 ^ 63" "offset \<noteq> -1"
proof -
  have z: "sz \<noteq> 0" "unat sz \<le> 2 ^ 62" using assms(2) by (simp_all add: ff_request_def)
  have "unat c + unat sz < 2 ^ 64" using assms(3) z(2) by simp
  from ff_start [OF assms(1) this z(1), of "2 ^ k"]
  obtain xs ys where xy: "segs sm = xs @ ys" "\<forall>s \<in> set xs. ss_end s < c + sz"
    "ff_search (2 ^ k) sz ss = Some (map_option (\<lambda>s. P2ROUNDUP (ss_start s) (2 ^ k)) (List.find (ff_fit (2 ^ k) sz) ys))"
    unfolding ss_def by blast
  show thesis
  proof (cases "List.find (ff_fit (2 ^ k) sz) ys")
    case None
    have "\<not> ff_fit (2 ^ k) sz s" if "c = 0" "s \<in> set xs" for s
    proof
      assume f: "ff_fit (2 ^ k) sz s"
      have "s \<in> set (segs sm)" "ss_end s < sz" using that xy by simp_all
      then show False using f fit_nat(1) [OF assms(1,2) _ assms(4)] by (auto simp: ff_fit_def word_le_nat_alt word_less_nat_alt)
    qed
    then show thesis using that(1) None xy by (auto simp: find_None_iff)
  next
    case (Some s)
    then have "s \<in> set (segs sm)" "ff_fit (2 ^ k) sz s" using xy(1) by (auto simp: find_Some_iff)
    from fit_block [OF assms(1,2) this(1) assms(4,5) this(2)]
    show thesis using that(2) xy(3) Some by simp
  qed
qed


text \<open>A whole call: at most two passes, the second from cursor 0.\<close>

lemma ff_alloc_found:
  assumes "sm_ppd sm = Some cursors" "length cursors = 64" "k < 32" "sz AND - sz = 2 ^ k"
  shows "metaslab_ff_alloc sm sz =
    Option.bind (ff_search (2 ^ k) sz
      (case avl_find space_map_seg_compare (sm_root sm) \<lparr>ss_start = cursors ! k, ss_end = cursors ! k + sz\<rparr> of
         Inl p \<Rightarrow> Some p | Inr where \<Rightarrow> avl_nearest where 1)) (\<lambda>found.
      case found of
        Some offset \<Rightarrow> Some (offset, sm\<lparr>sm_ppd := Some (cursors[k := offset + sz])\<rparr>)
      | None \<Rightarrow>
          if cursors ! k = 0 then Some (-1, sm)
          else metaslab_ff_alloc (sm\<lparr>sm_ppd := Some (cursors[k := 0])\<rparr>) sz)"
proof -
  have "highbit (ucast (2 ^ k :: u64)) = Suc k"
    using highbit_exp [OF assms(3)] ucast_eq_of_nat [OF unat_exp, of k, where 'b = 32] assms(3) by simp
  then show ?thesis using assms by (subst metaslab_ff_alloc.simps) (simp add: Let_def)
qed

definition ff_result :: "u64 list space_map_core \<Rightarrow> u64 \<Rightarrow> (u64 \<times> u64 list space_map_core) option \<Rightarrow> bool" where
  "ff_result sm sz r \<longleftrightarrow> (\<exists>start x. r = Some (start, sm\<lparr>sm_ppd := x\<rparr>) \<and> ff_ready x \<and>
     (if start = -1 then \<forall>n. unat (sz AND - sz) dvd n \<longrightarrow> \<not> {n..<n + unat sz} \<subseteq> space_of sm
      else unat (sz AND - sz) dvd unat start \<and> in_range sm start sz \<and> span start sz \<subseteq> space_of sm))"

lemma ff_ready_update:
  assumes "ff_ready (Some cursors)" "unat c \<le> 2 ^ 63"
  shows "ff_ready (Some (cursors[k := c]))"
  using assms set_update_subset_insert [of cursors k c] by (auto simp: ff_ready_def)

lemma ff_alloc_pass:
  assumes "sm_wf sm" "ff_request sm sz" "sm_ppd sm = Some cursors" "ff_ready (Some cursors)" "k < 32" "sz AND - sz = 2 ^ k"
    and "cursors ! k = 0 \<or> ff_result sm sz (metaslab_ff_alloc (sm\<lparr>sm_ppd := Some (cursors[k := 0])\<rparr>) sz)"
    and "unit_of sm dvd 2 ^ k"
  shows "ff_result sm sz (metaslab_ff_alloc sm sz)"
proof -
  have l: "length cursors = 64" "unat (cursors ! k) \<le> 2 ^ 63" using assms(4,5) by (auto simp: ff_ready_def)
  have al: "unat (sz AND - sz) = 2 ^ k" using assms(5,6) unat_exp by simp
  note f = ff_alloc_found [OF assms(3) l(1) assms(5,6)]
  show ?thesis
  proof (cases rule: ff_pass [OF assms(1,2) l(2) assms(5,8)])
    case 1
    then show ?thesis
    proof (cases "cursors ! k = 0")
      case True
      have "\<not> {n..<n + unat sz} \<subseteq> space_of sm" if "2 ^ k dvd n" for n
        by (rule no_fit [OF assms(1,2,5) 1(2) [OF True] that])
      then show ?thesis using 1(1) True assms(3,4) unfolding f ff_result_def al
        by (intro exI [of _ "-1"] exI [of _ "Some cursors"]) simp
    qed (use 1(1) assms(7) in \<open>simp add: f\<close>)
  next
    case (2 offset)
    then show ?thesis using ff_ready_update [OF assms(4) 2(5), of k] unfolding f ff_result_def al
      by (intro exI [of _ offset] exI [of _ "Some (cursors[k := offset + sz])"]) simp
  qed
qed

lemma ff_alloc:
  assumes "sm_wf sm" "ff_request sm sz" "ff_ready (sm_ppd sm)"
  shows "ff_result sm sz (metaslab_ff_alloc sm sz)"
proof -
  obtain cursors where c: "sm_ppd sm = Some cursors" "ff_ready (Some cursors)" using assms(3) by (auto simp: ff_ready_def)
  obtain k where k: "k < 32" "sz AND - sz = 2 ^ k" "2 ^ k dvd unat sz" "unit_of sm dvd 2 ^ k"
    using ff_align [OF assms(2)] by blast
  let ?sm = "sm\<lparr>sm_ppd := Some (cursors[k := 0])\<rparr>"
  have r: "ff_ready (Some (cursors[k := 0]))" by (rule ff_ready_update [OF c(2)]) simp
  have b: "bounds ?sm = bounds sm" by (simp add: bounds_def)
  have w: "sm_wf ?sm" using assms(1) sm_wf_cong(1) [of ?sm sm] b by simp
  have q: "ff_request ?sm sz" "unit_of ?sm = unit_of sm" using assms(2) by (simp_all add: ff_request_def unit_of_def)
  have "cursors[k := 0] ! k = 0" using c(2) k(1) by (simp add: ff_ready_def)
  then have "ff_result ?sm sz (metaslab_ff_alloc ?sm sz)"
    using ff_alloc_pass [OF w q(1) _ r k(1,2)] k(4) q(2) by simp
  moreover have "in_range ?sm = in_range sm" "space_of ?sm = space_of sm"
    using in_range_cong [OF b] by (simp_all add: space_of_def)
  then have "ff_result ?sm sz r = ff_result sm sz r" for r by (simp add: ff_result_def)
  ultimately have "ff_result sm sz (metaslab_ff_alloc ?sm sz)" by blast
  then show ?thesis using ff_alloc_pass [OF assms(1,2) c k(1,2) _ k(4)] by blast
qed

interpretation ff: space_map_picker metaslab_ff_ops ff_ready ff_request
proof
  show "\<exists>x. smop_load metaslab_ff_ops core = core\<lparr>sm_ppd := x\<rparr> \<and> ff_ready x" for core
    by (intro exI [of _ "Some (replicate 64 0)"]) (simp add: metaslab_ff_ops_def metaslab_ff_load_def ff_ready_def)
  show "\<exists>x. smop_unload metaslab_ff_ops core = core\<lparr>sm_ppd := x\<rparr>" for core
    by (intro exI [of _ None]) (simp add: metaslab_ff_ops_def metaslab_ff_unload_def)
  show "\<exists>x. smop_claim metaslab_ff_ops core start sz = core\<lparr>sm_ppd := x\<rparr> \<and> ff_ready x"
    if "ff_ready (sm_ppd core)" for core start sz
    using that by (intro exI [of _ "sm_ppd core"]) (simp add: metaslab_ff_ops_def metaslab_ff_claim_def)
  show "\<exists>x. smop_free metaslab_ff_ops core start sz = core\<lparr>sm_ppd := x\<rparr> \<and> ff_ready x"
    if "ff_ready (sm_ppd core)" for core start sz
    using that by (intro exI [of _ "sm_ppd core"]) (simp add: metaslab_ff_ops_def metaslab_ff_free_def)
  show "\<exists>start x. smop_alloc metaslab_ff_ops core sz = Some (start, core\<lparr>sm_ppd := x\<rparr>) \<and> ff_ready x \<and>
      (start = -1 \<or> in_range core start sz \<and> span start sz \<subseteq> space_of core)"
    if "sm_wf core" "ff_ready (sm_ppd core)" "ff_request core sz" for core sz
    using ff_alloc [OF that(1,3,2)] unfolding ff_result_def metaslab_ff_ops_def by (auto split: if_splits)
qed


section \<open>Properties\<close>

text \<open>
  C24. The first-fit allocator finds a block exactly when there is one: for a request it is made
  for, on a well-formed map with its cursors set up, it returns after at most two passes, changes
  nothing but the cursors, and either returns a block that is free, inside the map, a multiple of
  the unit and aligned to the largest power of two that divides its size, or it returns -1 and no
  such aligned block of free space exists.
\<close>

theorem metaslab_ff_alloc_fit:
  assumes "sm_wf sm" "ff_request sm sz" "ff_ready (sm_ppd sm)"
  shows "\<exists>start x. metaslab_ff_alloc sm sz = Some (start, sm\<lparr>sm_ppd := x\<rparr>) \<and> ff_ready x \<and>
    (if start = -1 then \<forall>n. unat (sz AND - sz) dvd n \<longrightarrow> \<not> {n..<n + unat sz} \<subseteq> space_of sm
     else unat (sz AND - sz) dvd unat start \<and> in_range sm start sz \<and> span start sz \<subseteq> space_of sm)"
  using ff_alloc [OF assms] by (simp only: ff_result_def)

theorem metaslab_ff_alloc_fit_witness:
  "let sm = \<lparr>sm_root = \<lparr>avl_root = AVL_NODE AVL_NULL AVL_NULL 0 \<lparr>ss_start = 0x1200, ss_end = 0x4000\<rparr>, avl_numnodes = 1\<rparr>,
      sm_space = 0x2e00, sm_start = 0, sm_size = 0x10000, sm_shift = 9, sm_loaded = True, sm_loading = False,
      sm_ppd = Some (replicate 64 0)\<rparr>
   in \<exists>start x. metaslab_ff_alloc sm 0x1000 = Some (start, sm\<lparr>sm_ppd := x\<rparr>) \<and>
        start \<noteq> -1 \<and> 0x1000 dvd unat start \<and> in_range sm start 0x1000"
proof -
  let ?sm = "\<lparr>sm_root = \<lparr>avl_root = AVL_NODE AVL_NULL AVL_NULL 0 \<lparr>ss_start = 0x1200, ss_end = 0x4000\<rparr>, avl_numnodes = 1\<rparr>,
    sm_space = 0x2e00, sm_start = 0, sm_size = 0x10000, sm_shift = 9, sm_loaded = True, sm_loading = False,
    sm_ppd = Some (replicate 64 0)\<rparr> :: u64 list space_map_core"
  have w: "sm_wf ?sm" by (simp add: sm_wf_def tree_ok_def apart_def seg_fits_def unit_of_def space_of_def offs_def seg_offs_def)
  have r: "ff_request ?sm 0x1000" by (simp add: ff_request_def unit_of_def)
  have y: "ff_ready (sm_ppd ?sm)" by (simp add: ff_ready_def)
  have u: "unat (0x1000 AND - 0x1000 :: u64) = 0x1000" "unat (0x1000 :: u64) = 0x1000" by simp_all
  have s: "{0x2000..<0x2000 + 0x1000} \<subseteq> space_of ?sm" "(0x1000 :: nat) dvd 0x2000"
    by (auto simp: space_of_def offs_def seg_offs_def)
  obtain start x where a: "metaslab_ff_alloc ?sm 0x1000 = Some (start, ?sm\<lparr>sm_ppd := x\<rparr>)"
    "if start = -1 then \<forall>n. 0x1000 dvd n \<longrightarrow> \<not> {n..<n + 0x1000} \<subseteq> space_of ?sm
     else 0x1000 dvd unat start \<and> in_range ?sm start 0x1000 \<and> span start 0x1000 \<subseteq> space_of ?sm"
    using metaslab_ff_alloc_fit [OF w r y] unfolding u by blast
  have "start \<noteq> -1" using a(2) s by metis
  then show ?thesis using a unfolding Let_def by (metis (no_types, lifting))
qed

text \<open>
  Rounding up to a power of two: while the result fits in 64 bits, \<^verbatim>\<open>P2ROUNDUP\<close> gives the least
  multiple of the alignment that is not below its argument.
\<close>

theorem P2ROUNDUP_least:
  assumes "k < 64" "unat x + 2 ^ k \<le> 2 ^ 64"
  shows "2 ^ k dvd unat (P2ROUNDUP x (2 ^ k)) \<and> unat x \<le> unat (P2ROUNDUP x (2 ^ k)) \<and>
    (\<forall>n. 2 ^ k dvd n \<and> unat x \<le> n \<longrightarrow> unat (P2ROUNDUP x (2 ^ k)) \<le> n)"
  using roundup [OF assms] roundup_least [OF assms] by blast

theorem P2ROUNDUP_least_witness:
  "2 ^ 12 dvd unat (P2ROUNDUP 0x1201 (2 ^ 12)) \<and> unat (P2ROUNDUP 0x1201 (2 ^ 12)) \<le> 0x2000"
  using P2ROUNDUP_least [of 12 "0x1201"] by simp

end
