(* ===== verification/Txg_List.thy ===== *)
theory Txg_List
  imports Prelude
begin

text \<open>
  Lists with a slot for each active transaction group (\<^verbatim>\<open>txg_list_*\<close> of
  \<^verbatim>\<open>uts/common/fs/zfs/txg.c\<close>, \<^verbatim>\<open>sys/txg.h\<close>).

  The lists are linked through a node embedded in each object, found at \<^verbatim>\<open>tl_offset\<close>; an object's
  pointer stands for its node's and the nodes are a store from pointers to nodes.  The functions are
  shown to act on the lists the links represent.
\<close>

unbundle bit_operations_syntax

section \<open>Definitions\<close>

definition TXG_SIZE :: nat where
  "TXG_SIZE = 4"

definition TXG_MASK :: u64 where
  "TXG_MASK = of_nat TXG_SIZE - 1"

definition TXG_INITIAL :: u64 where
  "TXG_INITIAL = of_nat TXG_SIZE"

definition txg_slot :: "u64 \<Rightarrow> nat" where
  "txg_slot txg = unat (txg AND TXG_MASK)"

record 'a txg_node =
  tn_next :: "'a option list"
  tn_member :: "bool list"

record 'a txg_list =
  tl_head :: "'a option list"
  tl_node :: "'a \<Rightarrow> 'a txg_node"

definition txg_list_create :: "('a \<Rightarrow> 'a txg_node) \<Rightarrow> 'a txg_list" where
  "txg_list_create nodes = \<lparr>tl_head = replicate TXG_SIZE None, tl_node = nodes\<rparr>"

definition txg_list_empty :: "'a txg_list \<Rightarrow> u64 \<Rightarrow> bool" where
  "txg_list_empty l txg \<longleftrightarrow> tl_head l ! txg_slot txg = None"

definition txg_list_destroy :: "'a txg_list \<Rightarrow> unit option" where
  "txg_list_destroy l = (if list_all (\<lambda>t. txg_list_empty l (of_nat t)) [0..<TXG_SIZE] then Some () else None)"

definition txg_list_add :: "'a txg_list \<Rightarrow> 'a \<Rightarrow> u64 \<Rightarrow> bool \<times> 'a txg_list" where
  "txg_list_add l p txg =
     (let t = txg_slot txg; tn = tl_node l p; already_on_list = tn_member tn ! t
      in (already_on_list,
          if \<not> already_on_list then
            l\<lparr>tl_node := (tl_node l)(p := tn\<lparr>tn_member := (tn_member tn)[t := True], tn_next := (tn_next tn)[t := tl_head l ! t]\<rparr>),
               tl_head := (tl_head l)[t := Some p]\<rparr>
          else l))"

definition txg_list_remove :: "'a txg_list \<Rightarrow> u64 \<Rightarrow> 'a option \<times> 'a txg_list" where
  "txg_list_remove l txg =
     (let t = txg_slot txg
      in case tl_head l ! t of
           None \<Rightarrow> (None, l)
         | Some p \<Rightarrow>
             let tn = tl_node l p
             in (Some p,
                 l\<lparr>tl_head := (tl_head l)[t := tn_next tn ! t],
                    tl_node := (tl_node l)(p := tn\<lparr>tn_next := (tn_next tn)[t := None], tn_member := (tn_member tn)[t := False]\<rparr>)\<rparr>))"

text \<open>The pointer to a link: the head of the list, or the next field of a node.\<close>

datatype 'a link = Tl_Head | Tn_Next 'a

fun link_get :: "'a txg_list \<Rightarrow> nat \<Rightarrow> 'a link \<Rightarrow> 'a option" where
  "link_get l t Tl_Head = tl_head l ! t"
| "link_get l t (Tn_Next p) = tn_next (tl_node l p) ! t"

fun link_set :: "'a txg_list \<Rightarrow> nat \<Rightarrow> 'a link \<Rightarrow> 'a option \<Rightarrow> 'a txg_list" where
  "link_set l t Tl_Head v = l\<lparr>tl_head := (tl_head l)[t := v]\<rparr>"
| "link_set l t (Tn_Next p) v =
     l\<lparr>tl_node := (tl_node l)(p := (tl_node l p)\<lparr>tn_next := (tn_next (tl_node l p))[t := v]\<rparr>)\<rparr>"

partial_function (option) remove_this_loop ::
  "'a txg_list \<Rightarrow> 'a \<Rightarrow> nat \<Rightarrow> 'a link \<Rightarrow> ('a option \<times> 'a txg_list) option" where
  "remove_this_loop l p t tp =
     (case link_get l t tp of
        None \<Rightarrow> Some (None, l)
      | Some tn \<Rightarrow>
          if tn = p then
            let l = link_set l t tp (tn_next (tl_node l tn) ! t);
                n = tl_node l tn
            in Some (Some p, l\<lparr>tl_node := (tl_node l)(tn := n\<lparr>tn_next := (tn_next n)[t := None], tn_member := (tn_member n)[t := False]\<rparr>)\<rparr>)
          else remove_this_loop l p t (Tn_Next tn))"

declare remove_this_loop.simps [code]

definition txg_list_remove_this :: "'a txg_list \<Rightarrow> 'a \<Rightarrow> u64 \<Rightarrow> ('a option \<times> 'a txg_list) option" where
  "txg_list_remove_this l p txg = remove_this_loop l p (txg_slot txg) Tl_Head"

definition txg_list_member :: "'a txg_list \<Rightarrow> 'a \<Rightarrow> u64 \<Rightarrow> bool" where
  "txg_list_member l p txg = tn_member (tl_node l p) ! txg_slot txg"

definition txg_list_head :: "'a txg_list \<Rightarrow> u64 \<Rightarrow> 'a option" where
  "txg_list_head l txg = tl_head l ! txg_slot txg"

definition txg_list_next :: "'a txg_list \<Rightarrow> 'a \<Rightarrow> u64 \<Rightarrow> 'a option" where
  "txg_list_next l p txg = tn_next (tl_node l p) ! txg_slot txg"

section \<open>The lists the links represent\<close>

primrec chain :: "('a \<Rightarrow> 'a txg_node) \<Rightarrow> nat \<Rightarrow> 'a option \<Rightarrow> 'a list \<Rightarrow> bool" where
  "chain nd t h [] \<longleftrightarrow> h = None"
| "chain nd t h (x # xs) \<longleftrightarrow> h = Some x \<and> chain nd t (tn_next (nd x) ! t) xs"

definition txg_rep :: "'a txg_list \<Rightarrow> (nat \<Rightarrow> 'a list) \<Rightarrow> bool" where
  "txg_rep l f \<longleftrightarrow> length (tl_head l) = TXG_SIZE \<and>
     (\<forall>p. length (tn_next (tl_node l p)) = TXG_SIZE \<and> length (tn_member (tl_node l p)) = TXG_SIZE) \<and>
     (\<forall>t < TXG_SIZE. chain (tl_node l) t (tl_head l ! t) (f t) \<and> distinct (f t) \<and>
        (\<forall>p. tn_member (tl_node l p) ! t \<longleftrightarrow> p \<in> set (f t)))"

lemma txg_slot_less: "txg_slot txg < TXG_SIZE"
proof -
  have "txg AND TXG_MASK = txg AND mask 2" by (simp add: TXG_MASK_def TXG_SIZE_def mask_eq_exp_minus_1)
  then have "txg_slot txg = unat txg mod 2 ^ 2" by (simp only: txg_slot_def unat_and_mask)
  then show ?thesis by (simp add: TXG_SIZE_def)
qed

lemma chain_cong: "(\<And>x. x \<in> set xs \<Longrightarrow> tn_next (nd' x) ! t = tn_next (nd x) ! t) \<Longrightarrow> chain nd' t h xs = chain nd t h xs"
  by (induction xs arbitrary: h) auto

lemma chain_none: "chain nd t None xs \<longleftrightarrow> xs = []"
  by (cases xs) auto


lemma txg_repD:
  assumes "txg_rep l f" "t < TXG_SIZE"
  shows "chain (tl_node l) t (tl_head l ! t) (f t)" "distinct (f t)" "tn_member (tl_node l p) ! t \<longleftrightarrow> p \<in> set (f t)"
    "length (tl_head l) = TXG_SIZE" "length (tn_next (tl_node l p)) = TXG_SIZE" "length (tn_member (tl_node l p)) = TXG_SIZE"
  using assms by (simp_all add: txg_rep_def)

text \<open>A change of one slot of the heads and nodes.\<close>

lemma txg_rep_slot:
  assumes "txg_rep l f" "t < TXG_SIZE" "length (tl_head l') = TXG_SIZE"
    and "\<And>p. length (tn_next (tl_node l' p)) = TXG_SIZE \<and> length (tn_member (tl_node l' p)) = TXG_SIZE"
    and "\<And>u. u < TXG_SIZE \<Longrightarrow> u \<noteq> t \<Longrightarrow> tl_head l' ! u = tl_head l ! u"
    and "\<And>u p. u < TXG_SIZE \<Longrightarrow> u \<noteq> t \<Longrightarrow> tn_next (tl_node l' p) ! u = tn_next (tl_node l p) ! u \<and>
      tn_member (tl_node l' p) ! u = tn_member (tl_node l p) ! u"
    and "chain (tl_node l') t (tl_head l' ! t) xs" "distinct xs" "\<And>p. tn_member (tl_node l' p) ! t \<longleftrightarrow> p \<in> set xs"
  shows "txg_rep l' (f(t := xs))"
  unfolding txg_rep_def
proof (intro conjI allI impI)
  fix u assume u: "u < TXG_SIZE"
  show "chain (tl_node l') u (tl_head l' ! u) ((f(t := xs)) u)"
    using assms(5,6,7) u chain_cong [of "f u" "tl_node l'" u "tl_node l"] txg_repD(1) [OF assms(1) u] by (cases "u = t") auto
  show "distinct ((f(t := xs)) u)" using assms(8) txg_repD(2) [OF assms(1) u] by simp
  show "tn_member (tl_node l' p) ! u \<longleftrightarrow> p \<in> set ((f(t := xs)) u)" for p
    using assms(6,9) u txg_repD(3) [OF assms(1) u] by simp
qed (use assms(3,4) in simp_all)

lemma add_rep:
  assumes "txg_rep l f"
  shows "fst (txg_list_add l p txg) \<longleftrightarrow> p \<in> set (f (txg_slot txg))"
    and "txg_rep (snd (txg_list_add l p txg))
      (if p \<in> set (f (txg_slot txg)) then f else f(txg_slot txg := p # f (txg_slot txg)))"
proof -
  define t where "t = txg_slot txg"
  have t: "t < TXG_SIZE" by (simp add: t_def txg_slot_less)
  note r = txg_repD [OF assms t]
  show "fst (txg_list_add l p txg) \<longleftrightarrow> p \<in> set (f (txg_slot txg))"
    using r(3) by (simp add: txg_list_add_def Let_def t_def)
  show "txg_rep (snd (txg_list_add l p txg))
      (if p \<in> set (f (txg_slot txg)) then f else f(txg_slot txg := p # f (txg_slot txg)))"
  proof (cases "p \<in> set (f t)")
    case True
    then show ?thesis using assms r(3) by (simp add: txg_list_add_def Let_def t_def)
  next
    case False
    let ?l = "snd (txg_list_add l p txg)"
    have n: "tl_node ?l q = (if q = p then (tl_node l p)\<lparr>tn_member := (tn_member (tl_node l p))[t := True],
        tn_next := (tn_next (tl_node l p))[t := tl_head l ! t]\<rparr> else tl_node l q)" for q
      using False r(3) by (simp add: txg_list_add_def Let_def t_def)
    have h: "tl_head ?l = (tl_head l)[t := Some p]" using False r(3) by (simp add: txg_list_add_def Let_def t_def)
    have "chain (tl_node ?l) t h (f t) = chain (tl_node l) t h (f t)" for h
      using False by (intro chain_cong) (auto simp: n)
    then have "txg_rep ?l (f(t := p # f t))"
      using r t False by (intro txg_rep_slot [OF assms t]) (auto simp: n h)
    then show ?thesis using False by (simp add: t_def)
  qed
qed

lemma remove_rep:
  assumes "txg_rep l f"
  shows "fst (txg_list_remove l txg) = (case f (txg_slot txg) of [] \<Rightarrow> None | x # xs \<Rightarrow> Some x)"
    and "txg_rep (snd (txg_list_remove l txg)) (f(txg_slot txg := tl (f (txg_slot txg))))"
proof -
  define t where "t = txg_slot txg"
  have t: "t < TXG_SIZE" by (simp add: t_def txg_slot_less)
  note r = txg_repD [OF assms t]
  show "fst (txg_list_remove l txg) = (case f (txg_slot txg) of [] \<Rightarrow> None | x # xs \<Rightarrow> Some x)"
    using r(1) by (auto simp: txg_list_remove_def Let_def t_def split: list.splits)
  show "txg_rep (snd (txg_list_remove l txg)) (f(txg_slot txg := tl (f (txg_slot txg))))"
  proof (cases "f t")
    case Nil
    moreover have "f(t := []) = f" using Nil by auto
    ultimately show ?thesis using r(1) assms by (simp add: txg_list_remove_def t_def)
  next
    case (Cons p xs)
    then have hd: "tl_head l ! t = Some p" "chain (tl_node l) t (tn_next (tl_node l p) ! t) xs" "p \<notin> set xs" "distinct xs"
      using r(1,2) by simp_all
    let ?l = "snd (txg_list_remove l txg)"
    have n: "tl_node ?l q = (if q = p then (tl_node l p)\<lparr>tn_next := (tn_next (tl_node l p))[t := None],
        tn_member := (tn_member (tl_node l p))[t := False]\<rparr> else tl_node l q)" for q
      using hd(1) by (simp add: txg_list_remove_def Let_def t_def)
    have h: "tl_head ?l = (tl_head l)[t := tn_next (tl_node l p) ! t]"
      using hd(1) by (simp add: txg_list_remove_def Let_def t_def)
    have "chain (tl_node ?l) t h xs = chain (tl_node l) t h xs" for h
      using hd(3) by (intro chain_cong) (auto simp: n)
    then have "txg_rep ?l (f(t := xs))"
      using r t Cons hd by (intro txg_rep_slot [OF assms t]) (auto simp: n h)
    then show ?thesis using Cons by (simp add: t_def)
  qed
qed


text \<open>The unlinking of the node a link points to.\<close>

definition unlinked :: "'a txg_list \<Rightarrow> 'a \<Rightarrow> nat \<Rightarrow> 'a link \<Rightarrow> 'a txg_list" where
  "unlinked l p t tp =
     (let l = link_set l t tp (tn_next (tl_node l p) ! t); n = tl_node l p
      in l\<lparr>tl_node := (tl_node l)(p := n\<lparr>tn_next := (tn_next n)[t := None], tn_member := (tn_member n)[t := False]\<rparr>)\<rparr>)"

lemma remove_this_loop_absent:
  "chain (tl_node l) t (link_get l t tp) xs \<Longrightarrow> p \<notin> set xs \<Longrightarrow> remove_this_loop l p t tp = Some (None, l)"
proof (induction xs arbitrary: tp)
  case Nil
  then show ?case by (simp add: remove_this_loop.simps)
next
  case (Cons x xs)
  then show ?case using Cons.IH [of "Tn_Next x"] by (subst remove_this_loop.simps) auto
qed

lemma remove_this_loop_found:
  "chain (tl_node l) t (link_get l t tp) (as @ p # bs) \<Longrightarrow> p \<notin> set as \<Longrightarrow>
    remove_this_loop l p t tp = Some (Some p, unlinked l p t (if as = [] then tp else Tn_Next (last as)))"
proof (induction as arbitrary: tp)
  case Nil
  then show ?case by (subst remove_this_loop.simps) (simp add: unlinked_def Let_def)
next
  case (Cons x as)
  then show ?case using Cons.IH [of "Tn_Next x"] by (subst remove_this_loop.simps) auto
qed

lemma chain_append:
  "chain nd t h (xs @ ys) \<longleftrightarrow> (\<exists>h'. (if xs = [] then h = h' else tn_next (nd (last xs)) ! t = h') \<and>
     (xs = [] \<or> h = Some (hd xs)) \<and> chain nd t h' ys \<and> (\<forall>i. Suc i < length xs \<longrightarrow> tn_next (nd (xs ! i)) ! t = Some (xs ! Suc i)))"
proof (induction xs arbitrary: h)
  case (Cons x xs)
  show ?case
  proof (cases xs)
    case (Cons y zs)
    have s: "(\<forall>i. Suc i < length (x # xs) \<longrightarrow> tn_next (nd ((x # xs) ! i)) ! t = Some ((x # xs) ! Suc i)) \<longleftrightarrow>
      tn_next (nd x) ! t = Some y \<and> (\<forall>i. Suc i < length xs \<longrightarrow> tn_next (nd (xs ! i)) ! t = Some (xs ! Suc i))"
      unfolding Cons by (auto simp: nth_Cons split: nat.splits)
    show ?thesis unfolding s using Cons.IH [of "tn_next (nd x) ! t"] Cons by auto
  qed simp
qed simp

lemma unlinked_rep:
  assumes "txg_rep l f" "t < TXG_SIZE" "f t = as @ p # bs"
  shows "txg_rep (unlinked l p t (if as = [] then Tl_Head else Tn_Next (last as))) (f(t := as @ bs))"
proof -
  note r = txg_repD [OF assms(1,2)]
  have d: "p \<notin> set as" "p \<notin> set bs" "distinct as" "distinct bs" "set as \<inter> set bs = {}" using r(2) unfolding assms(3) by auto
  define l' where "l' = unlinked l p t (if as = [] then Tl_Head else Tn_Next (last as))"
  let ?b = "tn_next (tl_node l p) ! t"
  have c: "chain (tl_node l) t (tl_head l ! t) (as @ p # bs)" using r(1) assms(3) by simp
  then have bs: "chain (tl_node l) t ?b bs" by (auto simp: chain_append [of _ _ _ as])
  have nx: "tn_next (tl_node l' q) = (if q = p then (tn_next (tl_node l p))[t := None]
      else if as \<noteq> [] \<and> q = last as then (tn_next (tl_node l q))[t := ?b] else tn_next (tl_node l q))" for q
    using d(1) by (auto simp: l'_def unlinked_def Let_def)
  have mb: "tn_member (tl_node l' q) = (if q = p then (tn_member (tl_node l p))[t := False] else tn_member (tl_node l q))" for q
    by (auto simp: l'_def unlinked_def Let_def)
  have h: "tl_head l' = (if as = [] then (tl_head l)[t := ?b] else tl_head l)" by (simp add: l'_def unlinked_def Let_def)
  have lb: "as \<noteq> [] \<Longrightarrow> last as \<notin> set bs \<and> last as \<noteq> p" using d(1,5) by (auto dest: last_in_set)
  have "chain (tl_node l') t ?b bs"
  proof (subst chain_cong)
    fix x assume "x \<in> set bs"
    then show "tn_next (tl_node l' x) ! t = tn_next (tl_node l x) ! t" using d(2) lb by (auto simp: nx)
  qed (rule bs)
  moreover have "tn_next (tl_node l' (as ! i)) ! t = Some (as ! Suc i)" if i: "Suc i < length as" for i
  proof -
    have "last as = as ! (length as - 1)" using i by (intro last_conv_nth) auto
    then have "as ! i \<noteq> last as" using i d(3) nth_eq_iff_index_eq [of as i "length as - 1"] by auto
    moreover have "as ! i \<noteq> p" using i d(1) by (metis Suc_lessD nth_mem)
    ultimately show ?thesis using c i by (simp add: nx chain_append [of _ _ _ as])
  qed
  ultimately have "chain (tl_node l') t (tl_head l' ! t) (as @ bs)"
    using c r(4-6) assms(2) lb unfolding chain_append [of _ _ _ as] by (auto simp: h nx)
  then show ?thesis
    unfolding l'_def [symmetric] using d r assms by (intro txg_rep_slot [OF assms(1,2)]) (auto simp: nx mb h)
qed

lemma remove_this_rep:
  assumes "txg_rep l f"
  shows "\<exists>l'. txg_list_remove_this l p txg = Some (if p \<in> set (f (txg_slot txg)) then Some p else None, l') \<and>
    txg_rep l' (f(txg_slot txg := remove1 p (f (txg_slot txg))))"
proof -
  define t where "t = txg_slot txg"
  have t: "t < TXG_SIZE" by (simp add: t_def txg_slot_less)
  note r = txg_repD [OF assms t]
  show ?thesis
  proof (cases "p \<in> set (f t)")
    case True
    then obtain as bs where s: "f t = as @ p # bs" "p \<notin> set as" by (meson split_list_first)
    have "remove1 p (f t) = as @ bs" using s by (simp add: remove1_append)
    then show ?thesis
      using unlinked_rep [OF assms t s(1)] remove_this_loop_found [of l t Tl_Head as p bs] r(1) s True
      by (auto simp: txg_list_remove_this_def t_def)
  next
    case False
    have "f(t := remove1 p (f t)) = f" using False by (auto simp: remove1_idem)
    then show ?thesis
      using remove_this_loop_absent [of l t Tl_Head "f t" p] r(1) False assms by (simp add: txg_list_remove_this_def t_def)
  qed
qed

lemma next_rep:
  assumes "txg_rep l f" "f (txg_slot txg) = as @ p # bs"
  shows "txg_list_next l p txg = (case bs of [] \<Rightarrow> None | x # _ \<Rightarrow> Some x)"
  using txg_repD(1) [OF assms(1) txg_slot_less, of txg] assms(2)
  by (auto simp: txg_list_next_def chain_append [of _ _ _ as] split: list.splits)


lemma read_rep:
  assumes "txg_rep l f"
  shows "(txg_list_member l p txg \<longleftrightarrow> p \<in> set (f (txg_slot txg))) \<and>
    (txg_list_empty l txg \<longleftrightarrow> f (txg_slot txg) = []) \<and>
    txg_list_head l txg = (case f (txg_slot txg) of [] \<Rightarrow> None | x # xs \<Rightarrow> Some x)"
  using txg_repD(1) [OF assms txg_slot_less, of txg] txg_repD(3) [OF assms txg_slot_less, of p txg]
  by (auto simp: txg_list_member_def txg_list_empty_def txg_list_head_def split: list.splits)

text \<open>A new list over nodes that are on no list.\<close>

lemma create_rep:
  assumes "\<And>p. tn_member (nodes p) = replicate TXG_SIZE False" "\<And>p. length (tn_next (nodes p)) = TXG_SIZE"
  shows "txg_rep (txg_list_create nodes) (\<lambda>_. [])"
  using assms by (simp add: txg_rep_def txg_list_create_def)

section \<open>Properties\<close>

text \<open>
  C25. The transaction group lists are lists: if the heads and the nodes' links represent one list of
  distinct objects for each of the four slots, then adding an object tells whether it was on the
  slot's list and puts it in front if not; removing takes the head off; removing an object takes it
  out wherever it is; membership, emptiness, head and successor are those of the list; and the other
  slots' lists are left as they were.
\<close>

theorem txg_list_refines:
  assumes "txg_rep l f"
  shows "(fst (txg_list_add l p txg) \<longleftrightarrow> p \<in> set (f (txg_slot txg))) \<and>
    txg_rep (snd (txg_list_add l p txg)) (if p \<in> set (f (txg_slot txg)) then f else f(txg_slot txg := p # f (txg_slot txg))) \<and>
    fst (txg_list_remove l txg) = (case f (txg_slot txg) of [] \<Rightarrow> None | x # xs \<Rightarrow> Some x) \<and>
    txg_rep (snd (txg_list_remove l txg)) (f(txg_slot txg := tl (f (txg_slot txg)))) \<and>
    (\<exists>l'. txg_list_remove_this l p txg = Some (if p \<in> set (f (txg_slot txg)) then Some p else None, l') \<and>
      txg_rep l' (f(txg_slot txg := remove1 p (f (txg_slot txg))))) \<and>
    (txg_list_member l p txg \<longleftrightarrow> p \<in> set (f (txg_slot txg))) \<and>
    (txg_list_empty l txg \<longleftrightarrow> f (txg_slot txg) = []) \<and>
    txg_list_head l txg = (case f (txg_slot txg) of [] \<Rightarrow> None | x # xs \<Rightarrow> Some x) \<and>
    (f (txg_slot txg) = as @ p # bs \<longrightarrow> txg_list_next l p txg = (case bs of [] \<Rightarrow> None | x # _ \<Rightarrow> Some x))"
  using add_rep [OF assms] remove_rep [OF assms] remove_this_rep [OF assms] next_rep [OF assms]
    read_rep [OF assms] by blast

theorem txg_list_refines_witness:
  "let l = txg_list_create (\<lambda>_ :: nat. \<lparr>tn_next = replicate 4 None, tn_member = replicate 4 False\<rparr>)
   in txg_rep (snd (txg_list_add l 7 5)) ((\<lambda>_. [])(txg_slot 5 := [7]))"
proof -
  let ?l = "txg_list_create (\<lambda>_ :: nat. \<lparr>tn_next = replicate 4 None, tn_member = replicate 4 False\<rparr>)"
  have "txg_rep ?l (\<lambda>_. [])" by (rule create_rep) (simp_all add: TXG_SIZE_def)
  then show ?thesis using txg_list_refines [of ?l "\<lambda>_. []" 7 5] by simp
qed

end
