(* ===== verification/Metaslab.thy ===== *)
theory Metaslab
  imports Metaslab_Ff Txg_List "HOL-Library.Monad_Syntax"
begin

text \<open>
  Metaslabs, their groups and the class of groups (\<^verbatim>\<open>uts/common/fs/zfs/metaslab.c\<close>,
  \<^verbatim>\<open>sys/metaslab_impl.h\<close>, and of \<^verbatim>\<open>vdev.c\<close> the space accounting and the dirty lists they call).

  The state is a pool: its top-level vdevs, each with its metaslabs, its group of metaslabs and its
  statistics, and the object set.  A metaslab is known by its number in the vdev, a group by the
  number of its vdev.  The calls into the DMU are arguments.  The locks are not modelled: each
  function is a step of its own, and what other threads do comes between the steps.
\<close>

unbundle bit_operations_syntax

section \<open>Data\<close>

type_synonym ff_map = "u64 list space_map"

record metaslab =
  ms_smo :: space_map_obj
  ms_smo_syncing :: space_map_obj
  ms_allocmap :: "ff_map list"
  ms_freemap :: "ff_map list"
  ms_map :: ff_map
  ms_weight :: u64
  ms_group :: bool

record metaslab_group =
  mg_metaslab_tree :: "nat avl_tree"
  mg_aliquot :: u64
  mg_bias :: u64
  mg_class :: bool
  mg_prev :: "nat option"
  mg_next :: "nat option"

record metaslab_class =
  mc_rotor :: "nat option"
  mc_allocated :: u64

record vdev_stat_t =
  vs_alloc :: u64
  vs_space :: u64
  vs_dspace :: u64

record vdev =
  vdev_id :: u64
  vdev_asize :: u64
  vdev_ashift :: u64
  vdev_children :: u64
  vdev_ms_shift :: u64
  vdev_ms_count :: u64
  vdev_ms_array :: u64
  vdev_deflate_ratio :: u64
  vdev_stat :: vdev_stat_t
  vdev_mg :: "metaslab_group option"
  vdev_ms :: "metaslab list"
  vdev_ms_list :: "nat txg_list"
  vdev_op_asize :: "u64 \<Rightarrow> u64"

record 'os spa =
  vdev_child :: "vdev list"
  root_stat :: vdev_stat_t
  spa_vdev_txg_list :: "nat txg_list"
  spa_normal_class :: metaslab_class
  spa_freeze_txg :: u64
  spa_sync_pass :: u64
  ub_version :: u64
  spa_meta_objset :: 'os

text \<open>The calls into the DMU: those of the space maps, a new object, and the header kept with an object.\<close>

record 'os mos =
  mos_dmu :: "'os dmu"
  dmu_object_alloc :: "'os \<Rightarrow> u64 \<times> 'os"
  dmu_bonus_write :: "'os \<Rightarrow> u64 \<Rightarrow> space_map_obj \<Rightarrow> 'os option"

definition TXG_CONCURRENT_STATES :: nat where
  "TXG_CONCURRENT_STATES = 3"

definition TXG_CLEAN :: "u64 \<Rightarrow> u64" where
  "TXG_CLEAN txg = txg - 1"

definition SPA_MINBLOCKSHIFT :: nat where
  "SPA_MINBLOCKSHIFT = 9"

definition SPA_MINBLOCKSIZE :: u64 where
  "SPA_MINBLOCKSIZE = push_bit SPA_MINBLOCKSHIFT 1"

definition metaslab_aliquot :: u64 where
  "metaslab_aliquot = push_bit 10 512"

section \<open>Classes and groups\<close>

definition metaslab_class_create :: metaslab_class where
  "metaslab_class_create = \<lparr>mc_rotor = None, mc_allocated = 0\<rparr>"

text \<open>A group is known by its vdev's number; a group that does not exist is a fault.\<close>

definition mg_get :: "'os spa \<Rightarrow> nat \<Rightarrow> metaslab_group option" where
  "mg_get spa v = (if v < length (vdev_child spa) then vdev_mg (vdev_child spa ! v) else None)"

definition mg_upd :: "nat \<Rightarrow> (metaslab_group \<Rightarrow> metaslab_group) \<Rightarrow> 'os spa \<Rightarrow> 'os spa" where
  "mg_upd v f spa = spa\<lparr>vdev_child := (vdev_child spa)[v := (vdev_child spa ! v)\<lparr>vdev_mg := map_option f (vdev_mg (vdev_child spa ! v))\<rparr>]\<rparr>"

definition mc_upd :: "(metaslab_class \<Rightarrow> metaslab_class) \<Rightarrow> 'os spa \<Rightarrow> 'os spa" where
  "mc_upd f spa = spa\<lparr>spa_normal_class := f (spa_normal_class spa)\<rparr>"

definition metaslab_class_add :: "'os spa \<Rightarrow> nat \<Rightarrow> 'os spa option" where
  "metaslab_class_add spa mg = do {
     g \<leftarrow> mg_get spa mg;
     if mg_class g then None else do {
       spa \<leftarrow> (case mc_rotor (spa_normal_class spa) of
                 None \<Rightarrow> Some (mg_upd mg (\<lambda>g. g\<lparr>mg_prev := Some mg, mg_next := Some mg\<rparr>) spa)
               | Some mgprev \<Rightarrow> do {
                   mgnext \<leftarrow> mg_get spa mgprev \<bind> mg_next;
                   Some (mg_upd mgnext (\<lambda>g. g\<lparr>mg_prev := Some mg\<rparr>)
                     (mg_upd mgprev (\<lambda>g. g\<lparr>mg_next := Some mg\<rparr>)
                       (mg_upd mg (\<lambda>g. g\<lparr>mg_prev := Some mgprev, mg_next := Some mgnext\<rparr>) spa)))
                 });
       Some (mg_upd mg (\<lambda>g. g\<lparr>mg_class := True\<rparr>) (mc_upd (\<lambda>mc. mc\<lparr>mc_rotor := Some mg\<rparr>) spa))
     }
   }"

definition metaslab_class_remove :: "'os spa \<Rightarrow> nat \<Rightarrow> 'os spa option" where
  "metaslab_class_remove spa mg = do {
     g \<leftarrow> mg_get spa mg;
     if \<not> mg_class g then None else do {
       mgprev \<leftarrow> mg_prev g;
       mgnext \<leftarrow> mg_next g;
       let spa = (if mg = mgnext then mc_upd (\<lambda>mc. mc\<lparr>mc_rotor := None\<rparr>) spa
                  else mg_upd mgnext (\<lambda>g. g\<lparr>mg_prev := Some mgprev\<rparr>)
                         (mg_upd mgprev (\<lambda>g. g\<lparr>mg_next := Some mgnext\<rparr>)
                           (mc_upd (\<lambda>mc. mc\<lparr>mc_rotor := Some mgnext\<rparr>) spa)));
       Some (mg_upd mg (\<lambda>g. g\<lparr>mg_prev := None, mg_next := None, mg_class := False\<rparr>) spa)
     }
   }"

definition metaslab_group_create :: "'os spa \<Rightarrow> nat \<Rightarrow> 'os spa option" where
  "metaslab_group_create spa v =
     (let vd = vdev_child spa ! v;
          mg = \<lparr>mg_metaslab_tree = avl_create, mg_aliquot = metaslab_aliquot * max 1 (vdev_children vd), mg_bias = 0,
                mg_class = False, mg_prev = None, mg_next = None\<rparr>
      in metaslab_class_add (spa\<lparr>vdev_child := (vdev_child spa)[v := vd\<lparr>vdev_mg := Some mg\<rparr>]\<rparr>) v)"

definition metaslab_group_destroy :: "'os spa \<Rightarrow> nat \<Rightarrow> 'os spa option" where
  "metaslab_group_destroy spa v = do {
     mg \<leftarrow> mg_get spa v;
     if avl_numnodes (mg_metaslab_tree mg) \<noteq> 0 then None
     else Some (spa\<lparr>vdev_child := (vdev_child spa)[v := (vdev_child spa ! v)\<lparr>vdev_mg := None\<rparr>]\<rparr>)
   }"

partial_function (option) metaslab_class_destroy :: "'os spa \<Rightarrow> 'os spa option" where
  "metaslab_class_destroy spa =
     (case mc_rotor (spa_normal_class spa) of
        None \<Rightarrow> Some spa
      | Some mg \<Rightarrow>
          Option.bind (metaslab_class_remove spa mg) (\<lambda>spa.
          Option.bind (metaslab_group_destroy spa mg) metaslab_class_destroy))"

declare metaslab_class_destroy.simps [code]

definition metaslab_compare :: "metaslab \<Rightarrow> metaslab \<Rightarrow> int" where
  "metaslab_compare m1 m2 =
     (if ms_weight m1 < ms_weight m2 then 1
      else if ms_weight m1 > ms_weight m2 then -1
      else if sm_start (ms_map m1) < sm_start (ms_map m2) then -1
      else if sm_start (ms_map m1) > sm_start (ms_map m2) then 1
      else 0)"

text \<open>The tree holds pointers, here the numbers of the vdev's metaslabs; the comparison reads what they point to.\<close>

definition ms_compare :: "metaslab list \<Rightarrow> nat \<Rightarrow> nat \<Rightarrow> int" where
  "ms_compare ms i j = metaslab_compare (ms ! i) (ms ! j)"

definition tree_remove :: "nat avl_tree \<Rightarrow> nat \<Rightarrow> nat avl_tree option" where
  "tree_remove tree m = map_option (avl_remove tree) (locate m [] (avl_root tree))"

definition metaslab_group_add :: "vdev \<Rightarrow> nat \<Rightarrow> vdev option" where
  "metaslab_group_add vd m = do {
     mg \<leftarrow> vdev_mg vd;
     let msp = vdev_ms vd ! m;
     if ms_group msp then None else do {
       let ms = (vdev_ms vd)[m := msp\<lparr>ms_group := True, ms_weight := 0\<rparr>];
       tree \<leftarrow> avl_add (ms_compare ms) (mg_metaslab_tree mg) m;
       Some (vd\<lparr>vdev_ms := ms, vdev_mg := Some (mg\<lparr>mg_metaslab_tree := tree\<rparr>)\<rparr>)
     }
   }"

definition metaslab_group_remove :: "vdev \<Rightarrow> nat \<Rightarrow> vdev option" where
  "metaslab_group_remove vd m = do {
     mg \<leftarrow> vdev_mg vd;
     let msp = vdev_ms vd ! m;
     if \<not> ms_group msp then None else do {
       tree \<leftarrow> tree_remove (mg_metaslab_tree mg) m;
       Some (vd\<lparr>vdev_ms := (vdev_ms vd)[m := msp\<lparr>ms_group := False\<rparr>], vdev_mg := Some (mg\<lparr>mg_metaslab_tree := tree\<rparr>)\<rparr>)
     }
   }"

definition metaslab_group_sort :: "vdev \<Rightarrow> nat \<Rightarrow> u64 \<Rightarrow> vdev option" where
  "metaslab_group_sort vd m weight = do {
     mg \<leftarrow> vdev_mg vd;
     let msp = vdev_ms vd ! m;
     if \<not> (weight \<ge> SPA_MINBLOCKSIZE - 1 \<or> weight = 0) \<or> \<not> ms_group msp then None else do {
       tree \<leftarrow> tree_remove (mg_metaslab_tree mg) m;
       let ms = (vdev_ms vd)[m := msp\<lparr>ms_weight := weight\<rparr>];
       tree \<leftarrow> avl_add (ms_compare ms) tree m;
       Some (vd\<lparr>vdev_ms := ms, vdev_mg := Some (mg\<lparr>mg_metaslab_tree := tree\<rparr>)\<rparr>)
     }
   }"


section \<open>Space accounting and dirty lists of the vdevs\<close>

text \<open>
  The space of a top-level vdev and of the root above it, which has no metaslabs.  The deltas are
  signed; the assertion on whole blocks is that of the top-level vdev.
\<close>

definition stat_add :: "u64 \<Rightarrow> u64 \<Rightarrow> u64 \<Rightarrow> vdev_stat_t \<Rightarrow> vdev_stat_t" where
  "stat_add space_delta alloc_delta dspace_delta vs =
     vs\<lparr>vs_space := vs_space vs + space_delta, vs_alloc := vs_alloc vs + alloc_delta, vs_dspace := vs_dspace vs + dspace_delta\<rparr>"

definition vdev_space_update :: "vdev \<Rightarrow> vdev_stat_t \<Rightarrow> u64 \<Rightarrow> u64 \<Rightarrow> (vdev \<times> vdev_stat_t) option" where
  "vdev_space_update vd root space_delta alloc_delta =
     (if vdev_ms_count vd \<noteq> 0 \<and> space_delta AND (SPA_MINBLOCKSIZE - 1) \<noteq> 0 then None
      else let dspace_delta = (if vdev_ms_count vd \<noteq> 0
                 then signed_drop_bit SPA_MINBLOCKSHIFT space_delta * vdev_deflate_ratio vd else space_delta)
           in Some (vd\<lparr>vdev_stat := stat_add space_delta alloc_delta dspace_delta (vdev_stat vd)\<rparr>,
                    stat_add space_delta alloc_delta dspace_delta root))"

text \<open>\<^verbatim>\<open>vdev_dirty\<close> with the flag for a metaslab, or without a flag.\<close>

definition vdev_dirty :: "'os spa \<Rightarrow> nat \<Rightarrow> nat option \<Rightarrow> u64 \<Rightarrow> 'os spa" where
  "vdev_dirty spa v msp txg =
     (let vd = vdev_child spa ! v;
          spa = (case msp of
                   None \<Rightarrow> spa
                 | Some m \<Rightarrow> spa\<lparr>vdev_child := (vdev_child spa)[v := vd\<lparr>vdev_ms_list := snd (txg_list_add (vdev_ms_list vd) m txg)\<rparr>]\<rparr>)
      in spa\<lparr>spa_vdev_txg_list := snd (txg_list_add (spa_vdev_txg_list spa) v txg)\<rparr>)"

section \<open>Weights\<close>

definition METASLAB_WEIGHT_PRIMARY :: u64 where
  "METASLAB_WEIGHT_PRIMARY = push_bit 63 1"

definition METASLAB_WEIGHT_SECONDARY :: u64 where
  "METASLAB_WEIGHT_SECONDARY = push_bit 62 1"

definition METASLAB_ACTIVE_MASK :: u64 where
  "METASLAB_ACTIVE_MASK = METASLAB_WEIGHT_PRIMARY OR METASLAB_WEIGHT_SECONDARY"

definition METASLAB_SMO_BONUS_MULTIPLIER :: u64 where
  "METASLAB_SMO_BONUS_MULTIPLIER = 2"

definition metaslab_weight :: "vdev \<Rightarrow> metaslab \<Rightarrow> u64 option" where
  "metaslab_weight vd msp =
     (let sm = ms_map msp; smo = ms_smo msp;
          space = sm_size sm - smo_alloc smo
      in if vdev_ms_count vd = 0 then None
         else let weight = 2 * space - (drop_bit (unat (vdev_ms_shift vd)) (sm_start sm) * space) div vdev_ms_count vd
           in if \<not> (weight \<ge> space \<and> weight \<le> 2 * space) then None
              else let weight = (if smo_object smo \<noteq> 0 then weight * METASLAB_SMO_BONUS_MULTIPLIER else weight)
                in if \<not> (weight \<ge> space \<and> weight \<le> 2 * METASLAB_SMO_BONUS_MULTIPLIER * space) then None
                   else Some (weight OR (ms_weight msp AND METASLAB_ACTIVE_MASK)))"

text \<open>\<^verbatim>\<open>space_map_load\<close> never fails with an error, so the branch for an error is not taken.\<close>

definition metaslab_activate :: "'os mos \<Rightarrow> 'os \<Rightarrow> vdev \<Rightarrow> nat \<Rightarrow> u64 \<Rightarrow> vdev option" where
  "metaslab_activate mos os vd m activation_weight = do {
     let msp = vdev_ms vd ! m;
     vd \<leftarrow> (if ms_weight msp AND METASLAB_ACTIVE_MASK = 0 then do {
               sm \<leftarrow> space_map_load (mos_dmu mos) os (ms_map msp) (Some metaslab_ff_ops) SM_FREE (ms_smo msp);
               metaslab_group_sort (vd\<lparr>vdev_ms := (vdev_ms vd)[m := msp\<lparr>ms_map := sm\<rparr>]\<rparr>) m (ms_weight msp OR activation_weight)
             }
             else Some vd);
     if sm_loaded (ms_map (vdev_ms vd ! m)) \<and> ms_weight (vdev_ms vd ! m) AND METASLAB_ACTIVE_MASK \<noteq> 0 then Some vd else None
   }"

definition metaslab_passivate :: "vdev \<Rightarrow> nat \<Rightarrow> u64 \<Rightarrow> vdev option" where
  "metaslab_passivate vd m sz = do {
     let msp = vdev_ms vd ! m;
     if \<not> (sz \<ge> SPA_MINBLOCKSIZE \<or> sm_space (ms_map msp) = 0) then None else do {
       vd \<leftarrow> metaslab_group_sort vd m (min (ms_weight msp) sz);
       if ms_weight (vdev_ms vd ! m) AND METASLAB_ACTIVE_MASK = 0 then Some vd else None
     }
   }"

section \<open>Syncing\<close>

text \<open>The object of a metaslab that has none yet, and its entry in the vdev's array of objects.\<close>

definition sync_object :: "'os mos \<Rightarrow> vdev \<Rightarrow> metaslab \<Rightarrow> 'os \<Rightarrow> (space_map_obj \<times> 'os) option" where
  "sync_object mos vd msp os =
     (let smo = ms_smo_syncing msp
      in if smo_object smo = 0 then
           (if smo_objsize smo \<noteq> 0 \<or> smo_alloc smo \<noteq> 0 then None
            else case dmu_object_alloc mos os of (object, os) \<Rightarrow>
              if object = 0 then None
              else Some (smo\<lparr>smo_object := object\<rparr>,
                dmu_write (mos_dmu mos) os (vdev_ms_array vd) (8 * drop_bit (unat (vdev_ms_shift vd)) (sm_start (ms_map msp))) 8 [object]))
         else Some (smo, os))"

text \<open>The map of allocations from first principles: everything but what is free, freed, or of a later group.\<close>

definition condense :: "metaslab \<Rightarrow> u64 \<Rightarrow> ff_map \<Rightarrow> ff_map \<Rightarrow> ff_map option" where
  "condense msp txg allocmap freed_map = do {
     (allocmap, _) \<leftarrow> space_map_vacate allocmap None ();
     allocmap \<leftarrow> space_map_add allocmap (sm_start allocmap) (sm_size allocmap);
     allocmap \<leftarrow> space_map_walk (ms_map msp) space_map_remove allocmap;
     allocmap \<leftarrow> space_map_walk freed_map space_map_remove allocmap;
     fold_opt (\<lambda>allocmap t. space_map_walk (ms_allocmap msp ! txg_slot (txg + of_nat t)) space_map_remove allocmap)
       [1..<TXG_CONCURRENT_STATES] allocmap
   }"

text \<open>The product of a \<^verbatim>\<open>size_t\<close> and a \<^verbatim>\<open>ulong_t\<close> has 32 bits.\<close>

definition metaslab_sync :: "'os mos \<Rightarrow> u64 \<Rightarrow> vdev \<Rightarrow> metaslab \<Rightarrow> u64 \<Rightarrow> 'os \<Rightarrow> (metaslab \<times> 'os) option" where
  "metaslab_sync mos syncpass vd msp txg os = do {
     let sm = ms_map msp;
     let allocmap = ms_allocmap msp ! txg_slot txg;
     let freemap = ms_freemap msp ! txg_slot txg;
     let freed_map = ms_freemap msp ! txg_slot (TXG_CLEAN txg);
     (smo, os) \<leftarrow> sync_object mos vd msp os;
     freed_map \<leftarrow> space_map_walk freemap space_map_add freed_map;
     (allocmap, freemap, smo, os) \<leftarrow>
       (if sm_loaded sm \<and> syncpass = 1 \<and> smo_objsize smo \<ge> ucast (2 * 8 * of_nat (avl_numnodes (sm_root sm)) :: u32) then do {
          allocmap \<leftarrow> condense msp txg allocmap freed_map;
          (freemap, _) \<leftarrow> space_map_vacate freemap None ();
          (smo, os) \<leftarrow> space_map_truncate (mos_dmu mos) smo os;
          Some (allocmap, freemap, smo, os)
        }
        else Some (allocmap, freemap, smo, os));
     (allocmap, smo, os) \<leftarrow> space_map_sync (mos_dmu mos) syncpass txg allocmap SM_ALLOC smo os;
     (freemap, smo, os) \<leftarrow> space_map_sync (mos_dmu mos) syncpass txg freemap SM_FREE smo os;
     os \<leftarrow> dmu_bonus_write mos os (smo_object smo) smo;
     Some (msp\<lparr>ms_smo_syncing := smo, ms_allocmap := (ms_allocmap msp)[txg_slot txg := allocmap],
               ms_freemap := (ms_freemap msp)[txg_slot (TXG_CLEAN txg) := freed_map, txg_slot txg := freemap]\<rparr>, os)
   }"

text \<open>What \<^verbatim>\<open>metaslab_sync_done\<close> does to the maps, between the accounting and the new weight.\<close>

definition sync_done_create :: "metaslab \<Rightarrow> metaslab" where
  "sync_done_create msp =
     (let sm = ms_map msp
      in msp\<lparr>ms_allocmap := replicate TXG_SIZE (space_map_create (sm_start sm) (sm_size sm) (sm_shift sm)),
             ms_freemap := replicate TXG_SIZE (space_map_create (sm_start sm) (sm_size sm) (sm_shift sm))\<rparr>)"

definition sync_done_maps :: "metaslab \<Rightarrow> u64 \<Rightarrow> metaslab option" where
  "sync_done_maps msp txg = do {
     if sm_space (ms_allocmap msp ! txg_slot txg) \<noteq> 0 \<or> sm_space (ms_freemap msp ! txg_slot txg) \<noteq> 0 then None else do {
       sm \<leftarrow> space_map_load_wait (ms_map msp);
       (freed_map, sm) \<leftarrow>
         space_map_vacate (ms_freemap msp ! txg_slot (TXG_CLEAN txg)) (if sm_loaded sm then Some space_map_free else None) sm;
       let msp = msp\<lparr>ms_freemap := (ms_freemap msp)[txg_slot (TXG_CLEAN txg) := freed_map], ms_smo := ms_smo_syncing msp\<rparr>;
       let evictable = list_all (\<lambda>t. sm_space (ms_allocmap msp ! txg_slot (txg + of_nat t)) = 0) [1..<TXG_CONCURRENT_STATES];
       sm \<leftarrow> (if sm_loaded sm \<and> ms_weight msp AND METASLAB_ACTIVE_MASK = 0 \<and> evictable then space_map_unload sm else Some sm);
       Some (msp\<lparr>ms_map := sm\<rparr>)
     }
   }"

definition metaslab_sync_done :: "vdev \<Rightarrow> vdev_stat_t \<Rightarrow> nat \<Rightarrow> u64 \<Rightarrow> (vdev \<times> vdev_stat_t) option" where
  "metaslab_sync_done vd root m txg = do {
     let msp = vdev_ms vd ! m;
     (msp, vd, root) \<leftarrow>
       (if sm_size (ms_freemap msp ! txg_slot (TXG_CLEAN txg)) = 0
        then map_option (Pair (sync_done_create msp)) (vdev_space_update vd root (sm_size (ms_map msp)) 0)
        else Some (msp, vd, root));
     (vd, root) \<leftarrow> vdev_space_update vd root 0 (smo_alloc (ms_smo_syncing msp) - smo_alloc (ms_smo msp));
     msp \<leftarrow> sync_done_maps msp txg;
     weight \<leftarrow> metaslab_weight vd msp;
     vd \<leftarrow> metaslab_group_sort (vd\<lparr>vdev_ms := (vdev_ms vd)[m := msp]\<rparr>) m weight;
     Some (vd, root)
   }"

section \<open>Metaslabs\<close>

text \<open>
  A new metaslab is the next of the vdev's; its allocmaps and freemaps are zero until
  \<^verbatim>\<open>metaslab_sync_done\<close> creates them.
\<close>

definition metaslab_zero :: "space_map_obj \<Rightarrow> ff_map \<Rightarrow> metaslab" where
  "metaslab_zero smo sm =
     \<lparr>ms_smo = \<lparr>smo_object = 0, smo_objsize = 0, smo_alloc = 0\<rparr>, ms_smo_syncing = smo,
      ms_allocmap = replicate TXG_SIZE (space_map_create 0 0 0), ms_freemap = replicate TXG_SIZE (space_map_create 0 0 0),
      ms_map = sm, ms_weight = 0, ms_group = False\<rparr>"

definition metaslab_init :: "'os spa \<Rightarrow> nat \<Rightarrow> space_map_obj \<Rightarrow> u64 \<Rightarrow> u64 \<Rightarrow> u64 \<Rightarrow> 'os spa option" where
  "metaslab_init spa v smo start sz txg = do {
     let vd = vdev_child spa ! v;
     let m = length (vdev_ms vd);
     let msp = metaslab_zero smo (space_map_create start sz (ucast (vdev_ashift vd)));
     vd \<leftarrow> metaslab_group_add (vd\<lparr>vdev_ms := vdev_ms vd @ [msp]\<rparr>) m;
     (vd, root) \<leftarrow> (if txg \<le> TXG_INITIAL then metaslab_sync_done vd (root_stat spa) m 0 else Some (vd, root_stat spa));
     let spa = spa\<lparr>vdev_child := (vdev_child spa)[v := vd], root_stat := root\<rparr>;
     Some (if txg \<noteq> 0 then vdev_dirty (vdev_dirty spa v None txg) v (Some m) (TXG_CLEAN txg) else spa)
   }"

text \<open>The maps must be empty when they are destroyed.\<close>

definition metaslab_fini :: "vdev \<Rightarrow> vdev_stat_t \<Rightarrow> nat \<Rightarrow> (vdev \<times> vdev_stat_t) option" where
  "metaslab_fini vd root m = do {
     let msp = vdev_ms vd ! m;
     (vd, root) \<leftarrow> vdev_space_update vd root (- sm_size (ms_map msp)) (- smo_alloc (ms_smo msp));
     vd \<leftarrow> metaslab_group_remove vd m;
     sm \<leftarrow> space_map_unload (ms_map msp);
     space_map_destroy sm;
     fold_opt (\<lambda>_ t. space_map_destroy (ms_allocmap msp ! t) \<bind> (\<lambda>_. space_map_destroy (ms_freemap msp ! t))) [0..<TXG_SIZE] ();
     Some (vd, root)
   }"

section \<open>The tree of a group\<close>

interpretation msc: avl_order "ms_compare ms" for ms
  by unfold_locales (auto simp: ms_compare_def metaslab_compare_def split: if_splits)

lemma in_order_cong:
  "(\<And>x y. x \<in> set xs \<Longrightarrow> y \<in> set xs \<Longrightarrow> c x y = c' x y) \<Longrightarrow> in_order c xs = in_order c' xs"
  unfolding in_order_def by (induction xs) auto

text \<open>
  A group is well formed when its tree is balanced, ordered by the metaslabs' weights and offsets, and
  holds the metaslabs that are in the group, and no two metaslabs start at the same offset.
\<close>

definition group_ok :: "vdev \<Rightarrow> bool" where
  "group_ok vd \<longleftrightarrow> (\<exists>mg. vdev_mg vd = Some mg \<and> tree_ok (mg_metaslab_tree mg) \<and>
     in_order (ms_compare (vdev_ms vd)) (data (mg_metaslab_tree mg)) \<and>
     set (data (mg_metaslab_tree mg)) = {m. m < length (vdev_ms vd) \<and> ms_group (vdev_ms vd ! m)}) \<and>
   inj_on (\<lambda>m. sm_start (ms_map (vdev_ms vd ! m))) {..<length (vdev_ms vd)}"

text \<open>A vdev with other metaslabs and another tree in its group.\<close>

definition with_tree :: "metaslab list \<Rightarrow> nat avl_tree \<Rightarrow> vdev \<Rightarrow> vdev" where
  "with_tree ms t vd = vd\<lparr>vdev_ms := ms, vdev_mg := map_option (\<lambda>mg. mg\<lparr>mg_metaslab_tree := t\<rparr>) (vdev_mg vd)\<rparr>"

text \<open>What the group reads of a metaslab.\<close>

definition ms_key :: "metaslab \<Rightarrow> u64 \<times> u64 \<times> bool" where
  "ms_key msp = (ms_weight msp, sm_start (ms_map msp), ms_group msp)"

lemma ms_compare_key: "map ms_key ms = map ms_key ms' \<Longrightarrow> i < length ms \<Longrightarrow> j < length ms \<Longrightarrow> ms_compare ms i j = ms_compare ms' i j"
proof -
  assume a: "map ms_key ms = map ms_key ms'" "i < length ms" "j < length ms"
  then have "length ms = length ms'" by (metis length_map)
  then have "ms_key (ms ! i) = ms_key (ms' ! i)" "ms_key (ms ! j) = ms_key (ms' ! j)"
    using a nth_map [of _ ms ms_key] nth_map [of _ ms' ms_key] by metis+
  then show ?thesis by (simp add: ms_compare_def metaslab_compare_def ms_key_def)
qed

lemma group_ok_cong:
  assumes "group_ok vd" "map ms_key (vdev_ms vd') = map ms_key (vdev_ms vd)" "vdev_mg vd' = vdev_mg vd"
  shows "group_ok vd'"
proof -
  have l: "length (vdev_ms vd') = length (vdev_ms vd)" using assms(2) by (metis length_map)
  have k: "ms_key (vdev_ms vd' ! i) = ms_key (vdev_ms vd ! i)" if "i < length (vdev_ms vd)" for i
    using that assms(2) l nth_map [of i _ ms_key] by metis
  obtain mg where mg: "vdev_mg vd = Some mg" "tree_ok (mg_metaslab_tree mg)"
    "in_order (ms_compare (vdev_ms vd)) (data (mg_metaslab_tree mg))"
    "set (data (mg_metaslab_tree mg)) = {m. m < length (vdev_ms vd) \<and> ms_group (vdev_ms vd ! m)}"
    using assms(1) by (auto simp: group_ok_def)
  have "in_order (ms_compare (vdev_ms vd')) (data (mg_metaslab_tree mg))"
    using mg(3) in_order_cong [of "data (mg_metaslab_tree mg)" "ms_compare (vdev_ms vd')" "ms_compare (vdev_ms vd)"]
      ms_compare_key [OF assms(2)] mg(4) l by simp
  moreover have "{m. m < length (vdev_ms vd) \<and> ms_group (vdev_ms vd ! m)} = {m. m < length (vdev_ms vd') \<and> ms_group (vdev_ms vd' ! m)}"
    using k l by (auto simp: ms_key_def)
  moreover have "inj_on (\<lambda>m. sm_start (ms_map (vdev_ms vd' ! m))) {..<length (vdev_ms vd')}"
    using assms(1) k l by (auto simp: group_ok_def ms_key_def inj_on_def)
  ultimately show ?thesis using mg assms(3) by (auto simp: group_ok_def)
qed

lemma tree_remove_ok:
  assumes "tree_ok tree" "in_order (ms_compare ms) (data tree)" "m \<in> set (data tree)"
  shows "\<exists>tree'. tree_remove tree m = Some tree' \<and> tree_ok tree' \<and> in_order (ms_compare ms) (data tree') \<and>
    set (data tree') = set (data tree) - {m}"
proof -
  obtain p where p: "locate m [] (avl_root tree) = Some p" "node_of tree p" "dat (snd p) = m"
    using locate_ok [of m "avl_root tree" "[]"] assms(3) by (auto simp: node_of_def rebuild_def)
  then show ?thesis using msc.remove_in_order [OF assms(1,2) p(2)] by (auto simp: tree_remove_def)
qed

lemma tree_add_ok:
  assumes "tree_ok tree" "in_order (ms_compare ms) (data tree)" "\<forall>i \<in> set (data tree). sm_start (ms_map (ms ! m)) \<noteq> sm_start (ms_map (ms ! i))"
  shows "\<exists>tree'. avl_add (ms_compare ms) tree m = Some tree' \<and> tree_ok tree' \<and> in_order (ms_compare ms) (data tree') \<and>
    set (data tree') = insert m (set (data tree))"
proof -
  have "\<not> (\<exists>y \<in> set (data tree). ms_compare ms m y = 0)"
    using assms(3) by (auto simp: ms_compare_def metaslab_compare_def split: if_splits)
  then show ?thesis
    using msc.add_in_order(1) [OF assms(1,2), of m] msc.add_in_order(2) [OF assms(1,2), of m] by auto
qed

lemma compare_update:
  "m \<notin> set xs \<Longrightarrow> in_order (ms_compare (ms[m := x])) xs = in_order (ms_compare ms) xs"
  by (rule in_order_cong) (metis ms_compare_def nth_list_update_neq)

lemma sort_ok:
  assumes "group_ok vd" "m < length (vdev_ms vd)" "ms_group (vdev_ms vd ! m)" "weight \<ge> SPA_MINBLOCKSIZE - 1 \<or> weight = 0"
  shows "\<exists>t. metaslab_group_sort vd m weight =
      Some (with_tree ((vdev_ms vd)[m := (vdev_ms vd ! m)\<lparr>ms_weight := weight\<rparr>]) t vd) \<and>
    group_ok (with_tree ((vdev_ms vd)[m := (vdev_ms vd ! m)\<lparr>ms_weight := weight\<rparr>]) t vd)"
proof -
  let ?ms = "(vdev_ms vd)[m := (vdev_ms vd ! m)\<lparr>ms_weight := weight\<rparr>]"
  obtain mg where mg: "vdev_mg vd = Some mg" "tree_ok (mg_metaslab_tree mg)"
    "in_order (ms_compare (vdev_ms vd)) (data (mg_metaslab_tree mg))"
    "set (data (mg_metaslab_tree mg)) = {m. m < length (vdev_ms vd) \<and> ms_group (vdev_ms vd ! m)}"
    and inj: "inj_on (\<lambda>m. sm_start (ms_map (vdev_ms vd ! m))) {..<length (vdev_ms vd)}"
    using assms(1) by (auto simp: group_ok_def)
  obtain t1 where t1: "tree_remove (mg_metaslab_tree mg) m = Some t1" "tree_ok t1"
    "in_order (ms_compare (vdev_ms vd)) (data t1)" "set (data t1) = set (data (mg_metaslab_tree mg)) - {m}"
    using tree_remove_ok [OF mg(2,3), of m] mg(4) assms(2,3) by auto
  have o1: "in_order (ms_compare ?ms) (data t1)" using t1(3,4) compare_update [of m "data t1"] by simp
  have st: "sm_start (ms_map (?ms ! i)) = sm_start (ms_map (vdev_ms vd ! i))" "ms_group (?ms ! i) = ms_group (vdev_ms vd ! i)"
    if "i < length (vdev_ms vd)" for i using that assms(2) by (cases "i = m"; simp)+
  have "\<forall>i \<in> set (data t1). sm_start (ms_map (?ms ! m)) \<noteq> sm_start (ms_map (?ms ! i))"
    using t1(4) mg(4) st inj assms(2) by (auto simp: inj_on_def)
  from tree_add_ok [OF t1(2) o1 this] obtain t2 where t2: "avl_add (ms_compare ?ms) t1 m = Some t2" "tree_ok t2"
    "in_order (ms_compare ?ms) (data t2)" "set (data t2) = insert m (set (data t1))" by auto
  have s: "set (data t2) = {i. i < length ?ms \<and> ms_group (?ms ! i)}"
    using t2(4) t1(4) mg(4) assms(2,3) st(2) by auto
  have "inj_on (\<lambda>m. sm_start (ms_map (?ms ! m))) {..<length ?ms}" using inj st(1) by (auto simp: inj_on_def)
  then show ?thesis
    using t2 s mg(1) t1(1) assms(3,4)
    by (intro exI [of _ t2]) (auto simp: with_tree_def metaslab_group_sort_def group_ok_def Let_def)
qed


lemma group_add_ok:
  assumes "group_ok vd" "m < length (vdev_ms vd)" "\<not> ms_group (vdev_ms vd ! m)"
  shows "\<exists>t. metaslab_group_add vd m =
      Some (with_tree ((vdev_ms vd)[m := (vdev_ms vd ! m)\<lparr>ms_group := True, ms_weight := 0\<rparr>]) t vd) \<and>
    group_ok (with_tree ((vdev_ms vd)[m := (vdev_ms vd ! m)\<lparr>ms_group := True, ms_weight := 0\<rparr>]) t vd)"
proof -
  let ?ms = "(vdev_ms vd)[m := (vdev_ms vd ! m)\<lparr>ms_group := True, ms_weight := 0\<rparr>]"
  obtain mg where mg: "vdev_mg vd = Some mg" "tree_ok (mg_metaslab_tree mg)"
    "in_order (ms_compare (vdev_ms vd)) (data (mg_metaslab_tree mg))"
    "set (data (mg_metaslab_tree mg)) = {m. m < length (vdev_ms vd) \<and> ms_group (vdev_ms vd ! m)}"
    and inj: "inj_on (\<lambda>m. sm_start (ms_map (vdev_ms vd ! m))) {..<length (vdev_ms vd)}"
    using assms(1) by (auto simp: group_ok_def)
  have o1: "in_order (ms_compare ?ms) (data (mg_metaslab_tree mg))" using mg(3,4) assms(3) compare_update [of m] by simp
  have st: "sm_start (ms_map (?ms ! i)) = sm_start (ms_map (vdev_ms vd ! i))" if "i < length (vdev_ms vd)" for i
    using that assms(2) by (cases "i = m"; simp)
  have "\<forall>i \<in> set (data (mg_metaslab_tree mg)). sm_start (ms_map (?ms ! m)) \<noteq> sm_start (ms_map (?ms ! i))"
    using mg(4) st inj assms(2,3) by (auto simp: inj_on_def)
  from tree_add_ok [OF mg(2) o1 this] obtain t2 where t2: "avl_add (ms_compare ?ms) (mg_metaslab_tree mg) m = Some t2" "tree_ok t2"
    "in_order (ms_compare ?ms) (data t2)" "set (data t2) = insert m (set (data (mg_metaslab_tree mg)))" by auto
  have s: "set (data t2) = {i. i < length ?ms \<and> ms_group (?ms ! i)}"
    using t2(4) mg(4) assms(2,3) by (auto simp: nth_list_update split: if_splits)
  have "inj_on (\<lambda>m. sm_start (ms_map (?ms ! m))) {..<length ?ms}" using inj st(1) by (auto simp: inj_on_def)
  then show ?thesis
    using t2 s mg(1) assms(3)
    by (intro exI [of _ t2]) (auto simp: with_tree_def metaslab_group_add_def group_ok_def Let_def)
qed

lemma group_remove_ok:
  assumes "group_ok vd" "m < length (vdev_ms vd)" "ms_group (vdev_ms vd ! m)"
  shows "\<exists>t. metaslab_group_remove vd m =
      Some (with_tree ((vdev_ms vd)[m := (vdev_ms vd ! m)\<lparr>ms_group := False\<rparr>]) t vd) \<and>
    group_ok (with_tree ((vdev_ms vd)[m := (vdev_ms vd ! m)\<lparr>ms_group := False\<rparr>]) t vd)"
proof -
  let ?ms = "(vdev_ms vd)[m := (vdev_ms vd ! m)\<lparr>ms_group := False\<rparr>]"
  obtain mg where mg: "vdev_mg vd = Some mg" "tree_ok (mg_metaslab_tree mg)"
    "in_order (ms_compare (vdev_ms vd)) (data (mg_metaslab_tree mg))"
    "set (data (mg_metaslab_tree mg)) = {m. m < length (vdev_ms vd) \<and> ms_group (vdev_ms vd ! m)}"
    and inj: "inj_on (\<lambda>m. sm_start (ms_map (vdev_ms vd ! m))) {..<length (vdev_ms vd)}"
    using assms(1) by (auto simp: group_ok_def)
  obtain t1 where t1: "tree_remove (mg_metaslab_tree mg) m = Some t1" "tree_ok t1"
    "in_order (ms_compare (vdev_ms vd)) (data t1)" "set (data t1) = set (data (mg_metaslab_tree mg)) - {m}"
    using tree_remove_ok [OF mg(2,3), of m] mg(4) assms(2,3) by auto
  have o1: "in_order (ms_compare ?ms) (data t1)" using t1(3,4) compare_update [of m "data t1"] by simp
  have st: "sm_start (ms_map (?ms ! i)) = sm_start (ms_map (vdev_ms vd ! i))" if "i < length (vdev_ms vd)" for i
    using that assms(2) by (cases "i = m"; simp)
  have s: "set (data t1) = {i. i < length ?ms \<and> ms_group (?ms ! i)}"
    using t1(4) mg(4) assms(2,3) by (auto simp: nth_list_update split: if_splits)
  have "inj_on (\<lambda>m. sm_start (ms_map (?ms ! m))) {..<length ?ms}" using inj st(1) by (auto simp: inj_on_def)
  then show ?thesis
    using t1 o1 s mg(1) assms(3)
    by (intro exI [of _ t1]) (auto simp: with_tree_def metaslab_group_remove_def group_ok_def Let_def)
qed

section \<open>Bounds on the weights\<close>

lemma weight_masks:
  "METASLAB_WEIGHT_PRIMARY = 0x8000000000000000" "METASLAB_WEIGHT_SECONDARY = 0x4000000000000000"
  "METASLAB_ACTIVE_MASK = 0xC000000000000000"
  by (simp_all add: METASLAB_ACTIVE_MASK_def METASLAB_WEIGHT_PRIMARY_def METASLAB_WEIGHT_SECONDARY_def)

lemma weight_nat:
  fixes s x c :: u64
  assumes "unat s < 2 ^ 60" "x < c" "unat x * unat s < 2 ^ 64"
  defines "w \<equiv> 2 * s - (x * s) div c"
  shows "s \<le> w" "w \<le> 2 * s" "unat (2 * s) = 2 * unat s" "unat s \<le> unat w" "unat w \<le> 2 * unat s"
proof -
  have u2: "unat (2 * s) = 2 * unat s" using assms(1) by (simp add: unat_word_ariths)
  then show "unat (2 * s) = 2 * unat s" .
  have xs: "unat (x * s) = unat x * unat s" using assms(3) by (simp add: unat_word_ariths)
  have c: "unat x < unat c" using assms(2) by (simp add: word_less_nat_alt)
  then have "unat x * unat s div unat c \<le> unat c * unat s div unat c" by (intro div_le_mono mult_le_mono1) simp
  also have "\<dots> = unat s" using c by simp
  finally have d: "unat ((x * s) div c) \<le> unat s" by (simp add: unat_div xs)
  then have "(x * s) div c \<le> 2 * s" by (simp add: word_le_nat_alt u2)
  then have uw: "unat w = 2 * unat s - unat ((x * s) div c)" by (simp add: w_def unat_sub u2)
  then show "unat s \<le> unat w" "unat w \<le> 2 * unat s" using d by simp_all
  then show "s \<le> w" "w \<le> 2 * s" by (simp_all add: word_le_nat_alt u2)
qed

text \<open>The vdev's geometry as far as the weight depends on it.\<close>

definition weighable :: "vdev \<Rightarrow> metaslab \<Rightarrow> bool" where
  "weighable vd msp \<longleftrightarrow> smo_alloc (ms_smo msp) \<le> sm_size (ms_map msp) \<and> unat (sm_size (ms_map msp)) < 2 ^ 60 \<and>
     drop_bit (unat (vdev_ms_shift vd)) (sm_start (ms_map msp)) < vdev_ms_count vd \<and>
     unat (drop_bit (unat (vdev_ms_shift vd)) (sm_start (ms_map msp))) * unat (sm_size (ms_map msp)) < 2 ^ 64"

lemma weight_ok:
  assumes "weighable vd msp"
  defines "space \<equiv> sm_size (ms_map msp) - smo_alloc (ms_smo msp)"
  shows "\<exists>w. metaslab_weight vd msp = Some (w OR (ms_weight msp AND METASLAB_ACTIVE_MASK)) \<and>
    unat space \<le> unat w \<and> unat w \<le> 4 * unat space \<and> unat space < 2 ^ 60"
proof -
  let ?x = "drop_bit (unat (vdev_ms_shift vd)) (sm_start (ms_map msp))" and ?c = "vdev_ms_count vd"
  have a: "smo_alloc (ms_smo msp) \<le> sm_size (ms_map msp)" "unat (sm_size (ms_map msp)) < 2 ^ 60" "?x < ?c"
    "unat ?x * unat (sm_size (ms_map msp)) < 2 ^ 64"
    using assms(1) by (simp_all add: weighable_def)
  have le: "unat space \<le> unat (sm_size (ms_map msp))" using a(1) by (simp add: space_def unat_sub word_le_nat_alt)
  have s: "unat space < 2 ^ 60" using le a(2) by simp
  have x: "unat ?x * unat space < 2 ^ 64" by (rule le_less_trans [OF mult_le_mono2 [OF le] a(4)])
  define w where "w = 2 * space - (?x * space) div ?c"
  note n = weight_nat [OF s a(3) x, folded w_def]
  define w2 where "w2 = (if smo_object (ms_smo msp) \<noteq> 0 then w * METASLAB_SMO_BONUS_MULTIPLIER else w)"
  have m: "unat (w * 2) = 2 * unat w" "unat (2 * METASLAB_SMO_BONUS_MULTIPLIER * space) = 4 * unat space"
    using n(5) s by (simp_all add: unat_word_ariths METASLAB_SMO_BONUS_MULTIPLIER_def)
  have w2: "unat space \<le> unat w2" "unat w2 \<le> 4 * unat space"
    using n(4,5) m(1) by (simp_all add: w2_def METASLAB_SMO_BONUS_MULTIPLIER_def)
  then have "space \<le> w2" "w2 \<le> 2 * METASLAB_SMO_BONUS_MULTIPLIER * space" by (simp_all add: word_le_nat_alt m(2))
  moreover have "?c \<noteq> 0" using a(3) by (metis word_not_simps(1))
  ultimately have "metaslab_weight vd msp = Some (w2 OR (ms_weight msp AND METASLAB_ACTIVE_MASK))"
    using n(1,2) unfolding metaslab_weight_def Let_def space_def [symmetric] w_def [symmetric] w2_def [symmetric] by simp
  then show ?thesis using w2 s by blast
qed

end
