(* ===== verification/Metaslab_Inv.thy ===== *)
theory Metaslab_Inv
  imports Metaslab
begin

text \<open>
  The invariant of a metaslab and what each operation does to it.

  The space of a metaslab is divided between the map of free offsets, the log on disk, and the maps
  of what the active transaction groups have allocated and freed.  Each operation is shown to succeed
  where its caller keeps to the contract, and to keep the division.
\<close>

unbundle bit_operations_syntax

section \<open>The invariant of a metaslab\<close>

text \<open>What the metaslabs rely on of the DMU, beyond what the space maps do.\<close>

definition mos_ok :: "'os mos \<Rightarrow> ('os \<Rightarrow> u64 \<Rightarrow> nat \<Rightarrow> u64) \<Rightarrow> bool" where
  "mos_ok mos words \<longleftrightarrow> dmu_ok (mos_dmu mos) words \<and> (\<forall>os. fst (dmu_object_alloc mos os) \<noteq> 0) \<and>
     (\<forall>os obj smo. \<exists>os'. dmu_bonus_write mos os obj smo = Some os' \<and> words os' = words os)"

text \<open>The space of a metaslab, and the maps of the active transaction groups.\<close>

abbreviation ms_span :: "metaslab \<Rightarrow> nat set" where
  "ms_span msp \<equiv> span (sm_start (ms_map msp)) (sm_size (ms_map msp))"

definition alloc_of :: "metaslab \<Rightarrow> u64 \<Rightarrow> nat \<Rightarrow> nat set" where
  "alloc_of msp txg i = space_of (ms_allocmap msp ! ((txg_slot txg + i) mod 4))"

definition free_of :: "metaslab \<Rightarrow> u64 \<Rightarrow> nat \<Rightarrow> nat set" where
  "free_of msp txg i = space_of (ms_freemap msp ! ((txg_slot txg + i) mod 4))"

definition ms_maps_ok :: "metaslab \<Rightarrow> bool" where
  "ms_maps_ok msp \<longleftrightarrow> length (ms_allocmap msp) = TXG_SIZE \<and> length (ms_freemap msp) = TXG_SIZE \<and> sm_wf (ms_map msp) \<and>
     (\<forall>sm \<in> set (ms_allocmap msp) \<union> set (ms_freemap msp). sm_wf sm \<and> bounds sm = bounds (ms_map msp))"

definition ms_geom :: "ff_map \<Rightarrow> bool" where
  "ms_geom sm \<longleftrightarrow> sm_storable sm \<and> in_range sm (sm_start sm) (sm_size sm) \<and> unat (sm_start sm) + unat (sm_size sm) \<le> 2 ^ 63 \<and>
     unat (sm_size sm) < 2 ^ 58 \<and> SPA_MINBLOCKSHIFT \<le> unat (sm_shift sm)"

text \<open>An object whose log describes a set of allocated offsets.\<close>

definition smo_log :: "('os \<Rightarrow> u64 \<Rightarrow> nat \<Rightarrow> u64) \<Rightarrow> 'os \<Rightarrow> ff_map \<Rightarrow> space_map_obj \<Rightarrow> nat set \<Rightarrow> bool" where
  "smo_log words os sm smo S \<longleftrightarrow> 8 dvd unat (smo_objsize smo) \<and> unat (smo_objsize smo) < 2 ^ 63 \<and>
     log_set sm (log words os smo) = Some S \<and> unat (smo_alloc smo) = card S"

definition later :: "u64 \<Rightarrow> nat \<Rightarrow> u64" where
  "later txg n = txg + of_nat n"

lemma txg_slot_mod: "txg_slot txg = unat txg mod 4"
proof -
  have "txg AND TXG_MASK = txg AND mask 2" by (simp add: TXG_MASK_def TXG_SIZE_def mask_eq_exp_minus_1)
  then show ?thesis by (simp add: txg_slot_def unat_and_mask)
qed

lemma mod_mod_4: "x mod 18446744073709551616 mod 4 = x mod (4 :: nat)"
  by (rule mod_mod_cancel) simp

lemma slot_later: "txg_slot (later txg n) = (txg_slot txg + n) mod 4"
proof -
  have "unat (later txg n) mod 4 = (unat txg + n) mod 4"
    by (simp add: later_def unat_word_ariths unat_of_nat mod_mod_4 mod_add_right_eq)
  then show ?thesis by (simp add: txg_slot_mod mod_add_left_eq)
qed


text \<open>
  How the space of a metaslab is divided.  \<open>U\<close> is the whole space, \<open>S\<close> what the object being synced
  says is allocated, \<open>A i\<close> what the group \<open>i\<close> after the last synced one has allocated and \<open>F i\<close> what it
  has freed; \<open>F 0\<close> is what the group being synced has freed already.
\<close>

definition parts :: "nat set \<Rightarrow> nat set \<Rightarrow> (nat \<Rightarrow> nat set) \<Rightarrow> (nat \<Rightarrow> nat set) \<Rightarrow> bool" where
  "parts U S A F \<longleftrightarrow> A 0 = {} \<and> S \<union> F 0 \<union> A 1 \<union> A 2 \<union> A 3 \<subseteq> U \<and>
     S \<inter> F 0 = {} \<and> S \<inter> A 1 = {} \<and> S \<inter> A 2 = {} \<and> S \<inter> A 3 = {} \<and> F 0 \<inter> A 1 = {} \<and> F 0 \<inter> A 2 = {} \<and> F 0 \<inter> A 3 = {} \<and>
     A 1 \<inter> A 2 = {} \<and> A 1 \<inter> A 3 = {} \<and> A 2 \<inter> A 3 = {} \<and> F 1 \<inter> F 2 = {} \<and> F 1 \<inter> F 3 = {} \<and> F 2 \<inter> F 3 = {} \<and>
     F 1 \<subseteq> S \<union> A 1 \<and> F 2 \<subseteq> S \<union> A 1 \<union> A 2 \<and> F 3 \<subseteq> S \<union> A 1 \<union> A 2 \<union> A 3"

definition taken :: "nat set \<Rightarrow> (nat \<Rightarrow> nat set) \<Rightarrow> (nat \<Rightarrow> nat set) \<Rightarrow> nat set" where
  "taken S A F = S \<union> F 0 \<union> A 1 \<union> A 2 \<union> A 3"

text \<open>What a group may free: what is synced or was allocated by then, less what is freed already.\<close>

definition live :: "nat set \<Rightarrow> (nat \<Rightarrow> nat set) \<Rightarrow> (nat \<Rightarrow> nat set) \<Rightarrow> nat \<Rightarrow> nat set" where
  "live S A F i = (S \<union> A 1 \<union> (if 2 \<le> i then A 2 else {}) \<union> (if 3 \<le> i then A 3 else {})) - (F 1 \<union> F 2 \<union> F 3)"

lemma less_4: "i < (4 :: nat) \<longleftrightarrow> i = 0 \<or> i = 1 \<or> i = 2 \<or> i = 3"
  by auto

lemma active_cases:
  assumes "i < (4 :: nat)" "0 < i"
  obtains "i = 1" | "i = 2" | "i = 3"
  using assms by (auto simp: less_4)

text \<open>The same for one offset.\<close>

definition part :: "bool \<Rightarrow> bool \<Rightarrow> bool \<Rightarrow> bool \<Rightarrow> bool \<Rightarrow> bool \<Rightarrow> bool \<Rightarrow> bool \<Rightarrow> bool \<Rightarrow> bool" where
  "part u s a1 a2 a3 f0 f1 f2 f3 \<longleftrightarrow> (s \<or> f0 \<or> a1 \<or> a2 \<or> a3 \<longrightarrow> u) \<and>
     (s \<longrightarrow> \<not> f0) \<and> (s \<longrightarrow> \<not> a1) \<and> (s \<longrightarrow> \<not> a2) \<and> (s \<longrightarrow> \<not> a3) \<and> (f0 \<longrightarrow> \<not> a1) \<and> (f0 \<longrightarrow> \<not> a2) \<and> (f0 \<longrightarrow> \<not> a3) \<and>
     (a1 \<longrightarrow> \<not> a2) \<and> (a1 \<longrightarrow> \<not> a3) \<and> (a2 \<longrightarrow> \<not> a3) \<and> (f1 \<longrightarrow> \<not> f2) \<and> (f1 \<longrightarrow> \<not> f3) \<and> (f2 \<longrightarrow> \<not> f3) \<and>
     (f1 \<longrightarrow> s \<or> a1) \<and> (f2 \<longrightarrow> s \<or> a1 \<or> a2) \<and> (f3 \<longrightarrow> s \<or> a1 \<or> a2 \<or> a3)"

lemma parts_elem:
  "parts U S A F \<longleftrightarrow> A 0 = {} \<and>
    (\<forall>x. part (x \<in> U) (x \<in> S) (x \<in> A 1) (x \<in> A 2) (x \<in> A 3) (x \<in> F 0) (x \<in> F 1) (x \<in> F 2) (x \<in> F 3))"
  unfolding parts_def part_def disjoint_iff subset_iff Un_iff all_conj_distrib disj_assoc ..


lemma partsI:
  assumes "A 0 = {}"
    and "\<And>x. part (x \<in> U) (x \<in> S) (x \<in> A 1) (x \<in> A 2) (x \<in> A 3) (x \<in> F 0) (x \<in> F 1) (x \<in> F 2) (x \<in> F 3)"
  shows "parts U S A F"
  using assms by (simp add: parts_elem)

lemma partsD:
  assumes "parts U S A F"
  shows "A 0 = {}" "part (x \<in> U) (x \<in> S) (x \<in> A 1) (x \<in> A 2) (x \<in> A 3) (x \<in> F 0) (x \<in> F 1) (x \<in> F 2) (x \<in> F 3)"
  using assms by (simp_all add: parts_elem)

lemma parts_alloc:
  assumes "parts U S A F" "i < 4" "0 < i" "B \<subseteq> U" "B \<inter> taken S A F = {}"
  shows "parts U S (A(i := A i \<union> B)) F" "taken S (A(i := A i \<union> B)) F = taken S A F \<union> B"
proof -
  show "parts U S (A(i := A i \<union> B)) F"
  proof (rule partsI)
    show "(A(i := A i \<union> B)) 0 = {}" using partsD(1) [OF assms(1)] assms(3) by simp
    fix x
    have "x \<in> B \<longrightarrow> x \<in> U \<and> x \<notin> S \<and> x \<notin> A 1 \<and> x \<notin> A 2 \<and> x \<notin> A 3 \<and> x \<notin> F 0"
      using assms(4,5) by (auto simp: taken_def)
    then show "part (x \<in> U) (x \<in> S) (x \<in> (A(i := A i \<union> B)) 1) (x \<in> (A(i := A i \<union> B)) 2) (x \<in> (A(i := A i \<union> B)) 3)
        (x \<in> F 0) (x \<in> F 1) (x \<in> F 2) (x \<in> F 3)"
      using partsD(2) [OF assms(1), of x] by (cases rule: active_cases [OF assms(2,3)]; simp add: part_def; sat)
  qed
  show "taken S (A(i := A i \<union> B)) F = taken S A F \<union> B"
    by (cases rule: active_cases [OF assms(2,3)]) (simp_all add: taken_def Un_ac)
qed

lemma parts_free:
  assumes "parts U S A F" "i < 4" "0 < i" "B \<subseteq> live S A F i"
  shows "parts U S A (F(i := F i \<union> B))" "taken S A (F(i := F i \<union> B)) = taken S A F"
proof -
  show "parts U S A (F(i := F i \<union> B))"
  proof (rule partsI)
    show "A 0 = {}" using partsD(1) [OF assms(1)] .
    fix x
    have "x \<in> B \<longrightarrow> (x \<in> S \<or> x \<in> A 1 \<or> 2 \<le> i \<and> x \<in> A 2 \<or> 3 \<le> i \<and> x \<in> A 3) \<and> x \<notin> F 1 \<and> x \<notin> F 2 \<and> x \<notin> F 3"
      using assms(4) by (auto simp: live_def split: if_splits)
    then show "part (x \<in> U) (x \<in> S) (x \<in> A 1) (x \<in> A 2) (x \<in> A 3) (x \<in> (F(i := F i \<union> B)) 0) (x \<in> (F(i := F i \<union> B)) 1)
        (x \<in> (F(i := F i \<union> B)) 2) (x \<in> (F(i := F i \<union> B)) 3)"
      using partsD(2) [OF assms(1), of x] by (cases rule: active_cases [OF assms(2,3)]; simp add: part_def; sat)
  qed
  show "taken S A (F(i := F i \<union> B)) = taken S A F" using assms(3) by (simp add: taken_def)
qed

lemma parts_undo:
  assumes "parts U S A F" "i < 4" "0 < i" "B \<subseteq> A i" "B \<inter> (F 1 \<union> F 2 \<union> F 3) = {}"
  shows "parts U S (A(i := A i - B)) F" "taken S (A(i := A i - B)) F = taken S A F - B"
proof -
  have b: "x \<in> B \<longrightarrow> x \<in> A i \<and> x \<notin> F 1 \<and> x \<notin> F 2 \<and> x \<notin> F 3" for x using assms(4,5) by auto
  show "parts U S (A(i := A i - B)) F"
  proof (rule partsI)
    show "(A(i := A i - B)) 0 = {}" using partsD(1) [OF assms(1)] assms(3) by simp
    fix x
    show "part (x \<in> U) (x \<in> S) (x \<in> (A(i := A i - B)) 1) (x \<in> (A(i := A i - B)) 2) (x \<in> (A(i := A i - B)) 3)
        (x \<in> F 0) (x \<in> F 1) (x \<in> F 2) (x \<in> F 3)"
      using partsD(2) [OF assms(1), of x] b [of x] by (cases rule: active_cases [OF assms(2,3)]; simp add: part_def; sat)
  qed
  have "B \<inter> S = {}" "B \<inter> F 0 = {}" "\<forall>j \<in> {1, 2, 3}. j \<noteq> i \<longrightarrow> B \<inter> A j = {}"
    using assms(1,4) by (cases rule: active_cases [OF assms(2,3)]; force simp: parts_def)+
  then show "taken S (A(i := A i - B)) F = taken S A F - B"
    by (cases rule: active_cases [OF assms(2,3)]) (auto simp: taken_def)
qed

lemma parts_sync:
  assumes "parts U S A F"
  defines "S' \<equiv> S \<union> A 1 - F 1" and "A' \<equiv> A(1 := {})" and "F' \<equiv> F(0 := F 0 \<union> F 1, 1 := {})"
  shows "parts U S' A' F'" "taken S' A' F' = taken S A F" "S \<union> F 0 \<subseteq> S' \<union> F' 0"
    "U - (U - taken S A F) - (F 0 \<union> F 1) - A 2 - A 3 = S'"
proof -
  have e: "A' 0 = {}" "A' 1 = {}" "A' 2 = A 2" "A' 3 = A 3" "F' 0 = F 0 \<union> F 1" "F' 1 = {}" "F' 2 = F 2" "F' 3 = F 3"
    using partsD(1) [OF assms(1)] by (simp_all add: A'_def F'_def)
  show "parts U S' A' F'"
  proof (rule partsI)
    show "A' 0 = {}" by (rule e(1))
    fix x
    show "part (x \<in> U) (x \<in> S') (x \<in> A' 1) (x \<in> A' 2) (x \<in> A' 3) (x \<in> F' 0) (x \<in> F' 1) (x \<in> F' 2) (x \<in> F' 3)"
      using partsD(2) [OF assms(1), of x] unfolding e S'_def part_def Un_iff Diff_iff empty_iff
      by (cases "x \<in> F 1"; cases "x \<in> S"; cases "x \<in> A 1"; simp)
  qed
  show "S \<union> F 0 \<subseteq> S' \<union> F' 0" by (auto simp: S'_def F'_def)
  have d: "S \<union> F 0 \<union> A 1 \<union> A 2 \<union> A 3 \<subseteq> U" "S \<inter> F 0 = {}" "S \<inter> A 2 = {}" "S \<inter> A 3 = {}" "F 0 \<inter> A 1 = {}"
    "A 1 \<inter> A 2 = {}" "A 1 \<inter> A 3 = {}" "F 1 \<subseteq> S \<union> A 1"
    using assms(1) by (simp_all add: parts_def)
  show "taken S' A' F' = taken S A F" unfolding taken_def e S'_def using d(8) by blast
  show "U - (U - taken S A F) - (F 0 \<union> F 1) - A 2 - A 3 = S'" unfolding taken_def S'_def using d by blast
qed

text \<open>The next group becomes the one to sync.\<close>

lemma parts_done:
  assumes "parts U S A F" "A 1 = {}" "F 1 = {}" "F' 0 = {}" "F' 1 = F 2" "F' 2 = F 3" "F' 3 = {}"
    and "A' 0 = {}" "A' 1 = A 2" "A' 2 = A 3" "A' 3 = {}"
  shows "parts U S A' F'" "taken S A' F' = taken S A F - F 0"
proof -
  show "parts U S A' F'"
  proof (rule partsI)
    show "A' 0 = {}" by (rule assms(8))
    fix x
    show "part (x \<in> U) (x \<in> S) (x \<in> A' 1) (x \<in> A' 2) (x \<in> A' 3) (x \<in> F' 0) (x \<in> F' 1) (x \<in> F' 2) (x \<in> F' 3)"
      using partsD(2) [OF assms(1), of x] unfolding assms(2-) part_def empty_iff by sat
  qed
  have "x \<in> taken S A' F' \<longleftrightarrow> x \<in> taken S A F - F 0" for x
    using partsD(2) [OF assms(1), of x] unfolding taken_def assms(2-) part_def Un_iff Diff_iff empty_iff by sat
  then show "taken S A' F' = taken S A F - F 0" by blast
qed


text \<open>
  The invariant, after the group \<open>txg\<close> has been synced and the set \<open>S0\<close> was allocated then.  While the
  map is loaded it is what is not taken; while it is not, nothing is allocated in the active groups
  and the object as of the last group synced still describes \<open>S0\<close>.
\<close>

definition ms_inv :: "('os \<Rightarrow> u64 \<Rightarrow> nat \<Rightarrow> u64) \<Rightarrow> u64 \<Rightarrow> 'os \<Rightarrow> nat set \<Rightarrow> nat set \<Rightarrow> metaslab \<Rightarrow> bool" where
  "ms_inv words txg os S0 S msp \<longleftrightarrow> ms_maps_ok msp \<and> ms_geom (ms_map msp) \<and> \<not> sm_loading (ms_map msp) \<and>
     smo_log words os (ms_map msp) (ms_smo_syncing msp) S \<and>
     (smo_object (ms_smo_syncing msp) = 0 \<longrightarrow> smo_objsize (ms_smo_syncing msp) = 0 \<and> smo_alloc (ms_smo_syncing msp) = 0) \<and>
     parts (ms_span msp) S (alloc_of msp txg) (free_of msp txg) \<and>
     S0 \<subseteq> S \<union> free_of msp txg 0 \<and> unat (smo_alloc (ms_smo msp)) = card S0 \<and>
     (ms_weight msp AND METASLAB_ACTIVE_MASK \<noteq> 0 \<longrightarrow> sm_loaded (ms_map msp)) \<and>
     (if sm_loaded (ms_map msp)
      then ff.active (ms_map msp) \<and> space_of (ms_map msp) = ms_span msp - taken S (alloc_of msp txg) (free_of msp txg)
      else sm_ops (ms_map msp) = None \<and> sm_space (ms_map msp) = 0 \<and> (\<forall>i < 4. alloc_of msp txg i = {}) \<and>
        S0 = S \<union> free_of msp txg 0 \<and> smo_log words os (ms_map msp) (ms_smo msp) S0 \<and>
        (smo_objsize (ms_smo msp) = 0 \<or> smo_object (ms_smo msp) = smo_object (ms_smo_syncing msp) \<and>
          smo_objsize (ms_smo msp) \<le> smo_objsize (ms_smo_syncing msp)))"

lemma slot_inj: "i < 4 \<Longrightarrow> j < 4 \<Longrightarrow> (a + i) mod 4 = (a + j) mod (4 :: nat) \<longleftrightarrow> i = j"
  by (cases "a mod 4 = 0 \<or> a mod 4 = 1 \<or> a mod 4 = 2 \<or> a mod 4 = 3") (auto simp: less_4 mod_add_left_eq [of a, symmetric])

lemma alloc_of_other [simp]:
  "alloc_of (msp\<lparr>ms_map := sm\<rparr>) = alloc_of msp" "alloc_of (msp\<lparr>ms_freemap := fm\<rparr>) = alloc_of msp"
  "alloc_of (msp\<lparr>ms_weight := w\<rparr>) = alloc_of msp" "alloc_of (msp\<lparr>ms_smo := smo\<rparr>) = alloc_of msp"
  "alloc_of (msp\<lparr>ms_smo_syncing := smo\<rparr>) = alloc_of msp"
  by (simp_all add: alloc_of_def fun_eq_iff)

lemma free_of_other [simp]:
  "free_of (msp\<lparr>ms_map := sm\<rparr>) = free_of msp" "free_of (msp\<lparr>ms_allocmap := am\<rparr>) = free_of msp"
  "free_of (msp\<lparr>ms_weight := w\<rparr>) = free_of msp" "free_of (msp\<lparr>ms_smo := smo\<rparr>) = free_of msp"
  "free_of (msp\<lparr>ms_smo_syncing := smo\<rparr>) = free_of msp"
  by (simp_all add: free_of_def fun_eq_iff)

lemma alloc_of_update:
  assumes "length (ms_allocmap msp) = TXG_SIZE" "i < 4" "j < 4"
  shows "alloc_of (msp\<lparr>ms_allocmap := (ms_allocmap msp)[txg_slot (later txg i) := am]\<rparr>) txg j =
    (if j = i then space_of am else alloc_of msp txg j)"
  using assms slot_inj [OF assms(2,3)] by (auto simp: alloc_of_def slot_later nth_list_update TXG_SIZE_def)

lemma free_of_update:
  assumes "length (ms_freemap msp) = TXG_SIZE" "i < 4" "j < 4"
  shows "free_of (msp\<lparr>ms_freemap := (ms_freemap msp)[txg_slot (later txg i) := am]\<rparr>) txg j =
    (if j = i then space_of am else free_of msp txg j)"
  using assms slot_inj [OF assms(2,3)] by (auto simp: free_of_def slot_later nth_list_update TXG_SIZE_def)

lemma parts_cong:
  "(\<And>i. i < 4 \<Longrightarrow> A' i = A i) \<Longrightarrow> (\<And>i. i < 4 \<Longrightarrow> F' i = F i) \<Longrightarrow> parts U S A' F' = parts U S A F"
  by (simp add: parts_def)

lemma taken_cong:
  "(\<And>i. i < 4 \<Longrightarrow> A' i = A i) \<Longrightarrow> (\<And>i. i < 4 \<Longrightarrow> F' i = F i) \<Longrightarrow> taken S A' F' = taken S A F"
  by (simp add: taken_def)

text \<open>The map of a group, and the maps after one of them is replaced.\<close>

lemma maps_nth:
  assumes "ms_maps_ok msp"
  shows "sm_wf (ms_allocmap msp ! txg_slot t)" "bounds (ms_allocmap msp ! txg_slot t) = bounds (ms_map msp)"
    "sm_wf (ms_freemap msp ! txg_slot t)" "bounds (ms_freemap msp ! txg_slot t) = bounds (ms_map msp)"
proof -
  have "ms_allocmap msp ! txg_slot t \<in> set (ms_allocmap msp)" "ms_freemap msp ! txg_slot t \<in> set (ms_freemap msp)"
    using assms txg_slot_less [of t] by (simp_all add: ms_maps_ok_def)
  then show "sm_wf (ms_allocmap msp ! txg_slot t)" "bounds (ms_allocmap msp ! txg_slot t) = bounds (ms_map msp)"
    "sm_wf (ms_freemap msp ! txg_slot t)" "bounds (ms_freemap msp ! txg_slot t) = bounds (ms_map msp)"
    using assms by (auto simp: ms_maps_ok_def)
qed

lemma maps_alloc_update:
  assumes "ms_maps_ok msp" "sm_wf am" "bounds am = bounds (ms_map msp)"
  shows "ms_maps_ok (msp\<lparr>ms_allocmap := (ms_allocmap msp)[k := am]\<rparr>)"
  using assms set_update_subset_insert [of "ms_allocmap msp" k am] by (auto simp: ms_maps_ok_def)

lemma maps_free_update:
  assumes "ms_maps_ok msp" "sm_wf fm" "bounds fm = bounds (ms_map msp)"
  shows "ms_maps_ok (msp\<lparr>ms_freemap := (ms_freemap msp)[k := fm]\<rparr>)"
  using assms set_update_subset_insert [of "ms_freemap msp" k fm] by (auto simp: ms_maps_ok_def)

lemma maps_map_update:
  assumes "ms_maps_ok msp" "sm_wf sm" "bounds sm = bounds (ms_map msp)"
  shows "ms_maps_ok (msp\<lparr>ms_map := sm\<rparr>)"
  using assms by (auto simp: ms_maps_ok_def)

section \<open>Allocating and freeing\<close>

lemma bounds_fields:
  assumes "bounds sm' = bounds sm"
  shows "sm_start sm' = sm_start sm" "sm_size sm' = sm_size sm" "sm_shift sm' = sm_shift sm"
  using assms by (simp_all add: bounds_def)

lemma log_set_cong: "bounds sm' = bounds sm \<Longrightarrow> log_set sm' = log_set sm"
  using disk_step_cong [of sm' sm] by (intro ext) (simp add: log_set_def)

lemma geom_cong:
  assumes "bounds sm' = bounds sm"
  shows "ms_geom sm' = ms_geom sm" "smo_log words os sm' smo S = smo_log words os sm smo S" "in_range sm' = in_range sm"
    "ff_request sm' sz = ff_request sm sz" "sm_storable sm' = sm_storable sm"
proof -
  note b = bounds_fields [OF assms] and r = in_range_cong [OF assms]
  show "in_range sm' = in_range sm" by (rule r)
  show "sm_storable sm' = sm_storable sm" "ff_request sm' sz = ff_request sm sz"
    by (simp_all add: b sm_storable_def unit_of_def ff_request_def)
  then show "ms_geom sm' = ms_geom sm" using r by (simp add: b ms_geom_def)
  show "smo_log words os sm' smo S = smo_log words os sm smo S" using log_set_cong [OF assms] by (simp add: smo_log_def)
qed

lemma ms_invD:
  assumes "ms_inv words txg os S0 S msp"
  shows "ms_maps_ok msp" "ms_geom (ms_map msp)" "\<not> sm_loading (ms_map msp)"
    "parts (ms_span msp) S (alloc_of msp txg) (free_of msp txg)" "S0 \<subseteq> S \<union> free_of msp txg 0"
    "sm_wf (ms_map msp)" "smo_log words os (ms_map msp) (ms_smo_syncing msp) S"
  using assms by (simp_all add: ms_inv_def ms_maps_ok_def)

lemma ms_inv_loaded:
  assumes "ms_inv words txg os S0 S msp" "sm_loaded (ms_map msp)"
  shows "ff.active (ms_map msp)" "space_of (ms_map msp) = ms_span msp - taken S (alloc_of msp txg) (free_of msp txg)"
  using assms by (simp_all add: ms_inv_def)

text \<open>The invariant for a loaded metaslab after an operation that leaves the objects alone.\<close>

lemma ms_inv_update:
  assumes "ms_inv words txg os S0 S msp" "sm_loaded (ms_map msp)" "ms_maps_ok msp'" "ff.active (ms_map msp')" "kept (ms_map msp) (ms_map msp')"
    and "ms_smo msp' = ms_smo msp" "ms_smo_syncing msp' = ms_smo_syncing msp"
    and "\<And>j. j < 4 \<Longrightarrow> alloc_of msp' txg j = A j" "\<And>j. j < 4 \<Longrightarrow> free_of msp' txg j = F j"
    and "parts (ms_span msp) S A F" "F 0 = free_of msp txg 0" "space_of (ms_map msp') = ms_span msp - taken S A F"
  shows "ms_inv words txg os S0 S msp'"
proof -
  have b: "bounds (ms_map msp') = bounds (ms_map msp)" "sm_loaded (ms_map msp')" "\<not> sm_loading (ms_map msp')"
    using assms(5,2) ms_invD(3) [OF assms(1)] by (simp_all add: kept_def)
  note f = bounds_fields [OF b(1)] and g = geom_cong [OF b(1)]
  have p: "parts (ms_span msp) S (alloc_of msp' txg) (free_of msp' txg)" "free_of msp' txg 0 = free_of msp txg 0"
    "space_of (ms_map msp') = ms_span msp - taken S (alloc_of msp' txg) (free_of msp' txg)"
    using assms(8-12) parts_cong [of "alloc_of msp' txg" A "free_of msp' txg" F] taken_cong [of "alloc_of msp' txg" A "free_of msp' txg" F]
    by auto
  show ?thesis using assms(1-7) b p unfolding ms_inv_def f g by simp
qed

text \<open>A change of one allocmap, given the new sets.\<close>

lemma alloc_change:
  assumes "ms_inv words txg os S0 S msp" "sm_loaded (ms_map msp)" "i < 4" "sm_wf am" "bounds am = bounds (ms_map msp)"
    and "ff.active sm" "kept (ms_map msp) sm" "parts (ms_span msp) S ((alloc_of msp txg)(i := space_of am)) (free_of msp txg)"
    and "space_of sm = ms_span msp - taken S ((alloc_of msp txg)(i := space_of am)) (free_of msp txg)"
  shows "ms_inv words txg os S0 S (msp\<lparr>ms_map := sm, ms_allocmap := (ms_allocmap msp)[txg_slot (later txg i) := am]\<rparr>)"
proof -
  note v = ms_invD [OF assms(1)]
  have b: "bounds sm = bounds (ms_map msp)" "sm_wf sm" using assms(6,7) by (simp_all add: kept_def ff.active_def)
  let ?m = "msp\<lparr>ms_map := sm, ms_allocmap := (ms_allocmap msp)[txg_slot (later txg i) := am]\<rparr>"
  have m2: "ms_maps_ok ?m"
    using maps_alloc_update [OF maps_map_update [OF v(1) b(2,1)] assms(4)] assms(5) b(1) by simp
  have au: "alloc_of ?m txg j = ((alloc_of msp txg)(i := space_of am)) j" if "j < 4" for j
    using alloc_of_update [of "msp\<lparr>ms_map := sm\<rparr>" i j txg am] assms(3) that v(1) by (simp add: ms_maps_ok_def)
  have fu: "free_of ?m txg = free_of msp txg" by (simp add: free_of_def fun_eq_iff)
  show ?thesis
    using assms au fu
    by (intro ms_inv_update [OF assms(1,2) m2, where A = "(alloc_of msp txg)(i := space_of am)" and F = "free_of msp txg"])
      (simp_all del: fun_upd_apply)
qed

lemma allocmap_add:
  assumes "ms_inv words txg os S0 S msp" "i < 4" "0 < i" "in_range (ms_map msp) offset sz"
    and "span offset sz \<inter> taken S (alloc_of msp txg) (free_of msp txg) = {}"
  shows "\<exists>am. space_map_add (ms_allocmap msp ! txg_slot (later txg i)) offset sz = Some am \<and> sm_wf am \<and>
    bounds am = bounds (ms_map msp) \<and> space_of am = alloc_of msp txg i \<union> span offset sz"
proof -
  let ?A = "alloc_of msp txg" and ?am = "ms_allocmap msp ! txg_slot (later txg i)"
  note w = maps_nth [OF ms_invD(1) [OF assms(1)], of "later txg i"]
  have s: "space_of ?am = ?A i" by (simp add: alloc_of_def slot_later)
  have "?A i \<subseteq> taken S ?A (free_of msp txg)" by (cases rule: active_cases [OF assms(2,3)]) (auto simp: taken_def)
  then have "space_of ?am \<inter> span offset sz = {}" using assms(5) s by blast
  moreover have "in_range ?am offset sz" using assms(4) geom_cong(3) [OF w(2)] by simp
  ultimately show ?thesis using add_step [OF w(1), of offset sz] resized_bounds [of ?am] w(2) s by auto
qed

lemma ms_alloc_ok:
  assumes "ms_inv words txg os S0 S msp" "sm_loaded (ms_map msp)" "i < 4" "0 < i" "ff_request (ms_map msp) sz"
  defines "k \<equiv> txg_slot (later txg i)"
  shows "\<exists>offset sm. space_map_alloc (ms_map msp) sz = Some (offset, sm) \<and>
    (if offset = -1 then ms_inv words txg os S0 S (msp\<lparr>ms_map := sm\<rparr>)
     else in_range (ms_map msp) offset sz \<and> span offset sz \<inter> taken S (alloc_of msp txg) (free_of msp txg) = {} \<and>
       (\<exists>am. space_map_add (ms_allocmap msp ! k) offset sz = Some am \<and> space_of am = alloc_of msp txg i \<union> span offset sz \<and>
         ms_inv words txg os S0 S (msp\<lparr>ms_map := sm, ms_allocmap := (ms_allocmap msp)[k := am]\<rparr>)))"
proof -
  let ?A = "alloc_of msp txg" and ?F = "free_of msp txg"
  note v = ms_invD [OF assms(1)] and l = ms_inv_loaded [OF assms(1,2)]
  have rq: "ff_request (space_map_core.truncate (ms_map msp)) sz"
    using assms(5) by (simp add: ff_request_def space_map_core.defs unit_of_def)
  from ff.map_alloc [OF l(1) rq] obtain offset sm where
    a: "space_map_alloc (ms_map msp) sz = Some (offset, sm)" "ff.active sm" "kept (ms_map msp) sm"
    "if offset = -1 then space_of sm = space_of (ms_map msp)
     else in_range (ms_map msp) offset sz \<and> span offset sz \<subseteq> space_of (ms_map msp) \<and> space_of sm = space_of (ms_map msp) - span offset sz"
    by blast
  have b: "bounds sm = bounds (ms_map msp)" "sm_wf sm" using a(2,3) by (simp_all add: kept_def ff.active_def)
  have m1: "ms_maps_ok (msp\<lparr>ms_map := sm\<rparr>)" by (rule maps_map_update [OF v(1) b(2,1)])
  show ?thesis
  proof (cases "offset = -1")
    case True
    then have "ms_inv words txg os S0 S (msp\<lparr>ms_map := sm\<rparr>)"
      using a l v by (intro ms_inv_update [OF assms(1,2) m1, where A = ?A and F = ?F]) simp_all
    then show ?thesis using a(1) True by simp
  next
    case False
    let ?B = "span offset sz"
    have r: "in_range (ms_map msp) offset sz" "?B \<subseteq> space_of (ms_map msp)" "space_of sm = space_of (ms_map msp) - ?B"
      using a(4) False by simp_all
    have d: "?B \<inter> taken S ?A ?F = {}" "?B \<subseteq> ms_span msp" using r(2) l(2) by auto
    from allocmap_add [OF assms(1,3,4) r(1) d(1), folded k_def] obtain am where
      am: "space_map_add (ms_allocmap msp ! k) offset sz = Some am" "sm_wf am" "bounds am = bounds (ms_map msp)" "space_of am = ?A i \<union> ?B" by blast
    note p = parts_alloc [OF v(4) assms(3,4) d(2,1)]
    have "ms_inv words txg os S0 S (msp\<lparr>ms_map := sm, ms_allocmap := (ms_allocmap msp)[k := am]\<rparr>)"
      unfolding k_def using p a(2,3) am(2-4) r(3) l(2)
      by (intro alloc_change [OF assms(1,2,3)]) (simp_all del: fun_upd_apply add: set_diff_eq conj_ac)
    then show ?thesis using a(1) False r(1) d(1) am(1,4) by auto
  qed
qed

lemma ms_claim_ok:
  assumes "ms_inv words txg os S0 S msp" "sm_loaded (ms_map msp)" "i < 4" "0 < i"
    and "in_range (ms_map msp) offset sz" "span offset sz \<subseteq> ms_span msp - taken S (alloc_of msp txg) (free_of msp txg)"
  defines "k \<equiv> txg_slot (later txg i)"
  shows "\<exists>sm am. space_map_claim (ms_map msp) offset sz = Some sm \<and> space_map_add (ms_allocmap msp ! k) offset sz = Some am \<and>
    space_of am = alloc_of msp txg i \<union> span offset sz \<and>
    ms_inv words txg os S0 S (msp\<lparr>ms_map := sm, ms_allocmap := (ms_allocmap msp)[k := am]\<rparr>)"
proof -
  let ?A = "alloc_of msp txg" and ?F = "free_of msp txg" and ?B = "span offset sz"
  note v = ms_invD [OF assms(1)] and l = ms_inv_loaded [OF assms(1,2)]
  from ff.map_claim [OF l(1) assms(5)] assms(6) l(2) obtain sm where
    a: "space_map_claim (ms_map msp) offset sz = Some sm" "ff.active sm" "kept (ms_map msp) sm" "space_of sm = space_of (ms_map msp) - ?B"
    by auto
  have d: "?B \<inter> taken S ?A ?F = {}" "?B \<subseteq> ms_span msp" using assms(6) by auto
  from allocmap_add [OF assms(1,3,4,5) d(1), folded k_def] obtain am where
    am: "space_map_add (ms_allocmap msp ! k) offset sz = Some am" "sm_wf am" "bounds am = bounds (ms_map msp)" "space_of am = ?A i \<union> ?B" by blast
  note p = parts_alloc [OF v(4) assms(3,4) d(2,1)]
  have "ms_inv words txg os S0 S (msp\<lparr>ms_map := sm, ms_allocmap := (ms_allocmap msp)[k := am]\<rparr>)"
    unfolding k_def
    using p a(2,3,4) am(2-4) l(2)
    by (intro alloc_change [OF assms(1,2,3)]) (simp_all del: fun_upd_apply add: set_diff_eq conj_ac)
  then show ?thesis using a(1) am(1,4) by blast
qed

text \<open>Freeing in a group what is live then.\<close>

lemma ms_free_ok:
  assumes "ms_inv words txg os S0 S msp" "i < 4" "0 < i" "in_range (ms_map msp) offset sz"
    and "span offset sz \<subseteq> live S (alloc_of msp txg) (free_of msp txg) i"
  defines "k \<equiv> txg_slot (later txg i)"
  shows "\<exists>fm. space_map_add (ms_freemap msp ! k) offset sz = Some fm \<and> space_of fm = free_of msp txg i \<union> span offset sz \<and>
    ms_inv words txg os S0 S (msp\<lparr>ms_freemap := (ms_freemap msp)[k := fm]\<rparr>)"
proof -
  let ?A = "alloc_of msp txg" and ?F = "free_of msp txg" and ?B = "span offset sz"
  note v = ms_invD [OF assms(1)]
  note w = maps_nth [OF v(1), of "later txg i", folded k_def]
  have s: "space_of (ms_freemap msp ! k) = ?F i" by (simp add: free_of_def k_def slot_later)
  have "?F i \<inter> ?B = {}" using assms(5) by (cases rule: active_cases [OF assms(2,3)]) (auto simp: live_def)
  then have ds: "space_of (ms_freemap msp ! k) \<inter> ?B = {}" using s by blast
  have ra: "in_range (ms_freemap msp ! k) offset sz" using assms(4) geom_cong(3) [OF w(4)] by simp
  from add_step [OF w(3) ra ds] obtain fm where
    fm: "space_map_add (ms_freemap msp ! k) offset sz = Some fm" "sm_wf fm" "resized (ms_freemap msp ! k) fm" "space_of fm = ?F i \<union> ?B"
    unfolding s by blast
  let ?m = "msp\<lparr>ms_freemap := (ms_freemap msp)[k := fm]\<rparr>"
  have mo: "ms_maps_ok ?m" using maps_free_update [OF v(1) fm(2)] resized_bounds [OF fm(3)] w(4) by simp
  have fu: "free_of ?m txg j = (?F(i := ?F i \<union> ?B)) j" if "j < 4" for j
    using free_of_update [of msp i j txg fm] assms(2) that v(1) fm(4) by (simp add: k_def ms_maps_ok_def)
  have au: "alloc_of ?m txg = ?A" by simp
  note p = parts_free [OF v(4) assms(2,3,5)]
  have q: "parts (ms_span msp) S ?A (free_of ?m txg)" "taken S ?A (free_of ?m txg) = taken S ?A ?F" "free_of ?m txg 0 = ?F 0"
    using parts_cong [of ?A ?A "free_of ?m txg" "?F(i := ?F i \<union> ?B)"] taken_cong [of ?A ?A "free_of ?m txg" "?F(i := ?F i \<union> ?B)"]
      fu p assms(3) by auto
  have "ms_inv words txg os S0 S ?m" using assms(1) mo q unfolding ms_inv_def au by (cases "sm_loaded (ms_map msp)") auto
  then show ?thesis using fm(1,4) by blast
qed

text \<open>Freeing at once what the same group has allocated and nothing has freed.\<close>

lemma ms_free_now_ok:
  assumes "ms_inv words txg os S0 S msp" "i < 4" "0 < i" "in_range (ms_map msp) offset sz"
    and "span offset sz \<subseteq> alloc_of msp txg i" "span offset sz \<inter> (free_of msp txg 1 \<union> free_of msp txg 2 \<union> free_of msp txg 3) = {}"
  defines "k \<equiv> txg_slot (later txg i)"
  shows "\<exists>am sm. space_map_remove (ms_allocmap msp ! k) offset sz = Some am \<and> space_of am = alloc_of msp txg i - span offset sz \<and>
    space_map_free (ms_map msp) offset sz = Some sm \<and>
    ms_inv words txg os S0 S (msp\<lparr>ms_map := sm, ms_allocmap := (ms_allocmap msp)[k := am]\<rparr>)"
proof -
  let ?A = "alloc_of msp txg" and ?F = "free_of msp txg" and ?B = "span offset sz"
  note v = ms_invD [OF assms(1)]
  have ne: "?A i \<noteq> {}" using assms(4,5) by (auto simp: in_range_def span_def unat_eq_0)
  have ld: "sm_loaded (ms_map msp)"
  proof (rule ccontr)
    assume "\<not> sm_loaded (ms_map msp)"
    then show False using assms(1,2) ne unfolding ms_inv_def by simp
  qed
  note l = ms_inv_loaded [OF assms(1) ld]
  note w = maps_nth [OF v(1), of "later txg i", folded k_def]
  have s: "space_of (ms_allocmap msp ! k) = ?A i" by (simp add: alloc_of_def k_def slot_later)
  have ra: "in_range (ms_allocmap msp ! k) offset sz" using assms(4) geom_cong(3) [OF w(2)] by simp
  from remove_step [OF w(1) ra] assms(5) obtain am where
    am: "space_map_remove (ms_allocmap msp ! k) offset sz = Some am" "sm_wf am" "resized (ms_allocmap msp ! k) am" "space_of am = ?A i - ?B"
    unfolding s by blast
  have at: "?A i \<subseteq> taken S ?A ?F" by (cases rule: active_cases [OF assms(2,3)]) (auto simp: taken_def)
  have "space_of (ms_map msp) \<inter> ?B = {}" using l(2) at assms(5) by auto
  from ff.map_free [OF l(1) assms(4) this] obtain sm where
    a: "space_map_free (ms_map msp) offset sz = Some sm" "ff.active sm" "kept (ms_map msp) sm" "space_of sm = space_of (ms_map msp) \<union> ?B" by blast
  note p = parts_undo [OF v(4) assms(2,3,5,6)]
  have u: "?B \<subseteq> ms_span msp" using assms(4) by (simp add: in_range_def)
  have "ms_inv words txg os S0 S (msp\<lparr>ms_map := sm, ms_allocmap := (ms_allocmap msp)[k := am]\<rparr>)"
    unfolding k_def
  proof (rule alloc_change [OF assms(1) ld assms(2) am(2)])
    show "bounds am = bounds (ms_map msp)" using resized_bounds [OF am(3)] w(2) by simp
    show "parts (ms_span msp) S (?A(i := space_of am)) ?F" unfolding am(4) by (rule p(1))
    show "space_of sm = ms_span msp - taken S (?A(i := space_of am)) ?F"
      unfolding am(4) p(2) a(4) l(2) using at u assms(5) by blast
  qed (rule a(2,3))+
  then show ?thesis using a(1) am(1,4) by blast
qed

section \<open>Loading\<close>

lemma ms_inv_unloaded:
  assumes "ms_inv words txg os S0 S msp" "\<not> sm_loaded (ms_map msp)"
  shows "sm_ops (ms_map msp) = None" "sm_space (ms_map msp) = 0" "\<forall>i < 4. alloc_of msp txg i = {}" "S0 = S \<union> free_of msp txg 0"
    "smo_log words os (ms_map msp) (ms_smo msp) S0"
    "smo_objsize (ms_smo msp) = 0 \<or> smo_object (ms_smo msp) = smo_object (ms_smo_syncing msp) \<and>
      smo_objsize (ms_smo msp) \<le> smo_objsize (ms_smo_syncing msp)"
  using assms by (auto simp: ms_inv_def)

lemma ms_load_ok:
  assumes "dmu_ok dmu words" "ms_inv words txg os S0 S msp" "\<not> sm_loaded (ms_map msp)"
  shows "\<exists>sm. space_map_load dmu os (ms_map msp) (Some metaslab_ff_ops) SM_FREE (ms_smo msp) = Some sm \<and> sm_loaded sm \<and>
    bounds sm = bounds (ms_map msp) \<and> ms_inv words txg os S0 S (msp\<lparr>ms_map := sm\<rparr>)"
proof -
  note v = ms_invD [OF assms(2)]
  note u = ms_inv_unloaded(2-5) [OF assms(2,3)]
  have g: "in_range (ms_map msp) (sm_start (ms_map msp)) (sm_size (ms_map msp))" using v(2) by (simp add: ms_geom_def)
  have s: "8 dvd unat (smo_objsize (ms_smo msp))" "unat (smo_objsize (ms_smo msp)) + 4096 < 2 ^ 64"
    "log_set (ms_map msp) (log words os (ms_smo msp)) = Some S0" "unat (smo_alloc (ms_smo msp)) = card S0"
    using u(4) by (simp_all add: smo_log_def)
  from ff.map_load [OF assms(1) s(1,2) v(6) g u(1) v(3) assms(3) s(3,4)] obtain sm where
    m: "space_map_load dmu os (ms_map msp) (Some metaslab_ff_ops) SM_FREE (ms_smo msp) = Some sm" "ff.active sm"
    "bounds sm = bounds (ms_map msp)" "sm_loaded sm" "\<not> sm_loading sm" "space_of sm = ms_span msp - S0" by blast
  note b = bounds_fields [OF m(3)] and gc = geom_cong [OF m(3)]
  have "taken S (alloc_of msp txg) (free_of msp txg) = S0" using u(2,3) by (auto simp: taken_def)
  moreover have "ms_maps_ok (msp\<lparr>ms_map := sm\<rparr>)" using maps_map_update [OF v(1) _ m(3)] m(2) by (simp add: ff.active_def)
  ultimately have "ms_inv words txg os S0 S (msp\<lparr>ms_map := sm\<rparr>)"
    using assms(2) m unfolding ms_inv_def by (simp add: b gc)
  then show ?thesis using m by blast
qed

lemma ms_weight_ok:
  assumes "ms_inv words txg os S0 S msp" "w AND METASLAB_ACTIVE_MASK \<noteq> 0 \<longrightarrow> sm_loaded (ms_map msp)"
  shows "ms_inv words txg os S0 S (msp\<lparr>ms_weight := w\<rparr>)"
  using assms by (auto simp: ms_inv_def ms_maps_ok_def)

text \<open>Other objects may change.\<close>

lemma smo_log_frame:
  "words os' (smo_object smo) = words os (smo_object smo) \<Longrightarrow> smo_log words os' sm smo S = smo_log words os sm smo S"
  by (simp add: smo_log_def log_def)

lemma ms_inv_frame:
  assumes "ms_inv words txg os S0 S msp" "words os' (smo_object (ms_smo msp)) = words os (smo_object (ms_smo msp))"
    "words os' (smo_object (ms_smo_syncing msp)) = words os (smo_object (ms_smo_syncing msp))"
  shows "ms_inv words txg os' S0 S msp"
  using assms(1) smo_log_frame [of words os' "ms_smo msp" os, OF assms(2)] smo_log_frame [of words os' "ms_smo_syncing msp" os, OF assms(3)] unfolding ms_inv_def by auto

section \<open>Syncing\<close>

lemma smo_log_empty: "smo_objsize smo = 0 \<Longrightarrow> smo_alloc smo = 0 \<Longrightarrow> smo_log words os sm smo {}"
  by (simp add: smo_log_def log_def log_set_def)

lemma sync_object_ok:
  assumes "mos_ok mos words" "smo_log words os (ms_map msp) (ms_smo_syncing msp) S"
    and "smo_object (ms_smo_syncing msp) = 0 \<longrightarrow> smo_objsize (ms_smo_syncing msp) = 0 \<and> smo_alloc (ms_smo_syncing msp) = 0"
  shows "\<exists>smo' os'. sync_object mos vd msp os = Some (smo', os') \<and> smo_log words os' (ms_map msp) smo' S \<and> smo_object smo' \<noteq> 0 \<and>
    smo_objsize smo' = smo_objsize (ms_smo_syncing msp) \<and>
    (smo_objsize smo' = 0 \<or> os' = os \<and> smo' = ms_smo_syncing msp)"
proof (cases "smo_object (ms_smo_syncing msp) = 0")
  case True
  obtain object os1 where a: "dmu_object_alloc mos os = (object, os1)" by fastforce
  have "object \<noteq> 0" using assms(1) a by (simp add: mos_ok_def) (metis fst_conv)
  moreover have "S = {}" using assms(2,3) True by (auto simp: smo_log_def log_def log_set_def)
  ultimately show ?thesis
    using True assms(3) a smo_log_empty [of "ms_smo_syncing msp\<lparr>smo_object := object\<rparr>"] by (auto simp: sync_object_def Let_def)
next
  case False
  then show ?thesis using assms(2) by (simp add: sync_object_def)
qed

lemma condense_ok:
  assumes "ms_maps_ok msp" "ms_geom (ms_map msp)" "parts (ms_span msp) S (alloc_of msp txg) (free_of msp txg)"
    and "space_of (ms_map msp) = ms_span msp - taken S (alloc_of msp txg) (free_of msp txg)"
    and "sm_wf freed_map" "bounds freed_map = bounds (ms_map msp)" "space_of freed_map = free_of msp txg 0 \<union> free_of msp txg 1"
  shows "\<exists>am. condense msp (later txg 1) (ms_allocmap msp ! txg_slot (later txg 1)) freed_map = Some am \<and> sm_wf am \<and>
    bounds am = bounds (ms_map msp) \<and> space_of am = S \<union> alloc_of msp txg 1 - free_of msp txg 1"
proof -
  let ?A = "alloc_of msp txg" and ?F = "free_of msp txg" and ?U = "ms_span msp" and ?m = "ms_map msp"
  define am0 where "am0 = ms_allocmap msp ! txg_slot (later txg 1)"
  note w = maps_nth [OF assms(1)]
  have w0: "sm_wf am0" "bounds am0 = bounds ?m" using w by (simp_all add: am0_def)
  define am1 where "am1 = am0\<lparr>sm_root := avl_create, sm_space := 0\<rparr>"
  have v: "space_map_vacate am0 None () = Some (am1, ())" unfolding am1_def by (rule vacate_none [OF w0(1)])
  have w1: "sm_wf am1" "space_of am1 = {}" using sm_wf_empty [OF w0(1)] by (simp_all add: am1_def)
  have b1: "bounds am1 = bounds ?m" using w0(2) by (simp add: am1_def bounds_def)
  have r1: "in_range am1 (sm_start am1) (sm_size am1)"
    using assms(2) bounds_fields [OF b1] geom_cong(3) [OF b1] by (simp add: ms_geom_def)
  have mw: "sm_wf ?m" using assms(1) by (simp add: ms_maps_ok_def)
  from add_step [OF w1(1) r1] w1(2) bounds_fields [OF b1] obtain am2 where
    m2: "space_map_add am1 (sm_start am1) (sm_size am1) = Some am2" "sm_wf am2" "resized am1 am2" "space_of am2 = ?U" by auto
  have b2: "bounds am2 = bounds ?m" using resized_bounds [OF m2(3)] b1 by simp
  have "space_of ?m \<subseteq> space_of am2" using assms(4) m2(4) by auto
  from walk_remove [OF mw m2(2) b2 this] obtain am3 where
    m3: "space_map_walk ?m space_map_remove am2 = Some am3" "sm_wf am3" "resized am2 am3" "space_of am3 = ?U - space_of ?m" unfolding m2(4) by blast
  have b3: "bounds am3 = bounds ?m" using resized_bounds [OF m3(3)] b2 by simp
  have d: "S \<union> ?F 0 \<union> ?A 1 \<union> ?A 2 \<union> ?A 3 \<subseteq> ?U" "S \<inter> ?A 2 = {}" "S \<inter> ?A 3 = {}" "?F 0 \<inter> ?A 2 = {}" "?F 0 \<inter> ?A 3 = {}"
    "?A 1 \<inter> ?A 2 = {}" "?A 1 \<inter> ?A 3 = {}" "?A 2 \<inter> ?A 3 = {}" "?F 1 \<subseteq> S \<union> ?A 1"
    using assms(3) by (simp_all add: parts_def)
  have p: "?F 0 \<union> ?F 1 \<subseteq> space_of am3" "?A 2 \<subseteq> space_of am3 - (?F 0 \<union> ?F 1)" "?A 3 \<subseteq> space_of am3 - (?F 0 \<union> ?F 1) - ?A 2"
    unfolding m3(4) assms(4) taken_def using d by blast+
  from walk_remove [OF assms(5) m3(2)] b3 assms(6,7) p(1) obtain am4 where
    m4: "space_map_walk freed_map space_map_remove am3 = Some am4" "sm_wf am4" "resized am3 am4" "space_of am4 = space_of am3 - (?F 0 \<union> ?F 1)"
    by (metis (no_types, lifting))
  have b4: "bounds am4 = bounds ?m" using resized_bounds [OF m4(3)] b3 by simp
  have s: "space_of (ms_allocmap msp ! txg_slot (later txg i)) = ?A i" for i by (simp add: alloc_of_def slot_later)
  have "space_of (ms_allocmap msp ! txg_slot (later txg 2)) \<subseteq> space_of am4" using p(2) m4(4) s by simp
  from walk_remove [OF w(1) m4(2) _ this] obtain am5 where
    m5: "space_map_walk (ms_allocmap msp ! txg_slot (later txg 2)) space_map_remove am4 = Some am5" "sm_wf am5" "resized am4 am5"
    "space_of am5 = space_of am4 - ?A 2" unfolding s using b4 w(2) by metis
  have b5: "bounds am5 = bounds ?m" using resized_bounds [OF m5(3)] b4 by simp
  have "space_of (ms_allocmap msp ! txg_slot (later txg 3)) \<subseteq> space_of am5" using p(3) m4(4) m5(4) s by simp
  from walk_remove [OF w(1) m5(2) _ this] obtain am6 where
    m6: "space_map_walk (ms_allocmap msp ! txg_slot (later txg 3)) space_map_remove am5 = Some am6" "sm_wf am6" "resized am5 am6"
    "space_of am6 = space_of am5 - ?A 3" unfolding s using b5 w(2) by metis
  have lt: "later txg (Suc 0) + 1 = later txg 2" "later txg (Suc 0) + 2 = later txg 3" "[Suc 0..<TXG_CONCURRENT_STATES] = [1, 2]"
    by (simp_all add: later_def TXG_CONCURRENT_STATES_def upt_rec)
  have "condense msp (later txg 1) am0 freed_map = Some am6"
    using v m2(1) m3(1) m4(1) m5(1) m6(1) by (simp add: condense_def lt)
  moreover have "bounds am6 = bounds ?m" using resized_bounds [OF m6(3)] b5 by simp
  moreover have "space_of am6 = S \<union> ?A 1 - ?F 1"
    using parts_sync(4) [OF assms(3)] unfolding m6(4) m5(4) m4(4) m3(4) assms(4) .
  ultimately show ?thesis using m6(2) unfolding am0_def by blast
qed

lemma log_prefix:
  assumes "log words os' smo' = log words os smo @ es" "smo_object smo' = smo_object smo" "smo_object m = smo_object smo" "smo_objsize m \<le> smo_objsize smo"
  shows "log words os' m = log words os m"
proof -
  have n: "unat (smo_objsize m) div 8 \<le> unat (smo_objsize smo) div 8" using assms(4) by (simp add: div_le_mono word_le_nat_alt)
  have "words os' (smo_object smo) i = words os (smo_object smo) i" if "i < unat (smo_objsize smo) div 8" for i
  proof -
    have "i < length (log words os smo)" using that by (simp add: log_def)
    then have l: "log words os' smo' ! i = log words os smo ! i" "i < length (log words os' smo')" using assms(1) by (simp_all add: nth_append)
    then show ?thesis using that assms(2) by (simp add: log_def)
  qed
  then show ?thesis using n assms(3) by (simp add: log_def)
qed

lemma map_sync:
  fixes sm m :: ff_map
  assumes "dmu_ok dmu words" "sm_wf sm" "bounds sm = bounds m" "ms_geom m" "maptype = SM_ALLOC \<or> maptype = SM_FREE"
    and "smo_log words os m smo S" "unat (smo_objsize smo) + 8 * (unat (sm_size m) + 1) < 2 ^ 63"
    and "apply_type maptype S (space_of sm) = Some S'"
  shows "\<exists>smo' os'. space_map_sync dmu syncpass txg sm maptype smo os = Some (sm\<lparr>sm_root := avl_create, sm_space := 0\<rparr>, smo', os') \<and>
    smo_log words os' m smo' S' \<and> smo_object smo' = smo_object smo \<and>
    unat (smo_objsize smo') \<le> unat (smo_objsize smo) + 8 * (unat (sm_size m) + 1) \<and>
    (\<exists>es. log words os' smo' = log words os smo @ es)"
proof -
  note b = bounds_fields [OF assms(3)] and g = geom_cong [OF assms(3)] and lc = log_set_cong [OF assms(3)]
  have st: "sm_storable sm" using assms(4) by (simp add: g ms_geom_def)
  have s: "8 dvd unat (smo_objsize smo)" "log_set sm (log words os smo) = Some S" "unat (smo_alloc smo) = card S"
    using assms(6) by (simp_all add: smo_log_def lc)
  have le: "unat (smo_objsize smo) + 8 * (unat (sm_size sm) + 9) < 2 ^ 64" using assms(7) by (simp add: b)
  from space_map_sync_ok [OF assms(1,2) st assms(5) s(1) le s(2,3) assms(8), of syncpass txg] obtain smo' os' where
    y: "space_map_sync dmu syncpass txg sm maptype smo os = Some (sm\<lparr>sm_root := avl_create, sm_space := 0\<rparr>, smo', os')"
    "log_set m (log words os' smo') = Some S'" "unat (smo_alloc smo') = card S'" "smo_object smo' = smo_object smo"
    "8 dvd unat (smo_objsize smo')" "unat (smo_objsize smo') \<le> unat (smo_objsize smo) + 8 * (unat (sm_size m) + 1)"
    "\<exists>es. log words os' smo' = log words os smo @ es"
    unfolding b lc by blast
  have "smo_log words os' m smo' S'" using y assms(7) by (simp add: smo_log_def)
  then show ?thesis using y by blast
qed

text \<open>What is ready to be appended to the object, after condensing or not.\<close>

definition sync_ready :: "('os \<Rightarrow> u64 \<Rightarrow> nat \<Rightarrow> u64) \<Rightarrow> ff_map \<Rightarrow> nat set \<Rightarrow> ff_map \<Rightarrow> ff_map \<Rightarrow> space_map_obj \<Rightarrow> 'os \<Rightarrow> bool" where
  "sync_ready words m S' am fm smo os \<longleftrightarrow> sm_wf am \<and> bounds am = bounds m \<and> sm_wf fm \<and> bounds fm = bounds m \<and>
     (\<exists>S T. smo_log words os m smo S \<and> apply_type SM_ALLOC S (space_of am) = Some T \<and> apply_type SM_FREE T (space_of fm) = Some S')"

lemma two_syncs:
  assumes "dmu_ok dmu words" "ms_geom m" "sync_ready words m S' am fm smo os" "unat (smo_objsize smo) \<le> 2 ^ 62 - 16"
  shows "\<exists>smo1 os1 smo2 os2. space_map_sync dmu syncpass txg am SM_ALLOC smo os = Some (am\<lparr>sm_root := avl_create, sm_space := 0\<rparr>, smo1, os1) \<and>
    space_map_sync dmu syncpass txg fm SM_FREE smo1 os1 = Some (fm\<lparr>sm_root := avl_create, sm_space := 0\<rparr>, smo2, os2) \<and>
    smo_log words os2 m smo2 S' \<and> smo_object smo2 = smo_object smo \<and> (\<exists>es. log words os2 smo2 = log words os smo @ es) \<and>
    unat (smo_objsize smo2) \<le> unat (smo_objsize smo) + 16 * (unat (sm_size m) + 1)"
proof -
  obtain S T where r: "sm_wf am" "bounds am = bounds m" "sm_wf fm" "bounds fm = bounds m" "smo_log words os m smo S"
    "apply_type SM_ALLOC S (space_of am) = Some T" "apply_type SM_FREE T (space_of fm) = Some S'"
    using assms(3) by (auto simp: sync_ready_def)
  have z: "unat (sm_size m) < 2 ^ 58" using assms(2) by (simp add: ms_geom_def)
  have le: "unat (smo_objsize smo) + 8 * (unat (sm_size m) + 1) < 2 ^ 63" using assms(4) z by simp
  from map_sync [OF assms(1) r(1,2) assms(2) _ r(5) le r(6), of syncpass txg] obtain smo1 os1 es1 where
    a: "space_map_sync dmu syncpass txg am SM_ALLOC smo os = Some (am\<lparr>sm_root := avl_create, sm_space := 0\<rparr>, smo1, os1)"
    "smo_log words os1 m smo1 T" "smo_object smo1 = smo_object smo" "log words os1 smo1 = log words os smo @ es1"
    "unat (smo_objsize smo1) \<le> unat (smo_objsize smo) + 8 * (unat (sm_size m) + 1)" by blast
  have le1: "unat (smo_objsize smo1) + 8 * (unat (sm_size m) + 1) < 2 ^ 63" using a(5) assms(4) z by simp
  from map_sync [OF assms(1) r(3,4) assms(2) _ a(2) le1 r(7), of syncpass txg] obtain smo2 os2 es2 where
    f: "space_map_sync dmu syncpass txg fm SM_FREE smo1 os1 = Some (fm\<lparr>sm_root := avl_create, sm_space := 0\<rparr>, smo2, os2)"
    "smo_log words os2 m smo2 S'" "smo_object smo2 = smo_object smo1" "log words os2 smo2 = log words os1 smo1 @ es2"
    "unat (smo_objsize smo2) \<le> unat (smo_objsize smo1) + 8 * (unat (sm_size m) + 1)" by blast
  have "log words os2 smo2 = log words os smo @ (es1 @ es2)" using a(4) f(4) by simp
  then show ?thesis using a(1,3,5) f by (intro exI [of _ smo1] exI [of _ os1] exI [of _ smo2] exI [of _ os2]) auto
qed


text \<open>The object, the freed map and the two maps before they are appended.\<close>

lemma apply_sync:
  assumes "parts U S A F"
  shows "apply_type SM_ALLOC S (A 1) = Some (S \<union> A 1)" "apply_type SM_FREE (S \<union> A 1) (F 1) = Some (S \<union> A 1 - F 1)"
    "apply_type SM_ALLOC {} T = Some T" "apply_type SM_FREE T {} = Some T"
  using assms by (simp_all add: apply_type_def set_add_def set_remove_def SM_ALLOC_def SM_FREE_def parts_def)

lemma sync_prepare:
  assumes "dmu_ok dmu words" "ms_maps_ok msp" "ms_geom (ms_map msp)" "parts (ms_span msp) S (alloc_of msp txg) (free_of msp txg)"
    and "sm_loaded (ms_map msp) \<longrightarrow> space_of (ms_map msp) = ms_span msp - taken S (alloc_of msp txg) (free_of msp txg)"
    and "sm_wf freed_map" "bounds freed_map = bounds (ms_map msp)" "space_of freed_map = free_of msp txg 0 \<union> free_of msp txg 1"
    and "smo_log words os (ms_map msp) smo S"
  defines "am \<equiv> ms_allocmap msp ! txg_slot (later txg 1)" and "fm \<equiv> ms_freemap msp ! txg_slot (later txg 1)"
  shows "\<exists>am' fm' smo' os'.
    (if sm_loaded (ms_map msp) \<and> c then do {
       allocmap \<leftarrow> condense msp (later txg 1) am freed_map;
       (freemap, _) \<leftarrow> space_map_vacate fm None ();
       (smo, os) \<leftarrow> space_map_truncate dmu smo os;
       Some (allocmap, freemap, smo, os)
     } else Some (am, fm, smo, os)) = Some (am', fm', smo', os') \<and>
    sync_ready words (ms_map msp) (S \<union> alloc_of msp txg 1 - free_of msp txg 1) am' fm' smo' os' \<and>
    smo_object smo' = smo_object smo \<and> unat (smo_objsize smo') \<le> unat (smo_objsize smo) \<and>
    (\<not> sm_loaded (ms_map msp) \<longrightarrow> smo' = smo \<and> os' = os)"
proof -
  let ?A = "alloc_of msp txg" and ?F = "free_of msp txg" and ?m = "ms_map msp"
  note w = maps_nth [OF assms(2)] and ap = apply_sync [OF assms(4)]
  have s: "space_of am = ?A 1" "space_of fm = ?F 1" by (simp_all add: am_def fm_def alloc_of_def free_of_def slot_later)
  show ?thesis
  proof (cases "sm_loaded ?m \<and> c")
    case True
    then have m: "space_of ?m = ms_span msp - taken S ?A ?F" using assms(5) by simp
    from condense_ok [OF assms(2-4) m assms(6-8), folded am_def] obtain am' where
      a: "condense msp (later txg 1) am freed_map = Some am'" "sm_wf am'" "bounds am' = bounds ?m" "space_of am' = S \<union> ?A 1 - ?F 1" by blast
    let ?fm = "fm\<lparr>sm_root := avl_create, sm_space := 0\<rparr>" and ?smo = "smo\<lparr>smo_objsize := 0, smo_alloc := 0\<rparr>"
    have f: "space_map_vacate fm None () = Some (?fm, ())" "sm_wf ?fm" "space_of ?fm = {}" "bounds ?fm = bounds ?m"
      using vacate_none [of fm "()"] sm_wf_empty [of fm] w(3,4) by (simp_all add: fm_def bounds_def)
    obtain os' where t: "space_map_truncate dmu smo os = Some (?smo, os')"
      using assms(1) unfolding dmu_ok_def space_map_truncate_def by (metis option.simps(9))
    have "smo_log words os' ?m ?smo {}" by (rule smo_log_empty) simp_all
    then have "sync_ready words ?m (S \<union> ?A 1 - ?F 1) am' ?fm ?smo os'"
      unfolding sync_ready_def using a(2,3,4) f(2,3,4) ap(3,4) by auto
    then show ?thesis using True a(1) f(1) t by (intro exI [of _ am'] exI [of _ ?fm] exI [of _ ?smo] exI [of _ os']) simp
  next
    case False
    have "sync_ready words ?m (S \<union> ?A 1 - ?F 1) am fm smo os"
      unfolding sync_ready_def s using w assms(9) ap(1,2) by (auto simp: am_def fm_def)
    then show ?thesis using False by auto
  qed
qed

lemma clean_later: "TXG_CLEAN (later txg (Suc n)) = later txg n"
  by (simp add: TXG_CLEAN_def later_def)

text \<open>The metaslab after a sync: the maps of the group are empty, what it freed is in the freed map.\<close>

lemma synced_sets:
  fixes msp :: metaslab and smo :: space_map_obj
  assumes "ms_maps_ok msp" "space_of freed = free_of msp txg 0 \<union> free_of msp txg 1" "space_of am = {}" "space_of fm = {}"
    and "sm_wf freed" "sm_wf am" "sm_wf fm" "bounds freed = bounds (ms_map msp)" "bounds am = bounds (ms_map msp)" "bounds fm = bounds (ms_map msp)"
  defines "msp' \<equiv> msp\<lparr>ms_smo_syncing := smo, ms_allocmap := (ms_allocmap msp)[txg_slot (later txg 1) := am],
      ms_freemap := (ms_freemap msp)[txg_slot (later txg 0) := freed, txg_slot (later txg 1) := fm]\<rparr>"
  shows "ms_maps_ok msp'" "\<And>j. j < 4 \<Longrightarrow> alloc_of msp' txg j = ((alloc_of msp txg)(1 := {})) j"
    "\<And>j. j < 4 \<Longrightarrow> free_of msp' txg j = ((free_of msp txg)(0 := free_of msp txg 0 \<union> free_of msp txg 1, 1 := {})) j"
proof -
  define m1 where "m1 = msp\<lparr>ms_smo_syncing := smo, ms_allocmap := (ms_allocmap msp)[txg_slot (later txg 1) := am]\<rparr>"
  define m2 where "m2 = m1\<lparr>ms_freemap := (ms_freemap m1)[txg_slot (later txg 0) := freed]\<rparr>"
  have e: "msp' = m2\<lparr>ms_freemap := (ms_freemap m2)[txg_slot (later txg 1) := fm]\<rparr>" by (simp add: msp'_def m1_def m2_def)
  have o: "ms_maps_ok m1" using maps_alloc_update [OF assms(1,6,9)] by (simp add: m1_def ms_maps_ok_def)
  have b: "ms_map m1 = ms_map msp" "ms_map m2 = ms_map msp" by (simp_all add: m1_def m2_def)
  have o2: "ms_maps_ok m2" unfolding m2_def using maps_free_update [OF o assms(5)] assms(8) b by simp
  show "ms_maps_ok msp'" unfolding e using maps_free_update [OF o2 assms(7)] assms(10) b by simp
  have l: "length (ms_allocmap msp) = TXG_SIZE" "length (ms_freemap m1) = TXG_SIZE" "length (ms_freemap m2) = TXG_SIZE"
    using assms(1) o o2 by (simp_all add: ms_maps_ok_def)
  show "alloc_of msp' txg j = ((alloc_of msp txg)(1 := {})) j" if "j < 4" for j
    using alloc_of_update [of msp 1 j txg am] l(1) that assms(3) by (simp add: msp'_def alloc_of_def)
  show "free_of msp' txg j = ((free_of msp txg)(0 := free_of msp txg 0 \<union> free_of msp txg 1, 1 := {})) j" if "j < 4" for j
  proof -
    have "free_of msp' txg j = (if j = 1 then {} else free_of m2 txg j)"
      unfolding e using free_of_update [OF l(3), of 1 j txg fm] that assms(4) by simp
    also have "free_of m2 txg j = (if j = 0 then space_of freed else free_of m1 txg j)"
      unfolding m2_def using free_of_update [OF l(2), of 0 j txg freed] that by simp
    also have "free_of m1 txg j = free_of msp txg j" by (simp add: m1_def free_of_def)
    finally show ?thesis using assms(2) by auto
  qed
qed

text \<open>The object as of the last group synced, while a metaslab that is not loaded is synced.\<close>

lemma sync_keeps_log:
  assumes "ms_inv words txg os S0 S msp" "\<not> sm_loaded (ms_map msp)"
    and "smo_objsize smo1 = smo_objsize (ms_smo_syncing msp)" "smo_objsize smo1 = 0 \<or> os1 = os \<and> smo1 = ms_smo_syncing msp"
    and "log words os4 smo4 = log words os1 smo1 @ es" "smo_object smo4 = smo_object smo1" "smo_log words os4 (ms_map msp) smo4 S'"
  shows "smo_log words os4 (ms_map msp) (ms_smo msp) S0"
    "smo_objsize (ms_smo msp) = 0 \<or> smo_object (ms_smo msp) = smo_object smo4 \<and> smo_objsize (ms_smo msp) \<le> smo_objsize smo4"
proof -
  note u = ms_inv_unloaded [OF assms(1,2)]
  have "smo_log words os4 (ms_map msp) (ms_smo msp) S0 \<and>
    (smo_objsize (ms_smo msp) = 0 \<or> smo_object (ms_smo msp) = smo_object smo4 \<and> smo_objsize (ms_smo msp) \<le> smo_objsize smo4)"
  proof (cases "smo_objsize (ms_smo msp) = 0")
    case True
    then have "log words os4 (ms_smo msp) = log words os (ms_smo msp)" by (simp add: log_def)
    then show ?thesis using u(5) True by (simp add: smo_log_def)
  next
    case False
    then have s: "smo_object (ms_smo msp) = smo_object (ms_smo_syncing msp)" "smo_objsize (ms_smo msp) \<le> smo_objsize smo1" "smo_objsize smo1 \<noteq> 0"
      using u(6) assms(3) by auto
    then have e: "os1 = os" "smo1 = ms_smo_syncing msp" using assms(4) by simp_all
    have "log words os4 (ms_smo msp) = log words os (ms_smo msp)"
      using log_prefix [OF assms(5,6), of "ms_smo msp"] s e by simp
    then have "smo_log words os4 (ms_map msp) (ms_smo msp) S0" using u(5) by (simp add: smo_log_def)
    moreover have "unat (smo_objsize smo1) div 8 \<le> unat (smo_objsize smo4) div 8"
      using arg_cong [OF assms(5), of length] by (simp add: log_def)
    then have "8 * (unat (smo_objsize smo1) div 8) \<le> 8 * (unat (smo_objsize smo4) div 8)" by simp
    then have "unat (smo_objsize smo1) \<le> unat (smo_objsize smo4)"
      using assms(7) ms_invD(7) [OF assms(1)] e(2) unfolding smo_log_def by (simp only: dvd_mult_div_cancel)
    then have "smo_objsize (ms_smo msp) \<le> smo_objsize smo4" using s(2) by (simp add: word_le_nat_alt)
    ultimately show ?thesis using s(1) e(2) assms(6) by simp
  qed
  then show "smo_log words os4 (ms_map msp) (ms_smo msp) S0"
    "smo_objsize (ms_smo msp) = 0 \<or> smo_object (ms_smo msp) = smo_object smo4 \<and> smo_objsize (ms_smo msp) \<le> smo_objsize smo4" by blast+
qed

text \<open>The invariant after a sync.\<close>

lemma synced_inv:
  assumes "ms_inv words txg os S0 S msp" "ms_maps_ok msp'" "ms_map msp' = ms_map msp" "ms_weight msp' = ms_weight msp" "ms_smo msp' = ms_smo msp"
    and "\<And>j. j < 4 \<Longrightarrow> alloc_of msp' txg j = ((alloc_of msp txg)(1 := {})) j"
    and "\<And>j. j < 4 \<Longrightarrow> free_of msp' txg j = ((free_of msp txg)(0 := free_of msp txg 0 \<union> free_of msp txg 1, 1 := {})) j"
    and "smo_log words os' (ms_map msp) (ms_smo_syncing msp') (S \<union> alloc_of msp txg 1 - free_of msp txg 1)"
    and "smo_object (ms_smo_syncing msp') \<noteq> 0"
    and "\<not> sm_loaded (ms_map msp) \<Longrightarrow> smo_log words os' (ms_map msp) (ms_smo msp) S0 \<and>
      (smo_objsize (ms_smo msp) = 0 \<or> smo_object (ms_smo msp) = smo_object (ms_smo_syncing msp') \<and> smo_objsize (ms_smo msp) \<le> smo_objsize (ms_smo_syncing msp'))"
  shows "ms_inv words txg os' S0 (S \<union> alloc_of msp txg 1 - free_of msp txg 1) msp'"
proof -
  let ?A = "alloc_of msp txg" and ?F = "free_of msp txg"
  define S' where "S' = S \<union> ?A 1 - ?F 1"
  note v = ms_invD [OF assms(1)] and p = parts_sync [OF ms_invD(4) [OF assms(1)], folded S'_def]
  let ?A' = "?A(1 := {})" and ?F' = "?F(0 := ?F 0 \<union> ?F 1, 1 := {})"
  have q: "parts (ms_span msp) S' (alloc_of msp' txg) (free_of msp' txg)"
    using p(1) parts_cong [of "alloc_of msp' txg" ?A' "free_of msp' txg" ?F' "ms_span msp" S'] assms(6,7) by blast
  have t: "taken S' (alloc_of msp' txg) (free_of msp' txg) = taken S ?A ?F"
    using p(2) taken_cong [of "alloc_of msp' txg" ?A' "free_of msp' txg" ?F' S'] assms(6,7) by metis
  have f0: "free_of msp' txg 0 = ?F 0 \<union> ?F 1" using assms(7) [of 0] by simp
  have s0: "S0 \<subseteq> S' \<union> free_of msp' txg 0" using v(5) by (auto simp: f0 S'_def)
  show ?thesis unfolding S'_def [symmetric]
  proof (cases "sm_loaded (ms_map msp)")
    case True
    then show "ms_inv words txg os' S0 S' msp'"
      using assms(1) assms(2-5,8,9) q t s0 unfolding ms_inv_def S'_def [symmetric] by simp
  next
    case False
    note u = ms_inv_unloaded [OF assms(1) False]
    have a: "\<forall>i < 4. alloc_of msp' txg i = {}" using u(3) assms(6) by auto
    have "?F 1 \<subseteq> S" using v(4) u(3) by (simp add: parts_def)
    then have "S0 = S' \<union> free_of msp' txg 0" using u(3,4) by (auto simp: f0 S'_def)
    then show "ms_inv words txg os' S0 S' msp'"
      using assms(1) assms(2-5,8,9) q a s0 False assms(10) [OF False] u unfolding ms_inv_def S'_def [symmetric] by auto
  qed
qed

lemma ms_sync_ok:
  assumes "mos_ok mos words" "ms_inv words txg os S0 S msp" "unat (smo_objsize (ms_smo_syncing msp)) \<le> 2 ^ 62 - 16"
  defines "S' \<equiv> S \<union> alloc_of msp txg 1 - free_of msp txg 1"
  shows "\<exists>msp' os'. metaslab_sync mos syncpass vd msp (later txg 1) os = Some (msp', os') \<and> ms_inv words txg os' S0 S' msp' \<and>
    ms_map msp' = ms_map msp \<and> ms_weight msp' = ms_weight msp \<and> ms_group msp' = ms_group msp \<and> ms_smo msp' = ms_smo msp \<and>
    (\<forall>j < 4. alloc_of msp' txg j = ((alloc_of msp txg)(1 := {})) j) \<and>
    (\<forall>j < 4. free_of msp' txg j = ((free_of msp txg)(0 := free_of msp txg 0 \<union> free_of msp txg 1, 1 := {})) j)"
proof -
  let ?A = "alloc_of msp txg" and ?F = "free_of msp txg" and ?m = "ms_map msp"
  note v = ms_invD [OF assms(2)] and w = maps_nth [OF ms_invD(1) [OF assms(2)]]
  have dk: "dmu_ok (mos_dmu mos) words" using assms(1) by (simp add: mos_ok_def)
  have oz: "smo_object (ms_smo_syncing msp) = 0 \<longrightarrow> smo_objsize (ms_smo_syncing msp) = 0 \<and> smo_alloc (ms_smo_syncing msp) = 0"
    using assms(2) by (simp add: ms_inv_def)
  from sync_object_ok [OF assms(1) v(7) oz] obtain smo1 os1 where
    o: "sync_object mos vd msp os = Some (smo1, os1)" "smo_log words os1 ?m smo1 S" "smo_object smo1 \<noteq> 0"
    "smo_objsize smo1 = smo_objsize (ms_smo_syncing msp)" "smo_objsize smo1 = 0 \<or> os1 = os \<and> smo1 = ms_smo_syncing msp" by blast
  define fm where "fm = ms_freemap msp ! txg_slot (later txg 1)"
  define am where "am = ms_allocmap msp ! txg_slot (later txg 1)"
  have s: "space_of (ms_freemap msp ! txg_slot (later txg 0)) = ?F 0" "space_of fm = ?F 1"
    by (simp_all add: fm_def free_of_def slot_later)
  have "S \<inter> ?F 0 = {}" "?F 0 \<inter> ?A 1 = {}" "?F 1 \<subseteq> S \<union> ?A 1" using v(4) by (simp_all add: parts_def)
  then have "?F 0 \<inter> ?F 1 = {}" by blast
  then obtain freed where f: "space_map_walk fm space_map_add (ms_freemap msp ! txg_slot (later txg 0)) = Some freed" "sm_wf freed"
    "resized (ms_freemap msp ! txg_slot (later txg 0)) freed" "space_of freed = ?F 0 \<union> ?F 1"
    using walk_add [OF w(3) w(3), of "later txg 0" "later txg 1"] w(4) s by (auto simp: fm_def)
  have fb: "bounds freed = bounds ?m" using resized_bounds [OF f(3)] w(4) by simp
  have ld: "sm_loaded ?m \<longrightarrow> space_of ?m = ms_span msp - taken S ?A ?F" using assms(2) by (simp add: ms_inv_def)
  define c where "c \<longleftrightarrow> syncpass = 1 \<and> smo_objsize smo1 \<ge> ucast (2 * 8 * of_nat (avl_numnodes (sm_root ?m)) :: u32)"
  from sync_prepare [OF dk v(1,2,4) ld f(2) fb f(4) o(2), of c, folded am_def fm_def] obtain am1 fm1 smo2 os2 where
    p: "(if sm_loaded ?m \<and> c then do {
         allocmap \<leftarrow> condense msp (later txg 1) am freed;
         (freemap, _) \<leftarrow> space_map_vacate fm None ();
         (smo, os) \<leftarrow> space_map_truncate (mos_dmu mos) smo1 os1;
         Some (allocmap, freemap, smo, os)
       } else Some (am, fm, smo1, os1)) = Some (am1, fm1, smo2, os2)"
      "sync_ready words ?m S' am1 fm1 smo2 os2" "smo_object smo2 = smo_object smo1" "unat (smo_objsize smo2) \<le> unat (smo_objsize smo1)"
      "\<not> sm_loaded ?m \<longrightarrow> smo2 = smo1 \<and> os2 = os1" unfolding S'_def by blast
  have le: "unat (smo_objsize smo2) \<le> 2 ^ 62 - 16" using p(4) o(4) assms(3) by simp
  from two_syncs [OF dk v(2) p(2) le, of syncpass "later txg 1"] obtain smo3 os3 smo4 os4 es where
    y: "space_map_sync (mos_dmu mos) syncpass (later txg 1) am1 SM_ALLOC smo2 os2 = Some (am1\<lparr>sm_root := avl_create, sm_space := 0\<rparr>, smo3, os3)"
    "space_map_sync (mos_dmu mos) syncpass (later txg 1) fm1 SM_FREE smo3 os3 = Some (fm1\<lparr>sm_root := avl_create, sm_space := 0\<rparr>, smo4, os4)"
    "smo_log words os4 ?m smo4 S'" "smo_object smo4 = smo_object smo2" "log words os4 smo4 = log words os2 smo2 @ es" by blast
  obtain os5 where bw: "dmu_bonus_write mos os4 (smo_object smo4) smo4 = Some os5" "words os5 = words os4"
    using assms(1) unfolding mos_ok_def by blast
  let ?am = "am1\<lparr>sm_root := avl_create, sm_space := 0\<rparr>" and ?fm = "fm1\<lparr>sm_root := avl_create, sm_space := 0\<rparr>"
  define msp' where "msp' = msp\<lparr>ms_smo_syncing := smo4, ms_allocmap := (ms_allocmap msp)[txg_slot (later txg 1) := ?am],
      ms_freemap := (ms_freemap msp)[txg_slot (later txg 0) := freed, txg_slot (later txg 1) := ?fm]\<rparr>"
  have run: "metaslab_sync mos syncpass vd msp (later txg 1) os = Some (msp', os5)"
    using o(1) f(1) p(1) y(1,2) bw(1) clean_later [of txg 0]
    unfolding metaslab_sync_def Let_def fm_def am_def c_def msp'_def by simp
  have e: "sm_wf ?am" "sm_wf ?fm" "space_of ?am = {}" "space_of ?fm = {}" "bounds ?am = bounds ?m" "bounds ?fm = bounds ?m"
    using p(2) sm_wf_empty [of am1] sm_wf_empty [of fm1] by (simp_all add: sync_ready_def bounds_def)
  note sets = synced_sets [OF v(1) f(4) e(3,4) f(2) e(1,2) fb e(5,6), where smo = smo4, folded msp'_def]
  have fields: "ms_map msp' = ?m" "ms_weight msp' = ms_weight msp" "ms_group msp' = ms_group msp" "ms_smo msp' = ms_smo msp" "ms_smo_syncing msp' = smo4"
    by (simp_all add: msp'_def)
  have lg: "smo_log words os5 sm smo T = smo_log words os4 sm smo T" for sm smo T by (rule smo_log_frame) (simp add: bw(2))
  have nz: "smo_object smo4 \<noteq> 0" using y(4) p(3) o(3) by simp
  have "ms_inv words txg os5 S0 S' msp'"
    unfolding S'_def
  proof (rule synced_inv [OF assms(2) sets(1) fields(1,2,4) sets(2,3)])
    show "smo_log words os5 ?m (ms_smo_syncing msp') (S \<union> ?A 1 - ?F 1)" using y(3) by (simp add: lg fields S'_def)
    show "smo_object (ms_smo_syncing msp') \<noteq> 0" using nz by (simp add: fields)
    assume n: "\<not> sm_loaded ?m"
    then have e: "smo2 = smo1" "os2 = os1" using p(5) by simp_all
    show "smo_log words os5 ?m (ms_smo msp) S0 \<and>
      (smo_objsize (ms_smo msp) = 0 \<or> smo_object (ms_smo msp) = smo_object (ms_smo_syncing msp') \<and> smo_objsize (ms_smo msp) \<le> smo_objsize (ms_smo_syncing msp'))"
      using sync_keeps_log [OF assms(2) n o(4,5) y(5) [unfolded e] y(4) [unfolded e] y(3)] by (simp add: lg fields)
  qed
  then show ?thesis using run fields sets(2,3) by blast
qed

section \<open>After a sync\<close>

lemma later_later: "later (later txg i) j = later txg (i + j)"
  by (simp add: later_def)

lemma slot_space:
  "space_of (ms_allocmap msp ! txg_slot (later txg i)) = alloc_of msp txg i" "space_of (ms_freemap msp ! txg_slot (later txg i)) = free_of msp txg i"
  by (simp_all add: alloc_of_def free_of_def slot_later)

lemma alloc_of_next: "alloc_of msp (later txg 1) j = alloc_of msp txg (Suc j mod 4)"
  by (simp add: alloc_of_def slot_later mod_simps)

lemma free_of_next: "free_of msp (later txg 1) j = free_of msp txg (Suc j mod 4)"
  by (simp add: free_of_def slot_later mod_simps)

lemma space_0:
  assumes "sm_wf sm"
  shows "sm_space sm = 0 \<longleftrightarrow> space_of sm = {}"
  using card_space_of(2) [OF assms] sm_empty(2) [OF assms] by (auto simp: unat_eq_0 [symmetric] space_of_def)

text \<open>What was freed goes back to the map if it is loaded.\<close>

lemma done_vacate:
  assumes "ms_inv words txg os S0 S msp"
  defines "freed \<equiv> ms_freemap msp ! txg_slot (later txg 0)"
  shows "\<exists>sm. space_map_vacate freed (if sm_loaded (ms_map msp) then Some space_map_free else None) (ms_map msp) =
      Some (freed\<lparr>sm_root := avl_create, sm_space := 0\<rparr>, sm) \<and> kept (ms_map msp) sm \<and> sm_wf sm \<and>
    (if sm_loaded (ms_map msp)
     then ff.active sm \<and> space_of sm = ms_span msp - (taken S (alloc_of msp txg) (free_of msp txg) - free_of msp txg 0)
     else sm = ms_map msp)"
proof -
  let ?A = "alloc_of msp txg" and ?F = "free_of msp txg"
  note v = ms_invD [OF assms(1)] and w = maps_nth [OF ms_invD(1) [OF assms(1)], of "later txg 0", folded freed_def]
  have s: "space_of freed = ?F 0" by (simp add: freed_def free_of_def slot_later)
  show ?thesis
  proof (cases "sm_loaded (ms_map msp)")
    case True
    note l = ms_inv_loaded [OF assms(1) True]
    have "space_of (ms_map msp) \<inter> space_of freed = {}" using l(2) s by (auto simp: taken_def)
    from ff.vacate_free [OF w(3) l(1) _ this] w(4) obtain sm where
      m: "space_map_vacate freed (Some space_map_free) (ms_map msp) = Some (freed\<lparr>sm_root := avl_create, sm_space := 0\<rparr>, sm)"
      "ff.active sm" "kept (ms_map msp) sm" "space_of sm = space_of (ms_map msp) \<union> ?F 0" unfolding s by auto
    have "?F 0 \<subseteq> ms_span msp" "?F 0 \<subseteq> taken S ?A ?F" using v(4) by (auto simp: parts_def taken_def)
    then have "space_of sm = ms_span msp - (taken S ?A ?F - ?F 0)" unfolding m(4) l(2) by blast
    then show ?thesis using True m by (intro exI [of _ sm]) (simp add: ff.active_def)
  next
    case False
    then show ?thesis using vacate_none [OF w(3), of "ms_map msp"] v(6) by simp
  qed
qed

text \<open>The invariant for the next group, given what became of the map.\<close>

lemma done_inv:
  assumes "ms_inv words txg os S0 S msp" "alloc_of msp txg 1 = {}" "free_of msp txg 1 = {}"
    and "msp' = msp\<lparr>ms_freemap := (ms_freemap msp)[txg_slot (later txg 0) := (ms_freemap msp ! txg_slot (later txg 0))\<lparr>sm_root := avl_create, sm_space := 0\<rparr>],
      ms_smo := ms_smo_syncing msp, ms_map := sm\<rparr>"
    and "sm_wf sm" "bounds sm = bounds (ms_map msp)" "\<not> sm_loading sm"
    and "ms_weight msp AND METASLAB_ACTIVE_MASK \<noteq> 0 \<longrightarrow> sm_loaded sm"
    and "if sm_loaded sm
      then ff.active sm \<and> space_of sm = ms_span msp - (taken S (alloc_of msp txg) (free_of msp txg) - free_of msp txg 0)
      else sm_ops sm = None \<and> sm_space sm = 0 \<and> alloc_of msp txg 2 = {} \<and> alloc_of msp txg 3 = {}"
  shows "ms_inv words (later txg 1) os S S msp'"
proof -
  let ?A = "alloc_of msp txg" and ?F = "free_of msp txg" and ?A' = "alloc_of msp' (later txg 1)" and ?F' = "free_of msp' (later txg 1)"
  let ?fm = "(ms_freemap msp ! txg_slot (later txg 0))\<lparr>sm_root := avl_create, sm_space := 0\<rparr>"
  note v = ms_invD [OF assms(1)] and w = maps_nth [OF ms_invD(1) [OF assms(1)], of "later txg 0"]
  note b = bounds_fields [OF assms(6)] and g = geom_cong [OF assms(6)]
  have e: "sm_wf ?fm" "space_of ?fm = {}" "bounds ?fm = bounds (ms_map msp)" using sm_wf_empty [OF w(3)] w(4) by (simp_all add: bounds_def)
  have mo: "ms_maps_ok msp'"
    using maps_map_update [OF maps_free_update [OF v(1) e(1,3)], of sm] assms(5,6) by (simp add: assms(4) ms_maps_ok_def)
  have l: "length (ms_freemap msp) = TXG_SIZE" using v(1) by (simp add: ms_maps_ok_def)
  have a: "?A' j = ?A (Suc j mod 4)" for j unfolding alloc_of_next by (simp add: assms(4) alloc_of_def)
  have f: "?F' j = (if Suc j mod 4 = 0 then {} else ?F (Suc j mod 4))" if "j < 4" for j
    unfolding free_of_next using free_of_update [OF l, of 0 "Suc j mod 4" txg ?fm] e(2) by (simp add: assms(4) free_of_def)
  have A: "?A' 0 = {}" "?A' 1 = ?A 2" "?A' 2 = ?A 3" "?A' 3 = {}"
    using partsD(1) [OF v(4)] assms(2) a [of 0] a [of 1] a [of 2] a [of 3] by (simp_all add: numeral_2_eq_2 [symmetric])
  have F: "?F' 0 = {}" "?F' 1 = ?F 2" "?F' 2 = ?F 3" "?F' 3 = {}" using assms(3) f [of 0] f [of 1] f [of 2] f [of 3] by (simp_all add: numeral_2_eq_2 [symmetric])
  note p = parts_done [OF v(4) assms(2,3) F A]
  have fields: "ms_map msp' = sm" "ms_smo msp' = ms_smo_syncing msp" "ms_smo_syncing msp' = ms_smo_syncing msp" "ms_weight msp' = ms_weight msp"
    by (simp_all add: assms(4))
  have lg: "unat (smo_alloc (ms_smo_syncing msp)) = card S" using v(7) by (simp add: smo_log_def)
  have oz: "smo_object (ms_smo_syncing msp) = 0 \<longrightarrow> smo_objsize (ms_smo_syncing msp) = 0 \<and> smo_alloc (ms_smo_syncing msp) = 0"
    using assms(1) by (simp add: ms_inv_def)
  show ?thesis
  proof (cases "sm_loaded sm")
    case True
    then show ?thesis using assms(7,8,9) mo v(2,7) p lg oz F(1) by (simp add: ms_inv_def fields b g)
  next
    case False
    have "\<forall>i < 4. ?A' i = {}" using A assms(9) False by (simp add: less_4)
    then show ?thesis using False assms(7,8,9) mo v(2,7) p lg oz F(1) by (simp add: ms_inv_def fields b g)
  qed
qed

lemma ms_done_ok:
  assumes "ms_inv words txg os S0 S msp" "alloc_of msp txg 1 = {}" "free_of msp txg 1 = {}"
  shows "\<exists>msp'. sync_done_maps msp (later txg 1) = Some msp' \<and> ms_inv words (later txg 1) os S S msp' \<and>
    bounds (ms_map msp') = bounds (ms_map msp) \<and> ms_weight msp' = ms_weight msp \<and> ms_group msp' = ms_group msp \<and> ms_smo msp' = ms_smo_syncing msp \<and>
    (sm_loaded (ms_map msp') \<longrightarrow> sm_loaded (ms_map msp) \<and>
      space_of (ms_map msp') = ms_span msp - (taken S (alloc_of msp txg) (free_of msp txg) - free_of msp txg 0))"
proof -
  let ?A = "alloc_of msp txg" and ?m = "ms_map msp" and ?freed = "ms_freemap msp ! txg_slot (later txg 0)"
  note v = ms_invD [OF assms(1)] and w = maps_nth [OF ms_invD(1) [OF assms(1)]]
  have z: "sm_space (ms_allocmap msp ! txg_slot (later txg 1)) = 0" "sm_space (ms_freemap msp ! txg_slot (later txg 1)) = 0"
    using space_0 [OF w(1), of "later txg 1"] space_0 [OF w(3), of "later txg 1"] assms(2,3) unfolding slot_space by simp_all
  from done_vacate [OF assms(1)] obtain sm where
    m: "space_map_vacate ?freed (if sm_loaded ?m then Some space_map_free else None) ?m = Some (?freed\<lparr>sm_root := avl_create, sm_space := 0\<rparr>, sm)"
    "kept ?m sm" "sm_wf sm"
    "if sm_loaded ?m then ff.active sm \<and> space_of sm = ms_span msp - (taken S ?A (free_of msp txg) - free_of msp txg 0) else sm = ?m" by blast
  have k: "bounds sm = bounds ?m" "sm_loaded sm = sm_loaded ?m" "\<not> sm_loading sm" "sm_ops sm = sm_ops ?m" using m(2) v(3) by (simp_all add: kept_def)
  define evict where "evict \<longleftrightarrow> sm_loaded sm \<and> ms_weight msp AND METASLAB_ACTIVE_MASK = 0 \<and> ?A 2 = {} \<and> ?A 3 = {}"
  have lt: "later txg (Suc 0) + 1 = later txg 2" "later txg (Suc 0) + 2 = later txg 3" "[Suc 0..<TXG_CONCURRENT_STATES] = [1, 2]"
    by (simp_all add: later_def TXG_CONCURRENT_STATES_def upt_rec)
  have ev: "list_all (\<lambda>t. sm_space (ms_allocmap msp ! txg_slot (later txg (Suc 0) + of_nat t)) = 0) [Suc 0..<TXG_CONCURRENT_STATES] \<longleftrightarrow>
      ?A 2 = {} \<and> ?A 3 = {}"
    using space_0 [OF w(1), of "later txg 2"] space_0 [OF w(1), of "later txg 3"] unfolding slot_space by (simp add: lt)
  have "\<exists>sm'. (if evict then space_map_unload sm else Some sm) = Some sm' \<and> sm_wf sm' \<and> bounds sm' = bounds ?m \<and> \<not> sm_loading sm' \<and>
    (if evict then \<not> sm_loaded sm' \<and> sm_ops sm' = None \<and> sm_space sm' = 0 else sm' = sm)"
  proof (cases evict)
    case True
    have "sm_ops sm = Some metaslab_ff_ops" using True m(4) k(2) by (simp add: evict_def ff.active_def)
    then show ?thesis using ff.map_unload [OF m(3)] True k by auto
  qed (use m(3) k in simp)
  then obtain sm' where s: "(if evict then space_map_unload sm else Some sm) = Some sm'" "sm_wf sm'" "bounds sm' = bounds ?m" "\<not> sm_loading sm'"
    "if evict then \<not> sm_loaded sm' \<and> sm_ops sm' = None \<and> sm_space sm' = 0 else sm' = sm" by blast
  define msp' where "msp' = msp\<lparr>ms_freemap := (ms_freemap msp)[txg_slot (later txg 0) := ?freed\<lparr>sm_root := avl_create, sm_space := 0\<rparr>],
      ms_smo := ms_smo_syncing msp, ms_map := sm'\<rparr>"
  have run: "sync_done_maps msp (later txg 1) = Some msp'"
    using z v(3) m(1) s(1) clean_later [of txg 0] ev
    by (simp add: sync_done_maps_def space_map_load_wait_def msp'_def evict_def Let_def)
  have wl: "ms_weight msp AND METASLAB_ACTIVE_MASK \<noteq> 0 \<longrightarrow> sm_loaded ?m" using assms(1) by (simp add: ms_inv_def)
  have "ms_inv words (later txg 1) os S S msp'"
  proof (rule done_inv [OF assms msp'_def s(2-4)])
    show "ms_weight msp AND METASLAB_ACTIVE_MASK \<noteq> 0 \<longrightarrow> sm_loaded sm'" using wl s(5) k(2) by (auto simp: evict_def split: if_splits)
    show "if sm_loaded sm'
      then ff.active sm' \<and> space_of sm' = ms_span msp - (taken S ?A (free_of msp txg) - free_of msp txg 0)
      else sm_ops sm' = None \<and> sm_space sm' = 0 \<and> ?A 2 = {} \<and> ?A 3 = {}"
    proof (cases evict)
      case True
      then show ?thesis using s(5) by (simp add: evict_def)
    next
      case False
      then show ?thesis using s(5) m(4) k(2) ms_inv_unloaded [OF assms(1)] by (cases "sm_loaded ?m") simp_all
    qed
  qed
  moreover have "sm_loaded sm' \<longrightarrow> sm_loaded ?m \<and> space_of sm' = ms_span msp - (taken S ?A (free_of msp txg) - free_of msp txg 0)"
    using s(5) m(4) k(2) by (auto split: if_splits)
  ultimately show ?thesis using run s(3) by (auto simp: msp'_def)
qed

section \<open>The life of a metaslab\<close>

text \<open>
  The steps of one metaslab, in any order: loading its map, changing its weight, allocating, claiming
  and freeing in one of the three active groups, syncing the next group (a pass at a time), finishing
  it, passing a group in which the metaslab is not dirty, and changes of other objects.  The state is
  the last group synced, the object set, what was allocated as of that group, and the metaslab.  The
  conditions are the callers' contracts.
\<close>

type_synonym 'os ms_state = "u64 \<times> 'os \<times> nat set \<times> metaslab"

definition logged :: "('os \<Rightarrow> u64 \<Rightarrow> nat \<Rightarrow> u64) \<Rightarrow> 'os \<Rightarrow> metaslab \<Rightarrow> nat set \<Rightarrow> bool" where
  "logged words os msp S \<longleftrightarrow> log_set (ms_map msp) (log words os (ms_smo_syncing msp)) = Some S"

inductive ms_step :: "'os mos \<Rightarrow> ('os \<Rightarrow> u64 \<Rightarrow> nat \<Rightarrow> u64) \<Rightarrow> 'os ms_state \<Rightarrow> 'os ms_state \<Rightarrow> bool"
  for mos :: "'os mos" and words :: "'os \<Rightarrow> u64 \<Rightarrow> nat \<Rightarrow> u64" where
  load: "\<not> sm_loaded (ms_map msp) \<Longrightarrow>
      space_map_load (mos_dmu mos) os (ms_map msp) (Some metaslab_ff_ops) SM_FREE (ms_smo msp) = Some sm \<Longrightarrow>
      ms_step mos words (txg, os, S0, msp) (txg, os, S0, msp\<lparr>ms_map := sm\<rparr>)"
| weigh: "w AND METASLAB_ACTIVE_MASK \<noteq> 0 \<longrightarrow> sm_loaded (ms_map msp) \<Longrightarrow>
      ms_step mos words (txg, os, S0, msp) (txg, os, S0, msp\<lparr>ms_weight := w\<rparr>)"
| alloc: "sm_loaded (ms_map msp) \<Longrightarrow> i \<in> {1, 2, 3} \<Longrightarrow> ff_request (ms_map msp) sz \<Longrightarrow>
      space_map_alloc (ms_map msp) sz = Some (offset, sm) \<Longrightarrow> offset \<noteq> -1 \<Longrightarrow>
      space_map_add (ms_allocmap msp ! txg_slot (later txg i)) offset sz = Some am \<Longrightarrow>
      ms_step mos words (txg, os, S0, msp)
        (txg, os, S0, msp\<lparr>ms_map := sm, ms_allocmap := (ms_allocmap msp)[txg_slot (later txg i) := am]\<rparr>)"
| alloc_none: "sm_loaded (ms_map msp) \<Longrightarrow> ff_request (ms_map msp) sz \<Longrightarrow> space_map_alloc (ms_map msp) sz = Some (-1, sm) \<Longrightarrow>
      ms_step mos words (txg, os, S0, msp) (txg, os, S0, msp\<lparr>ms_map := sm\<rparr>)"
| claim: "sm_loaded (ms_map msp) \<Longrightarrow> i \<in> {1, 2, 3} \<Longrightarrow> in_range (ms_map msp) offset sz \<Longrightarrow> span offset sz \<subseteq> space_of (ms_map msp) \<Longrightarrow>
      space_map_claim (ms_map msp) offset sz = Some sm \<Longrightarrow>
      space_map_add (ms_allocmap msp ! txg_slot (later txg i)) offset sz = Some am \<Longrightarrow>
      ms_step mos words (txg, os, S0, msp)
        (txg, os, S0, msp\<lparr>ms_map := sm, ms_allocmap := (ms_allocmap msp)[txg_slot (later txg i) := am]\<rparr>)"
| free: "logged words os msp S \<Longrightarrow> i \<in> {1, 2, 3} \<Longrightarrow> in_range (ms_map msp) offset sz \<Longrightarrow>
      span offset sz \<subseteq> live S (alloc_of msp txg) (free_of msp txg) i \<Longrightarrow>
      space_map_add (ms_freemap msp ! txg_slot (later txg i)) offset sz = Some fm \<Longrightarrow>
      ms_step mos words (txg, os, S0, msp) (txg, os, S0, msp\<lparr>ms_freemap := (ms_freemap msp)[txg_slot (later txg i) := fm]\<rparr>)"
| free_now: "i \<in> {1, 2, 3} \<Longrightarrow> in_range (ms_map msp) offset sz \<Longrightarrow> span offset sz \<subseteq> alloc_of msp txg i \<Longrightarrow>
      span offset sz \<inter> (free_of msp txg 1 \<union> free_of msp txg 2 \<union> free_of msp txg 3) = {} \<Longrightarrow>
      space_map_remove (ms_allocmap msp ! txg_slot (later txg i)) offset sz = Some am \<Longrightarrow>
      space_map_free (ms_map msp) offset sz = Some sm \<Longrightarrow>
      ms_step mos words (txg, os, S0, msp)
        (txg, os, S0, msp\<lparr>ms_map := sm, ms_allocmap := (ms_allocmap msp)[txg_slot (later txg i) := am]\<rparr>)"
| sync: "unat (smo_objsize (ms_smo_syncing msp)) \<le> 2 ^ 62 - 16 \<Longrightarrow>
      metaslab_sync mos syncpass vd msp (later txg 1) os = Some (msp', os') \<Longrightarrow>
      ms_step mos words (txg, os, S0, msp) (txg, os', S0, msp')"
| sync_done: "logged words os msp S \<Longrightarrow> alloc_of msp txg 1 = {} \<Longrightarrow> free_of msp txg 1 = {} \<Longrightarrow>
      sync_done_maps msp (later txg 1) = Some msp' \<Longrightarrow> ms_step mos words (txg, os, S0, msp) (later txg 1, os, S, msp')"
| clean: "alloc_of msp txg 1 = {} \<Longrightarrow> free_of msp txg 1 = {} \<Longrightarrow> free_of msp txg 0 = {} \<Longrightarrow>
      ms_step mos words (txg, os, S0, msp) (later txg 1, os, S0, msp)"
| other: "words os' (smo_object (ms_smo msp)) = words os (smo_object (ms_smo msp)) \<Longrightarrow>
      words os' (smo_object (ms_smo_syncing msp)) = words os (smo_object (ms_smo_syncing msp)) \<Longrightarrow>
      ms_step mos words (txg, os, S0, msp) (txg, os', S0, msp)"

inductive_cases ms_stepE: "ms_step mos words (txg, os, S0, msp) st"

definition ms_good :: "('os \<Rightarrow> u64 \<Rightarrow> nat \<Rightarrow> u64) \<Rightarrow> 'os ms_state \<Rightarrow> bool" where
  "ms_good words st \<longleftrightarrow> (case st of (txg, os, S0, msp) \<Rightarrow> \<exists>S. ms_inv words txg os S0 S msp)"

lemma logged_inv: "ms_inv words txg os S0 S msp \<Longrightarrow> logged words os msp S' \<longleftrightarrow> S' = S"
  using ms_invD(7) [of words txg os S0 S msp] by (auto simp: logged_def smo_log_def)

lemma ms_clean_ok:
  assumes "ms_inv words txg os S0 S msp" "alloc_of msp txg 1 = {}" "free_of msp txg 1 = {}" "free_of msp txg 0 = {}"
  shows "ms_inv words (later txg 1) os S0 S msp"
proof -
  let ?A = "alloc_of msp txg" and ?F = "free_of msp txg" and ?A' = "alloc_of msp (later txg 1)" and ?F' = "free_of msp (later txg 1)"
  note v = ms_invD [OF assms(1)]
  have A: "?A' 0 = {}" "?A' 1 = ?A 2" "?A' 2 = ?A 3" "?A' 3 = {}"
    using partsD(1) [OF v(4)] assms(2) alloc_of_next [of msp txg] by (simp_all add: numeral_2_eq_2 [symmetric])
  have F: "?F' 0 = {}" "?F' 1 = ?F 2" "?F' 2 = ?F 3" "?F' 3 = {}"
    using assms(3,4) free_of_next [of msp txg] by (simp_all add: numeral_2_eq_2 [symmetric])
  note p = parts_done [OF v(4) assms(2,3) F A]
  have t: "taken S ?A' ?F' = taken S ?A ?F" using p(2) assms(4) by simp
  have e: "(\<forall>i < 4. ?A i = {}) \<Longrightarrow> (\<forall>i < 4. ?A' i = {})" using A by (simp add: less_4)
  show ?thesis using assms(1,4) p(1) t e F(1) by (auto simp: ms_inv_def)
qed

lemma ms_step_good:
  assumes "mos_ok mos words" "ms_step mos words st st'" "ms_good words st"
  shows "ms_good words st'"
  using assms(2,3)
proof (induction rule: ms_step.induct)
  case (load msp os sm txg S0)
  then show ?case using ms_load_ok [of "mos_dmu mos" words txg os S0 _ msp] assms(1) by (auto simp: ms_good_def mos_ok_def)
next
  case (weigh w msp txg os S0)
  then show ?case using ms_weight_ok [of words txg os S0 _ msp w] unfolding ms_good_def by blast
next
  case (alloc msp i sz offset sm txg am os S0)
  then obtain S where "ms_inv words txg os S0 S msp" by (auto simp: ms_good_def)
  from ms_alloc_ok [OF this alloc(1), of i sz] alloc show ?case by (auto simp: ms_good_def)
next
  case (alloc_none msp sz sm txg os S0)
  then obtain S where "ms_inv words txg os S0 S msp" by (auto simp: ms_good_def)
  from ms_alloc_ok [OF this alloc_none(1), of 1 sz] alloc_none show ?case by (auto simp: ms_good_def)
next
  case (claim msp i offset sz sm txg am os S0)
  then obtain S where i: "ms_inv words txg os S0 S msp" by (auto simp: ms_good_def)
  from ms_claim_ok [OF i claim(1), of i offset sz] claim ms_inv_loaded(2) [OF i claim(1)] show ?case by (auto simp: ms_good_def)
next
  case (free os msp S i offset sz txg fm S0)
  then obtain S' where i: "ms_inv words txg os S0 S' msp" by (auto simp: ms_good_def)
  then have "S' = S" using logged_inv [OF i] free(1) by simp
  with ms_free_ok [OF i, of i offset sz] free show ?case by (auto simp: ms_good_def)
next
  case (free_now i msp offset sz txg am sm os S0)
  then obtain S where i: "ms_inv words txg os S0 S msp" by (auto simp: ms_good_def)
  from ms_free_now_ok [OF i, of i offset sz] free_now show ?case by (auto simp: ms_good_def)
next
  case (sync msp syncpass vd txg os msp' os' S0)
  then obtain S where i: "ms_inv words txg os S0 S msp" by (auto simp: ms_good_def)
  from ms_sync_ok [OF assms(1) i sync(1), of syncpass vd] sync(2) show ?case by (auto simp: ms_good_def)
next
  case (sync_done os msp S txg msp' S0)
  then obtain S' where i: "ms_inv words txg os S0 S' msp" by (auto simp: ms_good_def)
  then have "S' = S" using logged_inv [OF i] sync_done(1) by simp
  with ms_done_ok [OF i sync_done(2,3)] sync_done(4) show ?case by (auto simp: ms_good_def)
next
  case (clean msp txg os S0)
  then show ?case using ms_clean_ok [of words txg os S0 _ msp] unfolding ms_good_def by blast
next
  case (other os' msp os txg S0)
  then show ?case using ms_inv_frame [of words txg os S0 _ msp os'] by (auto simp: ms_good_def)
qed


text \<open>A metaslab of a pool that is opened, as \<^verbatim>\<open>metaslab_init\<close> leaves its maps.\<close>

definition ms_open :: "space_map_obj \<Rightarrow> u64 \<Rightarrow> u64 \<Rightarrow> u8 \<Rightarrow> metaslab option" where
  "ms_open smo start sz shift = sync_done_maps (sync_done_create (metaslab_zero smo (space_map_create start sz shift))) 0"

lemma ms_open_maps:
  fixes start sz :: u64 and shift :: u8
  assumes "ms_geom (space_map_create start sz shift)"
  defines "c \<equiv> space_map_create start sz shift"
  shows "ms_open smo start sz shift =
      Some \<lparr>ms_smo = smo, ms_smo_syncing = smo, ms_allocmap = replicate TXG_SIZE c, ms_freemap = replicate TXG_SIZE c, ms_map = c, ms_weight = 0, ms_group = False\<rparr>"
    "sm_wf c" "space_of c = {}"
proof -
  have u: "sz \<noteq> 0" "2 ^ unat shift dvd unat sz" "unat sz < 2 ^ 58" "unat start + unat sz < 2 ^ 64"
    using assms(1) by (simp_all add: ms_geom_def in_range_def unit_of_def space_map_create_def)
  have "(2 :: nat) ^ unat shift \<le> unat sz" using u(1,2) by (intro dvd_imp_le) (simp_all add: unat_gt_0)
  then have "(2 :: nat) ^ unat shift < 2 ^ 58" using u(3) by simp
  then have "unat shift < 58" by (rule power_less_imp_less_exp [of "2 :: nat", rotated]) simp
  then have g: "unat start + unat sz < 2 ^ 64" "unat shift < 64" using u(4) by simp_all
  have w: "sm_wf c" "space_of c = {}" using create_wf [OF g] by (simp_all add: c_def)
  show "sm_wf c" "space_of c = {}" using w by simp_all
  have e: "c\<lparr>sm_root := avl_create, sm_space := 0\<rparr> = c" by (simp add: c_def space_map_create_def)
  have f: "sm_space c = 0" "\<not> sm_loading c" "\<not> sm_loaded c" "sm_start c = start" "sm_size c = sz" "sm_shift c = shift"
    by (simp_all add: c_def space_map_create_def)
  have v: "space_map_vacate c None m = Some (c, m)" for m :: ff_map using vacate_none [OF w(1), of m] e by simp
  have s: "replicate TXG_SIZE c ! txg_slot t = c" "(replicate TXG_SIZE c)[txg_slot t := c] = replicate TXG_SIZE c" for t
    using txg_slot_less [of t] by (simp_all add: list_update_same_conv)
  have d: "sync_done_create (metaslab_zero smo c) =
      \<lparr>ms_smo = \<lparr>smo_object = 0, smo_objsize = 0, smo_alloc = 0\<rparr>, ms_smo_syncing = smo, ms_allocmap = replicate TXG_SIZE c,
       ms_freemap = replicate TXG_SIZE c, ms_map = c, ms_weight = 0, ms_group = False\<rparr>"
    unfolding sync_done_create_def metaslab_zero_def Let_def by (simp add: f(4-6)) (simp add: c_def)
  show "ms_open smo start sz shift =
      Some \<lparr>ms_smo = smo, ms_smo_syncing = smo, ms_allocmap = replicate TXG_SIZE c, ms_freemap = replicate TXG_SIZE c, ms_map = c, ms_weight = 0, ms_group = False\<rparr>"
    unfolding ms_open_def c_def [symmetric] d sync_done_maps_def Let_def by (simp add: s f(1-3) v space_map_load_wait_def)
qed


lemma ms_open_inv:
  assumes "ms_geom (space_map_create start sz shift)" "ms_open smo start sz shift = Some msp"
    and "smo_log words os (space_map_create start sz shift) smo S" "smo_object smo = 0 \<longrightarrow> smo_objsize smo = 0 \<and> smo_alloc smo = 0"
  shows "ms_inv words txg os S S msp"
proof -
  let ?c = "space_map_create start sz shift :: ff_map"
  note o = ms_open_maps [OF assms(1)]
  have m: "msp = \<lparr>ms_smo = smo, ms_smo_syncing = smo, ms_allocmap = replicate TXG_SIZE ?c, ms_freemap = replicate TXG_SIZE ?c,
      ms_map = ?c, ms_weight = 0, ms_group = False\<rparr>" using assms(2) o(1) by simp
  have f: "\<not> sm_loading ?c" "\<not> sm_loaded ?c" "sm_ops ?c = None" "sm_space ?c = 0" by (simp_all add: space_map_create_def)
  have A: "alloc_of msp txg i = {}" "free_of msp txg i = {}" for i
    using o(3) by (simp_all add: m alloc_of_def free_of_def TXG_SIZE_def)
  have U: "S \<subseteq> span (sm_start ?c) (sm_size ?c)" using assms(3) log_set_bounded [of ?c] by (auto simp: smo_log_def)
  have fl: "ms_map msp = ?c" "ms_smo msp = smo" "ms_smo_syncing msp = smo" "ms_weight msp = 0" by (simp_all add: m)
  have "parts (ms_span msp) S (alloc_of msp txg) (free_of msp txg)" using U by (simp add: parts_def A fl)
  moreover have "ms_maps_ok msp" using o(2) by (simp add: ms_maps_ok_def m)
  moreover have "unat (smo_alloc smo) = card S" using assms(3) by (simp add: smo_log_def)
  ultimately show ?thesis using assms(1,3,4) f A by (simp add: ms_inv_def fl)
qed

definition ms_reach :: "'os mos \<Rightarrow> ('os \<Rightarrow> u64 \<Rightarrow> nat \<Rightarrow> u64) \<Rightarrow> 'os ms_state \<Rightarrow> bool" where
  "ms_reach mos words st \<longleftrightarrow> (\<exists>start sz shift smo S0 os txg msp. ms_geom (space_map_create start sz shift) \<and>
     smo_log words os (space_map_create start sz shift) smo S0 \<and>
     (smo_object smo = 0 \<longrightarrow> smo_objsize smo = 0 \<and> smo_alloc smo = 0) \<and>
     ms_open smo start sz shift = Some msp \<and> (ms_step mos words)\<^sup>*\<^sup>* (txg, os, S0, msp) st)"

lemma ms_reach_good:
  assumes "mos_ok mos words" "ms_reach mos words st"
  shows "ms_good words st"
proof -
  from assms(2) obtain start sz shift smo S0 os txg msp where
    r: "ms_geom (space_map_create start sz shift)" "smo_log words os (space_map_create start sz shift) smo S0"
    "smo_object smo = 0 \<longrightarrow> smo_objsize smo = 0 \<and> smo_alloc smo = 0" "ms_open smo start sz shift = Some msp"
    "(ms_step mos words)\<^sup>*\<^sup>* (txg, os, S0, msp) st" unfolding ms_reach_def by blast
  from r(5) show ?thesis
  proof induction
    case base
    show ?case using ms_open_inv [OF r(1,4,2,3)] by (auto simp: ms_good_def)
  next
    case (step st st')
    then show ?case using ms_step_good [OF assms(1)] by blast
  qed
qed

text \<open>An example: an object set in memory and a metaslab of 1 MiB without an object, loaded.\<close>

definition mem_mos :: "(u64 \<Rightarrow> nat \<Rightarrow> u64) mos" where
  "mem_mos = \<lparr>mos_dmu = mem_dmu, dmu_object_alloc = (\<lambda>os. (5, os)), dmu_bonus_write = (\<lambda>os obj smo. Some os)\<rparr>"

lemma mem_mos_ok: "mos_ok mem_mos (\<lambda>os. os)"
  using mem_dmu_ok by (simp add: mos_ok_def mem_mos_def)

lemma example_loaded:
  "\<exists>msp. ms_reach mem_mos (\<lambda>os. os) (7, \<lambda>_ _. 0, {}, msp) \<and> sm_loaded (ms_map msp) \<and> bounds (ms_map msp) = (0, 0x100000, 9) \<and>
    ms_smo_syncing msp = \<lparr>smo_object = 0, smo_objsize = 0, smo_alloc = 0\<rparr> \<and> alloc_of msp 7 1 = {} \<and> free_of msp 7 1 = {} \<and> ff_request (ms_map msp) 0x1000 \<and>
    space_of (ms_map msp) = ms_span msp"
proof -
  let ?c = "space_map_create 0 0x100000 9 :: ff_map" and ?smo = "\<lparr>smo_object = 0, smo_objsize = 0, smo_alloc = 0\<rparr>" and ?os = "\<lambda>_ _. 0 :: u64"
  have g: "ms_geom ?c"
    by (simp add: ms_geom_def sm_storable_def in_range_def span_def unit_of_def space_map_create_def SPA_MINBLOCKSHIFT_def)
  have lg: "smo_log (\<lambda>os. os) ?os ?c ?smo {}" by (rule smo_log_empty) simp_all
  obtain msp where o: "ms_open ?smo 0 0x100000 9 = Some msp" using ms_open_maps(1) [OF g] by simp
  have m: "msp = \<lparr>ms_smo = ?smo, ms_smo_syncing = ?smo, ms_allocmap = replicate TXG_SIZE ?c, ms_freemap = replicate TXG_SIZE ?c,
      ms_map = ?c, ms_weight = 0, ms_group = False\<rparr>" using o ms_open_maps(1) [OF g, of ?smo] by simp
  have i: "ms_inv (\<lambda>os. os) 7 ?os {} {} msp" by (rule ms_open_inv [OF g o lg]) simp
  have n: "\<not> sm_loaded (ms_map msp)" by (simp add: m space_map_create_def)
  from ms_load_ok [OF mem_dmu_ok i n] obtain sm where
    s: "space_map_load mem_dmu ?os (ms_map msp) (Some metaslab_ff_ops) SM_FREE (ms_smo msp) = Some sm" "sm_loaded sm" "bounds sm = bounds (ms_map msp)"
    "ms_inv (\<lambda>os. os) 7 ?os {} {} (msp\<lparr>ms_map := sm\<rparr>)" by blast
  have "ms_step mem_mos (\<lambda>os. os) (7, ?os, {}, msp) (7, ?os, {}, msp\<lparr>ms_map := sm\<rparr>)"
    using ms_step.load [OF n, of mem_mos ?os sm "\<lambda>os. os" 7 "{}"] s(1) by (simp add: mem_mos_def)
  then have "ms_reach mem_mos (\<lambda>os. os) (7, ?os, {}, msp\<lparr>ms_map := sm\<rparr>)"
    unfolding ms_reach_def using g lg o by (intro exI [of _ 0] exI [of _ "0x100000"] exI [of _ 9] exI [of _ ?smo] exI [of _ "{}"] exI [of _ ?os] exI [of _ 7] exI [of _ msp]) auto
  moreover have b: "bounds sm = (0, 0x100000, 9)" using s(3) by (simp add: m bounds_def space_map_create_def)
  moreover have e: "alloc_of msp 7 i = {}" "free_of msp 7 i = {}" for i
    using ms_open_maps(3) [OF g] by (simp_all add: m alloc_of_def free_of_def TXG_SIZE_def)
  moreover have "space_of sm = span (sm_start sm) (sm_size sm)"
    using ms_inv_loaded(2) [OF s(4)] s(2) e by (simp add: taken_def)
  moreover have "ff_request sm 0x1000" using b by (simp add: ff_request_def bounds_def unit_of_def)
  moreover have "ms_smo_syncing msp = ?smo" by (simp add: m)
  ultimately show ?thesis using s(2) by (intro exI [of _ "msp\<lparr>ms_map := sm\<rparr>"]) simp
qed

text \<open>An allocation fails only if no aligned block is free.\<close>

lemma alloc_none_ok:
  assumes "ff.active sm" "ff_request sm sz" "space_map_alloc sm sz = Some (-1, sm')" "unat (sz AND - sz) dvd n"
  shows "\<not> {n..<n + unat sz} \<subseteq> space_of sm"
proof -
  let ?c = "space_map_core.truncate sm"
  have a: "sm_wf ?c" "ff_ready (sm_ppd ?c)" "sm_ops sm = Some metaslab_ff_ops" using assms(1) by (simp_all add: ff.active_def)
  have q: "ff_request ?c sz" using assms(2) by (simp add: ff_request_def space_map_core.defs unit_of_def)
  obtain start x where r: "metaslab_ff_alloc ?c sz = Some (start, ?c\<lparr>sm_ppd := x\<rparr>)"
    "if start = -1 then \<forall>n. unat (sz AND - sz) dvd n \<longrightarrow> \<not> {n..<n + unat sz} \<subseteq> space_of ?c
     else unat (sz AND - sz) dvd unat start \<and> in_range ?c start sz \<and> span start sz \<subseteq> space_of ?c"
    using ff_alloc [OF a(1) q a(2)] unfolding ff_result_def by blast
  have "start = -1"
    using assms(3) r(1) a(3) by (auto simp: space_map_alloc_def metaslab_ff_ops_def Let_def split: if_splits)
  then show ?thesis using r(2) assms(4) by simp
qed

lemma ms_reach_step: "ms_reach mos words st \<Longrightarrow> ms_step mos words st st' \<Longrightarrow> ms_reach mos words st'"
  unfolding ms_reach_def by (meson rtranclp.rtrancl_into_rtrancl)

section \<open>Properties\<close>

text \<open>
  C4. The space of a metaslab is never counted twice and never lost.  In every state a metaslab of an
  opened pool can get to, the set its object describes, what the group being synced has freed, and
  what each active group has allocated are disjoint; each group frees only what was allocated by then,
  and only once; what was allocated as of the last synced group is still in the object or freed by the
  group being synced.  A loaded map holds exactly the rest, and a metaslab that is not loaded has no
  pending allocations and an object that still describes what it must be loaded from.
\<close>

theorem metaslab_partition:
  assumes "mos_ok mos words" "ms_reach mos words (txg, os, S0, msp)"
  shows "\<exists>S. logged words os msp S \<and> parts (ms_span msp) S (alloc_of msp txg) (free_of msp txg) \<and> S0 \<subseteq> S \<union> free_of msp txg 0 \<and>
    unat (smo_alloc (ms_smo_syncing msp)) = card S \<and> unat (smo_alloc (ms_smo msp)) = card S0 \<and>
    (if sm_loaded (ms_map msp) then space_of (ms_map msp) = ms_span msp - taken S (alloc_of msp txg) (free_of msp txg)
     else (\<forall>i < 4. alloc_of msp txg i = {}) \<and> S0 = S \<union> free_of msp txg 0 \<and> log_set (ms_map msp) (log words os (ms_smo msp)) = Some S0)"
proof -
  obtain S where i: "ms_inv words txg os S0 S msp" using ms_reach_good [OF assms] by (auto simp: ms_good_def)
  note v = ms_invD [OF i]
  have c: "unat (smo_alloc (ms_smo_syncing msp)) = card S" "unat (smo_alloc (ms_smo msp)) = card S0"
    using i by (simp_all add: ms_inv_def smo_log_def)
  have "if sm_loaded (ms_map msp) then space_of (ms_map msp) = ms_span msp - taken S (alloc_of msp txg) (free_of msp txg)
     else (\<forall>i < 4. alloc_of msp txg i = {}) \<and> S0 = S \<union> free_of msp txg 0 \<and> log_set (ms_map msp) (log words os (ms_smo msp)) = Some S0"
    using ms_inv_loaded [OF i] ms_inv_unloaded [OF i] by (simp add: smo_log_def)
  then show ?thesis using logged_inv [OF i] v(4,5) c by blast
qed

theorem metaslab_partition_witness:
  "\<exists>msp S. ms_reach mem_mos (\<lambda>os. os) (7, \<lambda>_ _. 0, {}, msp) \<and> sm_loaded (ms_map msp) \<and>
    parts (ms_span msp) S (alloc_of msp 7) (free_of msp 7) \<and> space_of (ms_map msp) = ms_span msp - taken S (alloc_of msp 7) (free_of msp 7)"
proof -
  obtain msp where m: "ms_reach mem_mos (\<lambda>os. os) (7, \<lambda>_ _. 0, {}, msp)" "sm_loaded (ms_map msp)" using example_loaded by blast
  show ?thesis using metaslab_partition [OF mem_mos_ok m(1)] m by (intro exI [of _ msp]) auto
qed

text \<open>
  C3. No block in use is allocated.  In every state a metaslab can get to, an allocation from its
  loaded map for one of the active groups ends, and the block it finds does not overlap anything that
  is allocated as of the last synced group (so that nothing a crash would need is overwritten), that
  the object being synced or an active group holds, or that is freed and not yet synced; recording it
  in the group's map succeeds.  It finds none only if the map has no free block with the alignment of
  the size.
\<close>

theorem metaslab_alloc_safe:
  assumes "mos_ok mos words" "ms_reach mos words (txg, os, S0, msp)" "sm_loaded (ms_map msp)" "i \<in> {1, 2, 3}" "ff_request (ms_map msp) sz"
  shows "\<exists>offset sm S. logged words os msp S \<and> space_map_alloc (ms_map msp) sz = Some (offset, sm) \<and>
    (if offset = -1 then \<forall>n. unat (sz AND - sz) dvd n \<longrightarrow> \<not> {n..<n + unat sz} \<subseteq> space_of (ms_map msp)
     else span offset sz \<subseteq> ms_span msp \<and> span offset sz \<inter> S0 = {} \<and> span offset sz \<inter> S = {} \<and>
      (\<forall>j < 4. span offset sz \<inter> alloc_of msp txg j = {} \<and> span offset sz \<inter> free_of msp txg j = {}) \<and>
      (\<exists>am. space_map_add (ms_allocmap msp ! txg_slot (later txg i)) offset sz = Some am \<and>
        space_of am = alloc_of msp txg i \<union> span offset sz))"
proof -
  obtain S where v: "ms_inv words txg os S0 S msp" using ms_reach_good [OF assms(1,2)] by (auto simp: ms_good_def)
  let ?A = "alloc_of msp txg" and ?F = "free_of msp txg"
  have i: "i < 4" "0 < i" using assms(4) by auto
  from ms_alloc_ok [OF v assms(3) i assms(5)] obtain offset sm where
    a: "space_map_alloc (ms_map msp) sz = Some (offset, sm)"
    "offset \<noteq> -1 \<longrightarrow> in_range (ms_map msp) offset sz \<and> span offset sz \<inter> taken S ?A ?F = {} \<and>
      (\<exists>am. space_map_add (ms_allocmap msp ! txg_slot (later txg i)) offset sz = Some am \<and> space_of am = ?A i \<union> span offset sz)"
    by (auto split: if_splits)
  have p: "?F 1 \<subseteq> S \<union> ?A 1" "?F 2 \<subseteq> S \<union> ?A 1 \<union> ?A 2" "?F 3 \<subseteq> S \<union> ?A 1 \<union> ?A 2 \<union> ?A 3" "?A 0 = {}" "S0 \<subseteq> S \<union> ?F 0"
    using ms_invD(4,5) [OF v] by (simp_all add: parts_def)
  have "span offset sz \<subseteq> ms_span msp \<and> span offset sz \<inter> S0 = {} \<and> span offset sz \<inter> S = {} \<and>
      (\<forall>j < 4. span offset sz \<inter> ?A j = {} \<and> span offset sz \<inter> ?F j = {})" if "offset \<noteq> -1"
  proof -
    let ?B = "span offset sz"
    have d: "?B \<inter> S = {}" "?B \<inter> ?F 0 = {}" "?B \<inter> ?A 1 = {}" "?B \<inter> ?A 2 = {}" "?B \<inter> ?A 3 = {}" "?B \<subseteq> ms_span msp"
      using a(2) that by (auto simp: taken_def in_range_def)
    then have "?B \<inter> S0 = {}" "?B \<inter> ?F 1 = {}" "?B \<inter> ?F 2 = {}" "?B \<inter> ?F 3 = {}" "?B \<inter> ?A 0 = {}" using p by blast+
    then show ?thesis using d by (simp add: less_4)
  qed
  moreover have "\<forall>n. unat (sz AND - sz) dvd n \<longrightarrow> \<not> {n..<n + unat sz} \<subseteq> space_of (ms_map msp)" if "offset = -1"
    using alloc_none_ok [OF ms_inv_loaded(1) [OF v assms(3)] assms(5)] a(1) that by blast
  ultimately show ?thesis using a logged_inv [OF v] by (intro exI [of _ offset] exI [of _ sm] exI [of _ S]) simp
qed

theorem metaslab_alloc_safe_witness:
  "\<exists>msp offset sm. ms_reach mem_mos (\<lambda>os. os) (7, \<lambda>_ _. 0, {}, msp) \<and> space_map_alloc (ms_map msp) 0x1000 = Some (offset, sm) \<and>
    offset \<noteq> -1 \<and> span offset 0x1000 \<subseteq> {0..<0x100000}"
proof -
  obtain msp where m: "ms_reach mem_mos (\<lambda>os. os) (7, \<lambda>_ _. 0, {}, msp)" "sm_loaded (ms_map msp)" "bounds (ms_map msp) = (0, 0x100000, 9)"
    "ff_request (ms_map msp) 0x1000" "space_of (ms_map msp) = ms_span msp" using example_loaded by blast
  have u: "ms_span msp = {0..<0x100000}" using m(3) by (simp add: bounds_def span_def)
  from metaslab_alloc_safe [OF mem_mos_ok m(1,2) _ m(4), of 1] obtain offset sm where
    a: "space_map_alloc (ms_map msp) 0x1000 = Some (offset, sm)"
    "if offset = -1 then \<forall>n. unat (0x1000 AND - 0x1000 :: u64) dvd n \<longrightarrow> \<not> {n..<n + unat (0x1000 :: u64)} \<subseteq> space_of (ms_map msp)
     else span offset 0x1000 \<subseteq> ms_span msp" by (auto split: if_splits)
  have "offset \<noteq> -1"
  proof
    assume "offset = -1"
    then have "\<not> {0..<0 + unat (0x1000 :: u64)} \<subseteq> space_of (ms_map msp)" using a(2) by (metis dvd_0_right)
    then show False using m(5) u by simp
  qed
  then show ?thesis using a m(1) u by auto
qed

text \<open>
  C5. Syncing a group writes exactly its changes.  From every state a metaslab can get to, as long as
  its object stays under the size limit, syncing the oldest active group succeeds: whether it appends
  to the object or condenses it, the set the object describes becomes the old one with the group's
  allocations added and its frees taken out, the group's two maps are empty, its frees are held back
  with those of the group being synced, and neither the map that allocations come from nor what is
  written of the last synced group changes.
\<close>

theorem metaslab_sync_set:
  assumes "mos_ok mos words" "ms_reach mos words (txg, os, S0, msp)" "logged words os msp S" "unat (smo_objsize (ms_smo_syncing msp)) \<le> 2 ^ 62 - 16"
  shows "\<exists>msp' os'. metaslab_sync mos syncpass vd msp (later txg 1) os = Some (msp', os') \<and>
    logged words os' msp' (S \<union> alloc_of msp txg 1 - free_of msp txg 1) \<and>
    alloc_of msp' txg 1 = {} \<and> free_of msp' txg 1 = {} \<and> free_of msp' txg 0 = free_of msp txg 0 \<union> free_of msp txg 1 \<and>
    (\<forall>j \<in> {2, 3}. alloc_of msp' txg j = alloc_of msp txg j \<and> free_of msp' txg j = free_of msp txg j) \<and>
    ms_map msp' = ms_map msp \<and> ms_smo msp' = ms_smo msp"
proof -
  obtain S' where v: "ms_inv words txg os S0 S' msp" using ms_reach_good [OF assms(1,2)] by (auto simp: ms_good_def)
  have S: "S' = S" using logged_inv [OF v] assms(3) by simp
  let ?S = "S \<union> alloc_of msp txg 1 - free_of msp txg 1"
  from ms_sync_ok [OF assms(1) v assms(4), of syncpass vd] obtain msp' os' where
    m: "metaslab_sync mos syncpass vd msp (later txg 1) os = Some (msp', os')" "ms_inv words txg os' S0 ?S msp'" "ms_map msp' = ms_map msp" "ms_smo msp' = ms_smo msp"
    "\<forall>j < 4. alloc_of msp' txg j = ((alloc_of msp txg)(1 := {})) j"
    "\<forall>j < 4. free_of msp' txg j = ((free_of msp txg)(0 := free_of msp txg 0 \<union> free_of msp txg 1, 1 := {})) j" unfolding S by blast
  have "logged words os' msp' ?S" using logged_inv [OF m(2)] by simp
  then show ?thesis using m(1,3-6) by (intro exI [of _ msp'] exI [of _ os']) simp
qed

theorem metaslab_sync_set_witness:
  "\<forall>vd. \<exists>msp msp' os'. ms_reach mem_mos (\<lambda>os. os) (7, \<lambda>_ _. 0, {}, msp) \<and> metaslab_sync mem_mos 1 vd msp (later 7 1) (\<lambda>_ _. 0) = Some (msp', os') \<and>
    logged (\<lambda>os. os) os' msp' {}"
proof -
  obtain msp where m: "ms_reach mem_mos (\<lambda>os. os) (7, \<lambda>_ _. 0, {}, msp)" "sm_loaded (ms_map msp)"
    "ms_smo_syncing msp = \<lparr>smo_object = 0, smo_objsize = 0, smo_alloc = 0\<rparr>" "alloc_of msp 7 1 = {}" "free_of msp 7 1 = {}"
    using example_loaded by blast
  have "logged (\<lambda>os. os) (\<lambda>_ _. 0) msp {}" by (simp add: logged_def m(3) log_def log_set_def)
  then have "\<exists>msp' os'. metaslab_sync mem_mos 1 vd msp (later 7 1) (\<lambda>_ _. 0) = Some (msp', os') \<and> logged (\<lambda>os. os) os' msp' {}" for vd
    using metaslab_sync_set [OF mem_mos_ok m(1), of "{}" 1 vd] m(3-5) by auto
  then show ?thesis using m(1) by blast
qed

text \<open>
  C6. Freed space comes back only when the group that freed it is on disk.  From every state a metaslab
  can get to in which the oldest active group has nothing left to sync, ending its sync succeeds; the
  written state becomes what the object describes, and if the map stays loaded it gains exactly the
  space that the groups up to this one have freed, less none of what later groups have taken.
\<close>

theorem metaslab_sync_done_frees:
  assumes "mos_ok mos words" "ms_reach mos words (txg, os, S0, msp)" "alloc_of msp txg 1 = {}" "free_of msp txg 1 = {}"
  shows "\<exists>msp' S. sync_done_maps msp (later txg 1) = Some msp' \<and> logged words os msp S \<and> ms_reach mos words (later txg 1, os, S, msp') \<and>
    ms_smo msp' = ms_smo_syncing msp \<and>
    (sm_loaded (ms_map msp') \<longrightarrow> sm_loaded (ms_map msp) \<and> space_of (ms_map msp') = space_of (ms_map msp) \<union> free_of msp txg 0 \<and>
      space_of (ms_map msp) \<inter> free_of msp txg 0 = {})"
proof -
  obtain S where v: "ms_inv words txg os S0 S msp" using ms_reach_good [OF assms(1,2)] by (auto simp: ms_good_def)
  have l: "logged words os msp S" using logged_inv [OF v] by simp
  from ms_done_ok [OF v assms(3,4)] obtain msp' where
    m: "sync_done_maps msp (later txg 1) = Some msp'" "ms_smo msp' = ms_smo_syncing msp"
    "sm_loaded (ms_map msp') \<longrightarrow> sm_loaded (ms_map msp) \<and>
      space_of (ms_map msp') = ms_span msp - (taken S (alloc_of msp txg) (free_of msp txg) - free_of msp txg 0)" by blast
  have s: "free_of msp txg 0 \<subseteq> ms_span msp" using ms_invD(4) [OF v] by (simp add: parts_def)
  have t: "free_of msp txg 0 \<subseteq> taken S (alloc_of msp txg) (free_of msp txg)" by (auto simp: taken_def)
  have "space_of (ms_map msp') = space_of (ms_map msp) \<union> free_of msp txg 0 \<and> space_of (ms_map msp) \<inter> free_of msp txg 0 = {}"
    if "sm_loaded (ms_map msp')"
    using m(3) that ms_inv_loaded(2) [OF v] s t by auto
  moreover have "ms_reach mos words (later txg 1, os, S, msp')"
    using ms_reach_step [OF assms(2) ms_step.sync_done [OF l assms(3,4) m(1)]] .
  ultimately show ?thesis using m l by (intro exI [of _ msp'] exI [of _ S]) simp
qed

theorem metaslab_sync_done_frees_witness:
  "\<exists>msp msp' S. ms_reach mem_mos (\<lambda>os. os) (7, \<lambda>_ _. 0, {}, msp) \<and> sync_done_maps msp (later 7 1) = Some msp' \<and>
    ms_reach mem_mos (\<lambda>os. os) (later 7 1, \<lambda>_ _. 0, S, msp')"
proof -
  obtain msp where m: "ms_reach mem_mos (\<lambda>os. os) (7, \<lambda>_ _. 0, {}, msp)" "alloc_of msp 7 1 = {}" "free_of msp 7 1 = {}"
    using example_loaded by blast
  show ?thesis using metaslab_sync_done_frees [OF mem_mos_ok m] m(1) by blast
qed

end
