(* ===== verification/Metaslab_Alloc.thy ===== *)
theory Metaslab_Alloc
  imports Metaslab_Inv "HOL-Library.Signed_Division"
begin

text \<open>
  Allocating, freeing and claiming blocks (\<^verbatim>\<open>uts/common/fs/zfs/metaslab.c\<close>, from
  \<^verbatim>\<open>metaslab_distance\<close> on, and the block address macros of \<^verbatim>\<open>sys/spa.h\<close>).

  A block address names a vdev, an offset and a size.  A block is allocated by going round the ring
  of the class's groups, and in a group by trying its metaslabs in the order of their weights.  The
  loops may run long: they are recursions whose end is proved.  The theorems lift the invariant of
  the metaslabs to the vdevs and the pool.
\<close>

unbundle bit_operations_syntax

section \<open>Block addresses\<close>

definition BF64_SET :: "u64 \<Rightarrow> nat \<Rightarrow> nat \<Rightarrow> u64 \<Rightarrow> u64" where
  "BF64_SET x low len val = x XOR BF64_ENCODE (drop_bit low x XOR val) low len"

definition BF64_GET_SB :: "u64 \<Rightarrow> nat \<Rightarrow> nat \<Rightarrow> nat \<Rightarrow> u64 \<Rightarrow> u64" where
  "BF64_GET_SB x low len shift bias = push_bit shift (BF64_DECODE x low len + bias)"

definition BF64_SET_SB :: "u64 \<Rightarrow> nat \<Rightarrow> nat \<Rightarrow> nat \<Rightarrow> u64 \<Rightarrow> u64 \<Rightarrow> u64" where
  "BF64_SET_SB x low len shift bias val = BF64_SET x low len (drop_bit shift val - bias)"

record dva_t =
  dva_word0 :: u64
  dva_word1 :: u64

record blkptr_t =
  blk_dva :: "dva_t list"
  blk_birth :: u64

definition DVA_GET_ASIZE :: "dva_t \<Rightarrow> u64" where
  "DVA_GET_ASIZE dva = BF64_GET_SB (dva_word0 dva) 0 24 SPA_MINBLOCKSHIFT 0"

definition DVA_SET_ASIZE :: "u64 \<Rightarrow> dva_t \<Rightarrow> dva_t" where
  "DVA_SET_ASIZE x dva = dva\<lparr>dva_word0 := BF64_SET_SB (dva_word0 dva) 0 24 SPA_MINBLOCKSHIFT 0 x\<rparr>"

definition DVA_GET_VDEV :: "dva_t \<Rightarrow> u64" where
  "DVA_GET_VDEV dva = BF64_DECODE (dva_word0 dva) 32 32"

definition DVA_SET_VDEV :: "u64 \<Rightarrow> dva_t \<Rightarrow> dva_t" where
  "DVA_SET_VDEV x dva = dva\<lparr>dva_word0 := BF64_SET (dva_word0 dva) 32 32 x\<rparr>"

definition DVA_GET_OFFSET :: "dva_t \<Rightarrow> u64" where
  "DVA_GET_OFFSET dva = BF64_GET_SB (dva_word1 dva) 0 63 SPA_MINBLOCKSHIFT 0"

definition DVA_SET_OFFSET :: "u64 \<Rightarrow> dva_t \<Rightarrow> dva_t" where
  "DVA_SET_OFFSET x dva = dva\<lparr>dva_word1 := BF64_SET_SB (dva_word1 dva) 0 63 SPA_MINBLOCKSHIFT 0 x\<rparr>"

definition DVA_GET_GANG :: "dva_t \<Rightarrow> u64" where
  "DVA_GET_GANG dva = BF64_DECODE (dva_word1 dva) 63 1"

definition DVA_SET_GANG :: "u64 \<Rightarrow> dva_t \<Rightarrow> dva_t" where
  "DVA_SET_GANG x dva = dva\<lparr>dva_word1 := BF64_SET (dva_word1 dva) 63 1 x\<rparr>"

definition DVA_IS_VALID :: "dva_t \<Rightarrow> bool" where
  "DVA_IS_VALID dva \<longleftrightarrow> DVA_GET_ASIZE dva \<noteq> 0"

definition BP_GET_NDVAS :: "blkptr_t \<Rightarrow> nat" where
  "BP_GET_NDVAS bp =
     (if DVA_GET_ASIZE (blk_dva bp ! 0) \<noteq> 0 then 1 else 0) + (if DVA_GET_ASIZE (blk_dva bp ! 1) \<noteq> 0 then 1 else 0) +
     (if DVA_GET_ASIZE (blk_dva bp ! 2) \<noteq> 0 then 1 else 0)"

definition BP_IS_HOLE :: "blkptr_t \<Rightarrow> bool" where
  "BP_IS_HOLE bp \<longleftrightarrow> blk_birth bp = 0"

definition dva_zero :: dva_t where
  "dva_zero = \<lparr>dva_word0 = 0, dva_word1 = 0\<rparr>"

section \<open>Allocating in a group\<close>

definition metaslab_distance :: "vdev \<Rightarrow> metaslab \<Rightarrow> dva_t \<Rightarrow> u64" where
  "metaslab_distance vd msp dva =
     (let ms_shift = unat (vdev_ms_shift vd);
          offset = drop_bit ms_shift (DVA_GET_OFFSET dva);
          start = drop_bit ms_shift (sm_start (ms_map msp))
      in if vdev_id vd \<noteq> DVA_GET_VDEV dva then push_bit 63 1
         else if offset < start then push_bit ms_shift (start - offset)
         else if offset > start then push_bit ms_shift (offset - start)
         else 0)"

text \<open>
  The walk over the group's tree from its first metaslab: its value is the metaslab to try, or none
  if the allocation fails.
\<close>

partial_function (option) group_select ::
  "vdev \<Rightarrow> u64 \<Rightarrow> u64 \<Rightarrow> u64 \<Rightarrow> dva_t list \<Rightarrow> nat place option \<Rightarrow> nat option option" where
  "group_select vd sz min_distance activation_weight dvas t =
     (case t of
        None \<Rightarrow> Some None
      | Some p \<Rightarrow>
          let m = dat (snd p); msp = vdev_ms vd ! m
          in if ms_weight msp < sz then Some None
             else if activation_weight = METASLAB_WEIGHT_PRIMARY then Some (Some m)
             else let target_distance = min_distance + (if smo_alloc (ms_smo msp) \<noteq> 0 then 0 else drop_bit 1 min_distance)
               in if list_all (\<lambda>dva. \<not> metaslab_distance vd msp dva < target_distance) dvas then Some (Some m)
                  else group_select vd sz min_distance activation_weight dvas (avl_walk p 1))"

declare group_select.simps [code]

text \<open>The loop: its value is the metaslab and the offset found, if any, and the vdev after it.\<close>

definition ms_upd :: "nat \<Rightarrow> (metaslab \<Rightarrow> metaslab) \<Rightarrow> vdev \<Rightarrow> vdev" where
  "ms_upd m f vd = vd\<lparr>vdev_ms := (vdev_ms vd)[m := f (vdev_ms vd ! m)]\<rparr>"

partial_function (option) group_alloc_loop ::
  "'os mos \<Rightarrow> 'os \<Rightarrow> u64 \<Rightarrow> u64 \<Rightarrow> u64 \<Rightarrow> dva_t list \<Rightarrow> vdev \<Rightarrow> ((nat \<times> u64) option \<times> vdev) option" where
  "group_alloc_loop mos os sz min_distance activation_weight dvas vd =
     Option.bind (vdev_mg vd) (\<lambda>mg.
     Option.bind (group_select vd sz min_distance activation_weight dvas (avl_first (mg_metaslab_tree mg))) (\<lambda>sel.
       case sel of
         None \<Rightarrow> Some (None, vd)
       | Some m \<Rightarrow>
           if ms_weight (vdev_ms vd ! m) AND METASLAB_WEIGHT_SECONDARY \<noteq> 0 \<and> activation_weight = METASLAB_WEIGHT_PRIMARY
           then Option.bind (metaslab_passivate vd m (ms_weight (vdev_ms vd ! m) AND NOT METASLAB_ACTIVE_MASK))
                  (group_alloc_loop mos os sz min_distance activation_weight dvas)
           else Option.bind (metaslab_activate mos os vd m activation_weight) (\<lambda>vd.
                Option.bind (space_map_alloc (ms_map (vdev_ms vd ! m)) sz) (\<lambda>a.
                  let vd = ms_upd m (\<lambda>msp. msp\<lparr>ms_map := snd a\<rparr>) vd
                  in if fst a \<noteq> -1 then Some (Some (m, fst a), vd)
                     else Option.bind (metaslab_passivate vd m (sz - 1))
                            (group_alloc_loop mos os sz min_distance activation_weight dvas)))))"

declare group_alloc_loop.simps [code]

definition metaslab_group_alloc ::
  "'os mos \<Rightarrow> 'os spa \<Rightarrow> nat \<Rightarrow> u64 \<Rightarrow> u64 \<Rightarrow> u64 \<Rightarrow> dva_t list \<Rightarrow> nat \<Rightarrow> (u64 \<times> 'os spa) option" where
  "metaslab_group_alloc mos spa v sz txg min_distance dva d = do {
     let vd = vdev_child spa ! v;
     let activation_weight = (if list_ex (\<lambda>dva. DVA_GET_VDEV dva = vdev_id vd) (take d dva)
                              then METASLAB_WEIGHT_SECONDARY else METASLAB_WEIGHT_PRIMARY);
     (found, vd) \<leftarrow> group_alloc_loop mos (spa_meta_objset spa) sz min_distance activation_weight (take d dva) vd;
     let spa = spa\<lparr>vdev_child := (vdev_child spa)[v := vd]\<rparr>;
     case found of
       None \<Rightarrow> Some (-1, spa)
     | Some (m, offset) \<Rightarrow> do {
         let allocmap = ms_allocmap (vdev_ms vd ! m) ! txg_slot txg;
         let spa = (if sm_space allocmap = 0 then vdev_dirty spa v (Some m) txg else spa);
         allocmap \<leftarrow> space_map_add allocmap offset sz;
         let vd = ms_upd m (\<lambda>msp. msp\<lparr>ms_allocmap := (ms_allocmap msp)[txg_slot txg := allocmap]\<rparr>) (vdev_child spa ! v);
         Some (offset, spa\<lparr>vdev_child := (vdev_child spa)[v := vd]\<rparr>)
       }
   }"

section \<open>Allocating in the pool\<close>

definition vdev_lookup_top :: "'os spa \<Rightarrow> u64 \<Rightarrow> nat option" where
  "vdev_lookup_top spa v = (if unat v < length (vdev_child spa) then Some (unat v) else None)"

text \<open>The quotient of signed 64-bit numbers rounds towards 0.\<close>

definition sdiv64 :: "u64 \<Rightarrow> u64 \<Rightarrow> u64" where
  "sdiv64 a b = word_of_int (sint a sdiv sint b)"

text \<open>
  The bias of a group that has just been selected, in 1024ths of the aliquot; the percentages are
  quotients of unsigned numbers.
\<close>

definition alloc_bias :: "'os spa \<Rightarrow> vdev \<Rightarrow> metaslab_group \<Rightarrow> u64" where
  "alloc_bias spa vd mg =
     (let vs = vdev_stat vd;
          vu = push_bit 10 (vs_alloc vs) div (vs_space vs + 1);
          su = push_bit 10 (vs_alloc (root_stat spa)) div (vs_space (root_stat spa) + 1)
      in sdiv64 ((su - vu) * mg_aliquot mg) (1024 * 4))"

text \<open>What follows a successful allocation: the bias, the rotor and the address.\<close>

definition alloc_found :: "'os spa \<Rightarrow> nat \<Rightarrow> u64 \<Rightarrow> u64 \<Rightarrow> dva_t \<Rightarrow> ('os spa \<times> dva_t) option" where
  "alloc_found spa v asize offset dva = do {
     mg \<leftarrow> mg_get spa v;
     let vd = vdev_child spa ! v;
     let bias = (if mc_allocated (spa_normal_class spa) = 0 then alloc_bias spa vd mg else mg_bias mg);
     let spa = mg_upd v (\<lambda>mg. mg\<lparr>mg_bias := bias\<rparr>) spa;
     let allocated = mc_allocated (spa_normal_class spa) + asize;
     let spa = mc_upd (\<lambda>mc. if allocated \<ge> mg_aliquot mg + bias then mc\<lparr>mc_rotor := mg_next mg, mc_allocated := 0\<rparr>
                            else mc\<lparr>mc_allocated := allocated\<rparr>) spa;
     Some (spa, DVA_SET_ASIZE asize (DVA_SET_GANG 0 (DVA_SET_OFFSET offset (DVA_SET_VDEV (vdev_id vd) dva))))
   }"

text \<open>
  The loop over the ring of groups from the rotor, again with a shorter distance until every distance
  is 0.  Without an error the value of the first component is none.
\<close>

partial_function (option) alloc_dva_loop ::
  "'os mos \<Rightarrow> u64 \<Rightarrow> dva_t list \<Rightarrow> nat \<Rightarrow> u64 \<Rightarrow> nat \<Rightarrow> nat \<Rightarrow> bool \<Rightarrow> nat \<Rightarrow> 'os spa \<Rightarrow>
     (errno option \<times> 'os spa \<times> dva_t list) option" where
  "alloc_dva_loop mos psize dva d txg rotor dshift all_zero mg spa =
     Option.bind (mg_get spa mg) (\<lambda>_.
       let vd = vdev_child spa ! mg;
           near = drop_bit dshift (vdev_asize vd) \<le> push_bit (unat (vdev_ms_shift vd)) 1;
           distance = (if near then 0 else drop_bit dshift (vdev_asize vd));
           all_zero = (all_zero \<and> near);
           asize = vdev_op_asize vd psize
       in if P2PHASE asize (push_bit (unat (vdev_ashift vd)) 1) \<noteq> 0 then None
          else Option.bind (metaslab_group_alloc mos spa mg asize txg distance dva d) (\<lambda>a.
            if fst a \<noteq> -1 then
              map_option (\<lambda>r. (None, fst r, dva[d := snd r])) (alloc_found (snd a) mg asize (fst a) (dva ! d))
            else Option.bind (mg_get (snd a) mg) (\<lambda>g.
              let spa = mc_upd (\<lambda>mc. mc\<lparr>mc_rotor := mg_next g, mc_allocated := 0\<rparr>) (snd a)
              in Option.bind (mg_next g) (\<lambda>next.
                if next \<noteq> rotor then alloc_dva_loop mos psize dva d txg rotor dshift all_zero next spa
                else if \<not> all_zero then
                  (if dshift + 1 < 64 then alloc_dva_loop mos psize dva d txg rotor (dshift + 1) True next spa else None)
                else Some (Some ENOSPC, spa, dva[d := dva_zero])))))"

declare alloc_dva_loop.simps [code]

text \<open>The hint is the array of addresses of another block, or none.\<close>

definition metaslab_alloc_dva ::
  "'os mos \<Rightarrow> 'os spa \<Rightarrow> u64 \<Rightarrow> dva_t list \<Rightarrow> nat \<Rightarrow> dva_t list option \<Rightarrow> u64 \<Rightarrow>
     (errno option \<times> 'os spa \<times> dva_t list) option" where
  "metaslab_alloc_dva mos spa psize dva d hintdva txg =
     (if DVA_IS_VALID (dva ! d) then None
      else do {
        mg \<leftarrow> (case hintdva of
                 Some hint \<Rightarrow> vdev_lookup_top spa (DVA_GET_VDEV (hint ! d))
               | None \<Rightarrow> if d \<noteq> 0 then do {
                             v \<leftarrow> vdev_lookup_top spa (DVA_GET_VDEV (dva ! (d - 1)));
                             g \<leftarrow> mg_get spa v;
                             mg_next g
                           }
                         else mc_rotor (spa_normal_class spa));
        alloc_dva_loop mos psize dva d txg mg 3 True mg spa
      })"

section \<open>Freeing and claiming\<close>

definition SPA_GANGBLOCKSIZE :: u64 where
  "SPA_GANGBLOCKSIZE = SPA_MINBLOCKSIZE"

text \<open>
  The metaslab an address lies in: none for a bad address, which is an error that the two callers
  treat differently; a fault where the array of metaslabs is not filled.
\<close>

definition dva_metaslab :: "'os spa \<Rightarrow> dva_t \<Rightarrow> (nat \<times> nat) option" where
  "dva_metaslab spa dva =
     (case vdev_lookup_top spa (DVA_GET_VDEV dva) of
        None \<Rightarrow> None
      | Some v \<Rightarrow>
          let vd = vdev_child spa ! v; m = drop_bit (unat (vdev_ms_shift vd)) (DVA_GET_OFFSET dva)
          in if m \<ge> vdev_ms_count vd then None else Some (v, unat m))"

definition dva_size :: "vdev \<Rightarrow> dva_t \<Rightarrow> u64" where
  "dva_size vd dva = (if DVA_GET_GANG dva \<noteq> 0 then vdev_op_asize vd SPA_GANGBLOCKSIZE else DVA_GET_ASIZE dva)"

definition metaslab_free_dva :: "'os spa \<Rightarrow> dva_t \<Rightarrow> u64 \<Rightarrow> bool \<Rightarrow> 'os spa option" where
  "metaslab_free_dva spa dva txg now =
     (if \<not> DVA_IS_VALID dva then None
      else if txg > spa_freeze_txg spa then Some spa
      else do {
        (v, m) \<leftarrow> dva_metaslab spa dva;
        let vd = vdev_child spa ! v;
        let offset = DVA_GET_OFFSET dva;
        let sz = dva_size vd dva;
        if \<not> m < length (vdev_ms vd) then None
        else if now then do {
          let msp = vdev_ms vd ! m;
          allocmap \<leftarrow> space_map_remove (ms_allocmap msp ! txg_slot txg) offset sz;
          sm \<leftarrow> space_map_free (ms_map msp) offset sz;
          let vd = ms_upd m (\<lambda>msp. msp\<lparr>ms_allocmap := (ms_allocmap msp)[txg_slot txg := allocmap], ms_map := sm\<rparr>) vd;
          Some (spa\<lparr>vdev_child := (vdev_child spa)[v := vd]\<rparr>)
        }
        else do {
          let freemap = ms_freemap (vdev_ms vd ! m) ! txg_slot txg;
          let spa = (if sm_space freemap = 0 then vdev_dirty spa v (Some m) txg else spa);
          freemap \<leftarrow> space_map_add freemap offset sz;
          let vd = ms_upd m (\<lambda>msp. msp\<lparr>ms_freemap := (ms_freemap msp)[txg_slot txg := freemap]\<rparr>) (vdev_child spa ! v);
          Some (spa\<lparr>vdev_child := (vdev_child spa)[v := vd]\<rparr>)
        }
      })"

definition metaslab_claim_dva :: "'os mos \<Rightarrow> 'os spa \<Rightarrow> dva_t \<Rightarrow> u64 \<Rightarrow> (errno option \<times> 'os spa) option" where
  "metaslab_claim_dva mos spa dva txg =
     (if \<not> DVA_IS_VALID dva then None
      else case dva_metaslab spa dva of
        None \<Rightarrow> Some (Some ENXIO, spa)
      | Some (v, m) \<Rightarrow> do {
          let vd = vdev_child spa ! v;
          let offset = DVA_GET_OFFSET dva;
          let sz = dva_size vd dva;
          if \<not> m < length (vdev_ms vd) then None else do {
            vd \<leftarrow> metaslab_activate mos (spa_meta_objset spa) vd m METASLAB_WEIGHT_SECONDARY;
            let spa = spa\<lparr>vdev_child := (vdev_child spa)[v := vd]\<rparr>;
            let allocmap = ms_allocmap (vdev_ms vd ! m) ! txg_slot txg;
            let spa = (if sm_space allocmap = 0 then vdev_dirty spa v (Some m) txg else spa);
            sm \<leftarrow> space_map_claim (ms_map (vdev_ms vd ! m)) offset sz;
            allocmap \<leftarrow> space_map_add allocmap offset sz;
            let vd = ms_upd m (\<lambda>msp. msp\<lparr>ms_map := sm, ms_allocmap := (ms_allocmap msp)[txg_slot txg := allocmap]\<rparr>) (vdev_child spa ! v);
            Some (None, spa\<lparr>vdev_child := (vdev_child spa)[v := vd]\<rparr>)
          }
        })"

text \<open>The number of copies a pool of this version may have.\<close>

definition SPA_DVAS_PER_BP :: nat where
  "SPA_DVAS_PER_BP = 3"

definition ZFS_VERSION_DITTO_BLOCKS :: u64 where
  "ZFS_VERSION_DITTO_BLOCKS = 2"

definition spa_max_replication_override :: nat where
  "spa_max_replication_override = SPA_DVAS_PER_BP"

definition spa_max_replication :: "'os spa \<Rightarrow> nat" where
  "spa_max_replication spa =
     (if ub_version spa < ZFS_VERSION_DITTO_BLOCKS then 1 else min SPA_DVAS_PER_BP spa_max_replication_override)"

text \<open>The copies allocated so far are freed again when one cannot be allocated, the last one first.\<close>

primrec alloc_undo :: "'os spa \<Rightarrow> dva_t list \<Rightarrow> u64 \<Rightarrow> nat \<Rightarrow> ('os spa \<times> dva_t list) option" where
  "alloc_undo spa dva txg 0 = Some (spa, dva)"
| "alloc_undo spa dva txg (Suc d) =
     Option.bind (metaslab_free_dva spa (dva ! d) txg True) (\<lambda>spa. alloc_undo spa (dva[d := dva_zero]) txg d)"

function alloc_copies ::
  "'os mos \<Rightarrow> u64 \<Rightarrow> nat \<Rightarrow> u64 \<Rightarrow> dva_t list option \<Rightarrow> nat \<Rightarrow> 'os spa \<Rightarrow> dva_t list \<Rightarrow>
     (errno option \<times> 'os spa \<times> dva_t list) option" where
  "alloc_copies mos psize ndvas txg hintdva d spa dva =
     (if d < ndvas then
        (case metaslab_alloc_dva mos spa psize dva d hintdva txg of
           None \<Rightarrow> None
         | Some (None, spa, dva) \<Rightarrow> alloc_copies mos psize ndvas txg hintdva (d + 1) spa dva
         | Some (Some e, spa, dva) \<Rightarrow> map_option (Pair (Some e)) (alloc_undo spa dva txg d))
      else Some (None, spa, dva))"
  by pat_completeness auto
termination by (relation "measure (\<lambda>(_, _, ndvas, _, _, d, _). ndvas - d)") auto

definition metaslab_alloc ::
  "'os mos \<Rightarrow> 'os spa \<Rightarrow> u64 \<Rightarrow> blkptr_t \<Rightarrow> nat \<Rightarrow> u64 \<Rightarrow> blkptr_t option \<Rightarrow> (errno option \<times> 'os spa \<times> blkptr_t) option" where
  "metaslab_alloc mos spa psize bp ndvas txg hintbp =
     (if \<not> (0 < ndvas \<and> ndvas \<le> spa_max_replication spa) \<or> BP_GET_NDVAS bp \<noteq> 0 \<or> (\<exists>hint \<in> set_option hintbp. \<not> ndvas \<le> BP_GET_NDVAS hint) then None
      else do {
        (error, spa, dva) \<leftarrow> alloc_copies mos psize ndvas txg (map_option blk_dva hintbp) 0 spa (blk_dva bp);
        let bp = bp\<lparr>blk_dva := dva\<rparr>;
        if error = None \<and> BP_GET_NDVAS bp \<noteq> ndvas then None else Some (error, spa, bp)
      })"

definition metaslab_free :: "'os spa \<Rightarrow> blkptr_t \<Rightarrow> u64 \<Rightarrow> bool \<Rightarrow> 'os spa option" where
  "metaslab_free spa bp txg now =
     (if BP_IS_HOLE bp then None
      else fold_opt (\<lambda>spa dva. metaslab_free_dva spa dva txg now) (take (BP_GET_NDVAS bp) (blk_dva bp)) spa)"

definition metaslab_claim :: "'os mos \<Rightarrow> 'os spa \<Rightarrow> blkptr_t \<Rightarrow> u64 \<Rightarrow> (errno option \<times> 'os spa) option" where
  "metaslab_claim mos spa bp txg =
     (if BP_IS_HOLE bp then None
      else fold_opt (\<lambda>(last_error, spa) dva. map_option (\<lambda>(error, spa). (if error \<noteq> None then error else last_error, spa))
             (metaslab_claim_dva mos spa dva txg)) (take (BP_GET_NDVAS bp) (blk_dva bp)) (None, spa))"

section \<open>The fields of a block address\<close>

lemma field_take_bit:
  "len < 64 \<Longrightarrow> BF64_DECODE x low len = take_bit len (drop_bit low x)"
  "len < 64 \<Longrightarrow> BF64_ENCODE x low len = push_bit low (take_bit len x)"
  unfolding BF64_DECODE_def BF64_ENCODE_def by (simp_all only: phase_take_bit)

lemma bit_field_set:
  assumes "len < 64" "low + len \<le> 64"
  shows "bit (BF64_SET x low len val) n \<longleftrightarrow> (if low \<le> n \<and> n < low + len then bit val (n - low) else bit x n)"
proof (cases "n < 64")
  case True
  then show ?thesis
    using assms by (auto simp: BF64_SET_def field_take_bit bit_simps)
next
  case False
  then show ?thesis using assms bit_imp_le_length [of x n] bit_imp_le_length [of "BF64_SET x low len val" n] by auto
qed

lemma field_get_set:
  assumes "len < 64" "low + len \<le> 64"
  shows "BF64_DECODE (BF64_SET x low len val) low len = take_bit len val"
    and "len' < 64 \<Longrightarrow> low + len \<le> low' \<or> low' + len' \<le> low \<Longrightarrow> BF64_DECODE (BF64_SET x low len val) low' len' = BF64_DECODE x low' len'"
  using assms
  by (auto simp: field_take_bit bit_simps bit_field_set intro!: bit_word_eqI dest: bit_imp_le_length)

lemma sectors:
  assumes "512 dvd unat x" "unat x < 2 ^ (9 + len)" "len < 64"
  shows "push_bit 9 (take_bit len (drop_bit 9 x)) = (x :: u64)"
proof -
  have "unat (drop_bit 9 x) < 2 ^ len" using assms(2) by (simp add: unat_drop_bit_div power_add less_mult_imp_div_less)
  then have t: "take_bit len (drop_bit 9 x) = drop_bit 9 x"
    using assms(3) by (simp add: word_unat_eq_iff unat_take_bit_mod)
  have "unat (take_bit 9 x) = 0" using assms(1) by (simp add: unat_take_bit_mod)
  then have "take_bit 9 x = 0" by (simp only: unat_eq_0)
  then show ?thesis unfolding t using bits_ident [of 9 x] by simp
qed

definition dva_of :: "u64 \<Rightarrow> u64 \<Rightarrow> u64 \<Rightarrow> dva_t \<Rightarrow> dva_t" where
  "dva_of v offset asize dva = DVA_SET_ASIZE asize (DVA_SET_GANG 0 (DVA_SET_OFFSET offset (DVA_SET_VDEV v dva)))"

lemmas dva_defs = DVA_GET_ASIZE_def DVA_SET_ASIZE_def DVA_GET_VDEV_def DVA_SET_VDEV_def DVA_GET_OFFSET_def
  DVA_SET_OFFSET_def DVA_GET_GANG_def DVA_SET_GANG_def BF64_GET_SB_def BF64_SET_SB_def SPA_MINBLOCKSHIFT_def

lemma dva_of_fields:
  assumes "unat v < 2 ^ 32" "512 dvd unat offset" "512 dvd unat asize" "unat asize < 2 ^ 33"
  shows "DVA_GET_VDEV (dva_of v offset asize dva) = v" "DVA_GET_OFFSET (dva_of v offset asize dva) = offset"
    "DVA_GET_ASIZE (dva_of v offset asize dva) = asize" "DVA_GET_GANG (dva_of v offset asize dva) = 0"
proof -
  have "unat offset < 2 ^ (9 + 63)" using unsigned_less [of offset, where ?'a = nat] by simp
  then show "DVA_GET_OFFSET (dva_of v offset asize dva) = offset"
    using sectors [OF assms(2), of 63] by (simp add: dva_of_def dva_defs field_get_set)
  show "DVA_GET_ASIZE (dva_of v offset asize dva) = asize"
    using sectors [OF assms(3), of 24] assms(4) by (simp add: dva_of_def dva_defs field_get_set)
  show "DVA_GET_VDEV (dva_of v offset asize dva) = v"
    using assms(1) by (simp add: dva_of_def dva_defs field_get_set word_unat_eq_iff unat_take_bit_mod)
  show "DVA_GET_GANG (dva_of v offset asize dva) = 0" by (simp add: dva_of_def dva_defs field_get_set)
qed

section \<open>The invariant of a vdev\<close>

text \<open>
  A metaslab that is in use keeps its invariant, and one that is active has a base weight to fall back
  to, or was full as of the last synced group.  A new one, which \<^verbatim>\<open>metaslab_sync_done\<close> has not seen
  yet, has weight 0.
\<close>

definition ms_ok :: "('os \<Rightarrow> u64 \<Rightarrow> nat \<Rightarrow> u64) \<Rightarrow> u64 \<Rightarrow> 'os \<Rightarrow> nat set \<Rightarrow> metaslab \<Rightarrow> bool" where
  "ms_ok words txg os S0 msp \<longleftrightarrow> (\<exists>S. ms_inv words txg os S0 S msp) \<and>
     (ms_weight msp AND METASLAB_ACTIVE_MASK \<noteq> 0 \<longrightarrow> SPA_MINBLOCKSIZE \<le> ms_weight msp AND NOT METASLAB_ACTIVE_MASK \<or>
        ms_weight msp AND NOT METASLAB_ACTIVE_MASK = 0 \<and> smo_alloc (ms_smo msp) = sm_size (ms_map msp))"

definition ms_new :: "metaslab \<Rightarrow> bool" where
  "ms_new msp \<longleftrightarrow> ms_weight msp = 0 \<and> ms_allocmap msp = replicate TXG_SIZE (space_map_create 0 0 0) \<and>
     ms_freemap msp = replicate TXG_SIZE (space_map_create 0 0 0)"

definition ms_place :: "vdev \<Rightarrow> nat \<Rightarrow> ff_map \<Rightarrow> bool" where
  "ms_place vd m sm \<longleftrightarrow> unat (sm_start sm) = m * 2 ^ unat (vdev_ms_shift vd) \<and> unat (sm_size sm) = 2 ^ unat (vdev_ms_shift vd) \<and>
     sm_shift sm = ucast (vdev_ashift vd)"

definition vd_inv :: "('os \<Rightarrow> u64 \<Rightarrow> nat \<Rightarrow> u64) \<Rightarrow> u64 \<Rightarrow> 'os \<Rightarrow> (nat \<Rightarrow> nat set) \<Rightarrow> vdev \<Rightarrow> bool" where
  "vd_inv words txg os G vd \<longleftrightarrow> group_ok vd \<and>
     (\<forall>m < length (vdev_ms vd). ms_place vd m (ms_map (vdev_ms vd ! m)) \<and>
        (ms_new (vdev_ms vd ! m) \<or> ms_ok words txg os (G m) (vdev_ms vd ! m)))"

text \<open>What loading and weighing may change of a metaslab and of a vdev.\<close>

definition calm :: "metaslab \<Rightarrow> metaslab \<Rightarrow> bool" where
  "calm msp msp' \<longleftrightarrow> (\<exists>sm w. msp' = msp\<lparr>ms_map := sm, ms_weight := w\<rparr> \<and> bounds sm = bounds (ms_map msp))"

definition vd_calm :: "vdev \<Rightarrow> vdev \<Rightarrow> bool" where
  "vd_calm vd vd' \<longleftrightarrow> (\<exists>ms t. vd' = with_tree ms t vd \<and> list_all2 calm (vdev_ms vd) ms)"

lemma calm_trans: "calm a b \<Longrightarrow> calm b c \<Longrightarrow> calm a c"
  unfolding calm_def by (elim exE conjE) (rule_tac x = sma in exI, rule_tac x = wa in exI, simp)

lemma calmI: "bounds sm = bounds (ms_map msp) \<Longrightarrow> calm msp (msp\<lparr>ms_map := sm, ms_weight := w\<rparr>)"
  "bounds sm = bounds (ms_map msp) \<Longrightarrow> calm msp (msp\<lparr>ms_map := sm\<rparr>)" "calm msp (msp\<lparr>ms_weight := w\<rparr>)" "calm msp msp"
proof -
  show "bounds sm = bounds (ms_map msp) \<Longrightarrow> calm msp (msp\<lparr>ms_map := sm, ms_weight := w\<rparr>)" by (auto simp: calm_def)
  show "bounds sm = bounds (ms_map msp) \<Longrightarrow> calm msp (msp\<lparr>ms_map := sm\<rparr>)"
    unfolding calm_def by (intro exI [of _ sm] exI [of _ "ms_weight msp"]) simp
  show "calm msp (msp\<lparr>ms_weight := w\<rparr>)" unfolding calm_def by (intro exI [of _ "ms_map msp"] exI [of _ w]) simp
  show "calm msp msp" unfolding calm_def by (intro exI [of _ "ms_map msp"] exI [of _ "ms_weight msp"]) simp
qed

lemma calmD:
  assumes "calm msp msp'"
  shows "ms_allocmap msp' = ms_allocmap msp" "ms_freemap msp' = ms_freemap msp" "ms_smo msp' = ms_smo msp"
    "ms_smo_syncing msp' = ms_smo_syncing msp" "ms_group msp' = ms_group msp" "bounds (ms_map msp') = bounds (ms_map msp)"
    "alloc_of msp' = alloc_of msp" "free_of msp' = free_of msp"
  using assms by (auto simp: calm_def)

lemma vd_calm_trans:
  assumes "vd_calm a b" "vd_calm b c"
  shows "vd_calm a c"
proof -
  obtain ms t ms' t' where e: "b = with_tree ms t a" "list_all2 calm (vdev_ms a) ms" "c = with_tree ms' t' b" "list_all2 calm (vdev_ms b) ms'"
    using assms by (auto simp: vd_calm_def)
  have "list_all2 calm (vdev_ms a) ms'" using list_all2_trans [of calm calm calm, OF _ e(2)] calm_trans e(1,4) by (auto simp: with_tree_def)
  moreover have "c = with_tree ms' t' a" using e(1,3) by (simp add: with_tree_def option.map_comp o_def)
  ultimately show ?thesis by (auto simp: vd_calm_def)
qed

lemma with_tree_self:
  obtains t where "\<And>ms. with_tree ms t vd = vd\<lparr>vdev_ms := ms\<rparr>"
proof (cases "vdev_mg vd")
  case None
  then show ?thesis using that [of avl_create] by (simp add: with_tree_def)
next
  case (Some mg)
  then have "vd\<lparr>vdev_ms := ms, vdev_mg := Some mg\<rparr> = vd\<lparr>vdev_ms := ms\<rparr>" for ms by (cases vd) simp
  then show ?thesis using that [of "mg_metaslab_tree mg"] Some by (simp add: with_tree_def)
qed

lemma vd_calm_refl: "vd_calm vd vd"
proof -
  obtain t where "\<And>ms. with_tree ms t vd = vd\<lparr>vdev_ms := ms\<rparr>" using with_tree_self [of vd] by blast
  then have "vd = with_tree (vdev_ms vd) t vd" by simp
  moreover have "list_all2 calm (vdev_ms vd) (vdev_ms vd)" by (simp add: list_all2_refl calmI(4))
  ultimately show ?thesis unfolding vd_calm_def by blast
qed

lemma list_all2_update: "list_all2 P xs ys \<Longrightarrow> P (xs ! i) y \<Longrightarrow> list_all2 P xs (ys[i := y])"
  by (cases "i < length xs") (auto simp: list_all2_conv_all_nth nth_list_update)

lemma vd_calm_update: "calm (vdev_ms vd ! m) msp \<Longrightarrow> vd_calm vd (with_tree ((vdev_ms vd)[m := msp]) t vd)"
  unfolding vd_calm_def by (intro exI conjI, rule refl) (rule list_all2_update, auto simp: list_all2_refl calmI(4))

lemma vd_calm_map:
  assumes "bounds sm = bounds (ms_map (vdev_ms vd ! m))"
  shows "vd_calm vd (ms_upd m (\<lambda>msp. msp\<lparr>ms_map := sm\<rparr>) vd)"
proof -
  obtain t where "\<And>ms. with_tree ms t vd = vd\<lparr>vdev_ms := ms\<rparr>" using with_tree_self [of vd] by blast
  then show ?thesis using vd_calm_update [of vd m "(vdev_ms vd ! m)\<lparr>ms_map := sm\<rparr>" t] calmI(2) [OF assms] by (simp add: ms_upd_def)
qed

lemma ms_place_cong: "bounds sm' = bounds sm \<Longrightarrow> ms_place vd m sm' = ms_place vd m sm"
  by (simp add: ms_place_def bounds_def)

lemma with_tree_fields [simp]:
  "vdev_ms (with_tree ms t vd) = ms" "ms_place (with_tree ms t vd) = ms_place vd"
  by (simp_all add: with_tree_def ms_place_def fun_eq_iff)

lemma vd_inv_update:
  assumes "vd_inv words txg os G vd" "m < length (vdev_ms vd)" "ms_ok words txg os (G m) msp" "bounds (ms_map msp) = bounds (ms_map (vdev_ms vd ! m))"
    and "vdev_ms vd' = (vdev_ms vd)[m := msp]" "ms_place vd' = ms_place vd" "group_ok vd'"
  shows "vd_inv words txg os G vd'"
  using assms ms_place_cong [OF assms(4), of vd m] by (auto simp: vd_inv_def nth_list_update)

lemma ms_upd_inv:
  assumes "vd_inv words txg os G vd" "m < length (vdev_ms vd)" "ms_ok words txg os (G m) (f (vdev_ms vd ! m))"
    and "bounds (ms_map (f (vdev_ms vd ! m))) = bounds (ms_map (vdev_ms vd ! m))" "ms_key (f (vdev_ms vd ! m)) = ms_key (vdev_ms vd ! m)"
  shows "vd_inv words txg os G (ms_upd m f vd)"
proof (rule vd_inv_update [OF assms(1-4)])
  show "group_ok (ms_upd m f vd)"
  proof (rule group_ok_cong)
    show "group_ok vd" using assms(1) by (simp add: vd_inv_def)
    show "map ms_key (vdev_ms (ms_upd m f vd)) = map ms_key (vdev_ms vd)"
      using assms(2,5) by (simp add: ms_upd_def map_update) (metis list_update_id map_update)
  qed (simp add: ms_upd_def)
qed (simp_all add: ms_upd_def ms_place_def fun_eq_iff)

lemma sort_inv:
  assumes "vd_inv words txg os G vd" "m < length (vdev_ms vd)" "ms_group (vdev_ms vd ! m)" "w \<ge> SPA_MINBLOCKSIZE - 1 \<or> w = 0"
    and "ms_ok words txg os (G m) ((vdev_ms vd ! m)\<lparr>ms_weight := w\<rparr>)"
  shows "\<exists>vd'. metaslab_group_sort vd m w = Some vd' \<and> vd_inv words txg os G vd' \<and> vd_calm vd vd' \<and>
    vdev_ms vd' = (vdev_ms vd)[m := (vdev_ms vd ! m)\<lparr>ms_weight := w\<rparr>]"
proof -
  let ?ms = "(vdev_ms vd)[m := (vdev_ms vd ! m)\<lparr>ms_weight := w\<rparr>]"
  have g: "group_ok vd" using assms(1) by (simp add: vd_inv_def)
  obtain t where t: "metaslab_group_sort vd m w = Some (with_tree ?ms t vd)" "group_ok (with_tree ?ms t vd)"
    using sort_ok [OF g assms(2-4)] by blast
  have "vd_inv words txg os G (with_tree ?ms t vd)" by (rule vd_inv_update [OF assms(1,2,5)]) (simp_all add: t(2))
  then show ?thesis using t(1) vd_calm_update [OF calmI(3), of vd m w t] by simp
qed

lemma passivate_ok:
  assumes "vd_inv words txg os G vd" "m < length (vdev_ms vd)" "ms_group (vdev_ms vd ! m)" "ms_ok words txg os (G m) (vdev_ms vd ! m)"
    and "sz \<ge> SPA_MINBLOCKSIZE \<or> sm_space (ms_map (vdev_ms vd ! m)) = 0" "min (ms_weight (vdev_ms vd ! m)) sz = w"
    and "w \<ge> SPA_MINBLOCKSIZE - 1 \<or> w = 0" "w AND METASLAB_ACTIVE_MASK = 0"
  shows "\<exists>vd'. metaslab_passivate vd m sz = Some vd' \<and> vd_inv words txg os G vd' \<and> vd_calm vd vd' \<and>
    vdev_ms vd' = (vdev_ms vd)[m := (vdev_ms vd ! m)\<lparr>ms_weight := w\<rparr>]"
proof -
  have "ms_ok words txg os (G m) ((vdev_ms vd ! m)\<lparr>ms_weight := w\<rparr>)"
    using assms(4,8) ms_weight_ok [of words txg os "G m" _ "vdev_ms vd ! m" w] by (auto simp: ms_ok_def)
  from sort_inv [OF assms(1-3,7) this] show ?thesis
    using assms(2,5,8) unfolding metaslab_passivate_def Let_def assms(6) by auto
qed

lemma load_any_ok:
  assumes "dmu_ok dmu words" "ms_inv words txg os S0 S msp"
  shows "\<exists>sm. space_map_load dmu os (ms_map msp) (Some metaslab_ff_ops) SM_FREE (ms_smo msp) = Some sm \<and> sm_loaded sm \<and>
    bounds sm = bounds (ms_map msp) \<and> ms_inv words txg os S0 S (msp\<lparr>ms_map := sm\<rparr>)"
proof (cases "sm_loaded (ms_map msp)")
  case True
  then show ?thesis using ms_invD(3) [OF assms(2)] assms(2) by (simp add: space_map_load_def space_map_load_wait_def)
next
  case False
  then show ?thesis by (rule ms_load_ok [OF assms])
qed

lemma weight_or:
  assumes "w AND METASLAB_ACTIVE_MASK = 0" "aw \<in> {METASLAB_WEIGHT_PRIMARY, METASLAB_WEIGHT_SECONDARY}"
  shows "(w OR aw) AND NOT METASLAB_ACTIVE_MASK = w" "(w OR aw) AND METASLAB_ACTIVE_MASK = aw" "aw \<noteq> 0" "w \<le> w OR aw"
proof -
  have a: "aw AND NOT METASLAB_ACTIVE_MASK = 0" "aw AND METASLAB_ACTIVE_MASK = aw" "aw \<noteq> 0" using assms(2) by (auto simp: weight_masks)
  have "w AND NOT METASLAB_ACTIVE_MASK = w" using bit.conj_disj_distrib [of w METASLAB_ACTIVE_MASK "NOT METASLAB_ACTIVE_MASK"] assms(1) by simp
  then show "(w OR aw) AND NOT METASLAB_ACTIVE_MASK = w" using a(1) by (simp add: bit.conj_disj_distrib2)
  show "(w OR aw) AND METASLAB_ACTIVE_MASK = aw" using assms(1) a(2) by (simp add: bit.conj_disj_distrib2)
  show "aw \<noteq> 0" "w \<le> w OR aw" using a(3) by (simp_all add: le_word_or2)
qed

lemma activate_ok:
  assumes "dmu_ok (mos_dmu mos) words" "vd_inv words txg os G vd" "m < length (vdev_ms vd)" "ms_group (vdev_ms vd ! m)"
    and "ms_ok words txg os (G m) (vdev_ms vd ! m)" "SPA_MINBLOCKSIZE \<le> ms_weight (vdev_ms vd ! m)"
    and "aw \<in> {METASLAB_WEIGHT_PRIMARY, METASLAB_WEIGHT_SECONDARY}"
  defines "w \<equiv> ms_weight (vdev_ms vd ! m)"
  shows "\<exists>vd' sm. metaslab_activate mos os vd m aw = Some vd' \<and> vd_inv words txg os G vd' \<and> vd_calm vd vd' \<and> sm_loaded sm \<and>
    bounds sm = bounds (ms_map (vdev_ms vd ! m)) \<and>
    vdev_ms vd' = (vdev_ms vd)[m := (vdev_ms vd ! m)\<lparr>ms_map := sm, ms_weight := if w AND METASLAB_ACTIVE_MASK = 0 then w OR aw else w\<rparr>]"
proof (cases "w AND METASLAB_ACTIVE_MASK = 0")
  case True
  let ?msp = "vdev_ms vd ! m"
  obtain S where S: "ms_inv words txg os (G m) S ?msp" using assms(5) by (auto simp: ms_ok_def)
  from load_any_ok [OF assms(1) S] obtain sm where
    sm: "space_map_load (mos_dmu mos) os (ms_map ?msp) (Some metaslab_ff_ops) SM_FREE (ms_smo ?msp) = Some sm" "sm_loaded sm"
    "bounds sm = bounds (ms_map ?msp)" "ms_inv words txg os (G m) S (?msp\<lparr>ms_map := sm\<rparr>)" by blast
  let ?vd = "ms_upd m (\<lambda>msp. msp\<lparr>ms_map := sm\<rparr>) vd" and ?w = "w OR aw"
  have n: "ms_ok words txg os (G m) (?msp\<lparr>ms_map := sm\<rparr>)" using sm(4) True by (auto simp: ms_ok_def w_def)
  have k: "ms_key (?msp\<lparr>ms_map := sm\<rparr>) = ms_key ?msp" using sm(3) by (simp add: ms_key_def bounds_def)
  have i: "vd_inv words txg os G ?vd" using n k sm(3) by (intro ms_upd_inv [OF assms(2,3)]) simp_all
  have m: "vdev_ms ?vd ! m = ?msp\<lparr>ms_map := sm\<rparr>" "m < length (vdev_ms ?vd)" using assms(3) by (simp_all add: ms_upd_def)
  note o = weight_or [OF True assms(7)]
  have "SPA_MINBLOCKSIZE - 1 \<le> ?w" using order_trans [OF assms(6) [folded w_def] o(4)] by (simp add: SPA_MINBLOCKSIZE_def SPA_MINBLOCKSHIFT_def word_le_nat_alt)
  moreover have "ms_ok words txg os (G m) ((vdev_ms ?vd ! m)\<lparr>ms_weight := ?w\<rparr>)"
    using ms_weight_ok [OF sm(4), of ?w] sm(2) o(1) assms(6) unfolding ms_ok_def m w_def by auto
  ultimately obtain vd' where v: "metaslab_group_sort ?vd m ?w = Some vd'" "vd_inv words txg os G vd'" "vd_calm ?vd vd'"
    "vdev_ms vd' = (vdev_ms ?vd)[m := (vdev_ms ?vd ! m)\<lparr>ms_weight := ?w\<rparr>]"
    using sort_inv [OF i m(2), of ?w] m(1) assms(4) by auto
  have "metaslab_activate mos os vd m aw = Some vd'"
    using sm(1,2) v(1,4) True assms(3) o(2,3) unfolding metaslab_activate_def Let_def w_def by (simp add: ms_upd_def)
  moreover have "vdev_ms vd' = (vdev_ms vd)[m := ?msp\<lparr>ms_map := sm, ms_weight := ?w\<rparr>]" using v(4) m(1) by (simp add: ms_upd_def)
  ultimately show ?thesis using v(2) vd_calm_trans [OF vd_calm_map [OF sm(3)] v(3)] sm(2,3) True by auto
next
  case False
  have l: "sm_loaded (ms_map (vdev_ms vd ! m))" using assms(5) False by (auto simp: ms_ok_def ms_inv_def w_def)
  then have "metaslab_activate mos os vd m aw = Some vd" using False unfolding metaslab_activate_def w_def by simp
  moreover have "(vdev_ms vd)[m := (vdev_ms vd ! m)\<lparr>ms_map := ms_map (vdev_ms vd ! m), ms_weight := w\<rparr>] = vdev_ms vd"
    by (simp add: w_def)
  ultimately show ?thesis using assms(2) vd_calm_refl l False by (intro exI [of _ vd] exI [of _ "ms_map (vdev_ms vd ! m)"]) simp
qed

section \<open>The search for a metaslab\<close>

lemma request_cong: "bounds sm' = bounds sm \<Longrightarrow> ff_request sm' = ff_request sm"
  by (simp add: fun_eq_iff ff_request_def bounds_def unit_of_def)

lemma free_unit:
  assumes "sm_wf sm" "x \<in> space_of sm"
  defines "n \<equiv> x div unit_of sm * unit_of sm"
  shows "{n..<n + unit_of sm} \<subseteq> space_of sm"
proof -
  let ?u = "unit_of sm"
  have u: "0 < ?u" by (simp add: unit_of_def)
  obtain s where s: "s \<in> set (segs sm)" "x \<in> seg_offs s" using assms(2) by (auto simp: space_of_def offs_def)
  then have "?u dvd unat (ss_start s)" "?u dvd unat (ss_end s)" using assms(1) by (auto simp: sm_wf_def list_all_iff seg_fits_def)
  then obtain a b where ab: "unat (ss_start s) = ?u * a" "unat (ss_end s) = ?u * b" by (auto elim!: dvdE)
  have x: "?u * a \<le> x" "x < ?u * b" using s(2) ab by (auto simp: seg_offs_def)
  have "a \<le> x div ?u" using x(1) u by (simp add: less_eq_div_iff_mult_less_eq mult.commute)
  moreover have "x div ?u < b" using x(2) by (simp add: less_mult_imp_div_less mult.commute)
  ultimately have "?u * a \<le> n" "n + ?u \<le> ?u * b"
    using mult_le_mono1 [of "Suc (x div ?u)" b ?u] by (simp_all add: n_def mult.commute)
  then have "{n..<n + ?u} \<subseteq> seg_offs s" by (auto simp: seg_offs_def ab)
  then show ?thesis using s(1) by (auto simp: space_of_def offs_def)
qed

text \<open>A failed allocation of the smallest size means that the map is empty.\<close>

lemma alloc_none_full:
  assumes "ff.active sm" "ff_request sm sz" "space_map_alloc sm sz = Some (-1, sm')" "SPA_MINBLOCKSHIFT \<le> unat (sm_shift sm)"
  shows "SPA_MINBLOCKSIZE - 1 \<le> sz - 1" "SPA_MINBLOCKSIZE \<le> sz - 1 \<or> sm_space sm' = 0"
proof -
  have r: "sz \<noteq> 0" "unit_of sm dvd unat sz" using assms(2) by (simp_all add: ff_request_def)
  have u: "512 dvd unit_of sm" using le_imp_power_dvd [OF assms(4), of "2 :: nat"] by (simp add: unit_of_def SPA_MINBLOCKSHIFT_def)
  obtain k where k: "unat sz = 512 * k" using dvd_trans [OF u r(2)] by (auto elim: dvdE)
  have k0: "0 < k" using r(1) k by (cases k) (auto simp: unat_eq_0)
  have d: "unat (sz - 1) = 512 * k - 1" using k k0 r(1) by (simp add: unat_minus_one)
  show "SPA_MINBLOCKSIZE - 1 \<le> sz - 1" using d k0 by (simp add: word_le_nat_alt SPA_MINBLOCKSIZE_def SPA_MINBLOCKSHIFT_def)
  show "SPA_MINBLOCKSIZE \<le> sz - 1 \<or> sm_space sm' = 0"
  proof (cases "k = 1")
    case True
    then have sz: "unat sz = 512" using k by simp
    then have s5: "sz = 512" by (simp add: word_unat_eq_iff)
    have "unit_of sm = 512" using u r(2) sz dvd_antisym by simp
    then have "space_of sm = {}"
      using free_unit [of sm] alloc_none_ok [OF assms(1-3)] assms(1) s5 by (force simp: ff.active_def)
    moreover obtain sm'' where m: "space_map_alloc sm sz = Some (-1, sm'')" "ff.active sm''" "space_of sm'' = space_of sm"
      using ff.map_alloc [OF assms(1), of sz] request_cong [of "space_map_core.truncate sm" sm] assms(2,3) by fastforce
    ultimately have "unat (sm_space sm') = 0" using assms(3) by (auto simp: ff.active_def sm_wf_def)
    then have "sm_space sm' = 0" by (simp only: unat_eq_0)
    then show ?thesis ..
  next
    case False
    then have "512 \<le> 512 * k - 1" using k0 by simp
    then show ?thesis using d by (simp add: word_le_nat_alt SPA_MINBLOCKSIZE_def SPA_MINBLOCKSHIFT_def)
  qed
qed

lemma request_min:
  assumes "ff_request sm sz" "SPA_MINBLOCKSHIFT \<le> unat (sm_shift sm)"
  shows "SPA_MINBLOCKSIZE \<le> sz"
proof -
  have "512 dvd unit_of sm" using le_imp_power_dvd [OF assms(2), of "2 :: nat"] by (simp add: unit_of_def SPA_MINBLOCKSHIFT_def)
  then have "512 dvd unat sz" "unat sz \<noteq> 0" using assms(1) dvd_trans by (auto simp: ff_request_def unat_eq_0)
  then have "512 \<le> unat sz" using dvd_imp_le by blast
  then show ?thesis by (simp add: word_le_nat_alt SPA_MINBLOCKSIZE_def SPA_MINBLOCKSHIFT_def)
qed

lemma small_bits:
  assumes "unat (x :: u64) < 2 ^ 62"
  shows "x AND 0xC000000000000000 = 0" "x AND 0x4000000000000000 = 0"
proof -
  have "take_bit 62 x = x" using assms by (simp add: word_unat_eq_iff unat_take_bit_mod)
  then have x: "x = x AND mask 62" by (simp add: take_bit_eq_mask)
  show "x AND 0xC000000000000000 = 0" by (subst x) (simp add: and.assoc mask_eq_exp_minus_1)
  show "x AND 0x4000000000000000 = 0" by (subst x) (simp add: and.assoc mask_eq_exp_minus_1)
qed

lemma request_small:
  assumes "ff_request sm sz"
  shows "(sz - 1) AND METASLAB_ACTIVE_MASK = 0" "(sz - 1) AND METASLAB_WEIGHT_SECONDARY = 0"
proof -
  have "sz \<noteq> 0" "unat sz \<le> 2 ^ 62" using assms by (simp_all add: ff_request_def)
  then have "unat (sz - 1) < 2 ^ 62" by (simp add: unat_minus_one)
  from small_bits [OF this] show "(sz - 1) AND METASLAB_ACTIVE_MASK = 0" "(sz - 1) AND METASLAB_WEIGHT_SECONDARY = 0"
    by (simp_all add: weight_masks)
qed

lemma map_alloc_bounds:
  assumes "ff.active sm" "ff_request sm sz" "space_map_alloc sm sz = Some (offset, sm')"
  shows "bounds sm' = bounds sm"
proof -
  have "ff_request (space_map_core.truncate sm) sz" using request_cong [of "space_map_core.truncate sm" sm] assms(2) by simp
  from ff.map_alloc [OF assms(1) this] show ?thesis using assms(3) by (auto simp: kept_def)
qed

lemma select_ok:
  assumes "node_of tree p"
  shows "\<exists>r. group_select vd sz min_distance aw dvas (Some p) = Some r \<and>
    (\<forall>m. r = Some m \<longrightarrow> m \<in> set (data tree) \<and> sz \<le> ms_weight (vdev_ms vd ! m))"
  using assms
proof (induction "after p" arbitrary: p)
  case Nil
  then have "avl_walk p 1 = None" using avl_walk_ok(2) [of tree p 1] by (cases "avl_walk p 1") auto
  then show ?case
    using node_data [OF Nil(2)] by (subst group_select.simps) (auto simp: Let_def not_less group_select.simps)
next
  case (Cons x xs)
  obtain q where q: "avl_walk p 1 = Some q" using Cons avl_walk_ok(1) [of tree p 1] by (cases "avl_walk p 1") auto
  have n: "node_of tree q" "after p = dat (snd q) # after q" using avl_walk_ok(2) [OF Cons(3) _ q] by simp_all
  have "xs = after q" using Cons(2) n(2) by simp
  then obtain r where r: "group_select vd sz min_distance aw dvas (Some q) = Some r"
    "\<forall>m. r = Some m \<longrightarrow> m \<in> set (data tree) \<and> sz \<le> ms_weight (vdev_ms vd ! m)" using Cons(1) [of q] n(1) by blast
  have m: "dat (snd p) \<in> set (data tree)" using node_data [OF Cons(3)] by simp
  show ?case using r m q by (subst group_select.simps) (simp add: Let_def not_less)
qed

lemma select_first:
  "\<exists>r. group_select vd sz min_distance aw dvas (avl_first tree) = Some r \<and>
    (\<forall>m. r = Some m \<longrightarrow> m \<in> set (data tree) \<and> sz \<le> ms_weight (vdev_ms vd ! m))"
proof (cases "avl_first tree")
  case None
  then show ?thesis by (simp add: group_select.simps)
next
  case (Some p)
  then show ?thesis using select_ok avl_first_ok(2) [OF Some] by simp
qed

section \<open>The allocation loop of a group ends\<close>

text \<open>
  Each pass either ends the loop, or takes a metaslab out of those heavy enough, or takes the mark of
  secondary use off one.
\<close>

definition effort :: "u64 \<Rightarrow> metaslab \<Rightarrow> nat" where
  "effort sz msp = (if sz \<le> ms_weight msp then 1 else 0) + (if ms_weight msp AND METASLAB_WEIGHT_SECONDARY \<noteq> 0 then 1 else 0)"

definition vd_effort :: "u64 \<Rightarrow> vdev \<Rightarrow> nat" where
  "vd_effort sz vd = sum_list (map (effort sz) (vdev_ms vd))"

lemma effort_less:
  assumes "m < length ms" "effort sz msp < effort sz (ms ! m)"
  shows "sum_list (map (effort sz) (ms[m := msp])) < sum_list (map (effort sz) ms)"
proof -
  have "effort sz (ms ! m) \<le> sum_list (map (effort sz) ms)" using assms(1) elem_le_sum_list [of m "map (effort sz) ms"] by simp
  then show ?thesis using assms by (simp add: map_update sum_list_update)
qed

text \<open>What the loop finds: a metaslab of a vdev that keeps the invariant, and a block from its map.\<close>

definition found_in :: "('os \<Rightarrow> u64 \<Rightarrow> nat \<Rightarrow> u64) \<Rightarrow> u64 \<Rightarrow> 'os \<Rightarrow> (nat \<Rightarrow> nat set) \<Rightarrow> u64 \<Rightarrow> vdev \<Rightarrow> (nat \<times> u64) option \<Rightarrow> vdev \<Rightarrow> bool" where
  "found_in words txg os G sz vd r vd' \<longleftrightarrow> (case r of
      None \<Rightarrow> vd_inv words txg os G vd' \<and> vd_calm vd vd'
    | Some (m, offset) \<Rightarrow> \<exists>vd1 sm. vd_inv words txg os G vd1 \<and> vd_calm vd vd1 \<and> m < length (vdev_ms vd1) \<and>
        ms_ok words txg os (G m) (vdev_ms vd1 ! m) \<and> sm_loaded (ms_map (vdev_ms vd1 ! m)) \<and>
        space_map_alloc (ms_map (vdev_ms vd1 ! m)) sz = Some (offset, sm) \<and> offset \<noteq> -1 \<and>
        vd' = ms_upd m (\<lambda>msp. msp\<lparr>ms_map := sm\<rparr>) vd1)"

lemma found_in_calm: "vd_calm vd vd1 \<Longrightarrow> found_in words txg os G sz vd1 r vd' \<Longrightarrow> found_in words txg os G sz vd r vd'"
  unfolding found_in_def by (auto split: option.splits intro: vd_calm_trans)

lemma vd_calm_request:
  assumes "vd_calm vd vd'" "\<forall>msp \<in> set (vdev_ms vd). ff_request (ms_map msp) sz"
  shows "\<forall>msp \<in> set (vdev_ms vd'). ff_request (ms_map msp) sz"
proof -
  have "list_all2 calm (vdev_ms vd) (vdev_ms vd')" using assms(1) by (auto simp: vd_calm_def)
  then show ?thesis using assms(2) calmD(6) request_cong by (fastforce simp: list_all2_conv_all_nth in_set_conv_nth)
qed

lemma full_empty:
  assumes "ms_inv words txg os S0 S msp" "sm_loaded (ms_map msp)" "smo_alloc (ms_smo msp) = sm_size (ms_map msp)"
  shows "sm_space (ms_map msp) = 0"
proof -
  let ?A = "alloc_of msp txg" and ?F = "free_of msp txg"
  have s: "S \<union> ?F 0 \<subseteq> ms_span msp" "S0 \<subseteq> S \<union> ?F 0" using ms_invD(4,5) [OF assms(1)] by (simp_all add: parts_def)
  have "card S0 = card (ms_span msp)" using assms(1,3) by (simp add: ms_inv_def span_def)
  then have "S0 = ms_span msp" using s by (intro card_subset_eq) (auto simp: span_def)
  then have "space_of (ms_map msp) = {}" using ms_inv_loaded(2) [OF assms(1,2)] s(2) by (auto simp: taken_def)
  then show ?thesis using space_0 [OF ms_invD(6) [OF assms(1)]] by simp
qed

lemma demote_ok:
  assumes "vd_inv words txg os G vd" "m < length (vdev_ms vd)" "ms_group (vdev_ms vd ! m)" "ms_ok words txg os (G m) (vdev_ms vd ! m)"
  defines "w \<equiv> ms_weight (vdev_ms vd ! m)"
  assumes "w AND METASLAB_WEIGHT_SECONDARY \<noteq> 0" "sz \<le> w"
  shows "\<exists>vd'. metaslab_passivate vd m (w AND NOT METASLAB_ACTIVE_MASK) = Some vd' \<and> vd_inv words txg os G vd' \<and> vd_calm vd vd' \<and>
    vd_effort sz vd' < vd_effort sz vd"
proof -
  let ?b = "w AND NOT METASLAB_ACTIVE_MASK" and ?msp = "vdev_ms vd ! m"
  have le: "min w ?b = ?b" by (simp add: word_and_le2)
  have z: "?b AND METASLAB_ACTIVE_MASK = 0" by (simp add: and.assoc)
  have "?b AND METASLAB_WEIGHT_SECONDARY = 0"
    by (simp add: and.assoc weight_masks)
  then have e: "effort sz (?msp\<lparr>ms_weight := ?b\<rparr>) < effort sz ?msp"
    using assms(6,7) by (simp add: effort_def w_def [symmetric])
  have a: "w AND METASLAB_ACTIVE_MASK \<noteq> 0"
  proof
    assume "w AND METASLAB_ACTIVE_MASK = 0"
    then have "(w AND METASLAB_ACTIVE_MASK) AND METASLAB_WEIGHT_SECONDARY = 0" by simp
    then show False using assms(6) by (simp add: and.assoc weight_masks)
  qed
  obtain S where S: "ms_inv words txg os (G m) S ?msp" using assms(4) by (auto simp: ms_ok_def)
  have l: "sm_loaded (ms_map ?msp)" using S a by (simp add: ms_inv_def w_def)
  have b: "SPA_MINBLOCKSIZE \<le> ?b \<or> ?b = 0 \<and> sm_space (ms_map ?msp) = 0"
    using assms(4) a full_empty [OF S l] by (auto simp: ms_ok_def w_def)
  have "SPA_MINBLOCKSIZE - 1 \<le> ?b \<or> ?b = 0"
    using b by (auto simp: SPA_MINBLOCKSIZE_def SPA_MINBLOCKSHIFT_def word_le_nat_alt)
  then obtain vd' where v: "metaslab_passivate vd m ?b = Some vd'" "vd_inv words txg os G vd'" "vd_calm vd vd'"
    "vdev_ms vd' = (vdev_ms vd)[m := ?msp\<lparr>ms_weight := ?b\<rparr>]"
    using passivate_ok [OF assms(1-4) _ le [unfolded w_def] _ z [unfolded w_def]] b by (auto simp: w_def)
  then show ?thesis using effort_less [OF assms(2) e] by (auto simp: vd_effort_def)
qed

lemma trial_ok:
  assumes "dmu_ok (mos_dmu mos) words" "vd_inv words txg os G vd" "m < length (vdev_ms vd)" "ms_group (vdev_ms vd ! m)"
    and "ms_ok words txg os (G m) (vdev_ms vd ! m)" "aw \<in> {METASLAB_WEIGHT_PRIMARY, METASLAB_WEIGHT_SECONDARY}"
    and "ff_request (ms_map (vdev_ms vd ! m)) sz" "sz \<le> ms_weight (vdev_ms vd ! m)"
  shows "\<exists>vd1 offset sm. metaslab_activate mos os vd m aw = Some vd1 \<and> vd_inv words txg os G vd1 \<and> vd_calm vd vd1 \<and>
    m < length (vdev_ms vd1) \<and> ms_ok words txg os (G m) (vdev_ms vd1 ! m) \<and> sm_loaded (ms_map (vdev_ms vd1 ! m)) \<and>
    space_map_alloc (ms_map (vdev_ms vd1 ! m)) sz = Some (offset, sm) \<and>
    (offset = -1 \<longrightarrow> (\<exists>vd'. metaslab_passivate (ms_upd m (\<lambda>msp. msp\<lparr>ms_map := sm\<rparr>) vd1) m (sz - 1) = Some vd' \<and>
      vd_inv words txg os G vd' \<and> vd_calm vd vd' \<and> vd_effort sz vd' < vd_effort sz vd))"
proof -
  let ?msp = "vdev_ms vd ! m"
  define w where "w = ms_weight ?msp"
  obtain S where S: "ms_inv words txg os (G m) S ?msp" using assms(5) by (auto simp: ms_ok_def)
  have sh: "SPA_MINBLOCKSHIFT \<le> unat (sm_shift (ms_map ?msp))" using ms_invD(2) [OF S] by (simp add: ms_geom_def)
  have mb: "SPA_MINBLOCKSIZE \<le> sz" using request_min [OF assms(7) sh] .
  from activate_ok [OF assms(1-5) order_trans [OF mb assms(8)] assms(6), folded w_def] obtain vd1 sm1 where
    v: "metaslab_activate mos os vd m aw = Some vd1" "vd_inv words txg os G vd1" "vd_calm vd vd1" "sm_loaded sm1" "bounds sm1 = bounds (ms_map ?msp)"
    "vdev_ms vd1 = (vdev_ms vd)[m := ?msp\<lparr>ms_map := sm1, ms_weight := if w AND METASLAB_ACTIVE_MASK = 0 then w OR aw else w\<rparr>]" by blast
  let ?w = "if w AND METASLAB_ACTIVE_MASK = 0 then w OR aw else w"
  have m: "m < length (vdev_ms vd1)" "vdev_ms vd1 ! m = ?msp\<lparr>ms_map := sm1, ms_weight := ?w\<rparr>" using v(6) assms(3) by simp_all
  have w: "w \<le> ?w" by (simp add: le_word_or2)
  have nz: "sz \<noteq> 0" using assms(7) by (simp add: ff_request_def)
  have ok: "ms_ok words txg os (G m) (vdev_ms vd1 ! m)"
    using v(2) m w assms(8) nz by (auto simp: vd_inv_def ms_new_def w_def [symmetric])
  then obtain S1 where S1: "ms_inv words txg os (G m) S1 (vdev_ms vd1 ! m)" by (auto simp: ms_ok_def)
  have l: "sm_loaded (ms_map (vdev_ms vd1 ! m))" "bounds (ms_map (vdev_ms vd1 ! m)) = bounds (ms_map ?msp)" using m(2) v(4,5) by simp_all
  have rq: "ff_request (ms_map (vdev_ms vd1 ! m)) sz" using request_cong [OF l(2)] assms(7) by simp
  from ms_alloc_ok [OF S1 l(1) _ _ rq, of 1] obtain offset sm where
    a: "space_map_alloc (ms_map (vdev_ms vd1 ! m)) sz = Some (offset, sm)"
    "offset = -1 \<longrightarrow> ms_inv words txg os (G m) S1 ((vdev_ms vd1 ! m)\<lparr>ms_map := sm\<rparr>)" by auto
  note ac = ms_inv_loaded(1) [OF S1 l(1)]
  have kb: "bounds sm = bounds (ms_map (vdev_ms vd1 ! m))" using map_alloc_bounds [OF ac rq a(1)] .
  have "\<exists>vd'. metaslab_passivate (ms_upd m (\<lambda>msp. msp\<lparr>ms_map := sm\<rparr>) vd1) m (sz - 1) = Some vd' \<and>
      vd_inv words txg os G vd' \<and> vd_calm vd vd' \<and> vd_effort sz vd' < vd_effort sz vd" if none: "offset = -1"
  proof -
    let ?f = "\<lambda>msp. msp\<lparr>ms_map := sm\<rparr>"
    let ?vd = "ms_upd m ?f vd1"
    have n: "ms_ok words txg os (G m) (?f (vdev_ms vd1 ! m))"
      using a(2) none ok kb by (auto simp: ms_ok_def bounds_def)
    have i: "vd_inv words txg os G ?vd" using n kb by (intro ms_upd_inv [OF v(2) m(1)]) (simp_all add: ms_key_def bounds_def)
    have mv: "vdev_ms ?vd ! m = ?f (vdev_ms vd1 ! m)" "m < length (vdev_ms ?vd)" using m(1) by (simp_all add: ms_upd_def)
    have "min ?w (sz - 1) = sz - 1"
    proof -
      have "sz - 1 \<le> sz" using nz by (simp add: word_le_nat_alt unat_minus_one)
      then have "sz - 1 \<le> ?w" using order_trans [OF order_trans [OF _ assms(8) [folded w_def]] w] by blast
      then show ?thesis by (rule min_absorb2)
    qed
    then have mn: "min (ms_weight (vdev_ms ?vd ! m)) (sz - 1) = sz - 1" using mv(1) m(2) by simp
    have shc: "SPA_MINBLOCKSHIFT \<le> unat (sm_shift (ms_map (vdev_ms vd1 ! m)))" using sh bounds_fields(3) [OF l(2)] by simp
    note fl = alloc_none_full [OF ac rq a(1) [unfolded none] shc]
    have f2: "SPA_MINBLOCKSIZE \<le> sz - 1 \<or> sm_space (ms_map (vdev_ms ?vd ! m)) = 0" using fl(2) mv(1) by simp
    have g: "ms_group (vdev_ms ?vd ! m)" using assms(4) mv(1) m(2) by simp
    have sml: "(sz - 1) AND METASLAB_ACTIVE_MASK = 0" "(sz - 1) AND METASLAB_WEIGHT_SECONDARY = 0" using request_small [OF assms(7)] by simp_all
    obtain vd' where p: "metaslab_passivate ?vd m (sz - 1) = Some vd'" "vd_inv words txg os G vd'" "vd_calm ?vd vd'"
      "vdev_ms vd' = (vdev_ms ?vd)[m := (vdev_ms ?vd ! m)\<lparr>ms_weight := sz - 1\<rparr>]"
      using passivate_ok [OF i mv(2) g n [folded mv(1)] f2 mn _ sml(1)] fl(1) by blast
    have lt: "\<not> sz \<le> sz - 1" using nz unat_gt_0 [of sz] by (simp add: word_le_nat_alt unat_minus_one)
    have "effort sz ((vdev_ms ?vd ! m)\<lparr>ms_weight := sz - 1\<rparr>) < effort sz ?msp"
      using assms(8) sml(2) lt by (simp add: effort_def)
    moreover have "vdev_ms vd' = (vdev_ms vd)[m := (vdev_ms ?vd ! m)\<lparr>ms_weight := sz - 1\<rparr>]" using p(4) v(6) by (simp add: ms_upd_def)
    ultimately have "vd_effort sz vd' < vd_effort sz vd" using effort_less [OF assms(3)] by (simp add: vd_effort_def)
    then show ?thesis using p(1-3) vd_calm_trans [OF vd_calm_trans [OF v(3) vd_calm_map [OF kb]] p(3)] by blast
  qed
  then show ?thesis using v(1-3) m(1) ok l(1) a(1) by blast
qed

lemma group_loop_ok:
  assumes "dmu_ok (mos_dmu mos) words" "aw \<in> {METASLAB_WEIGHT_PRIMARY, METASLAB_WEIGHT_SECONDARY}"
    and "vd_inv words txg os G vd" "\<forall>msp \<in> set (vdev_ms vd). ff_request (ms_map msp) sz"
  shows "\<exists>r vd'. group_alloc_loop mos os sz min_distance aw dvas vd = Some (r, vd') \<and> found_in words txg os G sz vd r vd'"
  using assms(3,4)
proof (induction "vd_effort sz vd" arbitrary: vd rule: less_induct)
  case less
  let ?loop = "group_alloc_loop mos os sz min_distance aw dvas"
  have again: "\<exists>r vd''. ?loop vd' = Some (r, vd'') \<and> found_in words txg os G sz vd r vd''"
    if c: "vd_inv words txg os G vd'" "vd_calm vd vd'" "vd_effort sz vd' < vd_effort sz vd" for vd'
  proof -
    obtain r vd'' where "?loop vd' = Some (r, vd'')" "found_in words txg os G sz vd' r vd''"
      using less(1) [OF c(3,1) vd_calm_request [OF c(2) less(3)]] by blast
    then show ?thesis using found_in_calm [OF c(2), of words txg os G sz r vd''] by simp
  qed
  obtain mg where mg: "vdev_mg vd = Some mg" "set (data (mg_metaslab_tree mg)) = {m. m < length (vdev_ms vd) \<and> ms_group (vdev_ms vd ! m)}"
    using less(2) by (auto simp: vd_inv_def group_ok_def)
  obtain sel where sel: "group_select vd sz min_distance aw dvas (avl_first (mg_metaslab_tree mg)) = Some sel"
    "\<forall>m. sel = Some m \<longrightarrow> m \<in> set (data (mg_metaslab_tree mg)) \<and> sz \<le> ms_weight (vdev_ms vd ! m)" using select_first by blast
  show ?case
  proof (cases sel)
    case None
    then show ?thesis
      using mg(1) sel(1) less(2) vd_calm_refl by (subst group_alloc_loop.simps) (simp add: found_in_def)
  next
    case (Some m)
    then have m: "m < length (vdev_ms vd)" "ms_group (vdev_ms vd ! m)" "sz \<le> ms_weight (vdev_ms vd ! m)" using sel(2) mg(2) by auto
    have rq: "ff_request (ms_map (vdev_ms vd ! m)) sz" using less(3) m(1) by simp
    then have ok: "ms_ok words txg os (G m) (vdev_ms vd ! m)"
      using less(2) m by (auto simp: vd_inv_def ms_new_def ff_request_def)
    show ?thesis
    proof (cases "ms_weight (vdev_ms vd ! m) AND METASLAB_WEIGHT_SECONDARY \<noteq> 0 \<and> aw = METASLAB_WEIGHT_PRIMARY")
      case True
      obtain vd' where v: "metaslab_passivate vd m (ms_weight (vdev_ms vd ! m) AND NOT METASLAB_ACTIVE_MASK) = Some vd'"
        "vd_inv words txg os G vd'" "vd_calm vd vd'" "vd_effort sz vd' < vd_effort sz vd"
        using demote_ok [OF less(2) m(1,2) ok conjunct1 [OF True] m(3)] by blast
      then have "?loop vd = ?loop vd'"
        using mg(1) sel(1) Some True by (subst group_alloc_loop.simps) simp
      then show ?thesis using again [OF v(2-4)] by simp
    next
      case False
      from trial_ok [OF assms(1) less(2) m(1,2) ok assms(2) rq m(3)] obtain vd1 offset sm where
        v: "metaslab_activate mos os vd m aw = Some vd1" "vd_inv words txg os G vd1" "vd_calm vd vd1" "m < length (vdev_ms vd1)"
        "ms_ok words txg os (G m) (vdev_ms vd1 ! m)" "sm_loaded (ms_map (vdev_ms vd1 ! m))"
        "space_map_alloc (ms_map (vdev_ms vd1 ! m)) sz = Some (offset, sm)"
        "offset = -1 \<longrightarrow> (\<exists>vd'. metaslab_passivate (ms_upd m (\<lambda>msp. msp\<lparr>ms_map := sm\<rparr>) vd1) m (sz - 1) = Some vd' \<and>
          vd_inv words txg os G vd' \<and> vd_calm vd vd' \<and> vd_effort sz vd' < vd_effort sz vd)" by blast
      have step: "?loop vd = (if offset \<noteq> -1 then Some (Some (m, offset), ms_upd m (\<lambda>msp. msp\<lparr>ms_map := sm\<rparr>) vd1)
          else Option.bind (metaslab_passivate (ms_upd m (\<lambda>msp. msp\<lparr>ms_map := sm\<rparr>) vd1) m (sz - 1)) ?loop)"
        using mg(1) sel(1) Some False v(1,7) by (subst group_alloc_loop.simps) (auto simp: Let_def)
      show ?thesis
      proof (cases "offset = -1")
        case True
        then obtain vd' where p: "metaslab_passivate (ms_upd m (\<lambda>msp. msp\<lparr>ms_map := sm\<rparr>) vd1) m (sz - 1) = Some vd'"
          "vd_inv words txg os G vd'" "vd_calm vd vd'" "vd_effort sz vd' < vd_effort sz vd" using v(8) by blast
        then show ?thesis using step True again [OF p(2-4)] by simp
      next
        case False
        then show ?thesis using step v(2-7) by (auto simp: found_in_def)
      qed
    qed
  qed
qed

section \<open>The abstract pool\<close>

text \<open>
  What the allocator's clients see of a metaslab: its space, its objects, and what each of the groups
  has allocated and freed.  A pool is seen as the metaslabs of its vdevs.
\<close>

record ms_view =
  v_bounds :: "u64 \<times> u64 \<times> u8"
  v_smo :: space_map_obj
  v_syncing :: space_map_obj
  v_alloc :: "nat set list"
  v_free :: "nat set list"

definition view_of :: "u64 \<Rightarrow> metaslab \<Rightarrow> ms_view" where
  "view_of txg msp = \<lparr>v_bounds = bounds (ms_map msp), v_smo = ms_smo msp, v_syncing = ms_smo_syncing msp,
     v_alloc = map (alloc_of msp txg) [0..<4], v_free = map (free_of msp txg) [0..<4]\<rparr>"

definition on_alloc :: "nat \<Rightarrow> (nat set \<Rightarrow> nat set) \<Rightarrow> ms_view \<Rightarrow> ms_view" where
  "on_alloc i f w = w\<lparr>v_alloc := (v_alloc w)[i := f (v_alloc w ! i)]\<rparr>"

definition on_free :: "nat \<Rightarrow> (nat set \<Rightarrow> nat set) \<Rightarrow> ms_view \<Rightarrow> ms_view" where
  "on_free i f w = w\<lparr>v_free := (v_free w)[i := f (v_free w ! i)]\<rparr>"

definition pool_view :: "u64 \<Rightarrow> 'os spa \<Rightarrow> ms_view list list" where
  "pool_view txg spa = map (\<lambda>vd. map (view_of txg) (vdev_ms vd)) (vdev_child spa)"

definition on_pool :: "nat \<Rightarrow> nat \<Rightarrow> (ms_view \<Rightarrow> ms_view) \<Rightarrow> ms_view list list \<Rightarrow> ms_view list list" where
  "on_pool v m f P = P[v := (P ! v)[m := f (P ! v ! m)]]"

text \<open>A block is unused when it does not meet anything written, allocated or freed.\<close>

definition unused :: "('os \<Rightarrow> u64 \<Rightarrow> nat \<Rightarrow> u64) \<Rightarrow> u64 \<Rightarrow> 'os \<Rightarrow> nat set \<Rightarrow> metaslab \<Rightarrow> nat set \<Rightarrow> bool" where
  "unused words txg os S0 msp B \<longleftrightarrow> B \<subseteq> ms_span msp \<and> B \<inter> S0 = {} \<and>
     (\<exists>S. logged words os msp S \<and> B \<inter> S = {}) \<and> (\<forall>j < 4. B \<inter> alloc_of msp txg j = {} \<and> B \<inter> free_of msp txg j = {})"

lemma view_calm: "calm msp msp' \<Longrightarrow> view_of txg msp' = view_of txg msp"
  using calmD [of msp msp'] by (simp add: view_of_def)

lemma views_calm: "vd_calm vd vd' \<Longrightarrow> map (view_of txg) (vdev_ms vd') = map (view_of txg) (vdev_ms vd)"
  by (auto simp: vd_calm_def list_all2_conv_all_nth view_calm intro!: nth_equalityI)

lemma map_slots: "k < 4 \<Longrightarrow> (\<And>j. j < 4 \<Longrightarrow> g j = (if j = k then y else f j)) \<Longrightarrow> map g [0..<4] = (map f [0..<4])[k := y]"
  by (intro nth_equalityI) (auto simp: nth_list_update)

lemma view_alloc:
  assumes "length (ms_allocmap msp) = TXG_SIZE" "i < 4" "space_of am = f (alloc_of msp txg i)" "bounds sm = bounds (ms_map msp)"
  shows "view_of txg (msp\<lparr>ms_map := sm, ms_allocmap := (ms_allocmap msp)[txg_slot (later txg i) := am]\<rparr>) = on_alloc i f (view_of txg msp)"
proof -
  let ?msp = "msp\<lparr>ms_map := sm, ms_allocmap := (ms_allocmap msp)[txg_slot (later txg i) := am]\<rparr>"
  have "alloc_of ?msp txg j = (if j = i then f (alloc_of msp txg i) else alloc_of msp txg j)" if "j < 4" for j
    using alloc_of_update [OF assms(1,2) that, of txg am] assms(3) by (simp add: alloc_of_def)
  then have "map (alloc_of ?msp txg) [0..<4] = (map (alloc_of msp txg) [0..<4])[i := f (alloc_of msp txg i)]"
    by (intro map_slots [OF assms(2)]) simp
  moreover have "free_of ?msp = free_of msp" by (simp add: free_of_def fun_eq_iff)
  ultimately show ?thesis using assms(2,4) by (simp add: view_of_def on_alloc_def)
qed

lemma view_free:
  assumes "length (ms_freemap msp) = TXG_SIZE" "i < 4" "space_of fm = f (free_of msp txg i)"
  shows "view_of txg (msp\<lparr>ms_freemap := (ms_freemap msp)[txg_slot (later txg i) := fm]\<rparr>) = on_free i f (view_of txg msp)"
proof -
  let ?msp = "msp\<lparr>ms_freemap := (ms_freemap msp)[txg_slot (later txg i) := fm]\<rparr>"
  have "map (free_of ?msp txg) [0..<4] = (map (free_of msp txg) [0..<4])[i := f (free_of msp txg i)]"
    using free_of_update [OF assms(1,2), of _ txg fm] assms(3) by (intro map_slots [OF assms(2)]) simp
  then show ?thesis using assms(2) by (simp add: view_of_def on_free_def)
qed

text \<open>What the view determines.\<close>

lemma view_cong:
  assumes "view_of txg msp' = view_of txg msp"
  shows "bounds (ms_map msp') = bounds (ms_map msp)" "ms_smo msp' = ms_smo msp" "ms_smo_syncing msp' = ms_smo_syncing msp"
    "j < 4 \<Longrightarrow> alloc_of msp' txg j = alloc_of msp txg j" "j < 4 \<Longrightarrow> free_of msp' txg j = free_of msp txg j"
  using assms by (auto simp: view_of_def map_eq_conv)

lemma unused_cong:
  assumes "view_of txg msp' = view_of txg msp"
  shows "unused words txg os S0 msp' B = unused words txg os S0 msp B"
  using view_cong [OF assms] log_set_cong [OF view_cong(1) [OF assms]] bounds_fields [OF view_cong(1) [OF assms]]
  by (simp add: unused_def logged_def)

lemma unused_taken:
  assumes "ms_inv words txg os S0 S msp" "in_range (ms_map msp) offset sz" "span offset sz \<inter> taken S (alloc_of msp txg) (free_of msp txg) = {}"
  shows "unused words txg os S0 msp (span offset sz)"
proof -
  let ?A = "alloc_of msp txg" and ?F = "free_of msp txg" and ?B = "span offset sz"
  have p: "?F 1 \<subseteq> S \<union> ?A 1" "?F 2 \<subseteq> S \<union> ?A 1 \<union> ?A 2" "?F 3 \<subseteq> S \<union> ?A 1 \<union> ?A 2 \<union> ?A 3" "?A 0 = {}" "S0 \<subseteq> S \<union> ?F 0"
    using ms_invD(4,5) [OF assms(1)] by (simp_all add: parts_def)
  have d: "?B \<inter> S = {}" "?B \<inter> ?F 0 = {}" "?B \<inter> ?A 1 = {}" "?B \<inter> ?A 2 = {}" "?B \<inter> ?A 3 = {}" "?B \<subseteq> ms_span msp"
    using assms(2,3) by (auto simp: taken_def in_range_def)
  then have "?B \<inter> S0 = {}" "?B \<inter> ?F 1 = {}" "?B \<inter> ?F 2 = {}" "?B \<inter> ?F 3 = {}" "?B \<inter> ?A 0 = {}" using p by blast+
  then show ?thesis using d logged_inv [OF assms(1), of S] by (auto simp: unused_def less_4)
qed

lemma ms_ok_cong:
  assumes "ms_ok words txg os S0 msp" "ms_inv words txg os S0 S msp'" "ms_weight msp' = ms_weight msp" "ms_smo msp' = ms_smo msp"
    "bounds (ms_map msp') = bounds (ms_map msp)"
  shows "ms_ok words txg os S0 msp'"
  using assms bounds_fields(2) [OF assms(5)] by (auto simp: ms_ok_def)

lemma ms_upd_ms_upd: "m < length (vdev_ms vd) \<Longrightarrow> ms_upd m f (ms_upd m g vd) = ms_upd m (\<lambda>msp. f (g msp)) vd"
  by (simp add: ms_upd_def)

lemma ms_upd_nth: "m < length (vdev_ms vd) \<Longrightarrow> vdev_ms (ms_upd m f vd) ! m = f (vdev_ms vd ! m)" "length (vdev_ms (ms_upd m f vd)) = length (vdev_ms vd)"
  by (simp_all add: ms_upd_def)

lemma views_upd:
  assumes "m < length (vdev_ms vd)" "view_of txg (f (vdev_ms vd ! m)) = g (view_of txg (vdev_ms vd ! m))"
  shows "map (view_of txg) (vdev_ms (ms_upd m f vd)) = (map (view_of txg) (vdev_ms vd))[m := g (map (view_of txg) (vdev_ms vd) ! m)]"
  using assms by (simp add: ms_upd_def map_update)

text \<open>Recording the block that the loop found.\<close>

lemma found_block:
  assumes "found_in words txg os G sz vd (Some (m, offset)) vd'" "i \<in> {1, 2, 3}" "\<forall>msp \<in> set (vdev_ms vd). ff_request (ms_map msp) sz"
  defines "k \<equiv> txg_slot (later txg i)"
  shows "\<exists>am. m < length (vdev_ms vd) \<and> space_map_add (ms_allocmap (vdev_ms vd' ! m) ! k) offset sz = Some am \<and>
    (sm_space (ms_allocmap (vdev_ms vd' ! m) ! k) = 0 \<longleftrightarrow> alloc_of (vdev_ms vd ! m) txg i = {}) \<and>
    ms_geom (ms_map (vdev_ms vd ! m)) \<and> offset \<noteq> -1 \<and>
    in_range (ms_map (vdev_ms vd ! m)) offset sz \<and> unused words txg os (G m) (vdev_ms vd ! m) (span offset sz) \<and>
    map (view_of txg) (vdev_ms vd') = map (view_of txg) (vdev_ms vd) \<and>
    vd_inv words txg os G (ms_upd m (\<lambda>msp. msp\<lparr>ms_allocmap := (ms_allocmap msp)[k := am]\<rparr>) vd') \<and>
    map (view_of txg) (vdev_ms (ms_upd m (\<lambda>msp. msp\<lparr>ms_allocmap := (ms_allocmap msp)[k := am]\<rparr>) vd')) =
      (map (view_of txg) (vdev_ms vd))[m := on_alloc i (\<lambda>A. A \<union> span offset sz) (map (view_of txg) (vdev_ms vd) ! m)]"
proof -
  obtain vd1 sm where f: "vd_inv words txg os G vd1" "vd_calm vd vd1" "m < length (vdev_ms vd1)" "ms_ok words txg os (G m) (vdev_ms vd1 ! m)"
    "sm_loaded (ms_map (vdev_ms vd1 ! m))" "space_map_alloc (ms_map (vdev_ms vd1 ! m)) sz = Some (offset, sm)" "offset \<noteq> -1"
    "vd' = ms_upd m (\<lambda>msp. msp\<lparr>ms_map := sm\<rparr>) vd1" using assms(1) by (auto simp: found_in_def)
  let ?msp = "vdev_ms vd1 ! m"
  have i: "i < 4" "0 < i" using assms(2) by auto
  have vw: "map (view_of txg) (vdev_ms vd1) = map (view_of txg) (vdev_ms vd)" using views_calm [OF f(2)] .
  then have ml: "m < length (vdev_ms vd)" using f(3) by (metis length_map)
  have vm: "view_of txg ?msp = view_of txg (vdev_ms vd ! m)" using vw f(3) ml by (metis nth_map)
  have rq: "ff_request (ms_map ?msp) sz" using vd_calm_request [OF f(2) assms(3)] f(3) by simp
  obtain S where S: "ms_inv words txg os (G m) S ?msp" using f(4) by (auto simp: ms_ok_def)
  from ms_alloc_ok [OF S f(5) i rq] f(6,7) obtain am where
    a: "in_range (ms_map ?msp) offset sz" "span offset sz \<inter> taken S (alloc_of ?msp txg) (free_of ?msp txg) = {}"
    "space_map_add (ms_allocmap ?msp ! k) offset sz = Some am" "space_of am = alloc_of ?msp txg i \<union> span offset sz"
    "ms_inv words txg os (G m) S (?msp\<lparr>ms_map := sm, ms_allocmap := (ms_allocmap ?msp)[k := am]\<rparr>)" unfolding k_def by auto
  have kb: "bounds sm = bounds (ms_map ?msp)" using map_alloc_bounds [OF ms_inv_loaded(1) [OF S f(5)] rq f(6)] .
  let ?g = "\<lambda>msp. msp\<lparr>ms_map := sm, ms_allocmap := (ms_allocmap msp)[k := am]\<rparr>"
  have e: "ms_upd m (\<lambda>msp. msp\<lparr>ms_allocmap := (ms_allocmap msp)[k := am]\<rparr>) vd' = ms_upd m ?g vd1"
    using ms_upd_ms_upd [OF f(3)] f(8) by simp
  have ok: "ms_ok words txg os (G m) (?g ?msp)" using ms_ok_cong [OF f(4) a(5)] kb by simp
  have inv: "vd_inv words txg os G (ms_upd m ?g vd1)"
    using ok kb by (intro ms_upd_inv [OF f(1,3)]) (simp_all add: ms_key_def bounds_def)
  have len: "length (ms_allocmap ?msp) = TXG_SIZE" using ms_invD(1) [OF S] by (simp add: ms_maps_ok_def)
  have "view_of txg (?g ?msp) = on_alloc i (\<lambda>A. A \<union> span offset sz) (view_of txg ?msp)"
    unfolding k_def by (rule view_alloc [OF len i(1)]) (simp_all add: a(4) kb)
  note w = views_upd [OF f(3), of txg ?g "on_alloc i (\<lambda>A. A \<union> span offset sz)", OF this]
  have "map (view_of txg) (vdev_ms vd') = map (view_of txg) (vdev_ms vd1)"
    using views_calm [OF vd_calm_map [OF kb]] f(8) by simp
  moreover have "in_range (ms_map (vdev_ms vd ! m)) offset sz" using a(1) in_range_cong [OF view_cong(1) [OF vm]] by simp
  moreover have "unused words txg os (G m) (vdev_ms vd ! m) (span offset sz)"
    using unused_taken [OF S a(1,2)] by (simp only: unused_cong [OF vm])
  moreover have "ms_allocmap (vdev_ms vd' ! m) = ms_allocmap ?msp" using f(3,8) by (simp add: ms_upd_nth)
  moreover have "ms_geom (ms_map (vdev_ms vd ! m))" using ms_invD(2) [OF S] geom_cong [OF view_cong(1) [OF vm]] by simp
  moreover have "sm_space (ms_allocmap ?msp ! k) = 0 \<longleftrightarrow> alloc_of (vdev_ms vd ! m) txg i = {}"
    using space_0 [OF maps_nth(1) [OF ms_invD(1) [OF S]], of "later txg i"] view_cong(4) [OF vm i(1)] by (simp only: k_def slot_space)
  ultimately show ?thesis using ml a(3) inv w vw f(7) by (intro exI [of _ am]) (simp add: e)
qed

section \<open>The invariant of a pool\<close>

text \<open>What no allocation changes of a vdev and of a pool.\<close>

definition vd_fixed :: "vdev \<Rightarrow> u64 \<times> u64 \<times> u64 \<times> u64 \<times> u64 \<times> (u64 \<Rightarrow> u64) \<times> nat option option" where
  "vd_fixed vd = (vdev_id vd, vdev_asize vd, vdev_ashift vd, vdev_ms_shift vd, vdev_ms_count vd, vdev_op_asize vd,
     map_option mg_next (vdev_mg vd))"

definition pool_fixed where
  "pool_fixed spa = (map vd_fixed (vdev_child spa), spa_meta_objset spa, spa_freeze_txg spa, ub_version spa)"

text \<open>A metaslab with changes in an active group is on its vdev's list for the group, and the vdev on the pool's.\<close>

definition busy :: "nat \<Rightarrow> ms_view \<Rightarrow> bool" where
  "busy i w \<longleftrightarrow> v_alloc w ! i \<union> v_free w ! i \<noteq> {}"

definition list_wf :: "'a txg_list \<Rightarrow> bool" where
  "list_wf l \<longleftrightarrow> (\<exists>f. txg_rep l f)"

definition dirty_ok :: "u64 \<Rightarrow> 'os spa \<Rightarrow> bool" where
  "dirty_ok txg spa \<longleftrightarrow> list_wf (spa_vdev_txg_list spa) \<and>
     (\<forall>v < length (vdev_child spa). list_wf (vdev_ms_list (vdev_child spa ! v)) \<and>
        (\<forall>m < length (vdev_ms (vdev_child spa ! v)). \<forall>i \<in> {1, 2, 3}. busy i (pool_view txg spa ! v ! m) \<longrightarrow>
           txg_list_member (vdev_ms_list (vdev_child spa ! v)) m (later txg i) \<and>
           txg_list_member (spa_vdev_txg_list spa) v (later txg i)))"

definition pool_inv :: "('os \<Rightarrow> u64 \<Rightarrow> nat \<Rightarrow> u64) \<Rightarrow> u64 \<Rightarrow> (nat \<Rightarrow> nat \<Rightarrow> nat set) \<Rightarrow> 'os spa \<Rightarrow> bool" where
  "pool_inv words txg G spa \<longleftrightarrow> length (vdev_child spa) < 2 ^ 32 \<and> dirty_ok txg spa \<and>
     (\<forall>v < length (vdev_child spa). vd_inv words txg (spa_meta_objset spa) (G v) (vdev_child spa ! v) \<and>
        vdev_id (vdev_child spa ! v) = of_nat v \<and>
        unat (vdev_ms_count (vdev_child spa ! v)) = length (vdev_ms (vdev_child spa ! v)) \<and>
        unat (vdev_ms_shift (vdev_child spa ! v)) < 64 \<and> unat (vdev_ashift (vdev_child spa ! v)) < 64 \<and>
        length (vdev_ms (vdev_child spa ! v)) * 2 ^ unat (vdev_ms_shift (vdev_child spa ! v)) \<le> 2 ^ 63)"

lemma member_add:
  assumes "list_wf l"
  shows "list_wf (snd (txg_list_add l p t))"
    and "txg_list_member (snd (txg_list_add l p t)) q u \<longleftrightarrow> txg_list_member l q u \<or> q = p \<and> txg_slot u = txg_slot t"
proof -
  obtain f where f: "txg_rep l f" using assms by (auto simp: list_wf_def)
  note r = add_rep(2) [OF f, of p t]
  show "list_wf (snd (txg_list_add l p t))" using r unfolding list_wf_def by blast
  show "txg_list_member (snd (txg_list_add l p t)) q u \<longleftrightarrow> txg_list_member l q u \<or> q = p \<and> txg_slot u = txg_slot t"
    using txg_repD(3) [OF r txg_slot_less, of q u] txg_repD(3) [OF f txg_slot_less, of q u] by (auto simp: txg_list_member_def)
qed

lemma vd_inv_list: "vd_inv words txg os G (vd\<lparr>vdev_ms_list := l\<rparr>) = vd_inv words txg os G vd"
proof -
  have "group_ok (vd\<lparr>vdev_ms_list := l\<rparr>) = group_ok vd" by (simp add: group_ok_def)
  then show ?thesis by (simp add: vd_inv_def ms_place_def)
qed

lemma calm_fixed:
  assumes "vd_calm vd vd'"
  shows "vd_fixed vd' = vd_fixed vd" "vdev_ms_list vd' = vdev_ms_list vd" "length (vdev_ms vd') = length (vdev_ms vd)"
  using assms by (auto simp: vd_calm_def vd_fixed_def with_tree_def option.map_comp o_def list_all2_lengthD)

lemma ms_upd_fixed: "vd_fixed (ms_upd m f vd) = vd_fixed vd" "vdev_ms_list (ms_upd m f vd) = vdev_ms_list vd"
  by (simp_all add: ms_upd_def vd_fixed_def)

lemma pool_view_nth:
  "v < length (vdev_child spa) \<Longrightarrow> pool_view txg spa ! v = map (view_of txg) (vdev_ms (vdev_child spa ! v))"
  by (simp add: pool_view_def)

lemma pool_put:
  assumes "pool_inv words txg G spa" "v < length (vdev_child spa)" "vdev_child spa' = (vdev_child spa)[v := vd]" "spa_meta_objset spa' = spa_meta_objset spa"
    and "vd_inv words txg (spa_meta_objset spa) (G v) vd" "vd_fixed vd = vd_fixed (vdev_child spa ! v)"
    "length (vdev_ms vd) = length (vdev_ms (vdev_child spa ! v))" "dirty_ok txg spa'"
  shows "pool_inv words txg G spa'"
  using assms by (auto simp: pool_inv_def vd_fixed_def nth_list_update)

lemma pool_fixed_put:
  assumes "v < length (vdev_child spa)" "vdev_child spa' = (vdev_child spa)[v := vd]" "vd_fixed vd = vd_fixed (vdev_child spa ! v)"
    "spa_meta_objset spa' = spa_meta_objset spa" "spa_freeze_txg spa' = spa_freeze_txg spa" "ub_version spa' = ub_version spa"
  shows "pool_fixed spa' = pool_fixed spa"
  using assms by (simp add: pool_fixed_def map_update) (metis length_map list_update_id nth_map)

lemma pool_view_put:
  assumes "v < length (vdev_child spa)" "vdev_child spa' = (vdev_child spa)[v := vd]"
    "map (view_of txg) (vdev_ms vd) = (map (view_of txg) (vdev_ms (vdev_child spa ! v)))[m := h (map (view_of txg) (vdev_ms (vdev_child spa ! v)) ! m)]"
  shows "pool_view txg spa' = on_pool v m h (pool_view txg spa)"
  using assms by (simp add: pool_view_def on_pool_def map_update)

text \<open>A change of one metaslab's maps in one group, with its vdev dirtied if the group had none.\<close>

definition only_slot :: "nat \<Rightarrow> (ms_view \<Rightarrow> ms_view) \<Rightarrow> bool" where
  "only_slot i h \<longleftrightarrow> (\<forall>j w. j \<noteq> i \<longrightarrow> busy j (h w) = busy j w)"

lemma only_slot_on: "only_slot i (on_alloc i f)" "only_slot i (on_free i f)"
  by (simp_all add: only_slot_def busy_def on_alloc_def on_free_def)

lemma slot_eq: "i \<in> {1, 2, 3} \<Longrightarrow> j \<in> {1, 2, 3} \<Longrightarrow> txg_slot (later txg i) = txg_slot (later txg j) \<longleftrightarrow> i = j"
  using slot_inj [of i j "txg_slot txg"] by (auto simp: slot_later)

definition put :: "nat \<Rightarrow> vdev \<Rightarrow> 'os spa \<Rightarrow> 'os spa" where
  "put v vd spa = spa\<lparr>vdev_child := (vdev_child spa)[v := vd]\<rparr>"

definition touch :: "bool \<Rightarrow> nat \<Rightarrow> nat \<Rightarrow> u64 \<Rightarrow> (metaslab \<Rightarrow> metaslab) \<Rightarrow> 'os spa \<Rightarrow> 'os spa" where
  "touch c v m t g spa =
     (let spa = (if c then vdev_dirty spa v (Some m) t else spa) in put v (ms_upd m g (vdev_child spa ! v)) spa)"

lemma put_fields [simp]:
  "vdev_child (put v vd spa) = (vdev_child spa)[v := vd]" "spa_meta_objset (put v vd spa) = spa_meta_objset spa"
  "spa_freeze_txg (put v vd spa) = spa_freeze_txg spa" "ub_version (put v vd spa) = ub_version spa"
  "spa_normal_class (put v vd spa) = spa_normal_class spa" "spa_vdev_txg_list (put v vd spa) = spa_vdev_txg_list spa"
  "root_stat (put v vd spa) = root_stat spa"
  by (simp_all add: put_def)

lemma touch_child:
  assumes "v < length (vdev_child spa)"
  defines "vd \<equiv> vdev_child spa ! v"
  shows "vdev_child (touch c v m t g spa) =
    (vdev_child spa)[v := ms_upd m g (vd\<lparr>vdev_ms_list := if c then snd (txg_list_add (vdev_ms_list vd) m t) else vdev_ms_list vd\<rparr>)]"
  using assms by (simp add: touch_def vdev_dirty_def Let_def)

lemma touch_fields [simp]:
  "spa_meta_objset (touch c v m t g spa) = spa_meta_objset spa" "spa_freeze_txg (touch c v m t g spa) = spa_freeze_txg spa"
  "ub_version (touch c v m t g spa) = ub_version spa" "spa_normal_class (touch c v m t g spa) = spa_normal_class spa"
  "root_stat (touch c v m t g spa) = root_stat spa"
  "spa_vdev_txg_list (touch c v m t g spa) = (if c then snd (txg_list_add (spa_vdev_txg_list spa) v t) else spa_vdev_txg_list spa)"
  by (simp_all add: touch_def vdev_dirty_def Let_def)

lemma pool_view_length: "length (pool_view txg spa) = length (vdev_child spa)"
  by (simp add: pool_view_def)

lemma on_pool_nth:
  assumes "u < length P" "n < length (P ! u)"
  shows "on_pool v m h P ! u ! n = (if u = v \<and> n = m then h (P ! v ! m) else P ! u ! n)"
  using assms by (cases "u = v"; cases "n = m") (simp_all add: on_pool_def)

lemma dirty_touch:
  assumes "dirty_ok txg spa" "v < length (vdev_child spa)" "m < length (vdev_ms (vdev_child spa ! v))" "i \<in> {1, 2, 3}"
    and "c \<or> busy i (pool_view txg spa ! v ! m)" "only_slot i h"
    and w: "pool_view txg (touch c v m (later txg i) g spa) = on_pool v m h (pool_view txg spa)"
  shows "dirty_ok txg (touch c v m (later txg i) g spa)"
proof -
  let ?spa = "touch c v m (later txg i) g spa"
  note d = assms(1) [unfolded dirty_ok_def]
  have mem: "txg_list_member (vdev_ms_list (vdev_child ?spa ! u)) n (later txg j)"
      "txg_list_member (spa_vdev_txg_list ?spa) u (later txg j)"
    if u: "u < length (vdev_child spa)" "n < length (vdev_ms (vdev_child ?spa ! u))" "j \<in> {1, 2, 3}" "busy j (pool_view txg ?spa ! u ! n)" for u n j
  proof -
    let ?vd = "vdev_child spa ! u"
    have n: "n < length (vdev_ms ?vd)" using u(1,2) assms(2) touch_child [OF assms(2)]
      by (cases "u = v") (simp_all add: ms_upd_def)
    have "busy j (pool_view txg spa ! u ! n) \<or> u = v \<and> n = m \<and> j = i"
      using u(4) assms(6) on_pool_nth [of u "pool_view txg spa" n v m h] u(1) n pool_view_nth [OF u(1), of txg] pool_view_length [of txg spa]
      unfolding w only_slot_def by (metis length_map)
    then have *: "txg_list_member (vdev_ms_list ?vd) n (later txg j) \<and> txg_list_member (spa_vdev_txg_list spa) u (later txg j) \<or>
        c \<and> u = v \<and> n = m \<and> j = i"
      using d u(1,3) n assms(2-5) by blast
    have lw: "list_wf (vdev_ms_list (vdev_child spa ! v))" "list_wf (spa_vdev_txg_list spa)" using d assms(2) by auto
    show "txg_list_member (vdev_ms_list (vdev_child ?spa ! u)) n (later txg j)"
      using * touch_child [OF assms(2)] assms(2) u(1) member_add(2) [OF lw(1)]
      by (cases "u = v") (auto simp: ms_upd_fixed)
    show "txg_list_member (spa_vdev_txg_list ?spa) u (later txg j)"
      using * member_add(2) [OF lw(2)] by auto
  qed
  have "list_wf (spa_vdev_txg_list ?spa)" using d member_add(1) by auto
  moreover have "list_wf (vdev_ms_list (vdev_child ?spa ! u))" if "u < length (vdev_child spa)" for u
    using d [THEN conjunct2, rule_format, OF that] touch_child [OF assms(2)] assms(2)
      member_add(1) [of "vdev_ms_list (vdev_child spa ! u)"] by (cases "u = v") (auto simp: ms_upd_fixed)
  moreover have "length (vdev_child ?spa) = length (vdev_child spa)" using touch_child [OF assms(2)] by simp
  ultimately show ?thesis using mem unfolding dirty_ok_def by auto
qed

lemma dirty_put:
  assumes "dirty_ok txg spa" "v < length (vdev_child spa)" "vdev_ms_list vd = vdev_ms_list (vdev_child spa ! v)"
    "map (view_of txg) (vdev_ms vd) = map (view_of txg) (vdev_ms (vdev_child spa ! v))"
  shows "dirty_ok txg (put v vd spa)" "pool_view txg (put v vd spa) = pool_view txg spa"
proof -
  show pw: "pool_view txg (put v vd spa) = pool_view txg spa"
    using assms(2,4) by (auto simp: pool_view_def map_update) (metis length_map list_update_id nth_map)
  have "vdev_ms_list (vdev_child (put v vd spa) ! u) = vdev_ms_list (vdev_child spa ! u) \<and>
      length (vdev_ms (vdev_child (put v vd spa) ! u)) = length (vdev_ms (vdev_child spa ! u))" for u
    using assms(2,3) map_eq_imp_length_eq [OF assms(4)] by (cases "u = v") simp_all
  then show "dirty_ok txg (put v vd spa)" using assms(1) by (simp add: dirty_ok_def pw)
qed

lemma touch_ok:
  assumes "pool_inv words txg G spa" "v < length (vdev_child spa)" "m < length (vdev_ms vd)" "i \<in> {1, 2, 3}"
    and "c \<or> busy i (view_of txg (vdev_ms vd ! m))" "only_slot i h"
    and "vd_inv words txg (spa_meta_objset spa) (G v) (ms_upd m g vd)"
    and "view_of txg (g (vdev_ms vd ! m)) = h (view_of txg (vdev_ms vd ! m))"
    and "vd_fixed vd = vd_fixed (vdev_child spa ! v)" "vdev_ms_list vd = vdev_ms_list (vdev_child spa ! v)"
    "map (view_of txg) (vdev_ms vd) = map (view_of txg) (vdev_ms (vdev_child spa ! v))"
  defines "spa' \<equiv> touch c v m (later txg i) g (put v vd spa)"
  shows "pool_inv words txg G spa'" "pool_fixed spa' = pool_fixed spa" "pool_view txg spa' = on_pool v m h (pool_view txg spa)"
proof -
  define l where "l = (if c then snd (txg_list_add (vdev_ms_list vd) m (later txg i)) else vdev_ms_list vd)"
  let ?vd' = "ms_upd m g (vd\<lparr>vdev_ms_list := l\<rparr>)" and ?spa = "put v vd spa"
  have v: "v < length (vdev_child ?spa)" "vdev_child ?spa ! v = vd" using assms(2) by simp_all
  have ch1: "vdev_child spa' = (vdev_child ?spa)[v := ?vd']" using touch_child [OF v(1)] v(2) by (simp add: spa'_def l_def)
  then have ch: "vdev_child spa' = (vdev_child spa)[v := ?vd']" by simp
  have e: "?vd' = (ms_upd m g vd)\<lparr>vdev_ms_list := l\<rparr>" by (simp add: ms_upd_def)
  have fx: "vd_fixed ?vd' = vd_fixed (vdev_child spa ! v)" using assms(9) unfolding ms_upd_fixed by (simp add: vd_fixed_def)
  have iv: "vd_inv words txg (spa_meta_objset spa) (G v) ?vd'" using assms(7) unfolding e vd_inv_list .
  have "dirty_ok txg spa" using assms(1) by (simp add: pool_inv_def)
  note dp = dirty_put [OF this assms(2,10,11)]
  have "map (view_of txg) (vdev_ms ?vd') = (map (view_of txg) (vdev_ms (vdev_child ?spa ! v)))[m := h (map (view_of txg) (vdev_ms (vdev_child ?spa ! v)) ! m)]"
    using assms(3,8) v(2) by (simp add: ms_upd_def map_update)
  note w = pool_view_put [OF v(1) ch1, of txg m h, OF this]
  then show "pool_view txg spa' = on_pool v m h (pool_view txg spa)" using dp(2) by simp
  have "c \<or> busy i (pool_view txg ?spa ! v ! m)" using assms(2,3,5) pool_view_nth [OF v(1), of txg] v(2) by simp
  then have dk: "dirty_ok txg spa'"
    using dirty_touch [OF dp(1) v(1) _ assms(4) _ assms(6), of m c] assms(3) w v(2) by (simp add: spa'_def)
  have "length (vdev_ms ?vd') = length (vdev_ms (vdev_child spa ! v))" using map_eq_imp_length_eq [OF assms(11)] by (simp add: ms_upd_def)
  then show "pool_inv words txg G spa'" using pool_put [OF assms(1,2) ch _ iv fx _ dk] by (simp add: spa'_def)
  show "pool_fixed spa' = pool_fixed spa" by (rule pool_fixed_put [OF assms(2) ch fx]) (simp_all add: spa'_def)
qed

lemma calm_ok:
  assumes "pool_inv words txg G spa" "v < length (vdev_child spa)" "vd_calm (vdev_child spa ! v) vd" "vd_inv words txg (spa_meta_objset spa) (G v) vd"
  shows "pool_inv words txg G (put v vd spa)" "pool_fixed (put v vd spa) = pool_fixed spa" "pool_view txg (put v vd spa) = pool_view txg spa"
proof -
  note c = calm_fixed [OF assms(3)]
  have "dirty_ok txg spa" using assms(1) by (simp add: pool_inv_def)
  note d = dirty_put [OF this assms(2) c(2) views_calm [OF assms(3)]]
  show "pool_view txg (put v vd spa) = pool_view txg spa" using d(2) .
  show "pool_inv words txg G (put v vd spa)" using pool_put [OF assms(1,2) _ _ assms(4) c(1,3) d(1)] by simp
  show "pool_fixed (put v vd spa) = pool_fixed spa" by (rule pool_fixed_put [OF assms(2) _ c(1)]) simp_all
qed

section \<open>Blocks in a group\<close>

text \<open>The sizes a vdev allocates: whole units below 4 GiB.\<close>

definition asize_ok :: "vdev \<Rightarrow> u64 \<Rightarrow> bool" where
  "asize_ok vd a \<longleftrightarrow> a \<noteq> 0 \<and> unat a < 2 ^ 32 \<and> 2 ^ unat (vdev_ashift vd) dvd unat a"

lemma pool_request:
  assumes "pool_inv words txg G spa" "v < length (vdev_child spa)" "asize_ok (vdev_child spa ! v) a"
  shows "\<forall>msp \<in> set (vdev_ms (vdev_child spa ! v)). ff_request (ms_map msp) a"
proof -
  let ?vd = "vdev_child spa ! v"
  have p: "vd_inv words txg (spa_meta_objset spa) (G v) ?vd" "unat (vdev_ashift ?vd) < 64"
    "length (vdev_ms ?vd) * 2 ^ unat (vdev_ms_shift ?vd) \<le> 2 ^ 63" using assms(1,2) by (auto simp: pool_inv_def)
  have "ff_request (ms_map (vdev_ms ?vd ! m)) a" if m: "m < length (vdev_ms ?vd)" for m
  proof -
    let ?sm = "ms_map (vdev_ms ?vd ! m)"
    have pl: "unat (sm_start ?sm) = m * 2 ^ unat (vdev_ms_shift ?vd)" "unat (sm_size ?sm) = 2 ^ unat (vdev_ms_shift ?vd)" "sm_shift ?sm = ucast (vdev_ashift ?vd)"
      using p(1) m by (auto simp: vd_inv_def ms_place_def)
    have "unat (sm_shift ?sm) = unat (vdev_ashift ?vd)" using p(2) by (simp add: pl(3) unsigned_ucast_eq take_bit_nat_eq_self)
    then have u: "unit_of ?sm dvd unat a" using assms(3) by (simp add: unit_of_def asize_ok_def)
    have "Suc m * 2 ^ unat (vdev_ms_shift ?vd) \<le> 2 ^ 63" using m by (intro le_trans [OF mult_le_mono1 p(3)]) simp
    then have "unat (sm_start ?sm) + unat (sm_size ?sm) \<le> 2 ^ 63" by (simp add: pl(1,2))
    moreover have "\<not> 2 ^ 32 dvd unat a" using assms(3) by (auto simp: asize_ok_def unat_eq_0 dest: dvd_imp_le)
    ultimately show ?thesis using u assms(3) by (simp add: ff_request_def asize_ok_def)
  qed
  then show ?thesis by (auto simp: in_set_conv_nth)
qed

text \<open>A block that was unused and is now allocated, and nothing else changed.\<close>

definition taken_block :: "('os \<Rightarrow> u64 \<Rightarrow> nat \<Rightarrow> u64) \<Rightarrow> u64 \<Rightarrow> (nat \<Rightarrow> nat \<Rightarrow> nat set) \<Rightarrow> nat \<Rightarrow> 'os spa \<Rightarrow> nat \<Rightarrow> u64 \<Rightarrow> u64 \<Rightarrow> 'os spa \<Rightarrow> bool" where
  "taken_block words txg G i spa v offset sz spa' \<longleftrightarrow> (\<exists>m < length (vdev_ms (vdev_child spa ! v)).
     ms_geom (ms_map (vdev_ms (vdev_child spa ! v) ! m)) \<and> in_range (ms_map (vdev_ms (vdev_child spa ! v) ! m)) offset sz \<and>
     unused words txg (spa_meta_objset spa) (G v m) (vdev_ms (vdev_child spa ! v) ! m) (span offset sz) \<and>
     pool_view txg spa' = on_pool v m (on_alloc i (\<lambda>A. A \<union> span offset sz)) (pool_view txg spa))"

lemma found_fixed:
  assumes "found_in words txg os G sz vd r vd'"
  shows "vd_fixed vd' = vd_fixed vd" "vdev_ms_list vd' = vdev_ms_list vd"
  using assms calm_fixed [of vd] by (auto simp: found_in_def ms_upd_fixed split: option.splits prod.splits)

lemma busy_view: "i < 4 \<Longrightarrow> busy i (view_of txg msp) \<longleftrightarrow> alloc_of msp txg i \<union> free_of msp txg i \<noteq> {}"
  by (simp add: busy_def view_of_def)

lemma group_alloc_ok:
  assumes "dmu_ok (mos_dmu mos) words" "pool_inv words txg G spa" "v < length (vdev_child spa)" "i \<in> {1, 2, 3}" "asize_ok (vdev_child spa ! v) sz"
  shows "\<exists>offset spa'. metaslab_group_alloc mos spa v sz (later txg i) min_distance dva d = Some (offset, spa') \<and>
    pool_inv words txg G spa' \<and> pool_fixed spa' = pool_fixed spa \<and> spa_normal_class spa' = spa_normal_class spa \<and>
    (if offset = -1 then pool_view txg spa' = pool_view txg spa else taken_block words txg G i spa v offset sz spa')"
proof -
  let ?vd = "vdev_child spa ! v" and ?os = "spa_meta_objset spa"
  define aw where "aw = (if list_ex (\<lambda>dva. DVA_GET_VDEV dva = vdev_id ?vd) (take d dva) then METASLAB_WEIGHT_SECONDARY else METASLAB_WEIGHT_PRIMARY)"
  have vi: "vd_inv words txg ?os (G v) ?vd" using assms(2,3) by (simp add: pool_inv_def)
  have rq: "\<forall>msp \<in> set (vdev_ms ?vd). ff_request (ms_map msp) sz" using pool_request [OF assms(2,3,5)] .
  have awm: "aw \<in> {METASLAB_WEIGHT_PRIMARY, METASLAB_WEIGHT_SECONDARY}" by (simp add: aw_def)
  obtain r vd' where l: "group_alloc_loop mos ?os sz min_distance aw (take d dva) ?vd = Some (r, vd')" "found_in words txg ?os (G v) sz ?vd r vd'"
    using group_loop_ok [OF assms(1) awm vi rq] by blast
  have i4: "i < 4" using assms(4) by auto
  show ?thesis
  proof (cases r)
    case None
    then have "metaslab_group_alloc mos spa v sz (later txg i) min_distance dva d = Some (-1, put v vd' spa)"
      using l(1) by (simp add: metaslab_group_alloc_def Let_def aw_def [symmetric] put_def)
    moreover have "vd_calm ?vd vd'" "vd_inv words txg ?os (G v) vd'" using l(2) None by (simp_all add: found_in_def)
    ultimately show ?thesis using calm_ok [OF assms(2,3)] by simp
  next
    case (Some a)
    obtain m offset where a: "a = (m, offset)" by fastforce
    let ?k = "txg_slot (later txg i)"
    have fnd: "found_in words txg ?os (G v) sz ?vd (Some (m, offset)) vd'" using l(2) Some a by simp
    from found_block [OF fnd assms(4) rq] obtain am where
      b: "m < length (vdev_ms ?vd)" "space_map_add (ms_allocmap (vdev_ms vd' ! m) ! ?k) offset sz = Some am"
      "sm_space (ms_allocmap (vdev_ms vd' ! m) ! ?k) = 0 \<longleftrightarrow> alloc_of (vdev_ms ?vd ! m) txg i = {}"
      "ms_geom (ms_map (vdev_ms ?vd ! m))" "offset \<noteq> -1" "in_range (ms_map (vdev_ms ?vd ! m)) offset sz"
      "unused words txg ?os (G v m) (vdev_ms ?vd ! m) (span offset sz)" "map (view_of txg) (vdev_ms vd') = map (view_of txg) (vdev_ms ?vd)"
      "vd_inv words txg ?os (G v) (ms_upd m (\<lambda>msp. msp\<lparr>ms_allocmap := (ms_allocmap msp)[?k := am]\<rparr>) vd')"
      "map (view_of txg) (vdev_ms (ms_upd m (\<lambda>msp. msp\<lparr>ms_allocmap := (ms_allocmap msp)[?k := am]\<rparr>) vd')) =
        (map (view_of txg) (vdev_ms ?vd))[m := on_alloc i (\<lambda>A. A \<union> span offset sz) (map (view_of txg) (vdev_ms ?vd) ! m)]" by blast
    define c where "c \<longleftrightarrow> sm_space (ms_allocmap (vdev_ms vd' ! m) ! ?k) = 0"
    define g where "g = (\<lambda>msp :: metaslab. msp\<lparr>ms_allocmap := (ms_allocmap msp)[?k := am]\<rparr>)"
    have m: "m < length (vdev_ms vd')" using map_eq_imp_length_eq [OF b(8)] b(1) by simp
    have vm: "view_of txg (vdev_ms vd' ! m) = view_of txg (vdev_ms ?vd ! m)" using b(1,8) m by (metis nth_map)
    have bz: "c \<or> busy i (view_of txg (vdev_ms vd' ! m))" using b(3) i4 by (simp add: vm busy_view c_def)
    have gv: "view_of txg (g (vdev_ms vd' ! m)) = on_alloc i (\<lambda>A. A \<union> span offset sz) (view_of txg (vdev_ms vd' ! m))"
      using arg_cong [OF b(10), of "\<lambda>xs. xs ! m"] m b(1) by (simp add: ms_upd_def g_def vm)
    note t = touch_ok [OF assms(2,3) m assms(4) bz only_slot_on(1) b(9) [folded g_def] gv found_fixed [OF fnd] b(8)]
    have "metaslab_group_alloc mos spa v sz (later txg i) min_distance dva d = Some (offset, touch c v m (later txg i) g (put v vd' spa))"
      using l(1) Some a b(2) assms(3) m
      by (simp add: metaslab_group_alloc_def Let_def aw_def [symmetric] touch_def put_def c_def g_def)
    then show ?thesis using t b(1,4,5,6,7) by (auto simp: taken_block_def)
  qed
qed

section \<open>Blocks in the pool\<close>

text \<open>The ring of groups, from the place where a search starts.\<close>

definition ring :: "'os spa \<Rightarrow> nat list \<Rightarrow> bool" where
  "ring spa xs \<longleftrightarrow> xs \<noteq> [] \<and> distinct xs \<and> (\<forall>j < length xs. xs ! j < length (vdev_child spa) \<and>
     map_option mg_next (vdev_mg (vdev_child spa ! (xs ! j))) = Some (Some (xs ! (Suc j mod length xs))))"

definition pool_sizes :: "'os spa \<Rightarrow> u64 \<Rightarrow> bool" where
  "pool_sizes spa psize \<longleftrightarrow> (\<forall>vd \<in> set (vdev_child spa). asize_ok vd (vdev_op_asize vd psize))"

lemma fixed_nth:
  assumes "pool_fixed spa' = pool_fixed spa"
  shows "length (vdev_child spa') = length (vdev_child spa)" "spa_meta_objset spa' = spa_meta_objset spa"
    "v < length (vdev_child spa) \<Longrightarrow> vd_fixed (vdev_child spa' ! v) = vd_fixed (vdev_child spa ! v)"
proof -
  have m: "map vd_fixed (vdev_child spa') = map vd_fixed (vdev_child spa)" using assms by (simp add: pool_fixed_def)
  show l: "length (vdev_child spa') = length (vdev_child spa)" using map_eq_imp_length_eq [OF m] .
  show "spa_meta_objset spa' = spa_meta_objset spa" using assms by (simp add: pool_fixed_def)
  show "v < length (vdev_child spa) \<Longrightarrow> vd_fixed (vdev_child spa' ! v) = vd_fixed (vdev_child spa ! v)" using m l by (metis nth_map)
qed

lemma ring_cong:
  assumes "pool_fixed spa' = pool_fixed spa"
  shows "ring spa' xs = ring spa xs"
proof -
  have e: "v < length (vdev_child spa) \<Longrightarrow> map_option mg_next (vdev_mg (vdev_child spa' ! v)) = map_option mg_next (vdev_mg (vdev_child spa ! v))" for v
    using fixed_nth(3) [OF assms, of v] by (simp add: vd_fixed_def)
  show ?thesis by (simp add: ring_def fixed_nth(1) [OF assms] e cong: conj_cong del: map_option_eq_Some)
qed

lemma sizes_cong:
  assumes "pool_fixed spa' = pool_fixed spa"
  shows "pool_sizes spa' psize = pool_sizes spa psize"
proof -
  have "v < length (vdev_child spa) \<Longrightarrow> asize_ok (vdev_child spa' ! v) (vdev_op_asize (vdev_child spa' ! v) psize) =
      asize_ok (vdev_child spa ! v) (vdev_op_asize (vdev_child spa ! v) psize)" for v
    using fixed_nth(3) [OF assms, of v] by (simp add: vd_fixed_def asize_ok_def)
  then show ?thesis using fixed_nth(1) [OF assms] by (auto simp: pool_sizes_def all_set_conv_all_nth)
qed

lemma taken_block_cong:
  assumes "pool_fixed spa1 = pool_fixed spa" "pool_view txg spa1 = pool_view txg spa" "v < length (vdev_child spa)"
  shows "taken_block words txg G i spa1 v offset sz spa' = taken_block words txg G i spa v offset sz spa'"
proof -
  have w: "map (view_of txg) (vdev_ms (vdev_child spa1 ! v)) = map (view_of txg) (vdev_ms (vdev_child spa ! v))"
    using assms(2,3) fixed_nth(1) [OF assms(1)] pool_view_nth [of v spa1 txg] pool_view_nth [of v spa txg] by simp
  have l: "length (vdev_ms (vdev_child spa1 ! v)) = length (vdev_ms (vdev_child spa ! v))" using map_eq_imp_length_eq [OF w] .
  have vm: "view_of txg (vdev_ms (vdev_child spa1 ! v) ! m) = view_of txg (vdev_ms (vdev_child spa ! v) ! m)"
    if "m < length (vdev_ms (vdev_child spa ! v))" for m using w l that by (metis nth_map)
  show ?thesis
    unfolding taken_block_def l assms(2) fixed_nth(2) [OF assms(1)]
    by (intro ex_cong1 conj_cong refl) (simp_all add: unused_cong [OF vm] geom_cong(1,3) [OF view_cong(1) [OF vm]])
qed

lemma phase_unit: "n < 64 \<Longrightarrow> 2 ^ n dvd unat a \<Longrightarrow> P2PHASE a (push_bit n 1) = 0"
proof -
  assume n: "n < 64" and "2 ^ n dvd unat a"
  then have "unat (take_bit n a) = 0" by (simp add: unat_take_bit_mod)
  then have "take_bit n a = 0" by (simp only: unat_eq_0)
  then show ?thesis unfolding phase_take_bit [OF n] .
qed

lemma group_update_ok:
  assumes "pool_inv words txg G spa" "v < length (vdev_child spa)" "\<And>g. mg_metaslab_tree (f g) = mg_metaslab_tree g" "\<And>g. mg_next (f g) = mg_next g"
  shows "pool_inv words txg G (mg_upd v f spa)" "pool_fixed (mg_upd v f spa) = pool_fixed spa" "pool_view txg (mg_upd v f spa) = pool_view txg spa"
proof -
  let ?vd = "vdev_child spa ! v"
  let ?vd' = "?vd\<lparr>vdev_mg := map_option f (vdev_mg ?vd)\<rparr>"
  have e: "mg_upd v f spa = put v ?vd' spa" by (simp add: mg_upd_def put_def)
  have "group_ok ?vd' = group_ok ?vd" using assms(3) by (auto simp: group_ok_def)
  then have iv: "vd_inv words txg (spa_meta_objset spa) (G v) ?vd'" using assms(1,2) by (simp add: pool_inv_def vd_inv_def ms_place_def)
  have fx: "vd_fixed ?vd' = vd_fixed ?vd" using assms(4) by (simp add: vd_fixed_def option.map_comp o_def)
  have "dirty_ok txg spa" using assms(1) by (simp add: pool_inv_def)
  note d = dirty_put [OF this assms(2), of ?vd']
  show "pool_view txg (mg_upd v f spa) = pool_view txg spa" using d(2) by (simp add: e)
  show "pool_inv words txg G (mg_upd v f spa)" using pool_put [OF assms(1,2) _ _ iv fx] d(1) by (simp add: e)
  show "pool_fixed (mg_upd v f spa) = pool_fixed spa" using pool_fixed_put [OF assms(2) _ fx, of "put v ?vd' spa"] by (simp add: e)
qed

lemma class_update_ok:
  "pool_inv words txg G (mc_upd f spa) = pool_inv words txg G spa" "pool_fixed (mc_upd f spa) = pool_fixed spa"
  "pool_view txg (mc_upd f spa) = pool_view txg spa"
proof -
  show w: "pool_view txg (mc_upd f spa) = pool_view txg spa" by (simp add: pool_view_def mc_upd_def)
  have "dirty_ok txg (mc_upd f spa) = dirty_ok txg spa" unfolding dirty_ok_def w by (simp add: mc_upd_def)
  then show "pool_inv words txg G (mc_upd f spa) = pool_inv words txg G spa" by (simp add: pool_inv_def) (simp add: mc_upd_def)
  show "pool_fixed (mc_upd f spa) = pool_fixed spa" by (simp add: pool_fixed_def mc_upd_def)
qed

text \<open>The rotor stays in the ring.\<close>

definition rotor_in :: "nat list \<Rightarrow> 'os spa \<Rightarrow> bool" where
  "rotor_in xs spa \<longleftrightarrow> (\<exists>v \<in> set xs. mc_rotor (spa_normal_class spa) = Some v)"

lemma ring_get:
  assumes "ring spa xs" "v \<in> set xs"
  shows "\<exists>g u. mg_get spa v = Some g \<and> mg_next g = Some u \<and> u \<in> set xs \<and> v < length (vdev_child spa)"
proof -
  obtain j where j: "j < length xs" "v = xs ! j" using assms(2) by (auto simp: in_set_conv_nth)
  have v: "v < length (vdev_child spa)" "map_option mg_next (vdev_mg (vdev_child spa ! v)) = Some (Some (xs ! (Suc j mod length xs)))"
    using assms(1) j by (auto simp: ring_def simp del: map_option_eq_Some)
  then have "\<exists>g. mg_get spa v = Some g \<and> mg_next g = Some (xs ! (Suc j mod length xs))" by (auto simp: mg_get_def)
  moreover have "xs ! (Suc j mod length xs) \<in> set xs" using j(1) by (intro nth_mem mod_less_divisor) (cases xs, auto)
  ultimately show ?thesis using v(1) by blast
qed

lemma alloc_found_ok:
  assumes "pool_inv words txg G spa" "ring spa xs" "v \<in> set xs" "rotor_in xs spa"
  shows "\<exists>spa'. alloc_found spa v asize offset dva = Some (spa', dva_of (of_nat v) offset asize dva) \<and> pool_inv words txg G spa' \<and>
    pool_fixed spa' = pool_fixed spa \<and> pool_view txg spa' = pool_view txg spa \<and> rotor_in xs spa'"
proof -
  obtain g u where g: "mg_get spa v = Some g" "mg_next g = Some u" "u \<in> set xs" "v < length (vdev_child spa)" using ring_get [OF assms(2,3)] by blast
  have id: "vdev_id (vdev_child spa ! v) = of_nat v" using assms(1) g(4) by (simp add: pool_inv_def)
  define b where "b = (if mc_allocated (spa_normal_class spa) = 0 then alloc_bias spa (vdev_child spa ! v) g else mg_bias g)"
  let ?spa = "mg_upd v (\<lambda>mg. mg\<lparr>mg_bias := b\<rparr>) spa"
  let ?f = "\<lambda>mc. if mc_allocated (spa_normal_class ?spa) + asize \<ge> mg_aliquot g + b then mc\<lparr>mc_rotor := mg_next g, mc_allocated := 0\<rparr>
    else mc\<lparr>mc_allocated := mc_allocated (spa_normal_class ?spa) + asize\<rparr>"
  have f: "alloc_found spa v asize offset dva = Some (mc_upd ?f ?spa, dva_of (of_nat v) offset asize dva)"
    by (simp only: alloc_found_def g(1) Option.bind.bind_lunit Let_def b_def [symmetric] id dva_of_def)
  note u = group_update_ok [OF assms(1) g(4), of "\<lambda>mg. mg\<lparr>mg_bias := b\<rparr>"]
  have "rotor_in xs (mc_upd ?f ?spa)" using assms(4) g(2,3) by (auto simp: rotor_in_def mc_upd_def mg_upd_def)
  then show ?thesis using f u by (simp add: class_update_ok)
qed

text \<open>The outcome of a search: a block and its address, or no change and the error.\<close>

definition search_result :: "('os \<Rightarrow> u64 \<Rightarrow> nat \<Rightarrow> u64) \<Rightarrow> u64 \<Rightarrow> (nat \<Rightarrow> nat \<Rightarrow> nat set) \<Rightarrow> nat \<Rightarrow> 'os spa \<Rightarrow> u64 \<Rightarrow> dva_t list \<Rightarrow> nat \<Rightarrow>
    errno option \<times> 'os spa \<times> dva_t list \<Rightarrow> bool" where
  "search_result words txg G i spa psize dva d r \<longleftrightarrow> (case r of (e, spa', dva') \<Rightarrow>
     if e = None then \<exists>v < length (vdev_child spa). \<exists>offset.
       taken_block words txg G i spa v offset (vdev_op_asize (vdev_child spa ! v) psize) spa' \<and>
       dva' = dva[d := dva_of (of_nat v) offset (vdev_op_asize (vdev_child spa ! v) psize) (dva ! d)]
     else e = Some ENOSPC \<and> pool_view txg spa' = pool_view txg spa \<and> dva' = dva[d := dva_zero])"

lemma search_result_cong:
  assumes "pool_fixed spa1 = pool_fixed spa" "pool_view txg spa1 = pool_view txg spa"
  shows "search_result words txg G i spa1 psize dva d r = search_result words txg G i spa psize dva d r"
proof -
  have "vdev_op_asize (vdev_child spa1 ! v) = vdev_op_asize (vdev_child spa ! v)" if "v < length (vdev_child spa)" for v
    using fixed_nth(3) [OF assms(1) that] by (simp add: vd_fixed_def)
  then show ?thesis
    unfolding search_result_def assms(2) using fixed_nth(1) [OF assms(1)] taken_block_cong [OF assms]
    by (auto split: prod.splits cong: conj_cong)
qed

lemma ring_next:
  assumes "ring spa xs" "j < length xs"
  shows "\<exists>g. mg_get spa (xs ! j) = Some g \<and> mg_next g = Some (xs ! (Suc j mod length xs))" "xs ! j < length (vdev_child spa)"
    "xs ! (Suc j mod length xs) = xs ! 0 \<longleftrightarrow> Suc j = length xs"
proof -
  have "map_option mg_next (vdev_mg (vdev_child spa ! (xs ! j))) = Some (Some (xs ! (Suc j mod length xs)))"
    and v: "xs ! j < length (vdev_child spa)" using assms by (auto simp: ring_def simp del: map_option_eq_Some)
  then show "\<exists>g. mg_get spa (xs ! j) = Some g \<and> mg_next g = Some (xs ! (Suc j mod length xs))" by (auto simp: mg_get_def)
  show "xs ! j < length (vdev_child spa)" by (rule v)
  have x: "distinct xs" "xs \<noteq> []" using assms(1) by (simp_all add: ring_def)
  then have "xs ! (Suc j mod length xs) = xs ! 0 \<longleftrightarrow> Suc j mod length xs = 0" by (intro nth_eq_iff_index_eq) simp_all
  then show "xs ! (Suc j mod length xs) = xs ! 0 \<longleftrightarrow> Suc j = length xs" using assms(2) by (cases "Suc j = length xs") auto
qed

lemma near_last:
  assumes "n < 64"
  shows "drop_bit 63 (x :: u64) \<le> push_bit n 1"
proof -
  have "unat (drop_bit 63 x) < 2" using unsigned_less [of x, where ?'a = nat] by (simp add: unat_drop_bit_div less_mult_imp_div_less)
  moreover have "unat (push_bit n (1 :: u64)) = 2 ^ n" using assms by (simp add: unat_exp)
  moreover have "(1 :: nat) \<le> 2 ^ n" by simp
  ultimately show ?thesis unfolding word_le_nat_alt by linarith
qed

definition alloc_near :: "nat \<Rightarrow> vdev \<Rightarrow> bool" where
  "alloc_near dshift vd \<longleftrightarrow> drop_bit dshift (vdev_asize vd) \<le> push_bit (unat (vdev_ms_shift vd)) 1"

lemma alloc_dva_step:
  assumes "mg_get spa v = Some g0" "P2PHASE (vdev_op_asize (vdev_child spa ! v) psize) (push_bit (unat (vdev_ashift (vdev_child spa ! v))) 1) = 0"
    and "metaslab_group_alloc mos spa v (vdev_op_asize (vdev_child spa ! v) psize) txg
      (if alloc_near dshift (vdev_child spa ! v) then 0 else drop_bit dshift (vdev_asize (vdev_child spa ! v))) dva d = Some (offset, spa1)"
    and "mg_get spa1 v = Some g" "mg_next g = Some u"
  defines "near \<equiv> alloc_near dshift (vdev_child spa ! v)" and "spa2 \<equiv> mc_upd (\<lambda>mc. mc\<lparr>mc_rotor := mg_next g, mc_allocated := 0\<rparr>) spa1"
  shows "alloc_dva_loop mos psize dva d txg rotor dshift all_zero v spa =
    (if offset \<noteq> -1 then map_option (\<lambda>r. (None, fst r, dva[d := snd r])) (alloc_found spa1 v (vdev_op_asize (vdev_child spa ! v) psize) offset (dva ! d))
     else if u \<noteq> rotor then alloc_dva_loop mos psize dva d txg rotor dshift (all_zero \<and> near) u spa2
     else if \<not> (all_zero \<and> near) then (if dshift + 1 < 64 then alloc_dva_loop mos psize dva d txg rotor (dshift + 1) True u spa2 else None)
     else Some (Some ENOSPC, spa2, dva[d := dva_zero]))"
  unfolding near_def spa2_def
  by (subst alloc_dva_loop.simps)
    (simp only: assms(1-5) Option.bind.bind_lunit Let_def alloc_near_def [symmetric] simp_thms if_False fst_conv snd_conv)

definition search_ok :: "('os \<Rightarrow> u64 \<Rightarrow> nat \<Rightarrow> u64) \<Rightarrow> u64 \<Rightarrow> (nat \<Rightarrow> nat \<Rightarrow> nat set) \<Rightarrow> nat \<Rightarrow> nat list \<Rightarrow> 'os spa \<Rightarrow> u64 \<Rightarrow> dva_t list \<Rightarrow> nat \<Rightarrow>
    (errno option \<times> 'os spa \<times> dva_t list) option \<Rightarrow> bool" where
  "search_ok words txg G i xs spa psize dva d r \<longleftrightarrow> (\<exists>e spa' dva'. r = Some (e, spa', dva') \<and> pool_inv words txg G spa' \<and>
     pool_fixed spa' = pool_fixed spa \<and> rotor_in xs spa' \<and> search_result words txg G i spa psize dva d (e, spa', dva'))"

text \<open>One pass: it ends the search, or leaves the pool as it was for the next place, at a smaller distance after the last.\<close>

lemma alloc_dva_pass:
  fixes dva :: "dva_t list" and d :: nat
  assumes "dmu_ok (mos_dmu mos) words" "i \<in> {1, 2, 3}"
    and "pool_inv words txg G spa" "ring spa xs" "rotor_in xs spa" "pool_sizes spa psize"
    and "j < length xs" "dshift < 64" "\<not> all_zero \<longrightarrow> dshift < 63"
  defines "loop \<equiv> alloc_dva_loop mos psize dva d (later txg i) (xs ! 0)"
  shows "search_ok words txg G i xs spa psize dva d (loop dshift all_zero (xs ! j) spa) \<or>
    (\<exists>spa' ds z k. loop dshift all_zero (xs ! j) spa = loop ds z (xs ! k) spa' \<and> pool_fixed spa' = pool_fixed spa \<and>
      pool_view txg spa' = pool_view txg spa \<and> pool_inv words txg G spa' \<and> rotor_in xs spa' \<and> k < length xs \<and> ds < 64 \<and> (\<not> z \<longrightarrow> ds < 63) \<and>
      (64 - ds) * length xs + (length xs - k) < (64 - dshift) * length xs + (length xs - j))"
proof -
  let ?v = "xs ! j" and ?vd = "vdev_child spa ! (xs ! j)" and ?u = "xs ! (Suc j mod length xs)"
  let ?asize = "vdev_op_asize ?vd psize"
  define near where "near \<longleftrightarrow> alloc_near dshift ?vd"
  define dist where "dist = (if near then 0 else drop_bit dshift (vdev_asize ?vd))"
  obtain g0 where g0: "mg_get spa ?v = Some g0" using ring_next(1) [OF assms(4,7)] by blast
  have v: "?v < length (vdev_child spa)" "?v \<in> set xs" using ring_next(2) [OF assms(4,7)] assms(7) by simp_all
  have vp: "unat (vdev_ashift ?vd) < 64" "unat (vdev_ms_shift ?vd) < 64" using assms(3) v(1) by (auto simp: pool_inv_def)
  have as: "asize_ok ?vd ?asize" using assms(6) v(1) by (simp add: pool_sizes_def)
  then have ph: "P2PHASE ?asize (push_bit (unat (vdev_ashift ?vd)) 1) = 0" using phase_unit [OF vp(1)] by (simp add: asize_ok_def)
  from group_alloc_ok [OF assms(1,3) v(1) assms(2) as, of dist dva d] obtain offset spa1 where
    a: "metaslab_group_alloc mos spa ?v ?asize (later txg i) dist dva d = Some (offset, spa1)" "pool_inv words txg G spa1"
    "pool_fixed spa1 = pool_fixed spa" "spa_normal_class spa1 = spa_normal_class spa"
    "if offset = -1 then pool_view txg spa1 = pool_view txg spa else taken_block words txg G i spa ?v offset ?asize spa1" by blast
  have r1: "ring spa1 xs" "rotor_in xs spa1" using ring_cong [OF a(3)] assms(4,5) a(4) by (simp_all add: rotor_in_def)
  obtain g where g: "mg_get spa1 ?v = Some g" "mg_next g = Some ?u" using ring_next(1) [OF r1(1) assms(7)] by blast
  note step = alloc_dva_step [OF g0 ph a(1) [unfolded dist_def near_def] g, of "xs ! 0" all_zero, folded near_def loop_def]
  show ?thesis
  proof (cases "offset = -1")
    case False
    obtain spa2 where f: "alloc_found spa1 ?v ?asize offset (dva ! d) = Some (spa2, dva_of (of_nat ?v) offset ?asize (dva ! d))"
      "pool_inv words txg G spa2" "pool_fixed spa2 = pool_fixed spa1" "pool_view txg spa2 = pool_view txg spa1" "rotor_in xs spa2"
      using alloc_found_ok [OF a(2) r1(1) v(2) r1(2)] by blast
    have "taken_block words txg G i spa ?v offset ?asize spa2" using a(5) f(4) False by (simp add: taken_block_def)
    then show ?thesis using step f a(3) v(1) False by (auto simp: search_result_def search_ok_def)
  next
    case True
    let ?spa = "mc_upd (\<lambda>mc. mc\<lparr>mc_rotor := mg_next g, mc_allocated := 0\<rparr>) spa1"
    have ne: "xs \<noteq> []" using assms(4) by (simp add: ring_def)
    have "rotor_in xs ?spa" using ne g(2) by (simp add: rotor_in_def mc_upd_def)
    then have fx: "pool_fixed ?spa = pool_fixed spa" "pool_view txg ?spa = pool_view txg spa" "pool_inv words txg G ?spa" "rotor_in xs ?spa"
      using a(2,3,5) True by (simp_all add: class_update_ok)
    have lo: "\<not> (all_zero \<and> near) \<Longrightarrow> dshift < 63"
      using assms(8,9) near_last [OF vp(2), of "vdev_asize ?vd"] by (cases "dshift = 63") (auto simp: near_def alloc_near_def)
    consider "Suc j < length xs" | "Suc j = length xs" "all_zero \<and> near" | "Suc j = length xs" "\<not> (all_zero \<and> near)" using assms(7) by linarith
    then show ?thesis
    proof cases
      case 1
      then have "loop dshift all_zero ?v spa = loop dshift (all_zero \<and> near) (xs ! Suc j) ?spa"
        using step True ring_next(3) [OF assms(4,7)] by simp
      then show ?thesis using fx 1 lo assms(8) by (intro disjI2 exI [of _ ?spa] exI [of _ dshift] exI [of _ "all_zero \<and> near"] exI [of _ "Suc j"]) simp
    next
      case 2
      then show ?thesis using step True fx by (auto simp: search_result_def search_ok_def)
    next
      case 3
      have "64 - dshift = Suc (64 - (dshift + 1))" using lo [OF 3(2)] by simp
      then have "(64 - (dshift + 1)) * length xs + (length xs - 0) < (64 - dshift) * length xs + (length xs - j)" using assms(7) by simp
      moreover have "loop dshift all_zero ?v spa = loop (dshift + 1) True (xs ! 0) ?spa" using step True 3 lo [OF 3(2)] by simp
      ultimately show ?thesis using fx ne lo [OF 3(2)] by (intro disjI2 exI [of _ ?spa] exI [of _ "dshift + 1"] exI [of _ True] exI [of _ 0]) simp
    qed
  qed
qed

lemma alloc_dva_loop_ok:
  assumes "dmu_ok (mos_dmu mos) words" "i \<in> {1, 2, 3}"
    and "pool_inv words txg G spa" "ring spa xs" "rotor_in xs spa" "pool_sizes spa psize"
    and "j < length xs" "dshift < 64" "\<not> all_zero \<longrightarrow> dshift < 63"
  shows "search_ok words txg G i xs spa psize dva d (alloc_dva_loop mos psize dva d (later txg i) (xs ! 0) dshift all_zero (xs ! j) spa)"
  using assms(3-)
proof (induction "(64 - dshift) * length xs + (length xs - j)" arbitrary: j dshift all_zero spa rule: less_induct)
  case less
  let ?loop = "alloc_dva_loop mos psize dva d (later txg i) (xs ! 0)"
  from alloc_dva_pass [OF assms(1,2) less(2-8), where dva = dva and d = d] show ?case
  proof (elim disjE exE conjE)
    fix spa' ds z k
    assume n: "?loop dshift all_zero (xs ! j) spa = ?loop ds z (xs ! k) spa'" "pool_fixed spa' = pool_fixed spa" "pool_view txg spa' = pool_view txg spa"
      "pool_inv words txg G spa'" "rotor_in xs spa'" "k < length xs" "ds < 64" "\<not> z \<longrightarrow> ds < 63"
      "(64 - ds) * length xs + (length xs - k) < (64 - dshift) * length xs + (length xs - j)"
    have "search_ok words txg G i xs spa' psize dva d (?loop ds z (xs ! k) spa')"
      using less(1) [OF n(9,4) _ n(5) _ n(6-8)] ring_cong [OF n(2)] sizes_cong [OF n(2)] less(3,5) by simp
    then show ?case unfolding search_ok_def n(1,2) search_result_cong [OF n(2,3)] .
  qed
qed

lemma ring_rotate:
  assumes "ring spa xs" "v \<in> set xs"
  shows "\<exists>ys. ring spa ys \<and> ys ! 0 = v \<and> set ys = set xs"
proof -
  obtain n where n: "n < length xs" "v = xs ! n" using assms(2) by (auto simp: in_set_conv_nth)
  let ?ys = "rotate n xs"
  have x: "xs \<noteq> []" using n by auto
  have y: "?ys ! j = xs ! ((n + j) mod length xs)" if "j < length xs" for j using nth_rotate [OF that, of n] by (simp add: add.commute)
  have "?ys ! (Suc j mod length xs) = xs ! (Suc ((n + j) mod length xs) mod length xs)" for j
    using y [of "Suc j mod length xs"] x by (simp add: mod_simps)
  moreover have "xs ! ((n + j) mod length xs) < length (vdev_child spa) \<and>
      map_option mg_next (vdev_mg (vdev_child spa ! (xs ! ((n + j) mod length xs)))) =
      Some (Some (xs ! (Suc ((n + j) mod length xs) mod length xs)))" for j
    using assms(1) x by (simp add: ring_def del: map_option_eq_Some)
  ultimately have "ring spa ?ys" using assms(1) y x by (simp add: ring_def del: map_option_eq_Some)
  moreover have "?ys ! 0 = v" using y [of 0] n x by simp
  ultimately show ?thesis by (intro exI [of _ ?ys]) simp
qed

text \<open>The vdevs named by the hint and by the copy before this one are in the ring.\<close>

definition starts_in :: "nat list \<Rightarrow> dva_t list option \<Rightarrow> dva_t list \<Rightarrow> nat \<Rightarrow> bool" where
  "starts_in xs hintdva dva d \<longleftrightarrow> (case hintdva of
     Some hint \<Rightarrow> unat (DVA_GET_VDEV (hint ! d)) \<in> set xs
   | None \<Rightarrow> d \<noteq> 0 \<longrightarrow> unat (DVA_GET_VDEV (dva ! (d - 1))) \<in> set xs)"

lemma alloc_start:
  assumes "ring spa xs" "rotor_in xs spa" "starts_in xs hintdva dva d" "\<not> DVA_IS_VALID (dva ! d)"
  shows "\<exists>mg \<in> set xs. metaslab_alloc_dva mos spa psize dva d hintdva txg = alloc_dva_loop mos psize dva d txg mg 3 True mg spa"
proof -
  have top: "vdev_lookup_top spa v = Some (unat v)" if "unat v \<in> set xs" for v
    using ring_get [OF assms(1) that] by (auto simp: vdev_lookup_top_def)
  consider (hint) h where "hintdva = Some h" | (copy) "hintdva = None" "d \<noteq> 0" | (rotor) "hintdva = None" "d = 0" by (cases hintdva) auto
  then show ?thesis
  proof cases
    case hint
    then show ?thesis using assms(3,4) top by (auto simp: metaslab_alloc_dva_def starts_in_def)
  next
    case copy
    then have c: "unat (DVA_GET_VDEV (dva ! (d - 1))) \<in> set xs" using assms(3) by (simp add: starts_in_def)
    then show ?thesis using copy assms(4) top [OF c] ring_get [OF assms(1) c] by (auto simp: metaslab_alloc_dva_def)
  next
    case rotor
    then show ?thesis using assms(2,4) by (auto simp: metaslab_alloc_dva_def rotor_in_def)
  qed
qed

lemma alloc_dva_ok:
  assumes "dmu_ok (mos_dmu mos) words" "i \<in> {1, 2, 3}" "pool_inv words txg G spa" "ring spa xs" "rotor_in xs spa" "pool_sizes spa psize"
    and "starts_in xs hintdva dva d" "\<not> DVA_IS_VALID (dva ! d)"
  shows "search_ok words txg G i xs spa psize dva d (metaslab_alloc_dva mos spa psize dva d hintdva (later txg i))"
proof -
  obtain mg where mg: "mg \<in> set xs" "metaslab_alloc_dva mos spa psize dva d hintdva (later txg i) = alloc_dva_loop mos psize dva d (later txg i) mg 3 True mg spa"
    using alloc_start [OF assms(4,5,7,8)] by blast
  obtain ys where ys: "ring spa ys" "ys ! 0 = mg" "set ys = set xs" using ring_rotate [OF assms(4) mg(1)] by blast
  have r: "rotor_in ys s = rotor_in xs s" for s :: "'a spa" by (simp add: rotor_in_def ys(3))
  have "ys \<noteq> []" using ys(1) by (simp add: ring_def)
  then show ?thesis
    using alloc_dva_loop_ok [OF assms(1-3) ys(1) _ assms(6), of 0 3 True dva d] assms(5) unfolding search_ok_def mg(2) ys(2) r by simp
qed

section \<open>Freeing and claiming\<close>

text \<open>An address whose block lies in a metaslab.\<close>

definition dva_at :: "'os spa \<Rightarrow> dva_t \<Rightarrow> nat \<Rightarrow> nat \<Rightarrow> bool" where
  "dva_at spa dva v m \<longleftrightarrow> v < length (vdev_child spa) \<and> m < length (vdev_ms (vdev_child spa ! v)) \<and> DVA_IS_VALID dva \<and> DVA_GET_VDEV dva = of_nat v \<and>
     in_range (ms_map (vdev_ms (vdev_child spa ! v) ! m)) (DVA_GET_OFFSET dva) (dva_size (vdev_child spa ! v) dva)"

lemma place_shift:
  assumes "pool_inv words txg G spa" "v < length (vdev_child spa)" "m < length (vdev_ms (vdev_child spa ! v))"
    "in_range (ms_map (vdev_ms (vdev_child spa ! v) ! m)) offset sz"
  shows "unat (drop_bit (unat (vdev_ms_shift (vdev_child spa ! v))) offset) = m"
proof -
  let ?sm = "ms_map (vdev_ms (vdev_child spa ! v) ! m)" and ?s = "2 ^ unat (vdev_ms_shift (vdev_child spa ! v)) :: nat"
  have pl: "unat (sm_start ?sm) = m * ?s" "unat (sm_size ?sm) = ?s" using assms(1-3) by (auto simp: pool_inv_def vd_inv_def ms_place_def)
  have "unat offset \<in> span offset sz" using assms(4) by (simp add: in_range_def span_def unat_gt_0)
  then have "unat offset \<in> span (sm_start ?sm) (sm_size ?sm)" using assms(4) by (auto simp: in_range_def)
  then have "m * ?s \<le> unat offset" "unat offset < m * ?s + ?s" by (simp_all add: span_def pl)
  then have "unat offset div ?s = m" by (intro div_nat_eqI) (simp_all add: algebra_simps)
  then show ?thesis by (simp add: unat_drop_bit_div)
qed

lemma dva_at_metaslab:
  assumes "pool_inv words txg G spa" "dva_at spa dva v m"
  shows "dva_metaslab spa dva = Some (v, m)"
proof -
  note a = assms(2) [unfolded dva_at_def]
  have l: "length (vdev_child spa) < 2 ^ 32" "unat (vdev_ms_count (vdev_child spa ! v)) = length (vdev_ms (vdev_child spa ! v))"
    using assms(1) a by (auto simp: pool_inv_def)
  then have "unat (DVA_GET_VDEV dva) = v" using a by (simp add: unsigned_of_nat take_bit_nat_eq_self)
  then have "vdev_lookup_top spa (DVA_GET_VDEV dva) = Some v" using a by (simp add: vdev_lookup_top_def)
  moreover have s: "unat (drop_bit (unat (vdev_ms_shift (vdev_child spa ! v))) (DVA_GET_OFFSET dva)) = m"
    using place_shift [OF assms(1)] a by blast
  ultimately show ?thesis using l(2) a by (simp add: dva_metaslab_def Let_def word_le_nat_alt)
qed

lemma pool_metaslab:
  assumes "pool_inv words txg G spa" "v < length (vdev_child spa)" "m < length (vdev_ms (vdev_child spa ! v))"
    "alloc_of (vdev_ms (vdev_child spa ! v) ! m) txg j \<noteq> {}"
  shows "ms_ok words txg (spa_meta_objset spa) (G v m) (vdev_ms (vdev_child spa ! v) ! m)"
proof -
  have "\<not> ms_new (vdev_ms (vdev_child spa ! v) ! m)"
  proof
    assume "ms_new (vdev_ms (vdev_child spa ! v) ! m)"
    then have "alloc_of (vdev_ms (vdev_child spa ! v) ! m) txg j = space_of (space_map_create 0 0 0 :: ff_map)"
      by (simp add: ms_new_def alloc_of_def TXG_SIZE_def)
    then show False using assms(4) by (simp add: space_map_create_def space_of_def avl_create_def offs_def)
  qed
  then show ?thesis using assms(1-3) by (auto simp: pool_inv_def vd_inv_def)
qed

lemma inv_bounds:
  assumes "ms_inv words txg os S0 S msp" "ms_inv words txg os' S0' S' msp'" "ms_freemap msp' = ms_freemap msp \<or> ms_allocmap msp' = ms_allocmap msp"
  shows "bounds (ms_map msp') = bounds (ms_map msp)"
  using maps_nth [OF ms_invD(1) [OF assms(1)], of 0] maps_nth [OF ms_invD(1) [OF assms(2)], of 0] assms(3) by auto

text \<open>Freeing at once a block that the group allocated.\<close>

lemma free_now_ok:
  assumes "pool_inv words txg G spa" "dva_at spa dva v m" "i \<in> {1, 2, 3}" "later txg i \<le> spa_freeze_txg spa"
  defines "msp \<equiv> vdev_ms (vdev_child spa ! v) ! m" and "B \<equiv> span (DVA_GET_OFFSET dva) (dva_size (vdev_child spa ! v) dva)"
  assumes "B \<subseteq> alloc_of msp txg i" "\<forall>j < 4. B \<inter> free_of msp txg j = {}"
  shows "\<exists>spa'. metaslab_free_dva spa dva (later txg i) True = Some spa' \<and> pool_inv words txg G spa' \<and> pool_fixed spa' = pool_fixed spa \<and>
    spa_normal_class spa' = spa_normal_class spa \<and> pool_view txg spa' = on_pool v m (on_alloc i (\<lambda>A. A - B)) (pool_view txg spa)"
proof -
  let ?os = "spa_meta_objset spa" and ?vd = "vdev_child spa ! v" and ?offset = "DVA_GET_OFFSET dva" and ?k = "txg_slot (later txg i)"
  let ?sz = "dva_size ?vd dva"
  have d: "v < length (vdev_child spa)" "m < length (vdev_ms ?vd)" "DVA_IS_VALID dva" "in_range (ms_map msp) ?offset ?sz"
    using assms(2) by (auto simp: dva_at_def msp_def)
  have i: "i < 4" "0 < i" using assms(3) by auto
  have ne: "B \<noteq> {}" using d(4) by (auto simp: B_def in_range_def span_def unat_gt_0)
  have ok0: "ms_ok words txg ?os (G v m) msp" using pool_metaslab [OF assms(1) d(1,2), of i] assms(7) ne by (auto simp: msp_def)
  then obtain S where S: "ms_inv words txg ?os (G v m) S msp" by (auto simp: ms_ok_def)
  have "B \<inter> (free_of msp txg 1 \<union> free_of msp txg 2 \<union> free_of msp txg 3) = {}" using assms(8) by (auto simp: less_4)
  from ms_free_now_ok [OF S i d(4) assms(7) [unfolded B_def] this [unfolded B_def]] obtain am sm where
    a: "space_map_remove (ms_allocmap msp ! ?k) ?offset ?sz = Some am" "space_of am = alloc_of msp txg i - B"
    "space_map_free (ms_map msp) ?offset ?sz = Some sm"
    "ms_inv words txg ?os (G v m) S (msp\<lparr>ms_map := sm, ms_allocmap := (ms_allocmap msp)[?k := am]\<rparr>)" unfolding B_def by blast
  define g where "g = (\<lambda>msp :: metaslab. msp\<lparr>ms_allocmap := (ms_allocmap msp)[?k := am], ms_map := sm\<rparr>)"
  have ga: "g msp = msp\<lparr>ms_map := sm, ms_allocmap := (ms_allocmap msp)[?k := am]\<rparr>" by (simp add: g_def)
  have kb: "bounds sm = bounds (ms_map msp)" using inv_bounds [OF S a(4)] by simp
  have vi: "vd_inv words txg ?os (G v) ?vd" using assms(1) d(1) by (simp add: pool_inv_def)
  have ok: "ms_ok words txg ?os (G v m) (g msp)" using ms_ok_cong [OF ok0 a(4)] kb by (simp add: ga)
  have inv: "vd_inv words txg ?os (G v) (ms_upd m g ?vd)"
    using ok kb by (intro ms_upd_inv [OF vi d(2)]) (simp_all add: ms_key_def bounds_def g_def msp_def)
  have len: "length (ms_allocmap msp) = TXG_SIZE" using ms_invD(1) [OF S] by (simp add: ms_maps_ok_def)
  have vw: "view_of txg (g msp) = on_alloc i (\<lambda>A. A - B) (view_of txg msp)"
    unfolding ga by (rule view_alloc [OF len i(1)]) (simp_all add: a(2) kb)
  have bz: "False \<or> busy i (view_of txg msp)" using assms(7) ne i(1) by (auto simp: busy_view)
  note t = touch_ok [OF assms(1) d(1,2) assms(3) bz [unfolded msp_def] only_slot_on(1) inv vw [unfolded msp_def] refl refl refl]
  have "put v ?vd spa = spa" by (simp add: put_def)
  moreover have "metaslab_free_dva spa dva (later txg i) True = Some (touch False v m (later txg i) g spa)"
    using dva_at_metaslab [OF assms(1,2)] d(2,3) assms(4) a(1,3)
    by (simp add: metaslab_free_dva_def Let_def touch_def put_def g_def msp_def not_less [symmetric])
  ultimately show ?thesis using t by simp
qed

text \<open>Freeing a block that is allocated and not freed yet.\<close>

lemma free_ok:
  assumes "pool_inv words txg G spa" "dva_at spa dva v m" "i \<in> {1, 2, 3}" "later txg i \<le> spa_freeze_txg spa"
  defines "msp \<equiv> vdev_ms (vdev_child spa ! v) ! m" and "B \<equiv> span (DVA_GET_OFFSET dva) (dva_size (vdev_child spa ! v) dva)"
  assumes "\<not> ms_new msp" "logged words (spa_meta_objset spa) msp S" "B \<subseteq> live S (alloc_of msp txg) (free_of msp txg) i"
  shows "\<exists>spa'. metaslab_free_dva spa dva (later txg i) False = Some spa' \<and> pool_inv words txg G spa' \<and> pool_fixed spa' = pool_fixed spa \<and>
    spa_normal_class spa' = spa_normal_class spa \<and> pool_view txg spa' = on_pool v m (on_free i (\<lambda>F. F \<union> B)) (pool_view txg spa)"
proof -
  let ?os = "spa_meta_objset spa" and ?vd = "vdev_child spa ! v" and ?offset = "DVA_GET_OFFSET dva" and ?k = "txg_slot (later txg i)"
  let ?sz = "dva_size ?vd dva"
  have d: "v < length (vdev_child spa)" "m < length (vdev_ms ?vd)" "DVA_IS_VALID dva" "in_range (ms_map msp) ?offset ?sz"
    using assms(2) by (auto simp: dva_at_def msp_def)
  have i: "i < 4" "0 < i" using assms(3) by auto
  have vi: "vd_inv words txg ?os (G v) ?vd" using assms(1) d(1) by (simp add: pool_inv_def)
  have ok0: "ms_ok words txg ?os (G v m) msp" using vi d(2) assms(7) by (auto simp: vd_inv_def msp_def)
  then obtain S' where S': "ms_inv words txg ?os (G v m) S' msp" by (auto simp: ms_ok_def)
  then have S: "ms_inv words txg ?os (G v m) S msp" using logged_inv [OF S'] assms(8) by simp
  from ms_free_ok [OF S i d(4) assms(9) [unfolded B_def]] obtain fm where
    a: "space_map_add (ms_freemap msp ! ?k) ?offset ?sz = Some fm" "space_of fm = free_of msp txg i \<union> B"
    "ms_inv words txg ?os (G v m) S (msp\<lparr>ms_freemap := (ms_freemap msp)[?k := fm]\<rparr>)" unfolding B_def by blast
  define g where "g = (\<lambda>msp :: metaslab. msp\<lparr>ms_freemap := (ms_freemap msp)[?k := fm]\<rparr>)"
  have ok: "ms_ok words txg ?os (G v m) (g msp)" using ms_ok_cong [OF ok0 a(3)] by (simp add: g_def)
  have inv: "vd_inv words txg ?os (G v) (ms_upd m g ?vd)"
    using ok by (intro ms_upd_inv [OF vi d(2)]) (simp_all add: ms_key_def g_def msp_def)
  have len: "length (ms_freemap msp) = TXG_SIZE" using ms_invD(1) [OF S] by (simp add: ms_maps_ok_def)
  have vw: "view_of txg (g msp) = on_free i (\<lambda>F. F \<union> B) (view_of txg msp)"
    unfolding g_def by (rule view_free [OF len i(1)]) (simp add: a(2))
  define c where "c \<longleftrightarrow> sm_space (ms_freemap msp ! ?k) = 0"
  have "c \<longleftrightarrow> free_of msp txg i = {}" unfolding c_def
    using space_0 [OF maps_nth(3) [OF ms_invD(1) [OF S]], of "later txg i"] by (simp only: slot_space)
  then have bz: "c \<or> busy i (view_of txg msp)" using i(1) by (simp add: busy_view)
  note t = touch_ok [OF assms(1) d(1,2) assms(3) bz [unfolded msp_def] only_slot_on(2) inv vw [unfolded msp_def] refl refl refl]
  have "put v ?vd spa = spa" by (simp add: put_def)
  moreover have "metaslab_free_dva spa dva (later txg i) False = Some (touch c v m (later txg i) g spa)"
    using dva_at_metaslab [OF assms(1,2)] d(2,3) assms(4) a(1)
    by (simp add: metaslab_free_dva_def Let_def touch_def put_def g_def c_def msp_def not_less [symmetric])
  ultimately show ?thesis using t by simp
qed

text \<open>Claiming a block that the metaslab holds to be free.\<close>

lemma claim_ok:
  assumes "dmu_ok (mos_dmu mos) words" "pool_inv words txg G spa" "dva_at spa dva v m" "i \<in> {1, 2, 3}"
  defines "msp \<equiv> vdev_ms (vdev_child spa ! v) ! m" and "B \<equiv> span (DVA_GET_OFFSET dva) (dva_size (vdev_child spa ! v) dva)"
  assumes "ms_group msp" "SPA_MINBLOCKSIZE \<le> ms_weight msp" "unused words txg (spa_meta_objset spa) (G v m) msp B"
  shows "\<exists>spa'. metaslab_claim_dva mos spa dva (later txg i) = Some (None, spa') \<and> pool_inv words txg G spa' \<and> pool_fixed spa' = pool_fixed spa \<and>
    spa_normal_class spa' = spa_normal_class spa \<and> pool_view txg spa' = on_pool v m (on_alloc i (\<lambda>A. A \<union> B)) (pool_view txg spa)"
proof -
  let ?os = "spa_meta_objset spa" and ?vd = "vdev_child spa ! v" and ?offset = "DVA_GET_OFFSET dva" and ?k = "txg_slot (later txg i)"
  let ?sz = "dva_size ?vd dva"
  have d: "v < length (vdev_child spa)" "m < length (vdev_ms ?vd)" "DVA_IS_VALID dva" "in_range (ms_map msp) ?offset ?sz"
    using assms(3) by (auto simp: dva_at_def msp_def)
  have i: "i < 4" "0 < i" using assms(4) by auto
  have vi: "vd_inv words txg ?os (G v) ?vd" using assms(2) d(1) by (simp add: pool_inv_def)
  have "ms_ok words txg ?os (G v m) msp"
    using vi d(2) assms(8) by (auto simp: vd_inv_def msp_def ms_new_def SPA_MINBLOCKSIZE_def SPA_MINBLOCKSHIFT_def)
  from activate_ok [OF assms(1) vi d(2) assms(7) [unfolded msp_def] this [unfolded msp_def] assms(8) [unfolded msp_def],
      of METASLAB_WEIGHT_SECONDARY, folded msp_def] obtain vd1 sm1 where
    v: "metaslab_activate mos ?os ?vd m METASLAB_WEIGHT_SECONDARY = Some vd1" "vd_inv words txg ?os (G v) vd1" "vd_calm ?vd vd1" "sm_loaded sm1"
    "bounds sm1 = bounds (ms_map msp)" "vdev_ms vd1 = (vdev_ms ?vd)[m := msp\<lparr>ms_map := sm1, ms_weight :=
      if ms_weight msp AND METASLAB_ACTIVE_MASK = 0 then ms_weight msp OR METASLAB_WEIGHT_SECONDARY else ms_weight msp\<rparr>]" by auto
  define w where "w = (if ms_weight msp AND METASLAB_ACTIVE_MASK = 0 then ms_weight msp OR METASLAB_WEIGHT_SECONDARY else ms_weight msp)"
  have w: "SPA_MINBLOCKSIZE \<le> w" using order_trans [OF assms(8) le_word_or2] assms(8) by (simp add: w_def)
  let ?msp = "vdev_ms vd1 ! m"
  have m: "m < length (vdev_ms vd1)" "?msp = msp\<lparr>ms_map := sm1, ms_weight := w\<rparr>" using v(6) d(2) by (simp_all add: w_def)
  have ok1: "ms_ok words txg ?os (G v m) ?msp"
    using v(2) w m by (auto simp: vd_inv_def ms_new_def SPA_MINBLOCKSIZE_def SPA_MINBLOCKSHIFT_def)
  then obtain S where S: "ms_inv words txg ?os (G v m) S ?msp" by (auto simp: ms_ok_def)
  have vm: "view_of txg ?msp = view_of txg msp" using view_calm [OF calmI(1) [OF v(5)]] by (simp add: m(2))
  have un: "unused words txg ?os (G v m) ?msp B" using assms(9) by (simp only: unused_cong [OF vm])
  have tk: "B \<subseteq> ms_span ?msp - taken S (alloc_of ?msp txg) (free_of ?msp txg)"
  proof -
    have "B \<subseteq> ms_span ?msp" "B \<inter> S = {}" "B \<inter> alloc_of ?msp txg j = {} \<and> B \<inter> free_of ?msp txg j = {}" if "j < 4" for j
      using un logged_inv [OF S] that by (auto simp: unused_def)
    from this(1,2) [of 0] this(3) [of 0] this(3) [of 1] this(3) [of 2] this(3) [of 3] show ?thesis by (auto simp: taken_def)
  qed
  have rg: "in_range (ms_map ?msp) ?offset ?sz" using d(4) in_range_cong [OF view_cong(1) [OF vm]] by simp
  have ld: "sm_loaded (ms_map ?msp)" using m(2) v(4) by simp
  from ms_claim_ok [OF S ld i rg tk [unfolded B_def]] obtain sm am where
    a: "space_map_claim (ms_map ?msp) ?offset ?sz = Some sm" "space_map_add (ms_allocmap ?msp ! ?k) ?offset ?sz = Some am"
    "space_of am = alloc_of ?msp txg i \<union> B" "ms_inv words txg ?os (G v m) S (?msp\<lparr>ms_map := sm, ms_allocmap := (ms_allocmap ?msp)[?k := am]\<rparr>)"
    unfolding B_def by blast
  define g where "g = (\<lambda>msp :: metaslab. msp\<lparr>ms_map := sm, ms_allocmap := (ms_allocmap msp)[?k := am]\<rparr>)"
  define c where "c \<longleftrightarrow> sm_space (ms_allocmap ?msp ! ?k) = 0"
  have kb: "bounds sm = bounds (ms_map ?msp)" using inv_bounds [OF S a(4)] by simp
  have ok: "ms_ok words txg ?os (G v m) (g ?msp)" using ms_ok_cong [OF ok1 a(4)] kb by (simp add: g_def)
  have inv: "vd_inv words txg ?os (G v) (ms_upd m g vd1)"
    using ok kb by (intro ms_upd_inv [OF v(2) m(1)]) (simp_all add: ms_key_def bounds_def g_def)
  have len: "length (ms_allocmap ?msp) = TXG_SIZE" using ms_invD(1) [OF S] by (simp add: ms_maps_ok_def)
  have vw: "view_of txg (g ?msp) = on_alloc i (\<lambda>A. A \<union> B) (view_of txg ?msp)"
    unfolding g_def by (rule view_alloc [OF len i(1)]) (simp_all add: a(3) kb)
  have "c \<longleftrightarrow> alloc_of ?msp txg i = {}" unfolding c_def
    using space_0 [OF maps_nth(1) [OF ms_invD(1) [OF S]], of "later txg i"] by (simp only: slot_space)
  then have bz: "c \<or> busy i (view_of txg ?msp)" using i(1) by (simp add: busy_view)
  note t = touch_ok [OF assms(2) d(1) m(1) assms(4) bz only_slot_on(1) inv vw calm_fixed(1,2) [OF v(3)] views_calm [OF v(3)]]
  have "metaslab_claim_dva mos spa dva (later txg i) = Some (None, touch c v m (later txg i) g (put v vd1 spa))"
    using dva_at_metaslab [OF assms(2,3)] d v(1) a(1,2)
    by (simp add: metaslab_claim_dva_def Let_def touch_def put_def g_def c_def)
  then show ?thesis using t by simp
qed

section \<open>Properties\<close>

lemma pool_lengths:
  assumes "pool_fixed spa' = pool_fixed spa"
  shows "length (vdev_child spa') = length (vdev_child spa)" "spa_freeze_txg spa' = spa_freeze_txg spa"
  using assms by (auto simp: pool_fixed_def dest: map_eq_imp_length_eq)

lemma pool_op_asize:
  assumes "pool_fixed spa' = pool_fixed spa" "v < length (vdev_child spa)"
  shows "vdev_op_asize (vdev_child spa' ! v) = vdev_op_asize (vdev_child spa ! v)"
proof -
  have "map vd_fixed (vdev_child spa') ! v = map vd_fixed (vdev_child spa) ! v" using assms(1) by (simp add: pool_fixed_def)
  then show ?thesis using assms(2) pool_lengths(1) [OF assms(1)] by (simp add: vd_fixed_def)
qed

text \<open>The metaslab that an allocation was recorded in, afterwards.\<close>

lemma recorded:
  assumes "pool_view txg spa' = on_pool v m (on_alloc i (\<lambda>A. A \<union> B)) (pool_view txg spa)" "length (vdev_child spa') = length (vdev_child spa)"
    and "v < length (vdev_child spa)" "m < length (vdev_ms (vdev_child spa ! v))" "i < 4"
  defines "msp \<equiv> vdev_ms (vdev_child spa ! v) ! m" and "msp' \<equiv> vdev_ms (vdev_child spa' ! v) ! m"
  shows "m < length (vdev_ms (vdev_child spa' ! v))" "bounds (ms_map msp') = bounds (ms_map msp)"
    "alloc_of msp' txg i = alloc_of msp txg i \<union> B" "j < 4 \<Longrightarrow> free_of msp' txg j = free_of msp txg j"
proof -
  have "pool_view txg spa' ! v = (pool_view txg spa ! v)[m := on_alloc i (\<lambda>A. A \<union> B) (pool_view txg spa ! v ! m)]"
    using assms(1,3) by (simp add: on_pool_def pool_view_def)
  then have v: "map (view_of txg) (vdev_ms (vdev_child spa' ! v)) =
      (map (view_of txg) (vdev_ms (vdev_child spa ! v)))[m := on_alloc i (\<lambda>A. A \<union> B) (view_of txg msp)]"
    using assms(2-4) by (simp add: pool_view_nth msp_def)
  from arg_cong [OF v, of length] show l: "m < length (vdev_ms (vdev_child spa' ! v))" using assms(4) by simp
  from arg_cong [OF v, of "\<lambda>l. l ! m"] have w: "view_of txg msp' = on_alloc i (\<lambda>A. A \<union> B) (view_of txg msp)"
    using l assms(4) by (simp add: msp'_def)
  from arg_cong [OF w, of v_bounds] show "bounds (ms_map msp') = bounds (ms_map msp)" by (simp add: view_of_def on_alloc_def)
  from arg_cong [OF w, of "\<lambda>w. v_alloc w ! i"] show "alloc_of msp' txg i = alloc_of msp txg i \<union> B"
    using assms(5) by (simp add: view_of_def on_alloc_def)
  from arg_cong [OF w, of "\<lambda>w. v_free w ! j"] show "j < 4 \<Longrightarrow> free_of msp' txg j = free_of msp txg j"
    by (simp add: view_of_def on_alloc_def)
qed

lemma on_pool_undo:
  assumes "v < length (vdev_child spa)" "m < length (vdev_ms (vdev_child spa ! v))" "i < 4"
    and "B \<inter> alloc_of (vdev_ms (vdev_child spa ! v) ! m) txg i = {}"
  shows "on_pool v m (on_alloc i (\<lambda>A. A - B)) (on_pool v m (on_alloc i (\<lambda>A. A \<union> B)) (pool_view txg spa)) = pool_view txg spa"
proof -
  let ?w = "view_of txg (vdev_ms (vdev_child spa ! v) ! m)"
  have "alloc_of (vdev_ms (vdev_child spa ! v) ! m) txg i \<union> B - B = alloc_of (vdev_ms (vdev_child spa ! v) ! m) txg i" using assms(4) by blast
  then have "on_alloc i (\<lambda>A. A - B) (on_alloc i (\<lambda>A. A \<union> B) ?w) = ?w"
    using assms(3) by (simp add: on_alloc_def view_of_def) (metis (no_types, lifting) list_update_id nth_map_upt add_0 diff_zero)
  moreover have "pool_view txg spa ! v ! m = ?w" "length (pool_view txg spa) = length (vdev_child spa)"
    "length (pool_view txg spa ! v) = length (vdev_ms (vdev_child spa ! v))" using assms(1,2) by (simp_all add: pool_view_def)
  ultimately show ?thesis using assms(1,2) by (simp add: on_pool_def) (metis list_update_id)
qed


lemma taken_fields:
  assumes "pool_inv words txg G spa" "v < length (vdev_child spa)" "asize_ok (vdev_child spa ! v) sz"
    and "ms_geom sm" "in_range sm offset sz"
  shows "DVA_GET_VDEV (dva_of (of_nat v) offset sz a) = of_nat v" "DVA_GET_OFFSET (dva_of (of_nat v) offset sz a) = offset"
    "DVA_GET_ASIZE (dva_of (of_nat v) offset sz a) = sz" "DVA_GET_GANG (dva_of (of_nat v) offset sz a) = 0"
proof -
  have "length (vdev_child spa) < 2 ^ 32" using assms(1) by (simp add: pool_inv_def)
  then have "unat (of_nat v :: u64) < 2 ^ 32" using assms(2) by (simp add: unsigned_of_nat take_bit_nat_eq_self)
  moreover have "(512 :: nat) dvd unit_of sm"
    using assms(4) le_imp_power_dvd [of 9 "unat (sm_shift sm)" "2 :: nat"] by (simp add: ms_geom_def SPA_MINBLOCKSHIFT_def unit_of_def)
  then have "512 dvd unat offset" "512 dvd unat sz" using assms(5) by (auto simp: in_range_def intro: dvd_trans)
  moreover have "unat sz < 2 ^ 33" using assms(3) by (simp add: asize_ok_def)
  ultimately show "DVA_GET_VDEV (dva_of (of_nat v) offset sz a) = of_nat v" "DVA_GET_OFFSET (dva_of (of_nat v) offset sz a) = offset"
    "DVA_GET_ASIZE (dva_of (of_nat v) offset sz a) = sz" "DVA_GET_GANG (dva_of (of_nat v) offset sz a) = 0"
    by (simp_all add: dva_of_fields)
qed

text \<open>A block that was just allocated can be freed at once, and the pool is as it was.\<close>

lemma taken_free_now:
  assumes "pool_inv words txg G spa" "pool_inv words txg G spa'" "pool_fixed spa' = pool_fixed spa" "i \<in> {1, 2, 3}" "later txg i \<le> spa_freeze_txg spa"
    and "v < length (vdev_child spa)" "m < length (vdev_ms (vdev_child spa ! v))" "asize_ok (vdev_child spa ! v) sz"
    and "ms_geom (ms_map (vdev_ms (vdev_child spa ! v) ! m))" "in_range (ms_map (vdev_ms (vdev_child spa ! v) ! m)) offset sz"
    and "unused words txg (spa_meta_objset spa) (G v m) (vdev_ms (vdev_child spa ! v) ! m) (span offset sz)"
    and "pool_view txg spa' = on_pool v m (on_alloc i (\<lambda>A. A \<union> span offset sz)) (pool_view txg spa)"
  shows "\<exists>spa''. metaslab_free_dva spa' (dva_of (of_nat v) offset sz a) (later txg i) True = Some spa'' \<and> pool_inv words txg G spa'' \<and>
    pool_view txg spa'' = pool_view txg spa"
proof -
  let ?dva = "dva_of (of_nat v) offset sz a" and ?msp = "vdev_ms (vdev_child spa ! v) ! m" and ?msp' = "vdev_ms (vdev_child spa' ! v) ! m"
  have i: "i < 4" using assms(4) by auto
  note l = pool_lengths [OF assms(3)] and f = taken_fields [OF assms(1,6,8-10), of a]
  note r = recorded [OF assms(12) l(1) assms(6,7) i]
  have z: "dva_size (vdev_child spa' ! v) ?dva = sz" using f by (simp add: dva_size_def)
  have u: "span offset sz \<inter> alloc_of ?msp txg j = {}" "span offset sz \<inter> free_of ?msp txg j = {}" if "j < 4" for j
    using assms(11) that by (auto simp: unused_def)
  have "dva_at spa' ?dva v m"
    using assms(6,8,10) l(1) r(1) f z in_range_cong [OF r(2)] by (simp add: dva_at_def DVA_IS_VALID_def asize_ok_def)
  moreover have "span offset sz \<subseteq> alloc_of ?msp' txg i" "\<forall>j < 4. span offset sz \<inter> free_of ?msp' txg j = {}"
    using r(3,4) u(2) by auto
  ultimately obtain spa'' where s: "metaslab_free_dva spa' ?dva (later txg i) True = Some spa''" "pool_inv words txg G spa''"
    "pool_view txg spa'' = on_pool v m (on_alloc i (\<lambda>A. A - span offset sz)) (pool_view txg spa')"
    using free_now_ok [OF assms(2) _ assms(4), of ?dva v m] assms(5) l(2) f(2) z by auto
  then show ?thesis using on_pool_undo [OF assms(6,7) i u(1) [OF i]] by (simp add: assms(12))
qed

text \<open>
  C7. The pool's allocator hands out free space only, and what it hands out can be given back.  From
  every pool in the invariant, for one of the active groups and with the class's groups in a ring,
  the search round the ring for a block of any size ends.  It either fails with \<open>ENOSPC\<close>, leaves all
  allocations and frees as they were and clears the address, or it sets the address to a block of
  the size the vdev needs that lies in one metaslab and overlaps nothing that is allocated as of the
  last synced group, that is written, or that an active group has allocated or freed; exactly this
  block is added to the group's allocations, and the invariant holds again (so the metaslab is on the
  group's dirty lists).  Freeing the address at once brings back the pool's allocations.  The
  address at hand is not in use, the hint names a vdev of the ring, the group is not past
  the freeze, and the size of the block on each vdev is nonzero, below 4 GiB and in whole sectors.
\<close>

theorem metaslab_alloc_dva_takes:
  assumes "dmu_ok (mos_dmu mos) words" "pool_inv words txg G spa" "i \<in> {1, 2, 3}" "later txg i \<le> spa_freeze_txg spa"
    and "ring spa xs" "rotor_in xs spa" "pool_sizes spa psize" "starts_in xs hintdva dva d" "d < length dva" "\<not> DVA_IS_VALID (dva ! d)"
  shows "\<exists>e spa' dva'. metaslab_alloc_dva mos spa psize dva d hintdva (later txg i) = Some (e, spa', dva') \<and> pool_inv words txg G spa' \<and>
    (if e = None then \<exists>v m offset. v < length (vdev_child spa) \<and> m < length (vdev_ms (vdev_child spa ! v)) \<and>
       dva' = dva[d := dva' ! d] \<and> DVA_GET_VDEV (dva' ! d) = of_nat v \<and> DVA_GET_OFFSET (dva' ! d) = offset \<and> DVA_GET_GANG (dva' ! d) = 0 \<and>
       DVA_GET_ASIZE (dva' ! d) = vdev_op_asize (vdev_child spa ! v) psize \<and>
       unused words txg (spa_meta_objset spa) (G v m) (vdev_ms (vdev_child spa ! v) ! m) (span offset (DVA_GET_ASIZE (dva' ! d))) \<and>
       pool_view txg spa' = on_pool v m (on_alloc i (\<lambda>A. A \<union> span offset (DVA_GET_ASIZE (dva' ! d)))) (pool_view txg spa) \<and>
       (\<exists>spa''. metaslab_free_dva spa' (dva' ! d) (later txg i) True = Some spa'' \<and> pool_inv words txg G spa'' \<and>
          pool_view txg spa'' = pool_view txg spa)
     else e = Some ENOSPC \<and> pool_view txg spa' = pool_view txg spa \<and> dva' = dva[d := dva_zero])"
proof -
  from alloc_dva_ok [OF assms(1,3,2,5-8,10)] obtain e spa' dva' where
    s: "metaslab_alloc_dva mos spa psize dva d hintdva (later txg i) = Some (e, spa', dva')" "pool_inv words txg G spa'"
    "pool_fixed spa' = pool_fixed spa" "search_result words txg G i spa psize dva d (e, spa', dva')" unfolding search_ok_def by blast
  show ?thesis
  proof (cases e)
    case None
    then obtain v offset where t: "v < length (vdev_child spa)" "taken_block words txg G i spa v offset (vdev_op_asize (vdev_child spa ! v) psize) spa'"
      "dva' = dva[d := dva_of (of_nat v) offset (vdev_op_asize (vdev_child spa ! v) psize) (dva ! d)]"
      using s(4) by (auto simp: search_result_def)
    let ?sz = "vdev_op_asize (vdev_child spa ! v) psize"
    obtain m where m: "m < length (vdev_ms (vdev_child spa ! v))" "ms_geom (ms_map (vdev_ms (vdev_child spa ! v) ! m))"
      "in_range (ms_map (vdev_ms (vdev_child spa ! v) ! m)) offset ?sz"
      "unused words txg (spa_meta_objset spa) (G v m) (vdev_ms (vdev_child spa ! v) ! m) (span offset ?sz)"
      "pool_view txg spa' = on_pool v m (on_alloc i (\<lambda>A. A \<union> span offset ?sz)) (pool_view txg spa)"
      using t(2) by (auto simp: taken_block_def)
    have z: "asize_ok (vdev_child spa ! v) ?sz" using assms(7) t(1) by (simp add: pool_sizes_def)
    note f = taken_fields [OF assms(2) t(1) z m(2,3), of "dva ! d"]
    note b = taken_free_now [OF assms(2) s(2,3) assms(3,4) t(1) m(1) z m(2-5), of "dva ! d"]
    have n: "dva' ! d = dva_of (of_nat v) offset ?sz (dva ! d)" using t(3) assms(9) by simp
    show ?thesis
      using None s(1,2) t(1) m(1,4,5) f b n t(3)
      by (intro exI [of _ e] exI [of _ spa'] exI [of _ dva'] conjI, simp, simp) (simp only: if_P, intro exI [of _ v] exI [of _ m] exI [of _ offset] conjI, simp_all)
  next
    case (Some x)
    then show ?thesis using s by (auto simp: search_result_def)
  qed
qed

text \<open>A pool of one vdev with one empty metaslab of 1 MiB, for the examples.\<close>

definition example_ms :: metaslab where
  "example_ms =
     (let smo = \<lparr>smo_object = 0, smo_objsize = 0, smo_alloc = 0\<rparr>; c = space_map_create 0 0x100000 9
      in \<lparr>ms_smo = smo, ms_smo_syncing = smo, ms_allocmap = replicate TXG_SIZE c, ms_freemap = replicate TXG_SIZE c,
          ms_map = c, ms_weight = 0x100000, ms_group = True\<rparr>)"

definition example_list :: "nat txg_list" where
  "example_list = txg_list_create (\<lambda>_. \<lparr>tn_next = replicate TXG_SIZE None, tn_member = replicate TXG_SIZE False\<rparr>)"

definition example_pool :: "(u64 \<Rightarrow> nat \<Rightarrow> u64) spa" where
  "example_pool =
     (let stat = \<lparr>vs_alloc = 0, vs_space = 0x100000, vs_dspace = 0x100000\<rparr>;
          mg = \<lparr>mg_metaslab_tree = \<lparr>avl_root = AVL_NODE AVL_NULL AVL_NULL 0 0, avl_numnodes = 1\<rparr>, mg_aliquot = 0x80000, mg_bias = 0,
            mg_class = True, mg_prev = Some 0, mg_next = Some 0\<rparr>;
          vd = \<lparr>vdev_id = 0, vdev_asize = 0x100000, vdev_ashift = 9, vdev_children = 0, vdev_ms_shift = 20, vdev_ms_count = 1,
            vdev_ms_array = 2, vdev_deflate_ratio = 512, vdev_stat = stat, vdev_mg = Some mg, vdev_ms = [example_ms],
            vdev_ms_list = example_list, vdev_op_asize = (\<lambda>psize. psize)\<rparr>
      in \<lparr>vdev_child = [vd], root_stat = stat, spa_vdev_txg_list = example_list,
          spa_normal_class = \<lparr>mc_rotor = Some 0, mc_allocated = 0\<rparr>, spa_freeze_txg = -1, spa_sync_pass = 1, ub_version = 3,
          spa_meta_objset = (\<lambda>_ _. 0)\<rparr>)"

lemma ms_inv_group: "ms_inv words txg os S0 S (msp\<lparr>ms_group := x\<rparr>) = ms_inv words txg os S0 S msp"
proof -
  have "alloc_of (msp\<lparr>ms_group := x\<rparr>) = alloc_of msp" "free_of (msp\<lparr>ms_group := x\<rparr>) = free_of msp"
    by (simp_all add: fun_eq_iff alloc_of_def free_of_def)
  then show ?thesis by (simp add: ms_inv_def ms_maps_ok_def)
qed

lemma example_ms_inv:
  "ms_inv (\<lambda>os. os) txg (\<lambda>_ _. 0) {} {} example_ms" "alloc_of example_ms txg i = {}" "free_of example_ms txg i = {}"
proof -
  let ?c = "space_map_create 0 0x100000 9 :: ff_map" and ?smo = "\<lparr>smo_object = 0, smo_objsize = 0, smo_alloc = 0\<rparr>" and ?os = "\<lambda>_ _. 0 :: u64"
  have g: "ms_geom ?c"
    by (simp add: ms_geom_def sm_storable_def in_range_def span_def unit_of_def space_map_create_def SPA_MINBLOCKSHIFT_def)
  have lg: "smo_log (\<lambda>os. os) ?os ?c ?smo {}" by (rule smo_log_empty) simp_all
  note o = ms_open_maps [OF g]
  note m = ms_open_inv [OF g o(1) lg]
  let ?msp = "\<lparr>ms_smo = ?smo, ms_smo_syncing = ?smo, ms_allocmap = replicate TXG_SIZE ?c, ms_freemap = replicate TXG_SIZE ?c,
    ms_map = ?c, ms_weight = 0, ms_group = False\<rparr>"
  have "ms_inv (\<lambda>os. os) txg ?os {} {} (?msp\<lparr>ms_weight := 0x100000\<rparr>)"
    using m by (intro ms_weight_ok)
      (simp_all add: METASLAB_ACTIVE_MASK_def METASLAB_WEIGHT_PRIMARY_def METASLAB_WEIGHT_SECONDARY_def del: metaslab.update_convs)
  then have "ms_inv (\<lambda>os. os) txg ?os {} {} (?msp\<lparr>ms_weight := 0x100000, ms_group := True\<rparr>)" by (simp only: ms_inv_group)
  then show "ms_inv (\<lambda>os. os) txg (\<lambda>_ _. 0) {} {} example_ms" by (simp add: example_ms_def Let_def)
  show "alloc_of example_ms txg i = {}" "free_of example_ms txg i = {}"
    using o(3) by (simp_all add: example_ms_def Let_def alloc_of_def free_of_def TXG_SIZE_def)
qed

lemma example_pool_inv: "pool_inv (\<lambda>os. os) txg (\<lambda>_ _. {}) example_pool"
proof -
  have "list_wf example_list"
    unfolding list_wf_def example_list_def by (intro exI) (rule create_rep, simp_all)
  moreover have "ms_weight example_ms AND METASLAB_ACTIVE_MASK = 0"
    by (simp add: example_ms_def Let_def METASLAB_ACTIVE_MASK_def METASLAB_WEIGHT_PRIMARY_def METASLAB_WEIGHT_SECONDARY_def)
  then have "ms_ok (\<lambda>os. os) txg (\<lambda>_ _. 0) {} example_ms"
    using example_ms_inv(1) [of txg] by (auto simp: ms_ok_def)
  ultimately show ?thesis
    by (simp add: pool_inv_def dirty_ok_def example_pool_def Let_def vd_inv_def group_ok_def pool_view_def busy_def view_of_def
        example_ms_inv ms_place_def tree_ok_def inj_on_def)
       (auto simp: example_ms_def Let_def space_map_create_def in_order_def)
qed

theorem metaslab_alloc_dva_takes_witness:
  "\<exists>spa' dva'. metaslab_alloc_dva mem_mos example_pool 0x1000 [dva_zero, dva_zero, dva_zero] 0 None (later 7 1) = Some (None, spa', dva') \<and>
    DVA_GET_ASIZE (dva' ! 0) = 0x1000 \<and>
    (\<exists>spa''. metaslab_free_dva spa' (dva' ! 0) (later 7 1) True = Some spa'' \<and> pool_view 7 spa'' = pool_view 7 example_pool)"
proof -
  have t: "later 7 1 = (8 :: u64)" by (simp add: later_def)
  have e: "map_option fst (metaslab_alloc_dva mem_mos example_pool 0x1000 [dva_zero, dva_zero, dva_zero] 0 None 8) = Some None"
    by code_simp
  have c: "dmu_ok (mos_dmu mem_mos) (\<lambda>os. os)" "ring example_pool [0]" "rotor_in [0] example_pool" "pool_sizes example_pool 0x1000"
    "starts_in [0] None [dva_zero, dva_zero, dva_zero] 0" "\<not> DVA_IS_VALID dva_zero" "(8 :: u64) \<le> spa_freeze_txg example_pool"
    using mem_mos_ok by (simp_all add: mos_ok_def ring_def rotor_in_def pool_sizes_def asize_ok_def starts_in_def example_pool_def Let_def
      DVA_IS_VALID_def DVA_GET_ASIZE_def BF64_GET_SB_def BF64_DECODE_def P2PHASE_def dva_zero_def)
  show ?thesis
    using metaslab_alloc_dva_takes [OF c(1) example_pool_inv [of 7], of 1 "[0]" "0x1000" None "[dva_zero, dva_zero, dva_zero]" 0] c(2-7) e
    unfolding t by (auto simp: example_pool_def Let_def)
qed

end
