(* ===== verification/Spec2Isabelle.thy ===== *)
theory Spec2Isabelle
  imports Prelude Uconv Lzjb Raidz_Io Metaslab_Alloc
begin

text \<open>
  A verification of parts of the OpenSolaris kernel for the PowerPC (the sources under
  \<^verbatim>\<open>src/usr/src\<close>): the storage path of ZFS from the allocation of blocks and the free-space maps
  down to the RAID-Z device, the AVL trees these maps live in, the LZJB compressor, and the kernel's Unicode
  conversions.  The definitions are pure functions on explicit state, one per C function or loop,
  with the names of the code; the theorems are about those definitions.

  \<^bold>\<open>The parts and how they interact.\<close>

  \<^item> \<^bold>\<open>AVL trees\<close> (\<^verbatim>\<open>common/avl/avl.c\<close>, \<^verbatim>\<open>uts/common/sys/avl_impl.h\<close>), theory \<open>Avl\<close>.  The generic
    balanced tree of the kernel.  A pointer to a node is a place: the subtree and the list of its
    ancestors, so that the parent links and child indices the code stores in a node are part of the
    position.  Every operation is modelled, with the packed parent word of the 64-bit build (the
    32-bit build keeps parent, child index and balance in fields of their own).  The
    comparison function is an argument with a contract, the locale \<open>avl_order\<close>.
  \<^item> \<^bold>\<open>Space maps\<close> (\<^verbatim>\<open>uts/common/fs/zfs/space_map.c\<close>, \<^verbatim>\<open>sys/space_map.h\<close>), theories \<open>Space_Map\<close>
    (in core) and \<open>Space_Map_Sync\<close> (on disk).  A map is a record with the fields of
    \<^verbatim>\<open>space_map_t\<close> whose segments are kept in an AVL tree ordered by \<^verbatim>\<open>space_map_seg_compare\<close>, for
    which \<open>avl_order\<close> is interpreted.  A failed VERIFY is \<^const>\<open>None\<close>.  \<open>Space_Map_Ops\<close> is the
    interface to a block picker (the vector \<^verbatim>\<open>space_map_ops_t\<close>): its laws are the locale
    \<open>space_map_picker\<close>, under which loading, allocating, claiming, freeing and unloading act on the
    set of free offsets.
  \<^item> \<^bold>\<open>Metaslabs\<close> (\<^verbatim>\<open>uts/common/fs/zfs/metaslab.c\<close>, \<^verbatim>\<open>sys/metaslab_impl.h\<close>; the block address macros of
    \<^verbatim>\<open>sys/spa.h\<close>; space accounting and dirty lists of \<^verbatim>\<open>vdev.c\<close>).  \<open>Metaslab_Ff\<close> is the first-fit
    picker, for which \<open>space_map_picker\<close> is interpreted.  \<open>Metaslab\<close> has the class, the groups, the
    weights, and the sync of a metaslab; a group's tree of metaslabs is an AVL tree ordered by
    \<^verbatim>\<open>metaslab_compare\<close>.  \<open>Metaslab_Inv\<close> has the invariant of a metaslab as an \<open>inductive\<close> step relation
    over the operations of the transaction groups in any order.  \<open>Metaslab_Alloc\<close> has the choice of
    a metaslab in a group and of a group in the pool, freeing, claiming and ditto blocks.  The state
    is a pool record of vdevs; a metaslab is known by its number, and a failed assertion or a null
    pointer is \<^const>\<open>None\<close>.
  \<^item> \<^bold>\<open>Lists by transaction group\<close> (\<^verbatim>\<open>uts/common/fs/zfs/txg.c\<close>), theory \<open>Txg_List\<close>: the linked lists of
    dirty objects, with the links stored in the objects.
  \<^item> \<^bold>\<open>RAID-Z\<close> (\<^verbatim>\<open>uts/common/fs/zfs/vdev_raidz.c\<close>), theories \<open>Raidz_Field\<close> (the field GF(2^8) and
    its tables), \<open>Raidz_Parity\<close> (parity and reconstruction), \<open>Raidz\<close> (layout, size, opening) and
    \<open>Raidz_Io\<close> (the read and write paths).  Child I/O completes in steps of its own, in any order.
  \<^item> \<^bold>\<open>LZJB\<close> (\<^verbatim>\<open>uts/common/fs/zfs/lzjb.c\<close>, \<^verbatim>\<open>uts/common/os/compress.c\<close>), theory \<open>Lzjb\<close>.
  \<^item> \<^bold>\<open>Unicode\<close> (\<^verbatim>\<open>uts/common/os/uconv.c\<close>), theory \<open>Uconv\<close>, for the big-endian kernel.
  \<^item> \<open>Prelude\<close> holds the machine integers, byte swapping, error numbers and the lemmas on words
    that the components share.

  \<^bold>\<open>What the theorems show.\<close>

  \<^item> AVL: whatever operations built a tree, it is balanced, counted and in order (invariant);
    \<^verbatim>\<open>avl_add\<close> and \<^verbatim>\<open>avl_remove\<close> are the set operations, \<^verbatim>\<open>avl_find\<close> finds what is there within
    logarithmic depth, the walk visits the data in order, the destroying walk ends and hands out
    every node once.
  \<^item> Space maps: adding, removing and testing a range refine the operations on the set of offsets and
    fail exactly when those are undefined; segments stay merged and the total stays right;
    excision and union end with the set difference and the union; writing a map to its object and
    loading it gives the same set back, across buffer boundaries and for both map types.
  \<^item> Metaslabs: in every reachable state the written set, the pending allocations and frees of each
    transaction group and the free map partition the metaslab's space; an allocation never meets
    anything written, allocated or freed but not yet synced, and fails only without an aligned free
    block; a sync writes exactly the group's changes, condensed or not; freed space comes back only
    when its group is on disk.  In a pool, the search for a block ends: it fails without a change of
    the allocations, or takes a block that nothing uses and marks its metaslab and vdev dirty; freeing it
    at once undoes it.  A per-txg list refines a list per slot.
  \<^item> RAID-Z: a block that was written is read back with up to as many failed children as there are
    parity columns, whatever the order of completion; data that is returned has passed its
    checksum; two blocks allocated apart share no sector; the outcomes of the error paths.
  \<^item> LZJB: compression then decompression is the identity, output bounds, the behaviour on corrupt
    and truncated input.
  \<^item> Unicode: round trips, acceptance of exactly the well-formed UTF-8, composition of conversions,
    output bounds, surrogates.

  \<^bold>\<open>Machine integers, loops and bounds.\<close>  Offsets and sizes are 64-bit words; hypotheses that a sum
  does not wrap around are stated where the code does not test it.  Loops are structural recursion,
  recursion with a measure, or \<open>partial_function (option)\<close>, whose equations are code equations, and then it is
  proved that they return.
  No fuel is used.  The hypothesis of the on-disk theorems bounds the size of an object below
  2^64 bytes, and the offsets of a map below 2^47 units, which is what an entry can hold.  The metaslab theorems
  are for metaslabs of less than 2^58 bytes that end at or below 2^63, objects of at most 2^62 - 16
  bytes, and requests that are not a multiple of 4 GiB, since the picker's cursor is found by a 32-bit
  \<^verbatim>\<open>highbit\<close>.

  \<^bold>\<open>Arguments.\<close>  The answers of the child devices, the block's checksum, the DMU calls that read and
  write an object (with their behaviour as the hypotheses \<open>dmu_ok\<close> and \<open>mos_ok\<close>), the contents of uninitialised
  buffers and the addresses of buffers are arguments of the definitions.

  \<^bold>\<open>Not modelled.\<close>  Locking and threads: every operation runs to its end with its lock held, except
  child I/O.  Memory allocation, which does not fail here.  Debugging output.  Of the DEBUG build's
  assertions, those on the callers' side that no result depends on: that a map has no picker before it is
  loaded, that a map is not loaded when it is destroyed, that a picker is loaded once.  A
  bad address given to \<^verbatim>\<open>metaslab_free_dva\<close> is the failed assertion of the DEBUG build, \<^const>\<open>None\<close>;
  without DEBUG it is a warning.  A failed read in \<^verbatim>\<open>space_map_load\<close> is a failed VERIFY: the load never
  returns an error, so the branch of \<^verbatim>\<open>metaslab_activate\<close> for one is left out.  The
  threads that open, quiesce and sync the transaction groups.  The rest of the vdev layer (labels,
  configuration, leaf devices) and of the pool (\<^verbatim>\<open>spa.c\<close>), which is I/O and name-value lists.  The rest of the operating system (drivers, networking, file systems,
  user commands), which these parts do not call.
\<close>

end
